(* ===== verification/Prelude.thy ===== *)
theory Prelude
  imports "HOL-Library.Word" "HOL-Library.Signed_Division" "HOL-Library.While_Combinator"
begin

unbundle bit_operations_syntax

text \<open>
  Shared vocabulary of the development: the machine integer types, the faults
  that stop an execution, the state-and-fault monad every kernel routine is written in,
  and the arithmetic of pages and page-table slots on 32-bit words.
\<close>

type_synonym u8 = "8 word"
type_synonym u16 = "16 word"
type_synonym u32 = "32 word"

section \<open>Faults\<close>

text \<open>
  How an execution of the kernel can stop without returning: an endless loop of the source
  (\<^verbatim>\<open>while(1);\<close>), a page fault of the MMU, or an operation that C leaves undefined.
\<close>

datatype fault =
    Hang
  | DivideByZero
  | PageFault u32
  | Misaligned u32
  | OutOfBounds int
  | BadShift int
  | BadFormat
  | SignedOverflow

section \<open>The state-and-fault monad\<close>

type_synonym ('s, 'a) op = "'s \<Rightarrow> fault + 'a \<times> 's"

definition ret :: "'a \<Rightarrow> ('s, 'a) op" where
  "ret a = (\<lambda>s. Inr (a, s))"

definition bnd :: "('s, 'a) op \<Rightarrow> ('a \<Rightarrow> ('s, 'b) op) \<Rightarrow> ('s, 'b) op" where
  "bnd m f = (\<lambda>s. case m s of Inl e \<Rightarrow> Inl e | Inr (a, s') \<Rightarrow> f a s')"

definition raise :: "fault \<Rightarrow> ('s, 'a) op" where
  "raise e = (\<lambda>s. Inl e)"

definition gets :: "('s \<Rightarrow> 'a) \<Rightarrow> ('s, 'a) op" where
  "gets g = (\<lambda>s. Inr (g s, s))"

definition modify :: "('s \<Rightarrow> 's) \<Rightarrow> ('s, unit) op" where
  "modify g = (\<lambda>s. Inr ((), g s))"

named_theorems op_simps \<open>one-step execution of the monad's primitives\<close>

lemma ret_run [op_simps, simp]: "ret a s = Inr (a, s)"
  by (simp add: ret_def)

lemma raise_run [op_simps, simp]: "raise e s = Inl e"
  by (simp add: raise_def)

lemma gets_run [op_simps, simp]: "gets g s = Inr (g s, s)"
  by (simp add: gets_def)

lemma modify_run [op_simps, simp]: "modify g s = Inr ((), g s)"
  by (simp add: modify_def)

lemma bnd_run [op_simps]:
  "bnd m f s = (case m s of Inl e \<Rightarrow> Inl e | Inr (a, s') \<Rightarrow> f a s')"
  by (simp add: bnd_def)

lemma bnd_Inr [simp]: "m s = Inr (a, s') \<Longrightarrow> bnd m f s = f a s'"
  by (simp add: bnd_def)

lemma bnd_Inl [simp]: "m s = Inl e \<Longrightarrow> bnd m f s = Inl e"
  by (simp add: bnd_def)

lemma bnd_eq_Inr_iff:
  "bnd m f s = Inr r \<longleftrightarrow> (\<exists>a s'. m s = Inr (a, s') \<and> f a s' = Inr r)"
  by (auto simp: bnd_def split: sum.splits prod.splits)

lemma bnd_InrE:
  assumes "bnd m f s = Inr r"
  obtains a s' where "m s = Inr (a, s')" and "f a s' = Inr r"
  using assms by (auto simp: bnd_eq_Inr_iff)

lemma bnd_assoc: "bnd (bnd m f) g = bnd m (\<lambda>a. bnd (f a) g)"
  by (auto simp: bnd_def fun_eq_iff split: sum.splits prod.splits)

section \<open>Loops that may not end\<close>

text \<open>
  \<open>loop c b x\<close> is \<^verbatim>\<open>while (c) b\<close> on the local variables \<open>x\<close>: it stops with the fault of a test or
  of a body, and is \<^const>\<open>Hang\<close> exactly when the loop never ends.
\<close>

definition loop_test :: "('c \<Rightarrow> ('s, bool) op) \<Rightarrow> 'c \<times> 's \<Rightarrow> fault + ('c \<times> 's) \<times> bool" where
  "loop_test c = (\<lambda>(x, s). case c x s of Inl e \<Rightarrow> Inl e | Inr (go, s') \<Rightarrow> Inr ((x, s'), go))"

definition loop_step :: "('c \<Rightarrow> ('s, bool) op) \<Rightarrow> ('c \<Rightarrow> ('s, 'c) op) \<Rightarrow> fault + ('c \<times> 's) \<times> bool \<Rightarrow> fault + ('c \<times> 's) \<times> bool" where
  "loop_step c b r = (case r of Inl e \<Rightarrow> Inl e
     | Inr ((x, s), _) \<Rightarrow> (case b x s of Inl e \<Rightarrow> Inl e | Inr y \<Rightarrow> loop_test c y))"

definition running :: "fault + 'x \<times> bool \<Rightarrow> bool" where
  "running r = (case r of Inl _ \<Rightarrow> False | Inr (_, go) \<Rightarrow> go)"

definition loop :: "('c \<Rightarrow> ('s, bool) op) \<Rightarrow> ('c \<Rightarrow> ('s, 'c) op) \<Rightarrow> 'c \<Rightarrow> ('s, 'c) op" where
  "loop c b x = (\<lambda>s. case while_option running (loop_step c b) (loop_test c (x, s)) of
       None \<Rightarrow> Inl Hang
     | Some (Inl e) \<Rightarrow> Inl e
     | Some (Inr (y, _)) \<Rightarrow> Inr y)"

lemma loop_unfold:
  "loop c b x s = (case c x s of Inl e \<Rightarrow> Inl e
     | Inr (go, t) \<Rightarrow> if go then (case b x t of Inl e \<Rightarrow> Inl e | Inr (y, u) \<Rightarrow> loop c b y u) else Inr (x, t))"
proof (cases "c x s")
  case (Inl e)
  then show ?thesis by (simp add: loop_def loop_test_def running_def while_option_unfold)
next
  case (Inr p)
  obtain go t where p: "p = (go, t)" by (cases p)
  show ?thesis
  proof (cases go)
    case False
    then show ?thesis using Inr p by (simp add: loop_def loop_test_def running_def while_option_unfold)
  next
    case True
    have t: "loop_test c (x, s) = Inr ((x, t), True)" using Inr p True by (simp add: loop_test_def)
    have r: "running (Inr ((x, t), True))" by (simp add: running_def)
    have u: "while_option running (loop_step c b) (loop_test c (x, s))
       = while_option running (loop_step c b) (loop_step c b (Inr ((x, t), True)))"
      unfolding t using r by (subst while_option_unfold) simp
    show ?thesis
    proof (cases "b x t")
      case (Inl e)
      then have "loop_step c b (Inr ((x, t), True)) = Inl e" by (simp add: loop_step_def)
      then have "while_option running (loop_step c b) (loop_test c (x, s)) = Some (Inl e)"
        unfolding u by (subst while_option_unfold) (simp add: running_def)
      then show ?thesis using Inr p True Inl by (simp add: loop_def)
    next
      case (Inr q)
      then have "loop_step c b (Inr ((x, t), True)) = loop_test c q" by (simp add: loop_step_def)
      then show ?thesis using \<open>c x s = Inr p\<close> p True Inr unfolding loop_def u
        by (simp split: prod.split)
    qed
  qed
qed

lemma loop_bnd: "loop c b x = bnd (c x) (\<lambda>go. if go then bnd (b x) (loop c b) else ret x)"
  by (rule ext) (simp add: loop_unfold [of c b x] bnd_def split: sum.split)

lemma loop_done: "c x s = Inr (False, t) \<Longrightarrow> loop c b x s = Inr (x, t)"
  by (simp add: loop_unfold)

lemma loop_more: "c x s = Inr (True, t) \<Longrightarrow> b x t = Inr (y, u) \<Longrightarrow> loop c b x s = loop c b y u"
  by (simp add: loop_unfold)

text \<open>A loop whose test stays true from a set of states that its body keeps never ends.\<close>

lemma loop_Hang:
  assumes "I x s" "\<And>x s. I x s \<Longrightarrow> \<exists>t y u. c x s = Inr (True, t) \<and> b x t = Inr (y, u) \<and> I y u"
  shows "loop c b x s = Inl Hang"
proof -
  let ?P = "\<lambda>r. \<exists>x s t. I x s \<and> c x s = Inr (True, t) \<and> r = Inr ((x, t), True)"
  have "while_option running (loop_step c b) (loop_test c (x, s)) = None"
  proof (rule ccontr)
    assume "while_option running (loop_step c b) (loop_test c (x, s)) \<noteq> None"
    then obtain r where r: "while_option running (loop_step c b) (loop_test c (x, s)) = Some r" by auto
    have st: "?P (loop_test c (x, s))" if "I x s" for x s using assms(2) [OF that] that by (auto simp: loop_test_def)
    have "?P r"
    proof (rule while_option_rule [OF _ r, of ?P])
      show "?P (loop_test c (x, s))" by (rule st [OF assms(1)])
      fix q assume "?P q" "running q"
      then obtain x s t where q: "I x s" "c x s = Inr (True, t)" "q = Inr ((x, t), True)" by blast
      from assms(2) [OF q(1)] q(2) obtain y u where "b x t = Inr (y, u)" "I y u" by auto
      then show "?P (loop_step c b q)" using st [of y u] q(3) by (simp add: loop_step_def)
    qed
    then have "running r" by (auto simp: running_def)
    then show False using while_option_stop [OF r] by simp
  qed
  then show ?thesis by (simp add: loop_def)
qed

section \<open>Pages, frames and table slots\<close>

text \<open>
  \<open>frame_of a\<close> is the number of the 4 KB frame (or, for a virtual address, of the page) that
  holds the address \<open>a\<close>; \<open>page_of a\<close> is the source's \<^verbatim>\<open>a & ~0xFFF\<close>; a page table
  or directory is an aligned frame of 1024 slots of four bytes.
\<close>


definition page_of :: "u32 \<Rightarrow> u32" where
  "page_of a = a AND NOT 0xFFF"

definition frame_of :: "u32 \<Rightarrow> nat" where
  "frame_of a = unat a div 4096"

definition addr_of_frame :: "nat \<Rightarrow> u32" where
  "addr_of_frame n = of_nat n * 4096"

definition page_aligned :: "u32 \<Rightarrow> bool" where
  "page_aligned a \<longleftrightarrow> a AND 0xFFF = 0"

definition word_aligned :: "u32 \<Rightarrow> bool" where
  "word_aligned a \<longleftrightarrow> a AND 3 = 0"

named_theorems page_simps \<open>slots and frames of aligned pages\<close>

lemma u32_bound: "unat (a::u32) < 4294967296"
  using unsigned_less [of a, where ?'a = nat] by simp

lemma u32_eqI: "unat (a::u32) = unat b \<Longrightarrow> a = b"
  by (rule unsigned_word_eqI)

lemma unat_and_FFF: "unat (a AND 0xFFF :: u32) = unat a mod 4096"
proof -
  have "unat (a AND 0xFFF) = unat a AND mask 12"
    by (simp add: unsigned_and_eq mask_eq_exp_minus_1)
  then show ?thesis by (simp add: take_bit_eq_mod flip: take_bit_eq_mask)
qed

lemma unat_and_3: "unat (a AND 3 :: u32) = unat a mod 4"
proof -
  have "unat (a AND 3) = unat a AND mask 2"
    by (simp add: unsigned_and_eq mask_eq_exp_minus_1)
  then show ?thesis by (simp add: take_bit_eq_mod flip: take_bit_eq_mask)
qed

lemma unat_and_3FF: "unat (a AND 0x3FF :: u32) = unat a mod 1024"
proof -
  have "unat (a AND 0x3FF) = unat a AND mask 10"
    by (simp add: unsigned_and_eq mask_eq_exp_minus_1)
  then show ?thesis by (simp add: take_bit_eq_mod flip: take_bit_eq_mask)
qed

lemma page_aligned_iff: "page_aligned a \<longleftrightarrow> 4096 dvd unat a"
  by (simp add: page_aligned_def dvd_eq_mod_eq_0 unat_and_FFF flip: unat_eq_zero)

lemma word_aligned_iff: "word_aligned a \<longleftrightarrow> 4 dvd unat a"
  by (simp add: word_aligned_def dvd_eq_mod_eq_0 unat_and_3 flip: unat_eq_zero)

lemma page_of_diff: "page_of a = a - (a AND 0xFFF)"
proof -
  have "a - (a AND 0xFFF) = a AND NOT (a AND 0xFFF)"
    by (rule disjunctive_diff_eq_and_not) (rule bit_word_eqI, simp add: bit_simps)
  also have "\<dots> = page_of a" unfolding page_of_def
    by (rule bit_word_eqI) (auto simp: bit_simps)
  finally show ?thesis by simp
qed

lemma unat_page_of: "unat (page_of a) = unat a - unat a mod 4096"
proof -
  have "(a AND 0xFFF) \<le> a"
    by (simp add: word_le_nat_alt unat_and_FFF)
  then show ?thesis
    by (simp add: page_of_diff unat_sub unat_and_FFF)
qed

lemma unat_page_of_frame: "unat (page_of a) = frame_of a * 4096"
  by (simp add: unat_page_of frame_of_def minus_mod_eq_div_mult)

lemma page_of_aligned: "page_aligned (page_of a)"
  by (simp add: page_aligned_iff unat_page_of_frame)

lemma frame_of_page_of: "frame_of (page_of a) = frame_of a"
  by (simp add: frame_of_def unat_page_of_frame [unfolded frame_of_def])

lemma frame_of_lt: "frame_of a < 1048576"
  using u32_bound [of a] by (simp add: frame_of_def)

lemma unat_addr_of_frame: "n < 1048576 \<Longrightarrow> unat (addr_of_frame n) = n * 4096"
  by (simp add: addr_of_frame_def unat_word_ariths unat_of_nat)

lemma frame_of_addr_of_frame: "n < 1048576 \<Longrightarrow> frame_of (addr_of_frame n) = n"
  by (simp add: frame_of_def unat_addr_of_frame)

lemma page_aligned_addr_of_frame: "page_aligned (addr_of_frame n)"
proof -
  have "(4294967296::nat) = 4096 * 1048576" by simp
  then show ?thesis
    by (simp add: page_aligned_iff addr_of_frame_def unat_word_ariths unat_of_nat dvd_mod)
qed

lemma page_of_eq_addr_of_frame: "page_of a = addr_of_frame (frame_of a)"
  by (rule u32_eqI) (simp add: unat_addr_of_frame frame_of_lt unat_page_of_frame)

lemma aligned_or_flags:
  assumes "page_aligned p" "f < 4096"
  shows "p OR f = p + f" "unat (p OR f) = unat p + unat f"
proof -
  have "unat (f AND 0xFFF) = unat f"
    using assms(2) by (simp add: unat_and_FFF word_less_nat_alt)
  then have "f AND 0xFFF = f" by (rule unsigned_word_eqI)
  then have "p AND f = (p AND 0xFFF) AND f" by (metis and.commute and.assoc)
  then have "p AND f = 0" using assms by (simp add: page_aligned_def)
  then show 1: "p OR f = p + f" by (simp add: disjunctive_add_eq_or)
  from assms obtain k where "unat p = 4096 * k" by (auto simp: page_aligned_iff)
  with assms(2) u32_bound [of p] show "unat (p OR f) = unat p + unat f"
    by (simp add: 1 unat_word_ariths word_less_nat_alt)
qed

lemma page_of_or_flags: "page_aligned p \<Longrightarrow> f < 4096 \<Longrightarrow> page_of (p OR f) = p"
proof -
  assume a: "page_aligned p" "f < 4096"
  then obtain k where k: "unat p = 4096 * k" by (auto simp: page_aligned_iff)
  have "unat (page_of (p OR f)) = unat p"
    using a k by (simp only: unat_page_of aligned_or_flags(2)) (simp add: word_less_nat_alt)
  then show ?thesis by (rule u32_eqI)
qed

lemma unat_slot:
  assumes "page_aligned p" "i < 1024"
  shows "unat (p + 4 * i) = unat p + 4 * unat i"
proof -
  from assms obtain k where k: "unat p = 4096 * k" by (auto simp: page_aligned_iff)
  from assms(2) have i: "unat i < 1024" by (simp add: word_less_nat_alt)
  then have "unat (4 * i) = 4 * unat i" by (simp add: unat_word_ariths)
  with k i u32_bound [of p] show ?thesis by (simp add: unat_word_ariths)
qed

lemma frame_of_slot: "page_aligned p \<Longrightarrow> i < 1024 \<Longrightarrow> frame_of (p + 4 * i) = frame_of p"
  by (auto simp: frame_of_def unat_slot page_aligned_iff word_less_nat_alt)

lemma word_aligned_slot: "page_aligned p \<Longrightarrow> i < 1024 \<Longrightarrow> word_aligned (p + 4 * i)"
  by (auto simp: word_aligned_iff unat_slot page_aligned_iff intro: dvd_add)

lemma slot_inj: "page_aligned p \<Longrightarrow> i < 1024 \<Longrightarrow> j < 1024 \<Longrightarrow> p + 4 * i = p + 4 * j \<longleftrightarrow> i = j"
  by (metis add_left_cancel mult_left_cancel unat_slot unsigned_word_eqI zero_neq_numeral)
end
