(* ===== verification/Vga.thy ===== *)
theory Vga
  imports Prelude Complex_Main
begin

unbundle bit_operations_syntax

text \<open>
  The text console of \<^verbatim>\<open>lib/vga.c\<close>: the 80x25 text buffer behind
  \<^verbatim>\<open>video_memory\<close>, the cursor and the current colour, \<^verbatim>\<open>print_char\<close> with its scrolling,
  the number formatting routines and \<^verbatim>\<open>kprintf\<close>.  Characters are bytes.
\<close>

record vga =
  video_memory :: "int \<Rightarrow> u8"
  cursor_row :: int
  cursor_col :: int
  color :: u8

definition make_color :: "u8 \<Rightarrow> u8 \<Rightarrow> u8" where
  "make_color fg bg = fg OR push_bit 4 bg"

definition set_color :: "u8 \<Rightarrow> vga \<Rightarrow> vga" where
  "set_color c v = v\<lparr>color := c\<rparr>"

definition COLOR_RED :: u8 where "COLOR_RED = 0x04"
definition COLOR_GREEN :: u8 where "COLOR_GREEN = 0x02"
definition COLOR_CYAN :: u8 where "COLOR_CYAN = 0x03"
definition COLOR_WHITE :: u8 where "COLOR_WHITE = 0x0F"

section \<open>Characters and scrolling\<close>

definition copy_row :: "int \<Rightarrow> (int \<Rightarrow> u8) \<Rightarrow> (int \<Rightarrow> u8)" where
  "copy_row row m =
     fold (\<lambda>byte m. m(row * 160 + int byte := m ((row + 1) * 160 + int byte))) [0..<160] m"

definition scroll_rows :: "(int \<Rightarrow> u8) \<Rightarrow> (int \<Rightarrow> u8)" where
  "scroll_rows m = fold (\<lambda>row m. copy_row (int row) m) [0..<24] m"

definition blank_last_row :: "u8 \<Rightarrow> (int \<Rightarrow> u8) \<Rightarrow> (int \<Rightarrow> u8)" where
  "blank_last_row col m =
     fold (\<lambda>j m. let position = (24 * 80 + int j) * 2 in m(position := 32, position + 1 := col))
       [0..<80] m"

definition scroll :: "vga \<Rightarrow> vga" where
  "scroll v =
     (if cursor_row v \<ge> 25
      then v\<lparr>video_memory := blank_last_row (color v) (scroll_rows (video_memory v)),
             cursor_row := 24, cursor_col := 0\<rparr>
      else v)"

definition put_char :: "u8 \<Rightarrow> vga \<Rightarrow> vga" where
  "put_char c v =
     (if c = 10 then v\<lparr>cursor_row := cursor_row v + 1, cursor_col := 0\<rparr>
      else
        let position = (cursor_row v * 80 + cursor_col v) * 2;
            m = (video_memory v)(position := c, position + 1 := color v);
            col = cursor_col v + 1
        in if col \<ge> 80
           then v\<lparr>video_memory := m, cursor_col := 0, cursor_row := cursor_row v + 1\<rparr>
           else v\<lparr>video_memory := m, cursor_col := col\<rparr>)"

definition print_char :: "u8 \<Rightarrow> vga \<Rightarrow> vga" where
  "print_char c v = put_char c (scroll v)"

definition print :: "u8 list \<Rightarrow> vga \<Rightarrow> vga" where
  "print message v = fold print_char message v"

definition clear_cells :: "(int \<Rightarrow> u8) \<Rightarrow> (int \<Rightarrow> u8)" where
  "clear_cells m =
     fold (\<lambda>row m. fold (\<lambda>col m.
        let position = (int row * 80 + int col) * 2 in m(position := 32, position + 1 := 0x07))
       [0..<80] m) [0..<25] m"

definition clearScreen :: "vga \<Rightarrow> vga" where
  "clearScreen v =
     v\<lparr>video_memory := clear_cells (video_memory v), cursor_row := 0, cursor_col := 0\<rparr>"

text \<open>\<^verbatim>\<open>backspace\<close> asks the keyboard driver for its buffer position, an argument here.\<close>

definition backspace :: "int \<Rightarrow> vga \<Rightarrow> vga" where
  "backspace buffer_position v =
     (let position = (cursor_row v * 80 + cursor_col v) * 2 in
      if buffer_position > 0 \<and> cursor_col v < 1
      then v\<lparr>cursor_row := cursor_row v - 1, cursor_col := 80\<rparr>
      else if buffer_position > 0 \<or> buffer_position = 0 \<and> cursor_col v \<noteq> 11
      then v\<lparr>video_memory := (video_memory v)(position := 32, position - 2 := 32),
             cursor_col := cursor_col v - 1\<rparr>
      else v)"

definition cursor_blinker :: "vga \<Rightarrow> vga" where
  "cursor_blinker v =
     (let position = (cursor_row v * 80 + cursor_col v) * 2 in
      if video_memory v position = 32
      then v\<lparr>video_memory := (video_memory v)(position := 0xDB, position + 1 := 0x07)\<rparr>
      else v\<lparr>video_memory := (video_memory v)(position := 32)\<rparr>)"

section \<open>Number formatting\<close>

definition bytes :: "string \<Rightarrow> u8 list" where
  "bytes = map of_char"

text \<open>The loop of \<^verbatim>\<open>int_to_string\<close> that appends the digits, least significant first.\<close>

fun put_digits :: "int \<Rightarrow> u8 list \<Rightarrow> u8 list" where
  "put_digits value buf =
     (if value > 0 then put_digits (value div 10) (buf @ [word_of_int (value mod 10) + 48])
      else buf)"

declare put_digits.simps [simp del]

text \<open>The loop that reverses the digit portion in place between two indices.\<close>

function swap_ends :: "nat \<Rightarrow> nat \<Rightarrow> 'a list \<Rightarrow> 'a list" where
  "swap_ends start_pos end_pos buf =
     (if start_pos < end_pos
      then swap_ends (start_pos + 1) (end_pos - 1)
             (buf[start_pos := buf ! end_pos, end_pos := buf ! start_pos])
      else buf)"
  by pat_completeness auto
termination
  by (relation "measure (\<lambda>(s, e, buf). e - s)") auto

declare swap_ends.simps [simp del]

definition int_to_string :: "u32 \<Rightarrow> u8 list" where
  "int_to_string w =
     (let value = sint w in
      if value = -2147483648 then bytes ''-2147483648''
      else
        let buf = (if value < 0 then bytes ''-'' else []);
            value = (if value < 0 then - value else value)
        in if value = 0 then buf @ bytes ''0''
           else let digits = put_digits value buf
                in swap_ends (length buf) (length digits - 1) digits)"

definition hex_digit :: "u32 \<Rightarrow> u8" where
  "hex_digit d = bytes ''0123456789ABCDEF'' ! unat d"

function hex_buffer :: "u32 \<Rightarrow> u8 list" where
  "hex_buffer value = (if value \<noteq> 0 then hex_digit (value AND 0xF) # hex_buffer (drop_bit 4 value) else [])"
  by pat_completeness auto
termination
proof (relation "measure unat")
  fix x :: u32
  assume "x \<noteq> 0"
  then have "0 < unat x" by (simp add: unat_gt_0)
  then show "(drop_bit 4 x, x) \<in> measure unat"
    by (simp add: unat_drop_bit_eq drop_bit_eq_div unat_div_distrib)
qed simp

declare hex_buffer.simps [simp del]

text \<open>
  Every character of the number goes through \<^verbatim>\<open>kprintf("%c", ...)\<close>, and \<^verbatim>\<open>kprintf\<close> ends by
  setting the colour back to \<^verbatim>\<open>0x0F\<close>.
\<close>

definition kprintf_char :: "u8 \<Rightarrow> vga \<Rightarrow> vga" where
  "kprintf_char c v = (print_char c v)\<lparr>color := 0x0F\<rparr>"

definition int_to_hex_string :: "u32 \<Rightarrow> vga \<Rightarrow> vga" where
  "int_to_hex_string value v =
     (if value = 0 then (print (bytes ''0x0'') v)\<lparr>color := 0x0F\<rparr>
      else fold kprintf_char (rev (hex_buffer value)) v)"

section \<open>Floating-point numbers\<close>

text \<open>
  A finite \<^verbatim>\<open>double\<close> is a rational number; what its arithmetic rounds a result to is the parameter \<open>rnd\<close>,
  because the target's floating-point unit may keep more than 53 bits.
\<close>

text \<open>The loop of the fractional part; the first number counts \<^verbatim>\<open>decimal_places\<close> down.\<close>

fun put_decimals :: "(rat \<Rightarrow> rat) \<Rightarrow> nat \<Rightarrow> rat \<Rightarrow> u8 list \<Rightarrow> u8 list" where
  "put_decimals rnd 0 frac_part buf = buf"
| "put_decimals rnd (Suc decimal_places) frac_part buf =
     (if frac_part > 0 then
        let frac_part = rnd (frac_part * 10); digit = \<lfloor>frac_part\<rfloor>
        in put_decimals rnd decimal_places (rnd (frac_part - of_int digit)) (buf @ [48 + word_of_int digit])
      else buf)"

text \<open>The cast to \<^verbatim>\<open>long long\<close> is undefined from \<^verbatim>\<open>2^63\<close> on.\<close>

definition double_to_string :: "(rat \<Rightarrow> rat) \<Rightarrow> rat \<Rightarrow> fault + u8 list" where
  "double_to_string rnd value =
     (let buf = (if value < 0 then bytes ''-'' else []);
          value = (if value < 0 then - value else value)
      in if value = 0 then Inr (buf @ bytes ''0.0'')
         else let int_part = \<lfloor>value\<rfloor> in
           if int_part \<ge> 2 ^ 63 then Inl SignedOverflow
           else
             let frac_part = rnd (value - rnd (of_int int_part));
                 digits = (if int_part = 0 then buf @ bytes ''0''
                           else let ds = put_digits int_part buf in swap_ends (length buf) (length ds - 1) ds);
                 s = put_decimals rnd 6 frac_part (digits @ bytes ''.'')
             in Inr (if last s = of_char (CHR ''.'') then s @ bytes ''0'' else s))"

section \<open>Formatted output\<close>

datatype karg = AStr "u8 list" | AInt u32 | ADouble rat

text \<open>
  The loop of \<^verbatim>\<open>kprintf\<close>.  A conversion whose argument is missing or of another kind and a
  \<^verbatim>\<open>%\<close> at the very end of the format (the loop would step over the terminator) are \<^const>\<open>BadFormat\<close>; an
  unknown conversion prints nothing.
\<close>

fun kprintf_loop :: "(rat \<Rightarrow> rat) \<Rightarrow> string \<Rightarrow> karg list \<Rightarrow> vga \<Rightarrow> fault + vga" where
  "kprintf_loop rnd [] args v = Inr v"
| "kprintf_loop rnd (c # cs) args v =
     (if c = CHR ''%'' then
        (case cs of
           [] \<Rightarrow> Inl BadFormat
         | k # cs' \<Rightarrow>
             if k = CHR ''s'' then
               (case args of AStr t # as \<Rightarrow> kprintf_loop rnd cs' as (print t v) | _ \<Rightarrow> Inl BadFormat)
             else if k = CHR ''c'' then
               (case args of AInt x # as \<Rightarrow> kprintf_loop rnd cs' as (print_char (ucast x) v) | _ \<Rightarrow> Inl BadFormat)
             else if k = CHR ''d'' then
               (case args of AInt x # as \<Rightarrow> kprintf_loop rnd cs' as (print (int_to_string x) v) | _ \<Rightarrow> Inl BadFormat)
             else if k = CHR ''x'' then
               (case args of AInt x # as \<Rightarrow> kprintf_loop rnd cs' as (int_to_hex_string x v) | _ \<Rightarrow> Inl BadFormat)
             else if k = CHR ''f'' then
               (case args of
                  ADouble x # as \<Rightarrow>
                    (case double_to_string rnd x of
                       Inl e \<Rightarrow> Inl e
                     | Inr sd_value \<Rightarrow> kprintf_loop rnd cs' as (print sd_value v))
                | _ \<Rightarrow> Inl BadFormat)
             else kprintf_loop rnd cs' args v)
      else kprintf_loop rnd cs args (print_char (of_char c) v))"

definition kprintf_fp :: "(rat \<Rightarrow> rat) \<Rightarrow> string \<Rightarrow> karg list \<Rightarrow> vga \<Rightarrow> fault + vga" where
  "kprintf_fp rnd start_text args v =
     (case kprintf_loop rnd start_text args v of
        Inl e \<Rightarrow> Inl e
      | Inr v' \<Rightarrow> Inr (v'\<lparr>color := 0x0F\<rparr>))"

text \<open>
  The calls of the kernel pass no \<^verbatim>\<open>double\<close>, so that the rounding does not matter to them (\<open>kprintf_no_double\<close>) and they
  use the exact one.
\<close>

definition kprintf :: "string \<Rightarrow> karg list \<Rightarrow> vga \<Rightarrow> fault + vga" where
  "kprintf = kprintf_fp (\<lambda>x. x)"

lemma kprintf_def':
  "kprintf start_text args v =
     (case kprintf_loop (\<lambda>x. x) start_text args v of
        Inl e \<Rightarrow> Inl e
      | Inr v' \<Rightarrow> Inr (v'\<lparr>color := 0x0F\<rparr>))"
  by (simp add: kprintf_def kprintf_fp_def)

definition no_double :: "karg list \<Rightarrow> bool" where
  "no_double args \<longleftrightarrow> (\<forall>a\<in>set args. case a of ADouble x \<Rightarrow> False | _ \<Rightarrow> True)"

lemma no_double_simps [simp]: "no_double []" "no_double (AStr t # as) = no_double as" "no_double (AInt x # as) = no_double as"
  "\<not> no_double (ADouble r # as)"
  by (simp_all add: no_double_def)

lemma kprintf_loop_no_double: "no_double args \<Longrightarrow> kprintf_loop rnd cs args v = kprintf_loop (\<lambda>x. x) cs args v"
  by (induction rnd cs args v rule: kprintf_loop.induct) (auto split: list.splits karg.splits)

lemma kprintf_no_double: "no_double args \<Longrightarrow> kprintf_fp rnd cs args v = kprintf cs args v"
  by (simp add: kprintf_def' kprintf_fp_def kprintf_loop_no_double [of args rnd])

section \<open>When output succeeds\<close>

text \<open>A format whose conversions match its arguments.\<close>

fun fmt_ok :: "string \<Rightarrow> karg list \<Rightarrow> bool" where
  "fmt_ok [] args \<longleftrightarrow> True"
| "fmt_ok (c # cs) args \<longleftrightarrow>
     (if c = CHR ''%'' then
        (case cs of
           [] \<Rightarrow> False
         | k # cs' \<Rightarrow>
             if k = CHR ''s'' then (case args of AStr t # as \<Rightarrow> fmt_ok cs' as | _ \<Rightarrow> False)
             else if k = CHR ''c'' \<or> k = CHR ''d'' \<or> k = CHR ''x'' then
               (case args of AInt x # as \<Rightarrow> fmt_ok cs' as | _ \<Rightarrow> False)
             else if k = CHR ''f'' then False
             else fmt_ok cs' args)
      else fmt_ok cs args)"

lemma kprintf_loop_ok: "fmt_ok cs args \<Longrightarrow> \<exists>v'. kprintf_loop rnd cs args v = Inr v'"
proof (induction "length cs" arbitrary: cs args v rule: less_induct)
  case less
  show ?case
  proof (cases cs)
    case Nil
    then show ?thesis by simp
  next
    case (Cons c ds)
    show ?thesis
    proof (cases "c = CHR ''%''")
      case False
      with Cons less show ?thesis by simp
    next
      case True
      with Cons less.prems obtain k es where ds: "ds = k # es"
        by (cases ds) auto
      have IH: "fmt_ok es as \<Longrightarrow> \<exists>v'. kprintf_loop rnd es as u = Inr v'" for as u
        using less.hyps [of es as u] Cons ds by simp
      show ?thesis
        using less.prems True Cons ds IH
        by (cases args; cases "hd args") (auto split: if_splits)
    qed
  qed
qed

definition console_after :: "string \<Rightarrow> karg list \<Rightarrow> vga \<Rightarrow> vga" where
  "console_after cs args v = (case kprintf cs args v of Inl e \<Rightarrow> v | Inr v' \<Rightarrow> v')"

lemma kprintf_ok: "fmt_ok cs args \<Longrightarrow> kprintf cs args v = Inr (console_after cs args v)"
  using kprintf_loop_ok [of cs args "\<lambda>x. x" v]
  by (auto simp: kprintf_def' console_after_def)

section \<open>The cursor and the screen\<close>

definition vga_ok :: "vga \<Rightarrow> bool" where
  "vga_ok v \<longleftrightarrow> 0 \<le> cursor_row v \<and> cursor_row v \<le> 25 \<and> 0 \<le> cursor_col v \<and> cursor_col v < 80"

definition same_outside :: "(int \<Rightarrow> u8) \<Rightarrow> (int \<Rightarrow> u8) \<Rightarrow> bool" where
  "same_outside m m' \<longleftrightarrow> (\<forall>i. i < 0 \<or> 4000 \<le> i \<longrightarrow> m' i = m i)"

lemma same_outside_refl [simp]: "same_outside m m"
  by (simp add: same_outside_def)

lemma same_outside_trans: "same_outside m m' \<Longrightarrow> same_outside m' m'' \<Longrightarrow> same_outside m m''"
  by (simp add: same_outside_def)

text \<open>A loop of independent cell updates: the value of each cell after it.\<close>

lemma copy_row_eq:
  "copy_row row m i = (if row * 160 \<le> i \<and> i < row * 160 + 160 then m (i + 160) else m i)"
proof -
  define f where "f = (\<lambda>byte (m :: int \<Rightarrow> u8). m(row * 160 + int byte := m ((row + 1) * 160 + int byte)))"
  have f: "f b m' j = (if j = row * 160 + int b then m' (row * 160 + 160 + int b) else m' j)" for b m' j
    by (simp add: f_def algebra_simps)
  have "fold f [0..<k] m i = (if row * 160 \<le> i \<and> i < row * 160 + int k then m (i + 160) else m i)" if "k \<le> 160" for k i
    using that
  proof (induction k arbitrary: i)
    case (Suc k)
    then have IH: "fold f [0..<k] m j = (if row * 160 \<le> j \<and> j < row * 160 + int k then m (j + 160) else m j)" for j by simp
    have nxt: "row * 160 + 160 + int k = row * 160 + int k + 160" by simp
    have "fold f [0..<Suc k] m = f k (fold f [0..<k] m)" by simp
    then have "fold f [0..<Suc k] m i = f k (fold f [0..<k] m) i" by simp
    then show ?case unfolding f IH nxt using Suc.prems by auto
  qed auto
  from this [of 160 i] show ?thesis by (simp add: copy_row_def f_def)
qed

lemma scroll_rows_eq: "scroll_rows m i = (if 0 \<le> i \<and> i < 3840 then m (i + 160) else m i)"
proof -
  have "fold (\<lambda>row m. copy_row (int row) m) [0..<k] m i = (if 0 \<le> i \<and> i < int k * 160 then m (i + 160) else m i)" for k i
  proof (induction k arbitrary: i)
    case (Suc k)
    then show ?case by (auto simp: copy_row_eq algebra_simps)
  qed auto
  from this [of 24 i] show ?thesis by (simp add: scroll_rows_def)
qed

lemma blank_last_row_eq:
  "blank_last_row c m i = (if 3840 \<le> i \<and> i < 4000 then if even i then 32 else c else m i)"
proof -
  have "fold (\<lambda>j m. let position = (24 * 80 + int j) * 2 in m(position := 32, position + 1 := c)) [0..<k] m i =
    (if 3840 \<le> i \<and> i < 3840 + 2 * int k then if even i then 32 else c else m i)" for k i
  proof (induction k arbitrary: i)
    case (Suc k)
    then show ?case by (auto simp: Let_def)
  qed auto
  from this [of 80 i] show ?thesis by (simp add: blank_last_row_def)
qed

lemma scroll_ok:
  assumes "vga_ok v"
  shows "vga_ok (scroll v)" "cursor_row (scroll v) \<le> 24" "same_outside (video_memory v) (video_memory (scroll v))"
    "color (scroll v) = color v"
  using assms
  by (auto simp: scroll_def vga_ok_def same_outside_def blank_last_row_eq scroll_rows_eq)

lemma put_char_ok:
  assumes "vga_ok v" "cursor_row v \<le> 24"
  shows "vga_ok (put_char c v)" "same_outside (video_memory v) (video_memory (put_char c v))"
  using assms by (auto simp: put_char_def vga_ok_def same_outside_def Let_def)

lemma print_char_ok:
  assumes "vga_ok v"
  shows "vga_ok (print_char c v)" "same_outside (video_memory v) (video_memory (print_char c v))"
  using scroll_ok [OF assms] put_char_ok [of "scroll v" c]
  by (auto simp: print_char_def intro: same_outside_trans)

text \<open>Anything that only prints characters and sets the colour keeps the screen.\<close>

definition keeps_screen :: "(vga \<Rightarrow> vga) \<Rightarrow> bool" where
  "keeps_screen f \<longleftrightarrow> (\<forall>v. vga_ok v \<longrightarrow> vga_ok (f v) \<and> same_outside (video_memory v) (video_memory (f v)))"

lemma keeps_print_char: "keeps_screen (print_char c)"
  using print_char_ok by (simp add: keeps_screen_def)

lemma keeps_comp: "keeps_screen f \<Longrightarrow> keeps_screen g \<Longrightarrow> keeps_screen (\<lambda>v. g (f v))"
  unfolding keeps_screen_def using same_outside_trans by blast

lemma keeps_color: "keeps_screen f \<Longrightarrow> keeps_screen (\<lambda>v. (f v)\<lparr>color := c\<rparr>)"
  by (simp add: keeps_screen_def vga_ok_def)

lemma keeps_fold:
  assumes "\<And>x. keeps_screen (f x)"
  shows "keeps_screen (fold f xs)"
proof (induction xs)
  case Nil
  then show ?case by (simp add: keeps_screen_def)
next
  case (Cons x xs)
  then show ?case using keeps_comp [OF assms Cons] by (simp add: comp_def)
qed

lemma keeps_print: "keeps_screen (print t)"
  using keeps_fold [OF keeps_print_char] by (simp add: print_def [abs_def])

lemma keeps_hex: "keeps_screen (int_to_hex_string x)"
proof -
  have "keeps_screen (kprintf_char c)" for c unfolding kprintf_char_def [abs_def] by (rule keeps_color [OF keeps_print_char])
  then have "keeps_screen (fold kprintf_char xs)" for xs by (rule keeps_fold)
  then show ?thesis
    using keeps_color [OF keeps_print] by (cases "x = 0") (simp_all add: int_to_hex_string_def [abs_def])
qed

lemma kprintf_loop_keeps:
  assumes "kprintf_loop rnd cs args v = Inr v'" "vga_ok v"
  shows "vga_ok v' \<and> same_outside (video_memory v) (video_memory v')"
  using assms
proof (induction "length cs" arbitrary: cs args v rule: less_induct)
  case less
  show ?case
  proof (cases cs)
    case Nil
    then show ?thesis using less.prems by simp
  next
    case (Cons c ds)
    have step: "vga_ok v' \<and> same_outside (video_memory v) (video_memory v')"
      if "kprintf_loop rnd es as (f v) = Inr v'" "length es < length cs" "keeps_screen f" for es as f
      using less.hyps [OF that(2,1)] that(3) less.prems(2) same_outside_trans unfolding keeps_screen_def by blast
    have id: "keeps_screen (\<lambda>v. v)" by (simp add: keeps_screen_def)
    show ?thesis
    proof (cases "c = CHR ''%''")
      case False
      then show ?thesis using less.prems(1) Cons by (intro step [of ds args "print_char (of_char c)"]) (auto simp: keeps_print_char)
    next
      case True
      with Cons less.prems(1) obtain k es where ds: "ds = k # es" by (cases ds) auto
      show ?thesis
        using less.prems(1) True Cons ds step [OF _ _ keeps_print] step [OF _ _ keeps_print_char] step [OF _ _ keeps_hex]
          step [OF _ _ id]
        by (auto split: if_splits list.splits karg.splits sum.splits)
    qed
  qed
qed

text \<open>
  C25: \<^verbatim>\<open>kprintf\<close> stays on the screen: from a cursor inside the 80x25 text buffer, whatever it prints leaves the
  cursor inside (row 25 meaning that the next character scrolls) and no byte outside the 4000 bytes of
  the buffer is written.
\<close>

theorem kprintf_stays_on_screen:
  assumes "vga_ok v" "kprintf_fp rnd cs args v = Inr v'"
  shows "vga_ok v' \<and> (\<forall>i. i < 0 \<or> 4000 \<le> i \<longrightarrow> video_memory v' i = video_memory v i)"
proof -
  from assms(2) obtain u where u: "kprintf_loop rnd cs args v = Inr u" "v' = u\<lparr>color := 0x0F\<rparr>"
    by (auto simp: kprintf_fp_def split: sum.splits)
  from kprintf_loop_keeps [OF u(1) assms(1)] show ?thesis by (simp add: u(2) vga_ok_def same_outside_def)
qed

definition blank_console :: vga where
  "blank_console = \<lparr>video_memory = (\<lambda>_. 0), cursor_row = 0, cursor_col = 0, color = 0x0F\<rparr>"

theorem kprintf_stays_on_screen_witness:
  "\<exists>v'. kprintf ''%d pages'' [AInt 12] blank_console = Inr v' \<and> vga_ok v'
    \<and> (\<forall>i. i < 0 \<or> 4000 \<le> i \<longrightarrow> video_memory v' i = video_memory blank_console i)"
proof -
  have ok: "vga_ok blank_console" by (simp add: blank_console_def vga_ok_def)
  have "kprintf ''%d pages'' [AInt 12] blank_console = Inr (console_after ''%d pages'' [AInt 12] blank_console)"
    by (rule kprintf_ok) simp
  from kprintf_stays_on_screen [OF ok this [unfolded kprintf_def]] this show ?thesis by blast
qed

text \<open>
  The scrolling of \<^verbatim>\<open>print_char\<close>, two nested copy loops and a blanking loop over one buffer, is the shift it
  stands for: every row takes the contents of the next one and the last row becomes blanks in the
  current colour.
\<close>

theorem scroll_is_shift:
  assumes "25 \<le> cursor_row v"
  shows "scroll v = v\<lparr>video_memory := (\<lambda>i. if 0 \<le> i \<and> i < 3840 then video_memory v (i + 160)
       else if 3840 \<le> i \<and> i < 4000 then if even i then 32 else color v else video_memory v i),
     cursor_row := 24, cursor_col := 0\<rparr>"
  using assms by (simp add: scroll_def) (rule arg_cong [of _ _ "\<lambda>m. v\<lparr>video_memory := m, cursor_row := 24, cursor_col := 0\<rparr>"],
    auto simp: fun_eq_iff blank_last_row_eq scroll_rows_eq)

theorem scroll_is_shift_witness:
  "video_memory (scroll \<lparr>video_memory = (\<lambda>i. word_of_int i), cursor_row = 25, cursor_col = 3, color = 7\<rparr>) 3 = 163"
  by (subst scroll_is_shift) simp_all

text \<open>
  Pressing backspace at the start of the line below the screen and then printing a character writes
  outside the text buffer: \<^verbatim>\<open>backspace\<close> leaves the cursor in column 80 of the last row.
\<close>

theorem backspace_then_print_off_screen:
  assumes "cursor_row v = 25" "cursor_col v = 0" "0 < n" "c \<noteq> 10"
  shows "video_memory (print_char c (backspace n v)) 4000 = c"
  using assms by (simp add: backspace_def print_char_def scroll_def put_char_def)

theorem backspace_then_print_off_screen_witness:
  "video_memory (print_char 65 (backspace 1 \<lparr>video_memory = (\<lambda>_. 0), cursor_row = 25, cursor_col = 0, color = 7\<rparr>)) 4000 = 65"
  by (rule backspace_then_print_off_screen) simp_all

section \<open>Decimal numerals\<close>

text \<open>The decimal numeral of a number, most significant digit first.\<close>

fun decimal :: "nat \<Rightarrow> u8 list" where
  "decimal n = (if n < 10 then [of_nat n + 48] else decimal (n div 10) @ [of_nat (n mod 10) + 48])"

declare decimal.simps [simp del]

lemma swap_ends_rev:
  "swap_ends (length pre) (length pre + length seg - 1) (pre @ seg @ post) = pre @ rev seg @ post"
proof (induction "length seg" arbitrary: pre seg post rule: less_induct)
  case less
  show ?case
  proof (cases "length seg < 2")
    case True
    then have "rev seg = seg" by (cases seg) (auto simp: Suc_le_eq)
    moreover have "\<not> length pre < length pre + length seg - 1" using True by simp
    ultimately show ?thesis by (subst swap_ends.simps) simp
  next
    case False
    then obtain a tl where s1: "seg = a # tl" "tl \<noteq> []" by (cases seg) (auto simp: Suc_le_eq)
    define mid b where "mid = butlast tl" and "b = last tl"
    have seg: "seg = a # mid @ [b]" using s1 by (simp add: mid_def b_def)
    let ?buf = "pre @ seg @ post" and ?i = "length pre" and ?j = "length pre + length seg - 1"
    have j: "?j = Suc (length pre + length mid)" by (simp add: seg)
    have bj: "?buf = (pre @ a # mid) @ b # post" "?j = length (pre @ a # mid)" unfolding j by (simp_all add: seg)
    have at2: "?buf ! ?j = b" unfolding bj(2) by (subst bj(1)) (rule nth_append_length)
    have "?buf ! ?i = a" by (simp add: seg)
    note at = this at2
    have upd: "?buf[?i := ?buf ! ?j, ?j := ?buf ! ?i] = (pre @ [b]) @ mid @ (a # post)"
      unfolding at unfolding j by (simp add: seg list_update_append)
    have "swap_ends ?i ?j ?buf = swap_ends (?i + 1) (?j - 1) ((pre @ [b]) @ mid @ (a # post))"
    proof -
      have lt: "?i < ?j" unfolding j by simp
      show ?thesis by (subst swap_ends.simps) (simp only: upd if_P [OF lt])
    qed
    also have "\<dots> = swap_ends (length (pre @ [b])) (length (pre @ [b]) + length mid - 1) ((pre @ [b]) @ mid @ (a # post))"
      unfolding j by simp
    also have "\<dots> = (pre @ [b]) @ rev mid @ (a # post)"
      by (rule less.hyps) (simp add: seg)
    finally show ?thesis by (simp add: seg)
  qed
qed

lemma digit_word: "word_of_int (int n mod 10) + 48 = (of_nat (n mod 10) + 48 :: u8)"
proof -
  have "int n mod 10 = int (n mod 10)" by (simp add: zmod_int)
  then show ?thesis by (simp only: of_int_of_nat_eq)
qed

lemma put_digits_decimal: "0 < n \<Longrightarrow> put_digits (int n) buf = buf @ rev (decimal n)"
proof (induction n arbitrary: buf rule: less_induct)
  case (less n)
  show ?case
  proof (cases "n < 10")
    case True
    then have "put_digits (int n) buf = put_digits 0 (buf @ [of_nat n + 48])"
      using less.prems by (subst put_digits.simps) (simp add: div_pos_pos_trivial)
    then show ?thesis using True by (simp add: put_digits.simps [of 0] decimal.simps [of n])
  next
    case False
    then have "put_digits (int n) buf = put_digits (int (n div 10)) (buf @ [of_nat (n mod 10) + 48])"
      by (subst put_digits.simps) (simp only: digit_word zdiv_int [symmetric] of_nat_numeral, simp add: zdiv_int)
    then show ?thesis using less.IH [of "n div 10"] False by (simp add: decimal.simps [of n])
  qed
qed

lemma length_decimal: "n < 10 ^ k \<Longrightarrow> 0 < k \<Longrightarrow> length (decimal n) \<le> k"
proof (induction k arbitrary: n)
  case (Suc k)
  show ?case
  proof (cases "n < 10")
    case False
    then have "0 < k" using Suc.prems(1) by (cases k) auto
    moreover have "n div 10 < 10 ^ k" using Suc.prems(1) by (simp add: less_mult_imp_div_less mult.commute)
    ultimately show ?thesis using Suc.IH [of "n div 10"] False by (simp add: decimal.simps [of n])
  qed (simp add: decimal.simps [of n])
qed simp

lemma int_to_string_decimal_eq:
  "int_to_string w = (if sint w < 0 then 45 # decimal (nat (- sint w)) else decimal (nat (sint w)))
   \<and> length (int_to_string w) \<le> 11"
proof -
  have r: "- 2147483648 \<le> sint w" "sint w < 2147483648" using sint_range_size [of w] by (simp_all add: word_size)
  let ?n = "nat \<bar>sint w\<bar>"
  have dec: "int_to_string w = (if sint w < 0 then 45 # decimal ?n else decimal ?n)"
  proof (cases "sint w = - 2147483648 \<or> sint w = 0")
    case True
    have d: "decimal 2147483648 = bytes ''2147483648''" "decimal 0 = bytes ''0''" by (simp_all add: decimal.simps bytes_def)
    show ?thesis using True by (elim disjE) (simp_all add: int_to_string_def bytes_def d)
  next
    case False
    let ?pre = "if sint w < 0 then bytes ''-'' else []"
    have n: "0 < ?n" "int ?n = \<bar>sint w\<bar>" using False by auto
    have "int_to_string w = swap_ends (length ?pre) (length (?pre @ rev (decimal ?n)) - 1) (?pre @ rev (decimal ?n) @ [])"
      using False put_digits_decimal [OF n(1), of ?pre] unfolding n(2) by (simp add: int_to_string_def Let_def abs_if)
    also have "\<dots> = ?pre @ decimal ?n" using swap_ends_rev [of ?pre "rev (decimal ?n)" "[]"] by simp
    finally show ?thesis by (simp add: bytes_def)
  qed
  have "?n < 10 ^ 10" using r by auto
  then have "length (decimal ?n) \<le> 10" by (rule length_decimal) simp
  then show ?thesis using dec by (auto simp: abs_if)
qed

text \<open>
  C36: \<^verbatim>\<open>int_to_string\<close>, which writes the digits backwards into a buffer and then reverses them in place,
  produces the decimal numeral of every 32-bit integer, with a minus sign for negative ones and
  \<^verbatim>\<open>INT_MIN\<close> included, and never more than 11 characters: the buffer of 12 bytes is enough.
\<close>

theorem int_to_string_decimal:
  "int_to_string w = (if sint w < 0 then 45 # decimal (nat (- sint w)) else decimal (nat (sint w)))
   \<and> length (int_to_string w) \<le> 11"
  by (rule int_to_string_decimal_eq)

end
