(* ===== verification/Kernel_State.thy ===== *)
theory Kernel_State
  imports Vga
begin

unbundle bit_operations_syntax

text \<open>
  The kernel's global state: physical memory and the page-directory register, the linker
  symbols of \<^verbatim>\<open>linker.ld\<close>, the frame bitmap of \<^verbatim>\<open>lib/pmm.c\<close>, the heap domains of
  \<^verbatim>\<open>lib/heap_domain.c\<close> and the console.  Physical memory is a map from word-aligned physical
  addresses to 32-bit words.  The C objects with static storage other than the page directory and
  the page tables are fields of the record.
\<close>

record heap_domain =
  page_directory :: u32
  block_size :: u32
  blocks_per_page :: u32
  next_free_block :: u32
  next_virt_addr :: u32
  next_free_virt :: u32

record large_domain =
  l_page_directory :: u32
  l_next_virt_addr :: u32
  l_next_free_virt :: u32

datatype heap_id = Heap_64 | Heap_128 | Heap_256 | Heap_512 | Heap_1k | Heap_2k | Heap_4k

record kstate =
  console :: vga
  mem :: "u32 \<Rightarrow> u32"
  cr3 :: u32
  cr0 :: u32
  cr4 :: u32
  kernel_page_dir :: u32
  bitmap :: "nat \<Rightarrow> u32"
  used_frames :: u32
  virtual_kernel_memory_end :: u32
  heaps :: "heap_id \<Rightarrow> heap_domain"
  large_dom :: large_domain

type_synonym 'a kop = "(kstate, 'a) op"

section \<open>Linker symbols\<close>

text \<open>
  The only address the linker chooses is that of \<^verbatim>\<open>_kernel_page_dir\<close>; \<^verbatim>\<open>linker.ld\<close> places the
  page table, the 256 page tables of the direct map and \<^verbatim>\<open>_heap_start\<close> after it.
\<close>

definition kernel_page_table :: "kstate \<Rightarrow> u32" where
  "kernel_page_table s = kernel_page_dir s + 4096"

definition kernel_page_tables_base :: "kstate \<Rightarrow> u32" where
  "kernel_page_tables_base s = kernel_page_table s + 4096"

definition heap_start :: "kstate \<Rightarrow> u32" where
  "heap_start s = kernel_page_tables_base s + 256 * 4096"

section \<open>Console output from kernel code\<close>

definition kprint :: "string \<Rightarrow> karg list \<Rightarrow> unit kop" where
  "kprint start_text args = (\<lambda>s.
     case kprintf start_text args (console s) of
       Inl e \<Rightarrow> Inl e
     | Inr v \<Rightarrow> Inr ((), s\<lparr>console := v\<rparr>))"

definition kprint_color :: "u8 \<Rightarrow> string \<Rightarrow> karg list \<Rightarrow> unit kop" where
  "kprint_color c start_text args =
     bnd (modify (\<lambda>s. s\<lparr>console := set_color c (console s)\<rparr>)) (\<lambda>_. kprint start_text args)"

lemma kprint_run [simp]:
  "fmt_ok cs args \<Longrightarrow>
    kprint cs args s = Inr ((), s\<lparr>console := console_after cs args (console s)\<rparr>)"
  by (simp add: kprint_def kprintf_ok)

lemma kprint_color_run [simp]:
  "fmt_ok cs args \<Longrightarrow>
    kprint_color c cs args s =
      Inr ((), s\<lparr>console := console_after cs args (set_color c (console s))\<rparr>)"
  by (simp add: kprint_color_def)

section \<open>A concrete state\<close>

text \<open>
  The state of a kernel whose image ends at physical \<^verbatim>\<open>0x302000\<close>, with zeroed globals: the
  input of the concrete instances of the theorems.
\<close>

definition zero_domain :: heap_domain where
  "zero_domain = \<lparr>page_directory = 0, block_size = 0, blocks_per_page = 0, next_free_block = 0,
     next_virt_addr = 0, next_free_virt = 0\<rparr>"

definition demo_state :: kstate where
  "demo_state = \<lparr>console = \<lparr>video_memory = (\<lambda>_. 0), cursor_row = 0, cursor_col = 0, color = 0x0F\<rparr>,
     mem = (\<lambda>_. 0), cr3 = 0, cr0 = 0x80000011, cr4 = 0x10, kernel_page_dir = 0xC0200000, bitmap = (\<lambda>_. 0), used_frames = 0,
     virtual_kernel_memory_end = 0, heaps = (\<lambda>_. zero_domain),
     large_dom = \<lparr>l_page_directory = 0, l_next_virt_addr = 0, l_next_free_virt = 0\<rparr>\<rparr>"

end
