(* ===== verification/Pmm.thy ===== *)
theory Pmm
  imports Kernel_State
begin

unbundle bit_operations_syntax

text \<open>
  The physical memory manager of \<^verbatim>\<open>lib/pmm.c\<close>: one bit per 4 KB frame in a bitmap of 32768
  words.  The helper functions take \<^verbatim>\<open>int\<close> parameters, so an address above 2 GB reaches them as
  a negative number; the model keeps those conversions.
\<close>

definition bitmap_size :: nat where "bitmap_size = 32768"

definition ALLOCATE :: int where "ALLOCATE = 1"
definition FREE :: int where "FREE = 0"

section \<open>Operations\<close>

definition is_virtual :: "u32 \<Rightarrow> bool" where
  "is_virtual addr \<longleftrightarrow> addr \<ge> 0xC0000000"

definition is_physical :: "u32 \<Rightarrow> bool" where
  "is_physical addr \<longleftrightarrow> addr < 0xC0000000"

text \<open>The value \<^verbatim>\<open>1 << bit\<close>; a shift by a negative count or by more than 31 is undefined.\<close>

definition set_bit :: "int \<Rightarrow> int \<Rightarrow> int \<Rightarrow> u32 kop" where
  "set_bit index b status =
     (if status = ALLOCATE \<or> status = FREE then
        (if index < 0 \<or> index \<ge> int bitmap_size then raise (OutOfBounds index)
         else if b < 0 \<or> b \<ge> 32 then raise (BadShift b)
         else
           bnd (gets (\<lambda>s. bitmap s (nat index))) (\<lambda>w.
             let w' = (if status = ALLOCATE then w OR push_bit (nat b) 1
                       else w AND NOT (push_bit (nat b) 1))
             in bnd (modify (\<lambda>s. s\<lparr>bitmap := (bitmap s)(nat index := w')\<rparr>)) (\<lambda>_. ret w')))
      else
        bnd (kprint_color COLOR_RED ''Error: you can't set a paging bit to anything but 0 and 1.'' [])
          (\<lambda>_. ret 0))"

definition calculate_page :: "u32 \<Rightarrow> u32" where
  "calculate_page frame_addr = word_of_int (sint frame_addr sdiv 4096)"

definition find_index :: "u32 \<Rightarrow> u32" where
  "find_index frame = word_of_int (sint frame sdiv 32)"

definition find_bit :: "u32 \<Rightarrow> u32" where
  "find_bit frame = word_of_int (sint frame smod 32)"

definition assert_failed :: "string \<Rightarrow> u32 \<Rightarrow> string \<Rightarrow> unit kop" where
  "assert_failed expected addr func =
     kprint (''ASSERT FAILED: Expected '' @ expected @ '': %x in %s'' @ [CHR 0x0A])
       [AInt addr, AStr (bytes func)]"

definition set_frame :: "u32 \<Rightarrow> unit kop" where
  "set_frame frame_addr =
     (if \<not> is_physical frame_addr then
        assert_failed ''PHYSICAL got VIRTUAL'' frame_addr ''set_frame''
      else
        let frame = calculate_page frame_addr;
            index = find_index frame;
            b = find_bit frame
        in bnd (set_bit (sint index) (sint b) ALLOCATE) (\<lambda>_. ret ()))"

definition clear_frame :: "u32 \<Rightarrow> u32 kop" where
  "clear_frame frame_addr =
     (if \<not> is_physical frame_addr then
        bnd (assert_failed ''PHYSICAL got VIRTUAL'' frame_addr ''clear_frame'') (\<lambda>_. ret 0)
      else
        let frame = calculate_page frame_addr;
            index = find_index frame;
            b = find_bit frame
        in set_bit (sint index) (sint b) FREE)"

definition increment_used_frames :: "unit kop" where
  "increment_used_frames = modify (\<lambda>s. s\<lparr>used_frames := used_frames s + 1\<rparr>)"

definition decrement_used_frames :: "unit kop" where
  "decrement_used_frames = modify (\<lambda>s. s\<lparr>used_frames := used_frames s - 1\<rparr>)"

text \<open>
  \<^verbatim>\<open>init_pmm\<close>: the loop variable \<^verbatim>\<open>addr\<close> steps by 4096 below the end of the kernel image, at
  most \<open>2 ^ 20\<close> times, so the loop over \<open>n\<close> frames is written by recursion on the frames left.
\<close>

fun mark_kernel :: "nat \<Rightarrow> u32 \<Rightarrow> u32 \<Rightarrow> unit kop" where
  "mark_kernel 0 addr end_addr = ret ()"
| "mark_kernel (Suc k) addr end_addr =
     (if addr < end_addr then
        bnd (set_frame addr) (\<lambda>_.
        bnd increment_used_frames (\<lambda>_.
        mark_kernel k (addr + 4096) end_addr))
      else ret ())"

fun clear_bitmap :: "nat \<Rightarrow> (nat \<Rightarrow> u32) \<Rightarrow> (nat \<Rightarrow> u32)" where
  "clear_bitmap 0 b = b"
| "clear_bitmap (Suc i) b = (clear_bitmap i b)(i := 0)"

definition init_pmm :: "unit kop" where
  "init_pmm =
     bnd (modify (\<lambda>s. s\<lparr>virtual_kernel_memory_end := heap_start s\<rparr>)) (\<lambda>_.
     bnd (gets (\<lambda>s. virtual_kernel_memory_end s - 0xC0000000)) (\<lambda>physical_kernel_memory_end.
     bnd (modify (\<lambda>s. s\<lparr>bitmap := clear_bitmap bitmap_size (bitmap s)\<rparr>)) (\<lambda>_.
     mark_kernel 1048576 0 physical_kernel_memory_end)))"

text \<open>
  The two searches.  The loops over the bitmap words and over the bits of a word return
  \<open>Some\<close> of the address at which the source returns, \<open>None\<close> when they run to their end;
  \<open>index\<close> and \<open>bit_position\<close> count up to their bound, written as the number of iterations left.
\<close>

fun kernel_bits :: "u32 \<Rightarrow> nat \<Rightarrow> nat \<Rightarrow> u32 \<Rightarrow> nat \<Rightarrow> (nat \<Rightarrow> u32) \<Rightarrow> u32 option" where
  "kernel_bits safe_start index bit_position bit_check 0 bm = None"
| "kernel_bits safe_start index bit_position bit_check (Suc k) bm =
     (let frame = of_nat index * 32 + of_nat bit_position;
          address = frame * 4096
      in if bm index AND bit_check = 0 \<and> \<not> address < safe_start then Some address
         else kernel_bits safe_start index (bit_position + 1) (push_bit 1 bit_check) k bm)"

fun kernel_words :: "u32 \<Rightarrow> nat \<Rightarrow> nat \<Rightarrow> (nat \<Rightarrow> u32) \<Rightarrow> u32 option" where
  "kernel_words safe_start index 0 bm = None"
| "kernel_words safe_start index (Suc k) bm =
     (if bm index = 0xFFFFFFFF then kernel_words safe_start (index + 1) k bm
      else case kernel_bits safe_start index 0 1 32 bm of
             Some address \<Rightarrow> Some address
           | None \<Rightarrow> kernel_words safe_start (index + 1) k bm)"

definition get_next_free_kernel_frame :: "u32 kop" where
  "get_next_free_kernel_frame =
     bnd (gets (\<lambda>s. (heap_start s - 0xC0000000 + 4095) AND NOT 0xFFF)) (\<lambda>safe_start.
     let start_index = unat ((safe_start div 4096) div 32) in
     bnd (gets (\<lambda>s. kernel_words safe_start start_index (bitmap_size - start_index) (bitmap s))) (\<lambda>r.
     case r of
       Some address \<Rightarrow>
         bnd (set_frame address) (\<lambda>_. bnd increment_used_frames (\<lambda>_. ret address))
     | None \<Rightarrow> ret 0))"

text \<open>
  In the process search the address is tested against 0 before the bit is looked at, and when it is 0 the
  source prints a message and loops forever: \<^const>\<open>Hang\<close>.
\<close>

fun process_bits :: "nat \<Rightarrow> nat \<Rightarrow> u32 \<Rightarrow> nat \<Rightarrow> (nat \<Rightarrow> u32) \<Rightarrow> fault + u32 option" where
  "process_bits index bit_position bit_check 0 bm = Inr None"
| "process_bits index bit_position bit_check (Suc k) bm =
     (let frame = of_nat index * 32 + of_nat bit_position;
          address = frame * 4096
      in if address = 0 then Inl Hang
         else if bm index AND bit_check = 0 then Inr (Some address)
         else process_bits index (bit_position + 1) (push_bit 1 bit_check) k bm)"

fun process_words :: "nat \<Rightarrow> nat \<Rightarrow> (nat \<Rightarrow> u32) \<Rightarrow> fault + u32 option" where
  "process_words index 0 bm = Inr None"
| "process_words index (Suc k) bm =
     (if bm index = 0xFFFFFFFF then process_words (index + 1) k bm
      else case process_bits index 0 1 32 bm of
             Inl e \<Rightarrow> Inl e
           | Inr (Some address) \<Rightarrow> Inr (Some address)
           | Inr None \<Rightarrow> process_words (index + 1) k bm)"

definition get_next_free_process_frame :: "u32 kop" where
  "get_next_free_process_frame =
     bnd (gets (\<lambda>s. process_words 0 bitmap_size (bitmap s))) (\<lambda>r.
     case r of
       Inl e \<Rightarrow>
         bnd (kprint_color COLOR_RED ''PMM RETURNED PHYSICAL 0! SHUT DOWN EVERYTHING!'' []) (\<lambda>_. raise e)
     | Inr (Some address) \<Rightarrow>
         bnd (set_frame address) (\<lambda>_. bnd increment_used_frames (\<lambda>_. ret address))
     | Inr None \<Rightarrow> ret 0)"

section \<open>The bitmap as a set of frames\<close>


definition frame_used :: "(nat \<Rightarrow> u32) \<Rightarrow> nat \<Rightarrow> bool" where
  "frame_used bm n \<longleftrightarrow> bit (bm (n div 32)) (n mod 32)"

definition used :: "kstate \<Rightarrow> nat set" where
  "used s = {n. n < 1048576 \<and> frame_used (bitmap s) n}"

definition mark_bit :: "nat \<Rightarrow> (nat \<Rightarrow> u32) \<Rightarrow> nat \<Rightarrow> u32" where
  "mark_bit n bm = bm(n div 32 := bm (n div 32) OR push_bit (n mod 32) 1)"

definition unmark_bit :: "nat \<Rightarrow> (nat \<Rightarrow> u32) \<Rightarrow> nat \<Rightarrow> u32" where
  "unmark_bit n bm = bm(n div 32 := bm (n div 32) AND NOT (push_bit (n mod 32) 1))"

definition first_free :: "(nat \<Rightarrow> u32) \<Rightarrow> nat \<Rightarrow> nat \<Rightarrow> nat option" where
  "first_free bm lo hi = List.find (\<lambda>n. \<not> frame_used bm n) [lo..<hi]"

lemma div_mod_32: "n div 32 = m div 32 \<Longrightarrow> n mod 32 = m mod 32 \<Longrightarrow> n = (m::nat)"
  by (metis div_mult_mod_eq)

lemma frame_used_mark [simp]: "frame_used (mark_bit n bm) m \<longleftrightarrow> m = n \<or> frame_used bm m"
  using div_mod_32 [of m n]
  by (auto simp: frame_used_def mark_bit_def bit_simps)

lemma frame_used_unmark [simp]: "frame_used (unmark_bit n bm) m \<longleftrightarrow> m \<noteq> n \<and> frame_used bm m"
  using div_mod_32 [of m n]
  by (auto simp: frame_used_def unmark_bit_def bit_simps)

lemma sint_u32: "sint (a::u32) = (int (unat a) + 2147483648) mod 4294967296 - 2147483648"
  using int_word_sint [of "uint a", where ?'a = 32] by simp

lemma sint_small:
  assumes "unat (a::u32) < 2147483648"
  shows "sint a = int (unat a)"
proof -
  have "(int (unat a) + 2147483648) mod 4294967296 = int (unat a) + 2147483648"
    using assms by (intro mod_pos_pos_trivial) linarith+
  then show ?thesis by (simp add: sint_u32)
qed

lemma sint_large:
  assumes "2147483648 \<le> unat (a::u32)"
  shows "sint a = int (unat a) - 4294967296"
proof -
  have "(int (unat a) + 2147483648) mod 4294967296
      = (int (unat a) - 2147483648 + 1 * 4294967296) mod 4294967296" by (simp add: algebra_simps)
  also have "\<dots> = (int (unat a) - 2147483648) mod 4294967296"
    by (rule mod_mult_self1)
  also have "\<dots> = int (unat a) - 2147483648"
    using assms u32_bound [of a] by (intro mod_pos_pos_trivial) linarith+
  finally show ?thesis unfolding sint_u32 by linarith
qed

lemma sdiv_int_nat: "int a sdiv numeral k = int (a div numeral k)"
  by (simp add: signed_divide_int_def sgn_if zdiv_int)

lemma smod_int_nat: "int a smod numeral k = int (a mod numeral k)"
  by (simp add: smod_mod_positive zmod_int)

lemma calculate_page_low: "frame_of a < 524288 \<Longrightarrow> calculate_page a = of_nat (frame_of a)"
  by (simp add: calculate_page_def frame_of_def sint_small sdiv_int_nat del: of_nat_unat)

lemma find_index_nat: "n < 2147483648 \<Longrightarrow> find_index (of_nat n) = of_nat (n div 32)"
  by (simp add: find_index_def sint_small unat_of_nat sdiv_int_nat)

lemma find_bit_nat: "n < 2147483648 \<Longrightarrow> find_bit (of_nat n) = of_nat (n mod 32)"
  by (simp add: find_bit_def sint_small unat_of_nat smod_int_nat)

lemma sint_of_nat_small: "n < 2147483648 \<Longrightarrow> sint (of_nat n :: u32) = int n"
  by (simp add: sint_small unat_of_nat)

lemma set_bit_run:
  assumes "i < 32768" "b < 32"
  shows "set_bit (int i) (int b) ALLOCATE s =
      Inr (bitmap s i OR push_bit b 1, s\<lparr>bitmap := (bitmap s)(i := bitmap s i OR push_bit b 1)\<rparr>)"
    and "set_bit (int i) (int b) FREE s =
      Inr (bitmap s i AND NOT (push_bit b 1),
           s\<lparr>bitmap := (bitmap s)(i := bitmap s i AND NOT (push_bit b 1))\<rparr>)"
  using assms by (simp_all add: set_bit_def bitmap_size_def ALLOCATE_def FREE_def Let_def)

lemma low_frame_physical: "frame_of a < 524288 \<Longrightarrow> is_physical a"
  by (simp add: is_physical_def frame_of_def word_less_nat_alt)

lemma set_frame_low:
  assumes "frame_of a < 524288"
  shows "set_frame a s = Inr ((), s\<lparr>bitmap := mark_bit (frame_of a) (bitmap s)\<rparr>)"
proof -
  have "frame_of a div 32 < 32768" using assms by auto
  then show ?thesis using assms
    by (simp add: set_frame_def low_frame_physical calculate_page_low find_index_nat find_bit_nat
        sint_of_nat_small set_bit_run mark_bit_def Let_def)
qed

lemma clear_frame_low:
  assumes "frame_of a < 524288"
  shows "\<exists>w. clear_frame a s = Inr (w, s\<lparr>bitmap := unmark_bit (frame_of a) (bitmap s)\<rparr>)"
proof -
  have "frame_of a div 32 < 32768" using assms by auto
  then show ?thesis using assms
    by (simp add: clear_frame_def low_frame_physical calculate_page_low find_index_nat find_bit_nat
        sint_of_nat_small set_bit_run unmark_bit_def Let_def)
qed


lemma find_append: "List.find P (xs @ ys) = (case List.find P xs of Some x \<Rightarrow> Some x | None \<Rightarrow> List.find P ys)"
  by (induction xs) auto

lemma find_upt_Suc:
  "m < n \<Longrightarrow> List.find P [m..<n] = (if P m then Some m else List.find P [Suc m..<n])"
  by (simp add: upt_conv_Cons)

lemma first_free_append:
  "lo \<le> mid \<Longrightarrow> mid \<le> hi \<Longrightarrow>
    first_free bm lo hi = (case first_free bm lo mid of Some n \<Rightarrow> Some n | None \<Rightarrow> first_free bm mid hi)"
  by (metis first_free_def find_append le_add_diff_inverse upt_add_eq_append)

lemma first_free_Some_iff:
  "first_free bm lo hi = Some n \<longleftrightarrow>
     lo \<le> n \<and> n < hi \<and> \<not> frame_used bm n \<and> (\<forall>m. lo \<le> m \<and> m < n \<longrightarrow> frame_used bm m)"
proof (induction "hi - lo" arbitrary: lo)
  case 0
  then show ?case by (auto simp: first_free_def)
next
  case (Suc k)
  then have "lo < hi" by simp
  then have step: "first_free bm lo hi = (if \<not> frame_used bm lo then Some lo else first_free bm (Suc lo) hi)"
    by (simp add: first_free_def find_upt_Suc)
  have IH: "first_free bm (Suc lo) hi = Some n \<longleftrightarrow>
     Suc lo \<le> n \<and> n < hi \<and> \<not> frame_used bm n \<and> (\<forall>m. Suc lo \<le> m \<and> m < n \<longrightarrow> frame_used bm m)"
    using Suc by simp
  show ?case
  proof (cases "frame_used bm lo")
    case True
    then have "first_free bm lo hi = Some n \<longleftrightarrow> first_free bm (Suc lo) hi = Some n"
      by (simp add: step)
    then show ?thesis unfolding IH using True
      by (metis Suc_leD Suc_leI le_eq_less_or_eq)
  next
    case False
    then have "first_free bm lo hi = Some n \<longleftrightarrow> n = lo"
      by (auto simp: step)
    then show ?thesis using False \<open>lo < hi\<close>
      by (metis le_eq_less_or_eq not_le)
  qed
qed

lemma first_free_None_iff:
  "first_free bm lo hi = None \<longleftrightarrow> (\<forall>m. lo \<le> m \<and> m < hi \<longrightarrow> frame_used bm m)"
  by (auto simp: first_free_def find_None_iff)

lemma frame_used_word: "b < 32 \<Longrightarrow> frame_used bm (i * 32 + b) \<longleftrightarrow> bit (bm i) b"
  by (simp add: frame_used_def)

lemma full_word: "(w::u32) = 0xFFFFFFFF \<longleftrightarrow> (\<forall>b<32. bit w b)"
proof -
  have "(0xFFFFFFFF::u32) = - 1" by simp
  then show ?thesis by (auto simp: bit_eq_iff bit_simps)
qed

lemma slot_address: "(of_nat i * 32 + of_nat b) * 4096 = addr_of_frame (i * 32 + b)"
  by (simp add: addr_of_frame_def)

lemma addr_of_frame_nonzero: "0 < n \<Longrightarrow> n < 1048576 \<Longrightarrow> addr_of_frame n \<noteq> 0"
  by (metis frame_of_addr_of_frame frame_of_def div_0 less_irrefl unsigned_0)

lemma first_free_word:
  "p + Suc k \<le> 32 \<Longrightarrow> first_free bm (i * 32 + p) (i * 32 + p + Suc k) =
    (if bit (bm i) p then first_free bm (i * 32 + (p + 1)) (i * 32 + (p + 1) + k) else Some (i * 32 + p))"
  using frame_used_word [of p bm i] by (simp add: first_free_def find_upt_Suc del: upt_Suc)

lemma push_bit_one_double: "push_bit 1 (c::u32) = 2 * c"
  by (simp add: push_bit_eq_mult)

lemma process_bits_step:
  "process_bits i p c (Suc k) bm =
    (if addr_of_frame (i * 32 + p) = 0 then Inl Hang
     else if bm i AND c = 0 then Inr (Some (addr_of_frame (i * 32 + p)))
     else process_bits i (p + 1) (2 * c) k bm)"
  by (simp only: process_bits.simps Let_def slot_address push_bit_one_double)

lemma kernel_bits_step:
  "kernel_bits lo i p c (Suc k) bm =
    (if bm i AND c = 0 \<and> \<not> addr_of_frame (i * 32 + p) < lo then Some (addr_of_frame (i * 32 + p))
     else kernel_bits lo i (p + 1) (2 * c) k bm)"
  by (simp only: kernel_bits.simps Let_def slot_address push_bit_one_double)

lemma process_bits_first_free:
  assumes "0 < i" "i < 32768" "p + k \<le> 32"
  shows "process_bits i p (2 ^ p) k bm =
    Inr (map_option addr_of_frame (first_free bm (i * 32 + p) (i * 32 + p + k)))"
  using assms
proof (induction k arbitrary: p)
  case 0
  then show ?case by (simp add: first_free_def)
next
  case (Suc k)
  have nz: "addr_of_frame (i * 32 + p) \<noteq> 0"
    using Suc.prems by (intro addr_of_frame_nonzero) auto
  show ?case
    using nz Suc.prems Suc.IH [of "Suc p"] first_free_word [of p k bm i]
    by (simp add: process_bits_step and_exp_eq_0_iff_not_bit del: process_bits.simps)
qed

lemma first_free_full:
  assumes "bm i = 0xFFFFFFFF" "i * 32 \<le> lo"
  shows "first_free bm lo (i * 32 + 32) = None"
proof -
  have "frame_used bm m" if "lo \<le> m" "m < i * 32 + 32" for m
  proof -
    have "m div 32 = i" using that assms(2) by linarith
    then show ?thesis using assms(1) by (simp add: frame_used_def full_word)
  qed
  then show ?thesis by (simp add: first_free_None_iff)
qed

lemma process_words_first_free:
  assumes "0 < i" "i + k \<le> 32768"
  shows "process_words i k bm =
    Inr (map_option addr_of_frame (first_free bm (i * 32) ((i + k) * 32)))"
  using assms
proof (induction k arbitrary: i)
  case 0
  then show ?case by (simp add: first_free_def)
next
  case (Suc k)
  have split: "first_free bm (i * 32) ((i + Suc k) * 32) =
      (case first_free bm (i * 32) (i * 32 + 32) of Some n \<Rightarrow> Some n
       | None \<Rightarrow> first_free bm (Suc i * 32) ((Suc i + k) * 32))"
    using first_free_append [of "i * 32" "i * 32 + 32" "(i + Suc k) * 32" bm]
    by (simp add: algebra_simps cong: option.case_cong)
  have bits: "process_bits i 0 1 32 bm =
      Inr (map_option addr_of_frame (first_free bm (i * 32) (i * 32 + 32)))"
    using process_bits_first_free [of i 0 32 bm] Suc.prems by simp
  have IH: "process_words (i + 1) k bm =
      Inr (map_option addr_of_frame (first_free bm (Suc i * 32) ((Suc i + k) * 32)))"
    using Suc.IH [of "i + 1"] Suc.prems by (simp only: Suc_eq_plus1)
  show ?case
    unfolding process_words.simps split bits IH using first_free_full [of bm i "i * 32"]
    by (simp split: option.split)
qed

lemma process_search:
  assumes "bm 0 = 0xFFFFFFFF"
  shows "process_words 0 32768 bm = Inr (map_option addr_of_frame (first_free bm 0 1048576))"
proof -
  have "first_free bm 0 32 = None"
    using first_free_full [of bm 0 0] assms by simp
  then have "first_free bm 0 1048576 = first_free bm 32 1048576"
    using first_free_append [of 0 32 1048576 bm] by simp
  moreover have "process_words 0 (Suc 32767) bm = process_words 1 32767 bm"
    unfolding process_words.simps using assms by simp
  ultimately show ?thesis
    using process_words_first_free [of 1 32767 bm] by simp
qed

lemma process_search_hang:
  assumes "bm 0 \<noteq> 0xFFFFFFFF"
  shows "process_words 0 32768 bm = Inl Hang"
proof -
  have "process_bits 0 0 1 (Suc 31) bm = Inl Hang"
    unfolding process_bits_step by (simp add: addr_of_frame_def)
  then have "process_words 0 (Suc 32767) bm = Inl Hang"
    unfolding process_words.simps using assms by simp
  then show ?thesis by simp
qed

lemma addr_of_frame_less:
  "n < 1048576 \<Longrightarrow> m < 1048576 \<Longrightarrow> addr_of_frame n < addr_of_frame m \<longleftrightarrow> n < m"
  by (simp add: word_less_nat_alt unat_addr_of_frame)

lemma kernel_bits_first_free:
  assumes "i < 32768" "p + k \<le> 32" "lo < 1048576"
  shows "kernel_bits (addr_of_frame lo) i p (2 ^ p) k bm =
    map_option addr_of_frame (first_free bm (max lo (i * 32 + p)) (i * 32 + p + k))"
  using assms
proof (induction k arbitrary: p)
  case 0
  then show ?case by (simp add: first_free_def)
next
  case (Suc k)
  have less: "addr_of_frame (i * 32 + p) < addr_of_frame lo \<longleftrightarrow> i * 32 + p < lo"
    using Suc.prems by (intro addr_of_frame_less) auto
  have IH: "kernel_bits (addr_of_frame lo) i (p + 1) (2 * 2 ^ p) k bm =
    map_option addr_of_frame (first_free bm (max lo (i * 32 + (p + 1))) (i * 32 + (p + 1) + k))"
    using Suc.prems Suc.IH [of "p + 1"] by simp
  show ?case
  proof (cases "i * 32 + p < lo")
    case True
    then show ?thesis unfolding kernel_bits_step less IH by (simp add: max_absorb1)
  next
    case False
    then show ?thesis
      unfolding kernel_bits_step less IH using Suc.prems first_free_word [of p k bm i]
      by (simp add: and_exp_eq_0_iff_not_bit max_def)
  qed
qed

lemma kernel_words_first_free:
  assumes "i + k \<le> 32768" "lo < 1048576" "lo \<le> i * 32 + 32"
  shows "kernel_words (addr_of_frame lo) i k bm =
    map_option addr_of_frame (first_free bm (max lo (i * 32)) ((i + k) * 32))"
  using assms
proof (induction k arbitrary: i)
  case 0
  then show ?case by (simp add: first_free_def)
next
  case (Suc k)
  have mx: "max lo (Suc i * 32) = i * 32 + 32" using Suc.prems by simp
  have split: "first_free bm (max lo (i * 32)) ((i + Suc k) * 32) =
      (case first_free bm (max lo (i * 32)) (i * 32 + 32) of Some n \<Rightarrow> Some n
       | None \<Rightarrow> first_free bm (i * 32 + 32) ((Suc i + k) * 32))"
    using first_free_append [of "max lo (i * 32)" "i * 32 + 32" "(i + Suc k) * 32" bm] Suc.prems
    by (simp add: algebra_simps cong: option.case_cong)
  have bits: "kernel_bits (addr_of_frame lo) i 0 1 32 bm =
      map_option addr_of_frame (first_free bm (max lo (i * 32)) (i * 32 + 32))"
    using kernel_bits_first_free [of i 0 32 lo bm] Suc.prems by simp
  have IH: "kernel_words (addr_of_frame lo) (i + 1) k bm =
      map_option addr_of_frame (first_free bm (i * 32 + 32) ((Suc i + k) * 32))"
    using Suc.IH [of "i + 1"] Suc.prems mx by (simp only: Suc_eq_plus1) simp
  show ?case
    unfolding kernel_words.simps split bits IH using first_free_full [of bm i "max lo (i * 32)"]
    by (simp split: option.split)
qed


definition safe_frame :: "kstate \<Rightarrow> nat" where
  "safe_frame s = frame_of (heap_start s - 0xC0000000 + 4095)"

lemma kernel_search:
  "kernel_words ((heap_start s - 0xC0000000 + 4095) AND NOT 0xFFF)
     (unat (((heap_start s - 0xC0000000 + 4095) AND NOT 0xFFF) div 4096 div 32))
     (bitmap_size - unat (((heap_start s - 0xC0000000 + 4095) AND NOT 0xFFF) div 4096 div 32)) bm =
   map_option addr_of_frame (first_free bm (safe_frame s) 1048576)"
proof -
  let ?L = "safe_frame s"
  have L: "?L < 1048576" by (simp add: safe_frame_def frame_of_lt)
  have start: "(heap_start s - 0xC0000000 + 4095) AND NOT 0xFFF = addr_of_frame ?L"
    unfolding page_of_def [symmetric] safe_frame_def by (rule page_of_eq_addr_of_frame)
  have idx: "unat (addr_of_frame ?L div 4096 div 32) = ?L div 32"
    using L by (simp add: unat_div_distrib unat_addr_of_frame)
  have "?L div 32 < 32768" using L by simp
  then have "kernel_words (addr_of_frame ?L) (?L div 32) (32768 - ?L div 32) bm =
     map_option addr_of_frame (first_free bm (max ?L (?L div 32 * 32)) (32768 * 32))"
    using L kernel_words_first_free [of "?L div 32" "32768 - ?L div 32" ?L bm] by simp
  moreover have "max ?L (?L div 32 * 32) = ?L" by (simp add: max_absorb1)
  ultimately show ?thesis unfolding start idx bitmap_size_def by simp
qed

definition take_frame :: "nat \<Rightarrow> kstate \<Rightarrow> kstate" where
  "take_frame n s = s\<lparr>bitmap := mark_bit n (bitmap s), used_frames := used_frames s + 1\<rparr>"

lemma get_next_free_kernel_frame_eq:
  "get_next_free_kernel_frame s =
     (case first_free (bitmap s) (safe_frame s) 1048576 of
        Some n \<Rightarrow> bnd (set_frame (addr_of_frame n))
          (\<lambda>_. bnd increment_used_frames (\<lambda>_. ret (addr_of_frame n))) s
      | None \<Rightarrow> Inr (0, s))"
  unfolding get_next_free_kernel_frame_def Let_def
  by (subst bnd_Inr, rule gets_run, subst bnd_Inr, rule gets_run)
     (unfold kernel_search, simp split: option.split)

lemma get_next_free_process_frame_eq:
  assumes "bitmap s 0 = 0xFFFFFFFF"
  shows "get_next_free_process_frame s =
     (case first_free (bitmap s) 0 1048576 of
        Some n \<Rightarrow> bnd (set_frame (addr_of_frame n))
          (\<lambda>_. bnd increment_used_frames (\<lambda>_. ret (addr_of_frame n))) s
      | None \<Rightarrow> Inr (0, s))"
  using assms
  by (simp add: get_next_free_process_frame_def bitmap_size_def process_search split: option.split)

lemma set_and_count_low:
  "n < 524288 \<Longrightarrow> bnd (set_frame (addr_of_frame n))
      (\<lambda>_. bnd increment_used_frames (\<lambda>_. ret (addr_of_frame n))) s = Inr (addr_of_frame n, take_frame n s)"
  by (simp add: increment_used_frames_def set_frame_low frame_of_addr_of_frame take_frame_def)

lemma get_next_free_process_frame_hang:
  assumes "bitmap s 0 \<noteq> 0xFFFFFFFF"
  shows "get_next_free_process_frame s = Inl Hang"
  using assms by (simp add: get_next_free_process_frame_def bitmap_size_def process_search_hang)

text \<open>the high regions\<close>

lemma sint_addr_of_frame_high:
  "524288 \<le> n \<Longrightarrow> n < 1048576 \<Longrightarrow> sint (addr_of_frame n) = (int n - 1048576) * 4096"
  by (simp add: sint_large unat_addr_of_frame)

lemma sint_word_of_int: "- 2147483648 \<le> i \<Longrightarrow> i < 2147483648 \<Longrightarrow> sint (word_of_int i :: u32) = i"
  by (simp add: int_word_sint)

lemma set_frame_middle:
  assumes "524288 \<le> n" "n < 786432"
  shows "set_frame (addr_of_frame n) s = Inl (OutOfBounds (- int ((1048576 - n) div 32)))"
proof -
  let ?k = "1048576 - n"
  have "sint (addr_of_frame n) = - int ?k * 4096"
    using assms by (simp add: sint_addr_of_frame_high of_nat_diff)
  then have page: "calculate_page (addr_of_frame n) = word_of_int (- int ?k)"
    by (simp add: calculate_page_def signed_divide_int_def sgn_mult abs_mult)
  have s1: "sint (word_of_int (- int ?k) :: u32) = - int ?k"
    using assms by (intro sint_word_of_int) auto
  have idx: "find_index (word_of_int (- int ?k)) = word_of_int (- int (?k div 32))"
    unfolding find_index_def s1 using assms by (simp add: signed_divide_int_def sgn_if zdiv_int)
  have s2: "sint (word_of_int (- int (?k div 32)) :: u32) = - int (?k div 32)"
    using assms by (intro sint_word_of_int) auto
  have "0 < ?k div 32" using assms by simp
  moreover have "is_physical (addr_of_frame n)"
    using assms by (simp add: is_physical_def word_less_nat_alt unat_addr_of_frame)
  ultimately show ?thesis
    unfolding set_frame_def Let_def page idx s2 
    by (simp add: set_bit_def ALLOCATE_def)
qed


lemma set_frame_top:
  assumes "786432 \<le> n" "n < 1048576"
  shows "\<exists>v. set_frame (addr_of_frame n) s = Inr ((), s\<lparr>console := v\<rparr>)"
proof -
  have "\<not> is_physical (addr_of_frame n)"
    using assms by (simp add: is_physical_def word_less_nat_alt unat_addr_of_frame)
  then show ?thesis by (auto simp: set_frame_def assert_failed_def)
qed

section \<open>Initialisation\<close>

definition layout_ok :: "kstate \<Rightarrow> bool" where
  "layout_ok s \<longleftrightarrow> page_aligned (kernel_page_dir s) \<and> 0xC0100000 \<le> kernel_page_dir s
     \<and> kernel_page_dir s \<le> 0xC0400000 - 258 * 4096"

lemma heap_start_unat:
  "layout_ok s \<Longrightarrow> unat (heap_start s) = unat (kernel_page_dir s) + 258 * 4096"
  by (simp add: layout_ok_def heap_start_def kernel_page_tables_base_def kernel_page_table_def
      word_le_nat_alt unat_word_ariths)

lemma safe_frame_unat:
  assumes "layout_ok s"
  shows "heap_start s - 0xC0000000 = addr_of_frame (safe_frame s)"
    and "safe_frame s = frame_of (kernel_page_dir s) - 786432 + 258"
proof -
  from assms obtain k where k: "unat (kernel_page_dir s) = 4096 * k"
    by (auto simp: layout_ok_def page_aligned_iff)
  with assms have b: "786688 \<le> k" "k \<le> 787198"
    by (auto simp: layout_ok_def word_le_nat_alt)
  have u: "unat (heap_start s - 0xC0000000) = (k - 786432 + 258) * 4096"
    using heap_start_unat [OF assms] k b by (simp add: unat_sub word_le_nat_alt)
  have sf: "safe_frame s = k - 786432 + 258"
  proof -
    have "unat (heap_start s - 0xC0000000 + 4095) = (k - 786432 + 258) * 4096 + 4095"
      using b by (simp only: unat_word_ariths u) simp
    then show ?thesis unfolding safe_frame_def frame_of_def by simp
  qed
  then show "safe_frame s = frame_of (kernel_page_dir s) - 786432 + 258"
    by (simp add: frame_of_def k)
  show "heap_start s - 0xC0000000 = addr_of_frame (safe_frame s)"
    by (rule u32_eqI) (use b in \<open>simp add: unat_addr_of_frame sf u\<close>)
qed

lemma clear_bitmap_eq: "clear_bitmap n b = (\<lambda>i. if i < n then 0 else b i)"
  by (induction n) auto

lemma addr_of_frame_Suc: "addr_of_frame n + 4096 = addr_of_frame (Suc n)"
  by (simp add: addr_of_frame_def algebra_simps)

lemma mark_kernel_run:
  assumes "m \<le> e" "e - m \<le> k" "e \<le> 524288"
  shows "mark_kernel k (addr_of_frame m) (addr_of_frame e) s =
    Inr ((), s\<lparr>bitmap := fold mark_bit [m..<e] (bitmap s),
               used_frames := used_frames s + of_nat (e - m)\<rparr>)"
  using assms
proof (induction k arbitrary: m s)
  case 0
  then show ?case by simp
next
  case (Suc k)
  show ?case
  proof (cases "m < e")
    case True
    then have step: "addr_of_frame m < addr_of_frame e"
      using Suc.prems by (simp add: addr_of_frame_less)
    have "e - m = Suc (e - Suc m)" using True by simp
    then have "of_nat (e - m) = (1 + of_nat (e - Suc m) :: u32)" by (simp only: of_nat_Suc)
    with True step Suc.prems Suc.IH [of "Suc m"] show ?thesis
      by (simp add: set_frame_low frame_of_addr_of_frame increment_used_frames_def
          addr_of_frame_Suc upt_conv_Cons)
  next
    case False
    with Suc.prems have "m = e" by simp
    then show ?thesis by simp
  qed
qed

lemma frame_used_fold_mark: "frame_used (fold mark_bit ns bm) n \<longleftrightarrow> n \<in> set ns \<or> frame_used bm n"
  by (induction ns arbitrary: bm) auto

definition pmm_wf :: "kstate \<Rightarrow> bool" where
  "pmm_wf s \<longleftrightarrow> 32 \<le> safe_frame s \<and> safe_frame s < 0x40000 \<and>
     (\<forall>n < safe_frame s. frame_used (bitmap s) n)"

lemma init_pmm_run:
  assumes "layout_ok s"
  shows "\<exists>s'. init_pmm s = Inr ((), s') \<and> pmm_wf s' \<and> used s' = {n. n < safe_frame s} \<and>
     used_frames s' = used_frames s + of_nat (safe_frame s)
     \<and> s' = s\<lparr>virtual_kernel_memory_end := heap_start s, bitmap := bitmap s', used_frames := used_frames s'\<rparr>"
proof -
  let ?s1 = "s\<lparr>virtual_kernel_memory_end := heap_start s\<rparr>"
  let ?s2 = "?s1\<lparr>bitmap := clear_bitmap bitmap_size (bitmap s)\<rparr>"
  let ?K = "safe_frame s"
  have K: "514 \<le> ?K" "?K \<le> 1024"
    using safe_frame_unat(2) [OF assms] assms
    by (auto simp: layout_ok_def word_le_nat_alt frame_of_def)
  have run: "init_pmm s = Inr ((), ?s2\<lparr>bitmap := fold mark_bit [0..<?K] (bitmap ?s2),
               used_frames := used_frames s + of_nat ?K\<rparr>)"
    using mark_kernel_run [of 0 ?K 1048576 ?s2] K
    by (simp add: init_pmm_def safe_frame_unat(1) [OF assms] addr_of_frame_def [of 0] )
  have "frame_used (bitmap ?s2) n \<Longrightarrow> 1048576 \<le> n" for n
    by (simp add: frame_used_def clear_bitmap_eq bitmap_size_def split: if_splits)
  then show ?thesis using K
    by (force simp: run pmm_wf_def used_def frame_used_fold_mark safe_frame_def heap_start_def
        kernel_page_tables_base_def kernel_page_table_def)
qed


section \<open>The contract the two searches share\<close>

text \<open>The free frames of the direct map, the first gigabyte of physical memory.\<close>

definition free_low :: "kstate \<Rightarrow> nat set" where
  "free_low s = {n. safe_frame s \<le> n \<and> n < 0x40000 \<and> \<not> frame_used (bitmap s) n}"

lemma free_lowD:
  assumes "n \<in> free_low s"
  shows "safe_frame s \<le> n" "n < 0x40000" "\<not> frame_used (bitmap s) n" "n < 524288" "n < 1048576"
  using assms by (auto simp: free_low_def)

lemma finite_free_low [simp]: "finite (free_low s)"
  by (rule finite_subset [of _ "{..<0x40000}"]) (auto simp: free_low_def)

lemma safe_frame_take [simp]: "safe_frame (take_frame n s) = safe_frame s"
  by (simp add: safe_frame_def take_frame_def heap_start_def kernel_page_tables_base_def kernel_page_table_def)

lemma free_low_take: "free_low (take_frame n s) = free_low s - {n}"
  by (auto simp: free_low_def) (auto simp: take_frame_def)

lemma pmm_wf_take: "pmm_wf s \<Longrightarrow> pmm_wf (take_frame n s)"
  by (simp add: pmm_wf_def) (simp add: take_frame_def)

lemma used_take: "n < 1048576 \<Longrightarrow> used (take_frame n s) = insert n (used s)"
  by (auto simp: used_def take_frame_def)

lemma free_low_not_used: "n \<in> free_low s \<Longrightarrow> n \<notin> used s"
  by (simp add: free_low_def used_def)

lemma first_free_Min:
  assumes "free_low s \<noteq> {}"
  shows "first_free (bitmap s) (safe_frame s) 1048576 = Some (Min (free_low s))"
proof -
  let ?n = "Min (free_low s)"
  have n: "?n \<in> free_low s" using assms by simp
  have "frame_used (bitmap s) m" if "safe_frame s \<le> m" "m < ?n" for m
  proof (rule ccontr)
    assume "\<not> frame_used (bitmap s) m"
    with that n have "m \<in> free_low s" by (auto simp: free_low_def)
    then have "?n \<le> m" by simp
    with that show False by simp
  qed
  moreover from n have "safe_frame s \<le> ?n" "?n < 1048576" "\<not> frame_used (bitmap s) ?n"
    by (auto dest: free_lowD)
  ultimately show ?thesis unfolding first_free_Some_iff by blast
qed

locale frame_source =
  fixes alloc :: "u32 kop"
  assumes alloc_least: "pmm_wf s \<Longrightarrow> free_low s \<noteq> {} \<Longrightarrow>
    alloc s = Inr (addr_of_frame (Min (free_low s)), take_frame (Min (free_low s)) s)"
begin

lemma alloc_frame:
  assumes "pmm_wf s" "free_low s \<noteq> {}"
  obtains n where "alloc s = Inr (addr_of_frame n, take_frame n s)" "n \<in> free_low s"
  using alloc_least [OF assms] assms(2) by auto

lemma alloc_keeps_wf:
  assumes "pmm_wf s" "free_low s \<noteq> {}" "alloc s = Inr (a, s')"
  shows "pmm_wf s'" "free_low s' = free_low s - {frame_of a}" "used s' = insert (frame_of a) (used s)"
    "frame_of a \<notin> used s" "page_aligned a" "unat a < 0x40000000"
proof -
  from assms(1,2) obtain n where n: "alloc s = Inr (addr_of_frame n, take_frame n s)" "n \<in> free_low s"
    by (rule alloc_frame)
  then have "n < 0x40000" by (simp add: free_low_def)
  then show "pmm_wf s'" "free_low s' = free_low s - {frame_of a}" "used s' = insert (frame_of a) (used s)"
    "frame_of a \<notin> used s" "page_aligned a" "unat a < 0x40000000"
    using n assms
    by (auto simp: pmm_wf_take free_low_take used_take frame_of_addr_of_frame free_low_not_used
        page_aligned_addr_of_frame unat_addr_of_frame)
qed

lemma alloc_twice_distinct:
  assumes "pmm_wf s" "2 \<le> card (free_low s)"
  shows "\<exists>a s1 b s2. alloc s = Inr (a, s1) \<and> alloc s1 = Inr (b, s2) \<and> a \<noteq> b
    \<and> used s2 = {frame_of a, frame_of b} \<union> used s"
proof -
  have ne: "free_low s \<noteq> {}" using assms(2) by auto
  from assms(1) ne obtain n where n: "alloc s = Inr (addr_of_frame n, take_frame n s)" "n \<in> free_low s"
    by (rule alloc_frame)
  have "card (free_low (take_frame n s)) \<ge> 1"
    using assms(2) n(2) by (simp add: free_low_take)
  then have ne1: "free_low (take_frame n s) \<noteq> {}" by auto
  from pmm_wf_take [OF assms(1)] ne1 obtain m where m:
    "alloc (take_frame n s) = Inr (addr_of_frame m, take_frame m (take_frame n s))"
    "m \<in> free_low (take_frame n s)"
    by (rule alloc_frame)
  from m(2) have "m \<noteq> n" "m < 0x40000" by (auto simp: free_low_take dest: free_lowD)
  moreover from n(2) have "n < 0x40000" by (simp add: free_low_def)
  ultimately have "addr_of_frame n \<noteq> addr_of_frame m"
    using addr_of_frame_less [of n m] addr_of_frame_less [of m n] by auto
  with n m \<open>m < 0x40000\<close> \<open>n < 0x40000\<close> show ?thesis
    by (auto simp: used_take frame_of_addr_of_frame)
qed

end

interpretation kernel_frames: frame_source get_next_free_kernel_frame
proof
  fix s assume a: "pmm_wf s" "free_low s \<noteq> {}"
  then have "Min (free_low s) \<in> free_low s" by simp
  then have "Min (free_low s) < 524288" by (rule free_lowD)
  with a show "get_next_free_kernel_frame s =
      Inr (addr_of_frame (Min (free_low s)), take_frame (Min (free_low s)) s)"
    by (simp add: get_next_free_kernel_frame_eq first_free_Min set_and_count_low del: Min_less_iff)
qed

lemma pmm_wf_word0: "pmm_wf s \<Longrightarrow> bitmap s 0 = 0xFFFFFFFF"
  by (auto simp: full_word pmm_wf_def frame_used_def) (metis div_less mod_less less_le_trans)

lemma pmm_wf_first_free:
  "pmm_wf s \<Longrightarrow> first_free (bitmap s) 0 1048576 = first_free (bitmap s) (safe_frame s) 1048576"
  using first_free_append [of 0 "safe_frame s" 1048576 "bitmap s"]
    first_free_None_iff [of "bitmap s" 0 "safe_frame s"]
  by (simp add: pmm_wf_def)

interpretation process_frames: frame_source get_next_free_process_frame
proof
  fix s assume a: "pmm_wf s" "free_low s \<noteq> {}"
  then have "Min (free_low s) \<in> free_low s" by simp
  then have "Min (free_low s) < 524288" by (rule free_lowD)
  with a show "get_next_free_process_frame s =
      Inr (addr_of_frame (Min (free_low s)), take_frame (Min (free_low s)) s)"
    by (simp add: get_next_free_process_frame_eq pmm_wf_word0 pmm_wf_first_free first_free_Min
        set_and_count_low del: Min_less_iff)
qed

section \<open>Properties\<close>

lemma free_low_used: "free_low s = {safe_frame s..<0x40000} - used s"
  by (auto simp: free_low_def used_def)

lemma all_used:
  assumes "used s = {..<1048576}"
  shows "bitmap s 0 = 0xFFFFFFFF" "first_free (bitmap s) lo 1048576 = None"
proof -
  have u: "frame_used (bitmap s) n" if "n < 1048576" for n
    using assms that by (auto simp: used_def)
  then show "first_free (bitmap s) lo 1048576 = None" by (simp add: first_free_None_iff)
  have "bit (bitmap s 0) b" if "b < 32" for b
    using u [of b] that by (simp add: frame_used_def)
  then show "bitmap s 0 = 0xFFFFFFFF" by (simp add: full_word)
qed

text \<open>Concrete bitmaps: the first \<open>k\<close> words full, the rest empty.\<close>

definition filled :: "nat \<Rightarrow> kstate" where
  "filled k = demo_state\<lparr>bitmap := (\<lambda>i. if i < k then 0xFFFFFFFF else 0)\<rparr>"

lemma safe_frame_filled [simp]: "safe_frame (filled k) = 770"
  by (simp add: filled_def safe_frame_def demo_state_def heap_start_def kernel_page_tables_base_def
      kernel_page_table_def frame_of_def)

lemma frame_used_filled [simp]: "frame_used (bitmap (filled k)) n \<longleftrightarrow> n div 32 < k"
proof -
  have "bit (0xFFFFFFFF :: u32) (n mod 32)" using full_word [of "0xFFFFFFFF"] by simp
  then show ?thesis by (simp add: filled_def frame_used_def)
qed

lemma pmm_wf_filled: "25 \<le> k \<Longrightarrow> pmm_wf (filled k)"
  by (auto simp: pmm_wf_def)

lemma free_low_filled: "25 \<le> k \<Longrightarrow> free_low (filled k) = {32 * k..<0x40000}"
  by (auto simp: free_low_def)

lemma used_filled: "k \<le> 32768 \<Longrightarrow> used (filled k) = {..<32 * k}"
  by (auto simp: used_def)

lemma first_free_filled: "lo \<le> 32 * k \<Longrightarrow> k < 32768 \<Longrightarrow> first_free (bitmap (filled k)) lo 1048576 = Some (32 * k)"
  by (auto simp: first_free_Some_iff)

text \<open>
  C20: \<^verbatim>\<open>get_next_free_process_frame\<close>, on a bitmap in which the kernel image is marked and some frame of the
  first gigabyte is free, returns the address of the lowest free frame; it marks that frame and no
  other, adds one to \<^verbatim>\<open>used_frames\<close> and changes nothing else.
\<close>

theorem process_frame_alloc:
  assumes "pmm_wf s" "free_low s \<noteq> {}"
  shows "\<exists>n s'. get_next_free_process_frame s = Inr (addr_of_frame n, s') \<and> n \<notin> used s \<and> n < 0x40000
     \<and> (\<forall>m<1048576. m \<notin> used s \<longrightarrow> n \<le> m) \<and> used s' = insert n (used s)
     \<and> s' = s\<lparr>bitmap := bitmap s', used_frames := used_frames s + 1\<rparr> \<and> pmm_wf s'"
proof -
  let ?n = "Min (free_low s)"
  have n: "?n \<in> free_low s" using assms(2) by simp
  have "?n \<le> m" if "m < 1048576" "m \<notin> used s" for m
  proof (cases "m < 0x40000")
    case True
    have "safe_frame s \<le> m" using assms(1) that by (auto simp: pmm_wf_def used_def) (meson not_le)
    with True that have "m \<in> free_low s" by (simp add: free_low_used)
    then show ?thesis by simp
  next
    case False
    then show ?thesis using free_lowD(2) [OF n] by simp
  qed
  then show ?thesis
    using process_frames.alloc_least [OF assms] free_low_not_used [OF n] free_lowD [OF n]
      used_take [of ?n s] pmm_wf_take [OF assms(1), of ?n]
    by (intro exI [of _ ?n] exI [of _ "take_frame ?n s"]) (simp add: take_frame_def del: Min_less_iff Min_le_iff)
qed

theorem process_frame_alloc_witness:
  "\<exists>n s'. get_next_free_process_frame (filled 25) = Inr (addr_of_frame n, s') \<and> n \<notin> used (filled 25) \<and> n < 0x40000
     \<and> (\<forall>m<1048576. m \<notin> used (filled 25) \<longrightarrow> n \<le> m) \<and> used s' = insert n (used (filled 25))
     \<and> s' = (filled 25)\<lparr>bitmap := bitmap s', used_frames := used_frames (filled 25) + 1\<rparr> \<and> pmm_wf s'"
  by (rule process_frame_alloc) (simp_all add: pmm_wf_filled free_low_filled)

text \<open>
  Two successive calls of \<^verbatim>\<open>get_next_free_kernel_frame\<close> return two different frames, each of them
  above the kernel image and free before, and mark these two frames and no other.
\<close>

theorem kernel_frames_distinct:
  assumes "pmm_wf s" "2 \<le> card (free_low s)"
  shows "\<exists>a t b u. get_next_free_kernel_frame s = Inr (a, t) \<and> get_next_free_kernel_frame t = Inr (b, u)
     \<and> a \<noteq> b \<and> frame_of a \<notin> used s \<and> frame_of b \<notin> used s
     \<and> safe_frame s \<le> frame_of a \<and> safe_frame s \<le> frame_of b \<and> used u = {frame_of a, frame_of b} \<union> used s"
proof -
  have ne: "free_low s \<noteq> {}" using assms(2) by auto
  from kernel_frames.alloc_twice_distinct [OF assms] obtain a t b u where
    r: "get_next_free_kernel_frame s = Inr (a, t)" "get_next_free_kernel_frame t = Inr (b, u)" "a \<noteq> b"
      "used u = {frame_of a, frame_of b} \<union> used s" by blast
  note a = kernel_frames.alloc_keeps_wf [OF assms(1) ne r(1)]
  obtain n where n: "get_next_free_kernel_frame s = Inr (addr_of_frame n, take_frame n s)" "n \<in> free_low s"
    by (rule kernel_frames.alloc_frame [OF assms(1) ne])
  then have t: "t = take_frame n s" "a = addr_of_frame n" using r(1) by auto
  have "1 \<le> card (free_low t)" using assms(2) n(2) by (simp add: t free_low_take)
  then have ne': "free_low t \<noteq> {}" by auto
  obtain m where m: "get_next_free_kernel_frame t = Inr (addr_of_frame m, take_frame m t)" "m \<in> free_low t"
    by (rule kernel_frames.alloc_frame [OF a(1) ne'])
  then have b: "b = addr_of_frame m" using r(2) by auto
  have fr: "frame_of a = n" "frame_of b = m"
    using free_lowD(5) [OF n(2)] free_lowD(5) [OF m(2)] by (simp_all add: t b frame_of_addr_of_frame)
  have "m \<in> free_low s" using m(2) by (simp add: t free_low_take)
  then show ?thesis using r n(2) fr by (auto dest: free_low_not_used free_lowD(1))
qed

theorem kernel_frames_distinct_witness:
  "\<exists>a t b u. get_next_free_kernel_frame (filled 25) = Inr (a, t) \<and> get_next_free_kernel_frame t = Inr (b, u)
     \<and> a \<noteq> b \<and> frame_of a \<notin> used (filled 25) \<and> frame_of b \<notin> used (filled 25)
     \<and> safe_frame (filled 25) \<le> frame_of a \<and> safe_frame (filled 25) \<le> frame_of b
     \<and> used u = {frame_of a, frame_of b} \<union> used (filled 25)"
  by (rule kernel_frames_distinct) (simp_all add: pmm_wf_filled free_low_filled)

text \<open>
  C32: the search of \<^verbatim>\<open>get_next_free_process_frame\<close> never ends exactly when the first word of the bitmap is
  not full: it stops at frame 0, whose address it takes for an error, before it looks at its bit.
\<close>

theorem process_frame_hang:
  "get_next_free_process_frame s = Inl Hang \<longleftrightarrow> bitmap s 0 \<noteq> 0xFFFFFFFF"
proof
  assume h: "get_next_free_process_frame s = Inl Hang"
  show "bitmap s 0 \<noteq> 0xFFFFFFFF"
  proof
    assume full: "bitmap s 0 = 0xFFFFFFFF"
    show False
    proof (cases "first_free (bitmap s) 0 1048576")
      case None
      with h full show False by (simp add: get_next_free_process_frame_eq)
    next
      case (Some n)
      then have "n < 1048576" by (simp add: first_free_Some_iff)
      then consider "n < 524288" | "524288 \<le> n" "n < 786432" | "786432 \<le> n" "n < 1048576" by linarith
      then show False
      proof cases
        case 1
        with h full Some show False by (simp add: get_next_free_process_frame_eq set_and_count_low)
      next
        case 2
        with h full Some show False by (simp add: get_next_free_process_frame_eq set_frame_middle)
      next
        case 3
        from set_frame_top [OF 3, of s] obtain v where "set_frame (addr_of_frame n) s = Inr ((), s\<lparr>console := v\<rparr>)" ..
        with h full Some show False by (simp add: get_next_free_process_frame_eq increment_used_frames_def)
      qed
    qed
  qed
qed (rule get_next_free_process_frame_hang)

text \<open>
  When every frame is marked, both searches return 0, the value their callers test, and leave the
  state as it is.
\<close>

theorem frames_exhausted:
  assumes "used s = {..<1048576}"
  shows "get_next_free_process_frame s = Inr (0, s) \<and> get_next_free_kernel_frame s = Inr (0, s)"
  using all_used [OF assms] by (simp add: get_next_free_process_frame_eq get_next_free_kernel_frame_eq)

theorem frames_exhausted_witness:
  "get_next_free_process_frame (filled 32768) = Inr (0, filled 32768)
   \<and> get_next_free_kernel_frame (filled 32768) = Inr (0, filled 32768)"
  using frames_exhausted [of "filled 32768"] used_filled [of 32768] by simp

text \<open>
  C33: a frame at or above 3 GB is handed out but never marked (\<^verbatim>\<open>set_frame\<close> takes its address for a virtual
  one and returns), so the next call hands out the same frame again; only the console and the
  count of used frames change.
\<close>

theorem top_frame_handed_out_twice:
  assumes "bitmap s 0 = 0xFFFFFFFF" "first_free (bitmap s) 0 1048576 = Some n" "786432 \<le> n"
  shows "\<exists>t u. get_next_free_process_frame s = Inr (addr_of_frame n, t)
     \<and> get_next_free_process_frame t = Inr (addr_of_frame n, u) \<and> used u = used s \<and> used_frames u = used_frames s + 2"
proof -
  have n: "786432 \<le> n" "n < 1048576" using assms(2,3) by (auto simp: first_free_Some_iff)
  have step: "\<exists>v. get_next_free_process_frame w = Inr (addr_of_frame n, w\<lparr>console := v, used_frames := used_frames w + 1\<rparr>)"
    if "bitmap w = bitmap s" for w
  proof -
    from set_frame_top [OF n, of w] obtain v where "set_frame (addr_of_frame n) w = Inr ((), w\<lparr>console := v\<rparr>)" ..
    then show ?thesis using assms that
      by (intro exI [of _ v]) (simp add: get_next_free_process_frame_eq increment_used_frames_def)
  qed
  from step [of s] obtain v where v:
    "get_next_free_process_frame s = Inr (addr_of_frame n, s\<lparr>console := v, used_frames := used_frames s + 1\<rparr>)"
    by auto
  from step [of "s\<lparr>console := v, used_frames := used_frames s + 1\<rparr>"] show ?thesis
    unfolding v by (auto simp: used_def)
qed

theorem top_frame_handed_out_twice_witness:
  "\<exists>t u. get_next_free_process_frame (filled 24576) = Inr (addr_of_frame 786432, t)
     \<and> get_next_free_process_frame t = Inr (addr_of_frame 786432, u)
     \<and> used u = used (filled 24576) \<and> used_frames u = used_frames (filled 24576) + 2"
  by (rule top_frame_handed_out_twice) (simp_all add: first_free_filled, simp add: filled_def)

text \<open>
  Once every frame below 2 GB is used, the allocators compute a negative index into the bitmap for
  the next frame (the parameters of \<^verbatim>\<open>calculate_page\<close> and \<^verbatim>\<open>find_index\<close> are signed) and write outside it.
\<close>

theorem middle_frame_out_of_bounds:
  assumes "bitmap s 0 = 0xFFFFFFFF" "first_free (bitmap s) 0 1048576 = Some n" "524288 \<le> n" "n < 786432"
  shows "get_next_free_process_frame s = Inl (OutOfBounds (- int ((1048576 - n) div 32)))"
  using assms by (simp add: get_next_free_process_frame_eq set_frame_middle)

theorem middle_frame_out_of_bounds_witness:
  "get_next_free_process_frame (filled 16384) = Inl (OutOfBounds (- 16384))"
  using middle_frame_out_of_bounds [of "filled 16384" 524288] first_free_filled [of 0 16384]
  by (simp add: filled_def)

text \<open>
  \<^verbatim>\<open>init_pmm\<close> marks exactly the frames from 0 to the end of the kernel image, counts them, and
  establishes the state in which both searches are correct.
\<close>

theorem init_pmm_marks_kernel:
  assumes "layout_ok s"
  shows "\<exists>s'. init_pmm s = Inr ((), s') \<and> pmm_wf s' \<and> used s' = {n. n < safe_frame s}
     \<and> safe_frame s = (unat (heap_start s) - 0xC0000000) div 4096
     \<and> used_frames s' = used_frames s + of_nat (safe_frame s)"
proof -
  have "0xC0000000 \<le> heap_start s"
    using assms heap_start_unat [OF assms] by (simp add: layout_ok_def word_le_nat_alt)
  then have "unat (heap_start s) - 0xC0000000 = unat (heap_start s - 0xC0000000)"
    by (simp add: unat_sub word_le_nat_alt)
  also have "\<dots> = safe_frame s * 4096"
    unfolding safe_frame_unat(1) [OF assms]
    by (rule unat_addr_of_frame) (simp add: safe_frame_def frame_of_lt)
  finally have "safe_frame s = (unat (heap_start s) - 0xC0000000) div 4096" by simp
  then show ?thesis using init_pmm_run [OF assms] by auto
qed

theorem init_pmm_marks_kernel_witness:
  "\<exists>s'. init_pmm demo_state = Inr ((), s') \<and> pmm_wf s' \<and> used s' = {n. n < safe_frame demo_state}
     \<and> safe_frame demo_state = (unat (heap_start demo_state) - 0xC0000000) div 4096
     \<and> used_frames s' = used_frames demo_state + of_nat (safe_frame demo_state)"
  by (rule init_pmm_marks_kernel) (simp add: layout_ok_def demo_state_def page_aligned_def)

text \<open>
  Marking a free frame below 2 GB and clearing it again gives back the bitmap it started from.
\<close>

theorem set_clear_frame:
  assumes "frame_of a < 524288" "\<not> frame_used (bitmap s) (frame_of a)"
  shows "\<exists>w. bnd (set_frame a) (\<lambda>_. clear_frame a) s = Inr (w, s)"
proof -
  have "unmark_bit n (mark_bit n bm) = bm" if "\<not> frame_used bm n" for n bm
  proof (rule ext)
    fix i
    have "(w OR push_bit b 1) AND NOT (push_bit b 1) = w" if "\<not> bit w b" for w :: u32 and b
      using that by (intro bit_word_eqI) (auto simp: bit_simps)
    then show "unmark_bit n (mark_bit n bm) i = bm i"
      using that by (auto simp: unmark_bit_def mark_bit_def frame_used_def)
  qed
  then show ?thesis
    using clear_frame_low [OF assms(1), of "s\<lparr>bitmap := mark_bit (frame_of a) (bitmap s)\<rparr>"] assms
    by (auto simp: set_frame_low)
qed

theorem set_clear_frame_witness:
  "\<exists>w. bnd (set_frame 0x400000) (\<lambda>_. clear_frame 0x400000) (filled 25) = Inr (w, filled 25)"
  by (rule set_clear_frame) (simp_all add: frame_of_def)

end
