(* ===== verification/Mmu.thy ===== *)
theory Mmu
  imports Pmm
begin

unbundle bit_operations_syntax

text \<open>
  The x86 memory management unit as the kernel uses it: the two-level walk of a page directory,
  with 4 MB pages (bit 7 of a directory entry), and the loads and stores that go through it.
  The kernel runs in ring 0 with \<^verbatim>\<open>CR0.WP\<close> clear, so only the present bits decide.  The
  translation lookaside buffer is not modelled: every access walks the tables, as if each
  \<^verbatim>\<open>invlpg\<close> of the source had its effect at once.
\<close>

definition translate :: "(u32 \<Rightarrow> u32) \<Rightarrow> u32 \<Rightarrow> u32 \<Rightarrow> u32 option" where
  "translate m pd va =
     (let pde = m (page_of pd + 4 * drop_bit 22 va) in
      if pde AND 1 = 0 then None
      else if pde AND 0x80 \<noteq> 0 then Some ((pde AND 0xFFC00000) OR (va AND 0x3FFFFF))
      else let pte = m (page_of pde + 4 * (drop_bit 12 va AND 0x3FF)) in
        if pte AND 1 = 0 then None else Some (page_of pte OR (va AND 0xFFF)))"

definition load32 :: "u32 \<Rightarrow> u32 kop" where
  "load32 va = (\<lambda>s.
     if \<not> word_aligned va then Inl (Misaligned va)
     else case translate (mem s) (cr3 s) va of
            None \<Rightarrow> Inl (PageFault va)
          | Some pa \<Rightarrow> Inr (mem s pa, s))"

definition store32 :: "u32 \<Rightarrow> u32 \<Rightarrow> unit kop" where
  "store32 va w = (\<lambda>s.
     if \<not> word_aligned va then Inl (Misaligned va)
     else case translate (mem s) (cr3 s) va of
            None \<Rightarrow> Inl (PageFault va)
          | Some pa \<Rightarrow> Inr ((), s\<lparr>mem := (mem s)(pa := w)\<rparr>))"

section \<open>Slots of directories and tables\<close>

definition slot :: "u32 \<Rightarrow> nat \<Rightarrow> u32" where
  "slot p i = p + 4 * of_nat i"

lemma slot_unat: "page_aligned p \<Longrightarrow> i < 1024 \<Longrightarrow> unat (slot p i) = unat p + 4 * i"
  using unat_slot [of p "of_nat i"] by (simp add: slot_def unat_of_nat word_less_nat_alt)

lemma slot_frame [page_simps]: "page_aligned p \<Longrightarrow> i < 1024 \<Longrightarrow> frame_of (slot p i) = frame_of p"
  using frame_of_slot [of p "of_nat i"] by (simp add: slot_def unat_of_nat word_less_nat_alt)

lemma slot_aligned [page_simps]: "page_aligned p \<Longrightarrow> i < 1024 \<Longrightarrow> word_aligned (slot p i)"
  using word_aligned_slot [of p "of_nat i"] by (simp add: slot_def unat_of_nat word_less_nat_alt)

lemma slot_eq_iff [page_simps]:
  assumes "page_aligned p" "page_aligned q" "i < 1024" "j < 1024"
  shows "slot p i = slot q j \<longleftrightarrow> p = q \<and> i = j"
proof
  assume eq: "slot p i = slot q j"
  with assms have "frame_of p = frame_of q" by (metis slot_frame)
  then have "unat p = unat q" using assms(1,2) by (auto simp: frame_of_def page_aligned_iff)
  with eq assms show "p = q \<and> i = j"
    by (metis add_left_cancel mult_left_cancel slot_unat u32_eqI zero_neq_numeral)
qed simp

lemma slot_neq_frame: "page_aligned p \<Longrightarrow> i < 1024 \<Longrightarrow> frame_of a \<noteq> frame_of p \<Longrightarrow> slot p i \<noteq> a"
  using slot_frame by blast

lemma dir_index_nat: "drop_bit 22 (va::u32) = of_nat (frame_of va div 1024)"
  by (rule u32_eqI)
     (use u32_bound [of va] in \<open>simp add: unat_drop_bit_eq drop_bit_eq_div unat_div_distrib unat_of_nat frame_of_def
       div_mult2_eq [symmetric]\<close>)

lemma table_index_nat: "drop_bit 12 (va::u32) AND 0x3FF = of_nat (frame_of va mod 1024)"
  by (rule u32_eqI)
     (simp add: unat_and_3FF unat_drop_bit_eq drop_bit_eq_div unat_div_distrib unat_of_nat frame_of_def)

lemma page_of_page_aligned: "page_aligned p \<Longrightarrow> page_of p = p"
  by (rule u32_eqI) (simp add: unat_page_of page_aligned_iff)

section \<open>Translation of whole pages\<close>

text \<open>\<open>ptrans m pd p\<close>: the frame that directory \<open>pd\<close> maps page number \<open>p\<close> to, by 4 KB pages.\<close>

definition entry :: "(u32 \<Rightarrow> u32) \<Rightarrow> u32 \<Rightarrow> nat \<Rightarrow> u32" where
  "entry m pd i = m (slot pd i)"

definition present :: "u32 \<Rightarrow> bool" where
  "present e \<longleftrightarrow> e AND 1 \<noteq> 0"

definition ptrans :: "(u32 \<Rightarrow> u32) \<Rightarrow> u32 \<Rightarrow> nat \<Rightarrow> nat option" where
  "ptrans m pd p =
     (let pde = entry m pd (p div 1024) in
      if \<not> present pde then None
      else let pte = entry m (page_of pde) (p mod 1024) in
        if \<not> present pte then None else Some (frame_of pte))"

lemma translate_ptrans:
  assumes "page_aligned pd" "entry m pd (frame_of va div 1024) AND 0x80 = 0"
  shows "translate m pd va =
    map_option (\<lambda>f. addr_of_frame f OR (va AND 0xFFF)) (ptrans m pd (frame_of va))"
  using assms
  by (simp add: translate_def ptrans_def Let_def entry_def slot_def dir_index_nat table_index_nat
      page_of_page_aligned present_def flip: page_of_eq_addr_of_frame)

section \<open>Well-formed directories\<close>

text \<open>
  The frames that directory \<open>pd\<close> reads when it walks entries with an index in \<open>I\<close>: those of its page
  tables.  \<open>utabs\<close> are the tables below 3 GB, \<open>ktabs\<close> those of the kernel half.
\<close>

definition tabs :: "(u32 \<Rightarrow> u32) \<Rightarrow> u32 \<Rightarrow> nat set \<Rightarrow> nat set" where
  "tabs m pd I = {n. \<exists>i\<in>I. present (entry m pd i) \<and> n = frame_of (entry m pd i)}"

abbreviation utabs :: "(u32 \<Rightarrow> u32) \<Rightarrow> u32 \<Rightarrow> nat set" where
  "utabs m pd \<equiv> tabs m pd {..<768}"

abbreviation ktabs :: "(u32 \<Rightarrow> u32) \<Rightarrow> u32 \<Rightarrow> nat set" where
  "ktabs m pd \<equiv> tabs m pd {768..<1024}"

definition pt_frames :: "(u32 \<Rightarrow> u32) \<Rightarrow> u32 \<Rightarrow> nat set" where
  "pt_frames m pd = insert (frame_of pd) (tabs m pd {..<1024})"

text \<open>No 4 MB page, no table used for two entries, and the directory is not one of its tables.\<close>

definition wf_dir :: "(u32 \<Rightarrow> u32) \<Rightarrow> u32 \<Rightarrow> bool" where
  "wf_dir m pd \<longleftrightarrow> page_aligned pd
     \<and> (\<forall>i<1024. present (entry m pd i) \<longrightarrow>
          entry m pd i AND 0x80 = 0 \<and> frame_of (entry m pd i) \<noteq> frame_of pd
          \<and> (\<forall>j<1024. present (entry m pd j) \<longrightarrow> frame_of (entry m pd i) = frame_of (entry m pd j) \<longrightarrow> i = j))"

lemma tabs_split: "tabs m pd {..<1024} = utabs m pd \<union> ktabs m pd"
proof -
  have "{..<1024} = {..<768} \<union> {768..<1024::nat}" by auto
  then have "tabs m pd {..<1024} = tabs m pd ({..<768} \<union> {768..<1024})" by (rule arg_cong)
  then show ?thesis by (simp only: tabs_def bex_Un Collect_disj_eq)
qed

lemma frame_index: "frame_of va div 1024 < 1024"
  using frame_of_lt [of va] by simp

lemma wf_dir_aligned: "wf_dir m pd \<Longrightarrow> page_aligned pd"
  by (simp add: wf_dir_def)

lemma translate_wf:
  assumes "wf_dir m pd"
  shows "translate m pd va =
    map_option (\<lambda>f. addr_of_frame f OR (va AND 0xFFF)) (ptrans m pd (frame_of va))"
proof (cases "present (entry m pd (frame_of va div 1024))")
  case True
  with assms frame_index [of va] have "entry m pd (frame_of va div 1024) AND 0x80 = 0"
    by (simp add: wf_dir_def)
  then show ?thesis by (rule translate_ptrans [OF wf_dir_aligned [OF assms]])
next
  case False
  then show ?thesis
    using wf_dir_aligned [OF assms]
    by (simp add: translate_def ptrans_def entry_def slot_def dir_index_nat page_of_page_aligned present_def Let_def)
qed

text \<open>A write outside the frames of a directory changes nothing it translates.\<close>

lemma entry_upd:
  "page_aligned pd \<Longrightarrow> i < 1024 \<Longrightarrow> frame_of a \<noteq> frame_of pd \<Longrightarrow> entry (m(a := w)) pd i = entry m pd i"
  by (auto simp: entry_def dest: slot_neq_frame)

lemma tabs_upd:
  "page_aligned pd \<Longrightarrow> I \<subseteq> {..<1024} \<Longrightarrow> frame_of a \<noteq> frame_of pd \<Longrightarrow> tabs (m(a := w)) pd I = tabs m pd I"
  unfolding tabs_def using entry_upd [of pd _ a m w] by (simp add: subset_iff cong: bex_cong)

lemma ptrans_upd:
  assumes "page_aligned pd" "p < 1048576" "frame_of a \<noteq> frame_of pd"
    and "present (entry m pd (p div 1024)) \<Longrightarrow> frame_of a \<noteq> frame_of (entry m pd (p div 1024))"
  shows "ptrans (m(a := w)) pd p = ptrans m pd p"
proof -
  have d: "p div 1024 < 1024" using assms(2) by simp
  have e: "entry (m(a := w)) pd (p div 1024) = entry m pd (p div 1024)"
    by (rule entry_upd [OF assms(1) d assms(3)])
  show ?thesis
  proof (cases "present (entry m pd (p div 1024))")
    case False
    then show ?thesis by (simp add: ptrans_def e)
  next
    case True
    have "entry (m(a := w)) (page_of (entry m pd (p div 1024))) (p mod 1024)
        = entry m (page_of (entry m pd (p div 1024))) (p mod 1024)"
      by (rule entry_upd) (use assms(4) [OF True] in \<open>simp_all add: page_of_aligned frame_of_page_of\<close>)
    then show ?thesis by (simp add: ptrans_def e Let_def)
  qed
qed

lemma wf_dir_upd:
  assumes "wf_dir m pd" "frame_of a \<noteq> frame_of pd"
  shows "wf_dir (m(a := w)) pd"
proof -
  have "entry (m(a := w)) pd i = entry m pd i" if "i < 1024" for i
    by (rule entry_upd) (use assms that in \<open>simp_all add: wf_dir_aligned\<close>)
  with assms(1) show ?thesis by (simp add: wf_dir_def)
qed

section \<open>Writing entries\<close>

lemma or_flags_and:
  assumes "page_aligned p" "c AND 0xFFF = c"
  shows "(p OR f) AND c = f AND (c::u32)"
proof -
  have "p AND c = (p AND 0xFFF) AND c" using assms(2) by (metis and.assoc and.commute)
  then have "p AND c = 0" using assms(1) by (simp add: page_aligned_def)
  then show ?thesis by (simp add: bit.conj_disj_distrib2)
qed

lemma present_or_flags: "page_aligned p \<Longrightarrow> present (p OR f) \<longleftrightarrow> present f"
  by (simp add: present_def or_flags_and)

lemma frame_of_or_flags: "page_aligned p \<Longrightarrow> f < 4096 \<Longrightarrow> frame_of (p OR f) = frame_of p"
  using frame_of_page_of [of "p OR f"] by (simp add: page_of_or_flags)

text \<open>Writing an entry of a page table that the directory already has.\<close>

lemma ptrans_set_pte:
  assumes wf: "wf_dir m pd" and p: "p < 1048576" "q < 1048576"
    and pres: "present (entry m pd (p div 1024))"
  shows "ptrans (m(slot (page_of (entry m pd (p div 1024))) (p mod 1024) := w)) pd q =
    (if q = p then if present w then Some (frame_of w) else None else ptrans m pd q)"
proof -
  let ?e = "entry m pd (p div 1024)"
  let ?a = "slot (page_of ?e) (p mod 1024)"
  have d: "p div 1024 < 1024" "q div 1024 < 1024" using p by auto
  have fa: "frame_of ?a = frame_of ?e" by (simp add: slot_frame page_of_aligned frame_of_page_of)
  have ne: "frame_of ?a \<noteq> frame_of pd" using wf pres d fa by (auto simp: wf_dir_def)
  have ent: "entry (m(?a := w)) pd (q div 1024) = entry m pd (q div 1024)"
    by (rule entry_upd [OF wf_dir_aligned [OF wf] d(2) ne])
  show ?thesis
  proof (cases "q div 1024 = p div 1024")
    case True
    have "entry (m(?a := w)) (page_of ?e) (q mod 1024) =
        (if q mod 1024 = p mod 1024 then w else entry m (page_of ?e) (q mod 1024))"
      by (simp add: entry_def slot_eq_iff page_of_aligned)
    moreover have "q mod 1024 = p mod 1024 \<longleftrightarrow> q = p" using True by (metis div_mult_mod_eq)
    ultimately show ?thesis using pres ent True by (simp add: ptrans_def Let_def)
  next
    case False
    then have "q \<noteq> p" by auto
    have "ptrans (m(?a := w)) pd q = ptrans m pd q"
    proof (rule ptrans_upd [OF wf_dir_aligned [OF wf] p(2) ne])
      assume "present (entry m pd (q div 1024))"
      then show "frame_of ?a \<noteq> frame_of (entry m pd (q div 1024))"
        using wf pres d fa False by (auto simp: wf_dir_def)
    qed
    then show ?thesis using \<open>q \<noteq> p\<close> by simp
  qed
qed

text \<open>Writing a directory entry that was not present: the frame of a new page table.\<close>

lemma entry_set_pde:
  assumes "page_aligned pd" "i < 1024" "j < 1024"
  shows "entry (m(slot pd i := e)) pd j = (if j = i then e else entry m pd j)"
  using assms by (simp add: entry_def slot_eq_iff)

lemma wf_dir_set_pde:
  assumes "wf_dir m pd" "i < 1024" "\<not> present (entry m pd i)" "frame_of e \<notin> pt_frames m pd"
    "e AND 0x80 = 0"
  shows "wf_dir (m(slot pd i := e)) pd"
proof -
  have t: "frame_of (entry m pd j) \<noteq> frame_of e" if "j < 1024" "present (entry m pd j)" for j
    using assms(4) that by (auto simp: pt_frames_def tabs_def)
  have "frame_of e \<noteq> frame_of pd" using assms(4) by (auto simp: pt_frames_def)
  then show ?thesis
    using assms t unfolding wf_dir_def
    by (auto simp: entry_set_pde split: if_splits) metis+
qed

lemma tabs_set_pde:
  assumes "page_aligned pd" "i < 1024" "\<not> present (entry m pd i)" "present e" "I \<subseteq> {..<1024}"
  shows "tabs (m(slot pd i := e)) pd I = (if i \<in> I then insert (frame_of e) (tabs m pd I) else tabs m pd I)"
proof -
  have "entry (m(slot pd i := e)) pd j = (if j = i then e else entry m pd j)" if "j \<in> I" for j
    using entry_set_pde [OF assms(1,2)] that assms(5) by auto
  then have "tabs (m(slot pd i := e)) pd I =
      {n. \<exists>j\<in>I. present (if j = i then e else entry m pd j) \<and> n = frame_of (if j = i then e else entry m pd j)}"
    unfolding tabs_def by (simp cong: bex_cong)
  then show ?thesis using assms(3,4) by (auto simp: tabs_def)
qed

lemma ptrans_set_pde:
  assumes "page_aligned pd" "i < 1024" "q < 1048576" "q div 1024 \<noteq> i"
    "present (entry m pd (q div 1024)) \<Longrightarrow> frame_of (entry m pd (q div 1024)) \<noteq> frame_of pd"
  shows "ptrans (m(slot pd i := e)) pd q = ptrans m pd q"
proof -
  have d: "q div 1024 < 1024" using assms(3) by simp
  have e1: "entry (m(slot pd i := e)) pd (q div 1024) = entry m pd (q div 1024)"
    using assms d by (simp add: entry_set_pde)
  show ?thesis
  proof (cases "present (entry m pd (q div 1024))")
    case False
    then show ?thesis by (simp add: ptrans_def e1)
  next
    case True
    have "entry (m(slot pd i := e)) (page_of (entry m pd (q div 1024))) (q mod 1024)
        = entry m (page_of (entry m pd (q div 1024))) (q mod 1024)"
      by (rule entry_upd)
         (use assms True in \<open>simp_all add: page_of_aligned frame_of_page_of slot_frame\<close>)
    then show ?thesis by (simp add: ptrans_def e1 Let_def)
  qed
qed

section \<open>The direct map\<close>

text \<open>The kernel half maps virtual \<^verbatim>\<open>0xC0000000 + a\<close> to physical \<open>a\<close> for the first gigabyte.\<close>

definition direct_map :: "(u32 \<Rightarrow> u32) \<Rightarrow> u32 \<Rightarrow> bool" where
  "direct_map m pd \<longleftrightarrow> (\<forall>n < 0x40000. ptrans m pd (0xC0000 + n) = Some n)"

lemma high_half:
  assumes "unat a < 0x40000000"
  shows "unat (a + 0xC0000000) = unat a + 0xC0000000" "frame_of (a + 0xC0000000) = 0xC0000 + frame_of a"
    "(a + 0xC0000000) AND 0xFFF = a AND 0xFFF" "word_aligned (a + 0xC0000000) \<longleftrightarrow> word_aligned a"
proof -
  show u: "unat (a + 0xC0000000) = unat a + 0xC0000000"
    using assms by (simp add: unat_word_ariths)
  then show "frame_of (a + 0xC0000000) = 0xC0000 + frame_of a" by (simp add: frame_of_def)
  show "(a + 0xC0000000) AND 0xFFF = a AND 0xFFF"
    by (rule u32_eqI) (use mod_mult_self1 [of "unat a" 786432 4096] in \<open>simp add: unat_and_FFF u\<close>)
  show "word_aligned (a + 0xC0000000) \<longleftrightarrow> word_aligned a"
    by (simp add: word_aligned_iff u dvd_add_left_iff)
qed

lemma addr_of_frame_or_offset: "addr_of_frame (frame_of a) OR (a AND 0xFFF) = a"
proof -
  have "(a AND 0xFFF) < 4096" by (simp add: word_less_nat_alt unat_and_FFF)
  then have "unat (addr_of_frame (frame_of a) OR (a AND 0xFFF)) = frame_of a * 4096 + unat a mod 4096"
    by (simp only: aligned_or_flags(2) page_aligned_addr_of_frame unat_addr_of_frame frame_of_lt unat_and_FFF)
  then show ?thesis by (intro u32_eqI) (simp add: frame_of_def)
qed

lemma translate_direct:
  assumes "wf_dir m pd" "direct_map m pd" "unat a < 0x40000000"
  shows "translate m pd (a + 0xC0000000) = Some a"
proof -
  have "frame_of a < 0x40000" using assms(3) by (simp add: frame_of_def)
  then show ?thesis
    using assms by (simp add: translate_wf high_half direct_map_def addr_of_frame_or_offset)
qed

lemma load_direct:
  assumes "wf_dir (mem s) (cr3 s)" "direct_map (mem s) (cr3 s)" "unat a < 0x40000000" "word_aligned a"
  shows "load32 (a + 0xC0000000) s = Inr (mem s a, s)"
  using assms by (simp add: load32_def translate_direct high_half)

lemma store_direct:
  assumes "wf_dir (mem s) (cr3 s)" "direct_map (mem s) (cr3 s)" "unat a < 0x40000000" "word_aligned a"
  shows "store32 (a + 0xC0000000) w s = Inr ((), s\<lparr>mem := (mem s)(a := w)\<rparr>)"
  using assms by (simp add: store32_def translate_direct high_half)

lemma direct_map_cong: "(\<And>q. 0xC0000 \<le> q \<Longrightarrow> q < 1048576 \<Longrightarrow> ptrans m' pd q = ptrans m pd q) \<Longrightarrow>
    direct_map m pd \<Longrightarrow> direct_map m' pd"
  by (simp add: direct_map_def)

end
