(* ===== verification/Paging.thy ===== *)
theory Paging
  imports Mmu
begin

unbundle bit_operations_syntax

text \<open>
  Page tables: \<^verbatim>\<open>map_page\<close> and \<^verbatim>\<open>allocate_page\<close> of \<^verbatim>\<open>lib/pmm.c\<close> and the boot-time set-up of
  \<^verbatim>\<open>lib/paging_manager.c\<close>.  Directory pointers are higher-half virtual addresses, and every
  access to an entry is a load or store through the active directory.
\<close>

definition PAGE_KERNEL :: u32 where "PAGE_KERNEL = 0x3"
definition PAGE_USER :: u32 where "PAGE_USER = 0x7"
definition PAGE_GLOBAL :: u32 where "PAGE_GLOBAL = 0x100"

section \<open>Mapping one page\<close>

definition map_page :: "u32 \<Rightarrow> u32 \<Rightarrow> u32 \<Rightarrow> u32 \<Rightarrow> unit kop" where
  "map_page process_dir virtual_address available_physical flags =
     (if \<not> is_virtual process_dir then
        assert_failed ''VIRTUAL got PHYSICAL'' process_dir ''map_page''
      else if \<not> is_physical available_physical then
        assert_failed ''PHYSICAL got VIRTUAL'' available_physical ''map_page''
      else
        let dir_index = drop_bit 22 virtual_address;
            table_index = drop_bit 12 virtual_address AND 0x3FF
        in
        bnd (load32 (process_dir + 4 * dir_index)) (\<lambda>pde.
        bnd (if pde AND 0x1 = 1 then ret ((pde AND NOT 0xFFF) + 0xC0000000)
             else
               bnd (gets (\<lambda>s. process_dir = kernel_page_dir s \<and> dir_index = 0)) (\<lambda>low_kernel.
               if low_kernel then
                 bnd (gets kernel_page_table) (\<lambda>process_table.
                 bnd (store32 (process_dir + 4 * dir_index) ((process_table - 0xC0000000) OR flags)) (\<lambda>_.
                 ret process_table))
               else
                 bnd get_next_free_kernel_frame (\<lambda>phys.
                 bnd (store32 (process_dir + 4 * dir_index) (phys OR flags)) (\<lambda>_.
                 ret (phys + 0xC0000000))))) (\<lambda>process_table.
        store32 (process_table + 4 * table_index) (available_physical OR flags))))"

definition allocate_page :: "u32 \<Rightarrow> u32 \<Rightarrow> u32 \<Rightarrow> u32 kop" where
  "allocate_page process_dir virtual_address flags =
     (if \<not> is_virtual process_dir then
        bnd (assert_failed ''VIRTUAL got PHYSICAL'' process_dir ''allocate_page'') (\<lambda>_. ret 0)
      else
        bnd get_next_free_process_frame (\<lambda>address.
        if address = 0 then ret 0
        else bnd (map_page process_dir virtual_address address flags) (\<lambda>_.
             ret (address + 0xC0000000))))"

section \<open>Page directories\<close>

text \<open>
  The loops that clear a directory and copy the kernel's upper 256 entries into it; the two loops
  occur in \<^verbatim>\<open>create_process_page_directory\<close>, \<^verbatim>\<open>init_heap_domain\<close> and \<^verbatim>\<open>init_large_domain\<close>.
\<close>

fun zero_entries :: "u32 \<Rightarrow> nat \<Rightarrow> nat \<Rightarrow> unit kop" where
  "zero_entries dir i 0 = ret ()"
| "zero_entries dir i (Suc k) = bnd (store32 (dir + 4 * of_nat i) 0) (\<lambda>_. zero_entries dir (i + 1) k)"

fun copy_entries :: "u32 \<Rightarrow> u32 \<Rightarrow> nat \<Rightarrow> nat \<Rightarrow> unit kop" where
  "copy_entries src dir i 0 = ret ()"
| "copy_entries src dir i (Suc k) =
     bnd (load32 (src + 4 * of_nat i)) (\<lambda>e.
     bnd (store32 (dir + 4 * of_nat i) e) (\<lambda>_. copy_entries src dir (i + 1) k))"

definition create_process_page_directory :: "u32 kop" where
  "create_process_page_directory =
     bnd get_next_free_kernel_frame (\<lambda>phys.
     let proc_page_dir = phys + 0xC0000000 in
     bnd (zero_entries proc_page_dir 0 1024) (\<lambda>_.
     bnd (gets kernel_page_dir) (\<lambda>kernel_dir.
     bnd (copy_entries kernel_dir proc_page_dir 768 256) (\<lambda>_.
     ret proc_page_dir))))"

section \<open>Boot-time paging\<close>

fun setup_entries_loop :: "nat \<Rightarrow> nat \<Rightarrow> unit kop" where
  "setup_entries_loop i 0 = ret ()"
| "setup_entries_loop i (Suc k) =
     bnd (gets kernel_page_dir) (\<lambda>dir.
     bnd (store32 (dir + 4 * of_nat i) 0) (\<lambda>_.
     bnd (gets kernel_page_table) (\<lambda>tbl.
     bnd (store32 (tbl + 4 * of_nat i) 0) (\<lambda>_. setup_entries_loop (i + 1) k))))"

definition setup_entries :: "unit kop" where
  "setup_entries = setup_entries_loop 0 1024"

text \<open>
  The loop of \<^verbatim>\<open>map_kernel_memory\<close> over the 262144 pages of the first gigabyte; its locals
  \<^verbatim>\<open>current_page_table\<close> and \<^verbatim>\<open>last_dir_index\<close> are arguments, and the first argument counts the
  iterations left.
\<close>

fun map_kernel_loop :: "nat \<Rightarrow> u32 \<Rightarrow> u32 \<Rightarrow> u32 \<Rightarrow> unit kop" where
  "map_kernel_loop 0 addr current_page_table last_dir_index = ret ()"
| "map_kernel_loop (Suc k) addr current_page_table last_dir_index =
     (if addr < 0x40000000 then
        let virtual_addr = addr + 0xC0000000;
            dir_index = drop_bit 22 virtual_addr;
            table_index = drop_bit 12 virtual_addr AND 0x3FF
        in
        bnd (if dir_index \<noteq> last_dir_index then
               bnd (gets kernel_page_tables_base) (\<lambda>tables.
               bnd (gets kernel_page_dir) (\<lambda>dir.
               let current_page_table = tables + (dir_index - 768) * 4096;
                   phys = current_page_table - 0xC0000000
               in bnd (store32 (dir + 4 * dir_index) (phys OR PAGE_KERNEL)) (\<lambda>_.
                  ret current_page_table)))
             else ret current_page_table) (\<lambda>current_page_table.
        bnd (store32 (current_page_table + 4 * table_index) (addr OR PAGE_KERNEL OR PAGE_GLOBAL)) (\<lambda>_.
        map_kernel_loop k (addr + 4096) current_page_table dir_index))
      else ret ())"

definition map_kernel_memory :: "unit kop" where
  "map_kernel_memory = map_kernel_loop 0x40000 0 0 0xFFFFFFFF"

definition set_CR3_register :: "unit kop" where
  "set_CR3_register = modify (\<lambda>s. s\<lparr>cr3 := kernel_page_dir s - 0xC0000000\<rparr>)"

definition set_CR0_32_bit_register :: "int \<Rightarrow> unit kop" where
  "set_CR0_32_bit_register on =
     modify (\<lambda>s. s\<lparr>cr0 := (if on = 1 then cr0 s OR 0x80000000 else cr0 s AND 0x7FFFFFFF)\<rparr>)"

definition init_paging :: "unit kop" where
  "init_paging =
     bnd (kprint_color COLOR_WHITE ''[MEM] Creating blank entries........'' []) (\<lambda>_.
     bnd setup_entries (\<lambda>_.
     bnd (kprint_color COLOR_GREEN (''[OK]'' @ [CHR 0x0A]) []) (\<lambda>_.
     bnd (kprint_color COLOR_WHITE ''[MEM] Mapping memory........'' []) (\<lambda>_.
     bnd map_kernel_memory (\<lambda>_.
     bnd (kprint_color COLOR_GREEN (''[OK]'' @ [CHR 0x0A]) []) (\<lambda>_.
     bnd (kprint_color COLOR_WHITE ''[MEM] Assigning CR3 to paging dir........'' []) (\<lambda>_.
     bnd set_CR3_register (\<lambda>_.
     bnd (kprint_color COLOR_GREEN (''[OK]'' @ [CHR 0x0A]) []) (\<lambda>_.
     bnd (kprint_color COLOR_WHITE ''[MEM] Fliping the CR0 bit........'' []) (\<lambda>_.
     bnd (set_CR0_32_bit_register 1) (\<lambda>_.
     bnd (kprint_color COLOR_GREEN (''[OK]'' @ [CHR 0x0A]) []) (\<lambda>_.
     bnd (kprint_color COLOR_WHITE ''[MEM] Enabling PGE (global pages)........'' []) (\<lambda>_.
     bnd (modify (\<lambda>s. s\<lparr>cr4 := cr4 s OR 0x80\<rparr>)) (\<lambda>_.
     kprint_color COLOR_GREEN (''[OK]'' @ [CHR 0x0A]) []))))))))))))))"

end
