(* ===== verification/Address_Space.thy ===== *)
theory Address_Space
  imports Paging
begin

unbundle bit_operations_syntax

text \<open>
  The invariant of the kernel's address spaces (the kernel directory, one directory per heap
  domain, the large domain's) and what \<^verbatim>\<open>map_page\<close> does to it.  \<open>A\<close> is the set of directories
  that exist, \<open>V\<close> the set of virtual pages mapped for data: each of them is mapped to one frame
  by the kernel directory and by the directory that owns its 256 MB region, no two of them share a
  frame, and no data frame is a directory or a page table.
\<close>

datatype dir_id = KDir | HDir heap_id | LDir

definition dir_of :: "kstate \<Rightarrow> dir_id \<Rightarrow> u32" where
  "dir_of s d = (case d of
       KDir \<Rightarrow> kernel_page_dir s - 0xC0000000
     | HDir h \<Rightarrow> page_directory (heaps s h) - 0xC0000000
     | LDir \<Rightarrow> l_page_directory (large_dom s) - 0xC0000000)"

text \<open>The directory that owns page number \<open>p\<close>: the seven 256 MB regions, then the large domain.\<close>

definition owner :: "nat \<Rightarrow> dir_id" where
  "owner p = (if p < 0x20000 then HDir Heap_64 else if p < 0x30000 then HDir Heap_128
     else if p < 0x40000 then HDir Heap_256 else if p < 0x50000 then HDir Heap_512
     else if p < 0x60000 then HDir Heap_1k else if p < 0x70000 then HDir Heap_2k
     else if p < 0x80000 then HDir Heap_4k else LDir)"

text \<open>The frames that belong to a directory alone: its own and those of its tables below 3 GB.\<close>

definition own :: "(u32 \<Rightarrow> u32) \<Rightarrow> u32 \<Rightarrow> nat set" where
  "own m pd = insert (frame_of pd) (utabs m pd)"

definition dir_ok :: "(u32 \<Rightarrow> u32) \<Rightarrow> (dir_id \<Rightarrow> u32) \<Rightarrow> nat set \<Rightarrow> nat \<Rightarrow> dir_id \<Rightarrow> bool" where
  "dir_ok m D U sf d \<longleftrightarrow> wf_dir m (D d) \<and> ktabs m (D d) \<subseteq> {frame_of (D KDir)<..<sf}
     \<and> utabs m (D d) \<subseteq> {sf..<0x40000} \<inter> U \<and> (d \<noteq> KDir \<longrightarrow> frame_of (D d) \<in> {sf..<0x40000} \<inter> U)"

definition page_ok :: "dir_id set \<Rightarrow> (dir_id \<Rightarrow> u32) \<Rightarrow> (u32 \<Rightarrow> u32) \<Rightarrow> nat set \<Rightarrow> nat \<Rightarrow> nat \<Rightarrow> nat \<Rightarrow> bool" where
  "page_ok A D m U sf p f \<longleftrightarrow> p < 0xC0000 \<and> owner p \<in> A
     \<and> ptrans m (D KDir) p = Some f \<and> ptrans m (D (owner p)) p = Some f
     \<and> f \<in> {sf..<0x40000} \<inter> U \<and> (\<forall>d\<in>A. f \<notin> own m (D d))"

definition vm_ok :: "dir_id set \<Rightarrow> nat set \<Rightarrow> (dir_id \<Rightarrow> u32) \<Rightarrow> (u32 \<Rightarrow> u32) \<Rightarrow> nat set \<Rightarrow> nat \<Rightarrow> bool" where
  "vm_ok A V D m U sf \<longleftrightarrow> KDir \<in> A \<and> frame_of (D KDir) < sf \<and> sf < 0x40000 \<and> direct_map m (D KDir)
     \<and> (\<forall>d\<in>A. dir_ok m D U sf d)
     \<and> (\<forall>d\<in>A. \<forall>e\<in>A. d \<noteq> e \<longrightarrow> own m (D d) \<inter> own m (D e) = {})
     \<and> (\<forall>p\<in>V. \<exists>f. page_ok A D m U sf p f)
     \<and> (\<forall>p\<in>V. \<forall>q\<in>V. p \<noteq> q \<longrightarrow> ptrans m (D KDir) p \<noteq> ptrans m (D KDir) q)"

definition vm_inv :: "dir_id set \<Rightarrow> nat set \<Rightarrow> kstate \<Rightarrow> bool" where
  "vm_inv A V s \<longleftrightarrow> pmm_wf s \<and> layout_ok s \<and> cr3 s = dir_of s KDir
     \<and> vm_ok A V (dir_of s) (mem s) (used s) (safe_frame s)"

section \<open>Writes and the invariant\<close>

lemma vm_okD:
  assumes "vm_ok A V D m U sf"
  shows "KDir \<in> A" "frame_of (D KDir) < sf" "sf < 0x40000" "direct_map m (D KDir)"
    "d \<in> A \<Longrightarrow> dir_ok m D U sf d"
    "d \<in> A \<Longrightarrow> e \<in> A \<Longrightarrow> d \<noteq> e \<Longrightarrow> own m (D d) \<inter> own m (D e) = {}"
    "p \<in> V \<Longrightarrow> \<exists>f. page_ok A D m U sf p f"
    "p \<in> V \<Longrightarrow> q \<in> V \<Longrightarrow> p \<noteq> q \<Longrightarrow> ptrans m (D KDir) p \<noteq> ptrans m (D KDir) q"
  using assms by (simp_all add: vm_ok_def)

lemma dir_okD:
  assumes "dir_ok m D U sf d"
  shows "wf_dir m (D d)" "page_aligned (D d)" "n \<in> ktabs m (D d) \<Longrightarrow> n < sf"
    "n \<in> ktabs m (D d) \<Longrightarrow> frame_of (D KDir) < n" "n \<in> utabs m (D d) \<Longrightarrow> sf \<le> n \<and> n < 0x40000 \<and> n \<in> U"
    "d \<noteq> KDir \<Longrightarrow> sf \<le> frame_of (D d) \<and> frame_of (D d) < 0x40000 \<and> frame_of (D d) \<in> U"
  using assms by (auto simp: dir_ok_def wf_dir_aligned)

text \<open>What a write outside the frames of directory \<open>d\<close> leaves unchanged of it.\<close>

lemma foreign_write:
  assumes "dir_ok m D U sf d" "frame_of a \<notin> own m (D d)" "frame_of a \<notin> ktabs m (D d)"
  shows "\<And>q. q < 1048576 \<Longrightarrow> ptrans (m(a := w)) (D d) q = ptrans m (D d) q"
    and "dir_ok (m(a := w)) D U sf d" and "own (m(a := w)) (D d) = own m (D d)"
proof -
  have al: "page_aligned (D d)" and wf: "wf_dir m (D d)" using assms(1) by (auto dest: dir_okD)
  have ne: "frame_of a \<noteq> frame_of (D d)" using assms(2) by (auto simp: own_def)
  have tabs: "tabs (m(a := w)) (D d) I = tabs m (D d) I" if "I \<subseteq> {..<1024}" for I
    by (rule tabs_upd [OF al that ne])
  have u: "utabs (m(a := w)) (D d) = utabs m (D d)" "ktabs (m(a := w)) (D d) = ktabs m (D d)"
    by (rule tabs; auto)+
  show "own (m(a := w)) (D d) = own m (D d)" by (simp add: own_def u)
  show "dir_ok (m(a := w)) D U sf d"
    using assms(1) wf_dir_upd [OF wf ne] by (simp add: dir_ok_def u)
  show "ptrans (m(a := w)) (D d) q = ptrans m (D d) q" if q: "q < 1048576" for q
  proof (rule ptrans_upd [OF al q ne])
    assume "present (entry m (D d) (q div 1024))"
    then have "frame_of (entry m (D d) (q div 1024)) \<in> tabs m (D d) {..<1024}"
      using q by (auto simp: tabs_def)
    then show "frame_of a \<noteq> frame_of (entry m (D d) (q div 1024))"
      using assms(2,3) by (auto simp: tabs_split own_def)
  qed
qed

text \<open>A frame that is neither a kernel-half table nor owned by a directory, by its number.\<close>

lemma not_ktab:
  assumes "vm_ok A V D m U sf" "d \<in> A" "sf \<le> n \<or> n = frame_of (D KDir)"
  shows "n \<notin> ktabs m (D d)"
  using dir_okD(3,4) [OF vm_okD(5) [OF assms(1,2)]] assms(3) by fastforce

text \<open>A write to a frame that no directory reads.\<close>

lemma vm_ok_foreign_write:
  assumes vm: "vm_ok A V D m U sf"
    and a: "\<And>d. d \<in> A \<Longrightarrow> frame_of a \<notin> own m (D d)" "\<And>d. d \<in> A \<Longrightarrow> frame_of a \<notin> ktabs m (D d)"
  shows "vm_ok A V D (m(a := w)) U sf"
    and "\<And>d q. d \<in> A \<Longrightarrow> q < 1048576 \<Longrightarrow> ptrans (m(a := w)) (D d) q = ptrans m (D d) q"
    and "\<And>d. d \<in> A \<Longrightarrow> own (m(a := w)) (D d) = own m (D d)"
proof -
  note fw = foreign_write [OF vm_okD(5) [OF vm] a]
  show pt: "ptrans (m(a := w)) (D d) q = ptrans m (D d) q" if "d \<in> A" "q < 1048576" for d q
    using fw(1) that by blast
  show ow: "own (m(a := w)) (D d) = own m (D d)" if "d \<in> A" for d
    using fw(3) that by blast
  have dok: "dir_ok (m(a := w)) D U sf d" if "d \<in> A" for d
    using fw(2) that by blast
  have k: "KDir \<in> A" by (rule vm_okD(1) [OF vm])
  have pg: "page_ok A D (m(a := w)) U sf = page_ok A D m U sf"
    using pt k ow by (intro ext) (auto simp: page_ok_def)
  have small: "p < 1048576" if "p \<in> V" for p
    using vm_okD(7) [OF vm that] by (auto simp: page_ok_def)
  have dm: "direct_map (m(a := w)) (D KDir)"
    by (rule direct_map_cong [OF _ vm_okD(4) [OF vm]]) (simp add: pt k)
  show "vm_ok A V D (m(a := w)) U sf"
    using vm dm dok ow pg pt k small unfolding vm_ok_def by simp
qed

text \<open>A write to a data frame.\<close>

lemma vm_ok_data_write:
  assumes vm: "vm_ok A V D m U sf" and a: "sf \<le> frame_of a" "\<And>d. d \<in> A \<Longrightarrow> frame_of a \<notin> own m (D d)"
  shows "vm_ok A V D (m(a := w)) U sf"
    and "\<And>d q. d \<in> A \<Longrightarrow> q < 1048576 \<Longrightarrow> ptrans (m(a := w)) (D d) q = ptrans m (D d) q"
    and "\<And>d. d \<in> A \<Longrightarrow> own (m(a := w)) (D d) = own m (D d)"
  using vm_ok_foreign_write [OF vm a(2) not_ktab [OF vm]] a(1) by blast+

text \<open>
  A write to a frame that directory \<open>d\<close> owns, which may give it new frames \<open>N\<close> that were not in
  use, and which leaves its data pages and its kernel half alone.
\<close>

lemma own_frame:
  assumes "vm_ok A V D m U sf" "d \<in> A" "n \<in> own m (D d)"
  shows "n = frame_of (D KDir) \<or> sf \<le> n \<and> n < 0x40000 \<and> n \<in> U"
  using dir_okD(5,6) [OF vm_okD(5) [OF assms(1,2)]] assms(3) by (auto simp: own_def)

lemma vm_ok_own_write:
  assumes vm: "vm_ok A V D m U sf" and d: "d \<in> A" "frame_of a \<in> own m (D d)"
    and U: "U \<subseteq> U'" and N: "N \<inter> U = {}" "N \<subseteq> {sf..}" "own (m(a := w)) (D d) \<subseteq> own m (D d) \<union> N"
    and after: "dir_ok (m(a := w)) D U' sf d"
    and same: "\<And>q. q \<in> V \<and> (d = KDir \<or> owner q = d) \<or> q \<in> {0xC0000..<1048576} \<Longrightarrow> ptrans (m(a := w)) (D d) q = ptrans m (D d) q"
  shows "vm_ok A V D (m(a := w)) U' sf"
    and "\<And>e q. e \<in> A \<Longrightarrow> e \<noteq> d \<Longrightarrow> q < 1048576 \<Longrightarrow> ptrans (m(a := w)) (D e) q = ptrans m (D e) q"
    and "\<And>e. e \<in> A \<Longrightarrow> e \<noteq> d \<Longrightarrow> own (m(a := w)) (D e) = own m (D e)"
proof -
  let ?m = "m(a := w)"
  have fa: "sf \<le> frame_of a \<or> frame_of a = frame_of (D KDir)"
    using own_frame [OF vm d] by auto
  have fo: "frame_of a \<notin> own m (D e)" if "e \<in> A" "e \<noteq> d" for e
    using vm_okD(6) [OF vm d(1) that(1)] that(2) d(2) by auto
  note fw = foreign_write [OF vm_okD(5) [OF vm] fo not_ktab [OF vm _ fa]]
  show pt: "ptrans ?m (D e) q = ptrans m (D e) q" if "e \<in> A" "e \<noteq> d" "q < 1048576" for e q
    using fw(1) that by blast
  show ow: "own ?m (D e) = own m (D e)" if "e \<in> A" "e \<noteq> d" for e
    using fw(3) that by blast
  have dok: "dir_ok ?m D U' sf e" if "e \<in> A" for e
    using fw(2) [of e w] after U that by (cases "e = d") (auto simp: dir_ok_def)
  have k: "KDir \<in> A" by (rule vm_okD(1) [OF vm])
  have ptV: "ptrans ?m (D e) q = ptrans m (D e) q" if "e \<in> A" "e = KDir \<or> e = owner q" "q \<in> V" "q < 0xC0000" for e q
    using that same [of q] pt [of e q] by (cases "e = d") auto
  have dm: "direct_map ?m (D KDir)"
  proof (rule direct_map_cong [OF _ vm_okD(4) [OF vm]])
    fix q :: nat assume "0xC0000 \<le> q" "q < 1048576"
    then show "ptrans ?m (D KDir) q = ptrans m (D KDir) q"
      using same [of q] pt [of KDir q] k by (cases "KDir = d") auto
  qed
  have disj: "own ?m (D e) \<inter> own ?m (D e') = {}" if "e \<in> A" "e' \<in> A" "e \<noteq> e'" for e e'
  proof -
    have N': "N \<inter> own m (D g) = {}" if "g \<in> A" for g
      using own_frame [OF vm that] N(1,2) vm_okD(2) [OF vm] by fastforce
    have old: "own m (D e) \<inter> own m (D e') = {}" by (rule vm_okD(6) [OF vm that])
    have sub: "n \<in> own m (D g) \<or> g = d \<and> n \<in> N" if "g \<in> A" "n \<in> own ?m (D g)" for g n
      using N(3) ow [OF that(1)] that by (cases "g = d") auto
    show ?thesis
    proof (rule ccontr)
      assume "own ?m (D e) \<inter> own ?m (D e') \<noteq> {}"
      then obtain n where "n \<in> own ?m (D e)" "n \<in> own ?m (D e')" by auto
      with sub [of e n] sub [of e' n] that have
        "n \<in> own m (D e) \<and> n \<in> own m (D e') \<or> n \<in> N \<and> (n \<in> own m (D e) \<or> n \<in> own m (D e'))"
        by metis
      with old N' [OF that(1)] N' [OF that(2)] show False by (metis IntI empty_iff)
    qed
  qed
  have pg: "\<exists>f. page_ok A D ?m U' sf p f" if p: "p \<in> V" for p
  proof -
    from vm_okD(7) [OF vm p] obtain f where f: "page_ok A D m U sf p f" by blast
    then have "f \<notin> own ?m (D e)" if "e \<in> A" for e
      using N(1,3) ow [OF that] that by (cases "e = d") (auto simp: page_ok_def)
    then have "page_ok A D ?m U' sf p f"
      using f U ptV [OF k _ p] ptV [OF _ _ p] by (auto simp: page_ok_def)
    then show ?thesis ..
  qed
  have inj: "ptrans ?m (D KDir) p \<noteq> ptrans ?m (D KDir) q" if "p \<in> V" "q \<in> V" "p \<noteq> q" for p q
  proof -
    have "p < 0xC0000" "q < 0xC0000"
      using vm_okD(7) [OF vm that(1)] vm_okD(7) [OF vm that(2)] by (auto simp: page_ok_def)
    then show ?thesis using ptV [OF k _ that(1)] ptV [OF k _ that(2)] vm_okD(8) [OF vm that] by simp
  qed
  show "vm_ok A V D ?m U' sf"
    unfolding vm_ok_def using vm_okD(1-3) [OF vm] dm dok disj pg inj by blast
qed


text \<open>A new page table for an entry that was not present.\<close>

lemma vm_ok_set_pde:
  assumes vm: "vm_ok A V D m U sf" and d: "d \<in> A" and i: "i < 768" "\<not> present (entry m (D d) i)"
    and e: "frame_of e = n" "n \<notin> U" "sf \<le> n" "n < 0x40000" "present e" "e AND 0x80 = 0"
  defines "m' \<equiv> m(slot (D d) i := e)"
  shows "vm_ok A V D m' (insert n U) sf" "own m' (D d) = insert n (own m (D d))"
    "entry m' (D d) i = e"
    "\<And>g q. g \<in> A \<Longrightarrow> g \<noteq> d \<Longrightarrow> q < 1048576 \<Longrightarrow> ptrans m' (D g) q = ptrans m (D g) q"
    "\<And>g. g \<in> A \<Longrightarrow> g \<noteq> d \<Longrightarrow> own m' (D g) = own m (D g)"
    "\<And>q. q \<in> V \<Longrightarrow> d = KDir \<or> owner q = d \<Longrightarrow> ptrans m' (D d) q = ptrans m (D d) q"
proof -
  have dok: "dir_ok m D U sf d" by (rule vm_okD(5) [OF vm d])
  note dD = dir_okD [OF dok]
  have n: "n \<notin> own m (D d)" "n \<notin> ktabs m (D d)"
    using own_frame [OF vm d] e vm_okD(2) [OF vm] not_ktab [OF vm d] by fastforce+
  then have pt: "frame_of e \<notin> pt_frames m (D d)"
    by (auto simp: pt_frames_def tabs_split own_def e(1))
  have wf: "wf_dir m' (D d)"
    unfolding m'_def by (rule wf_dir_set_pde [OF dD(1) _ i(2) pt e(6)]) (use i in simp)
  have ut: "utabs m' (D d) = insert n (utabs m (D d))" "ktabs m' (D d) = ktabs m (D d)"
    unfolding m'_def
    by (subst tabs_set_pde [OF dD(2) _ i(2) e(5)]; use i(1) in \<open>auto simp: e(1)\<close>)+
  show ow: "own m' (D d) = insert n (own m (D d))" by (auto simp: own_def ut)
  show "entry m' (D d) i = e" unfolding m'_def using i(1) by (simp add: entry_set_pde dD(2))
  have after: "dir_ok m' D (insert n U) sf d"
    using dok wf e by (auto simp: dir_ok_def ut)
  have fr: "frame_of (slot (D d) i) = frame_of (D d)" using i(1) by (simp add: slot_frame dD(2))
  have same: "ptrans m' (D d) q = ptrans m (D d) q"
    if "q \<in> V \<and> (d = KDir \<or> owner q = d) \<or> q \<in> {0xC0000..<1048576}" for q
    unfolding m'_def
  proof (rule ptrans_set_pde [OF dD(2)])
    show "i < 1024" using i(1) by simp
    show q: "q < 1048576" using that vm_okD(7) [OF vm, of q] by (auto simp: page_ok_def)
    show "q div 1024 \<noteq> i"
    proof
      assume q: "q div 1024 = i"
      with i(1) that have "q \<in> V" "d = KDir \<or> owner q = d" by auto
      with vm_okD(7) [OF vm, of q] obtain f where "ptrans m (D d) q = Some f"
        by (auto simp: page_ok_def)
      with i(2) q show False by (simp add: ptrans_def)
    qed
    show "frame_of (entry m (D d) (q div 1024)) \<noteq> frame_of (D d)" if "present (entry m (D d) (q div 1024))"
      using dD(1) q that by (auto simp: wf_dir_def)
  qed
  show "\<And>q. q \<in> V \<Longrightarrow> d = KDir \<or> owner q = d \<Longrightarrow> ptrans m' (D d) q = ptrans m (D d) q"
    using same by blast
  note w = vm_ok_own_write [OF vm d _ _ _ _ _ after [unfolded m'_def] same [unfolded m'_def], of "{n}"]
  show "vm_ok A V D m' (insert n U) sf"
    unfolding m'_def by (rule w(1)) (use e ow in \<open>auto simp: own_def fr m'_def\<close>)
  show "ptrans m' (D g) q = ptrans m (D g) q" if "g \<in> A" "g \<noteq> d" "q < 1048576" for g q
    unfolding m'_def by (rule w(2) [OF _ _ _ _ _ _ that]) (use e ow in \<open>auto simp: own_def fr m'_def\<close>)
  show "own m' (D g) = own m (D g)" if "g \<in> A" "g \<noteq> d" for g
    unfolding m'_def by (rule w(3) [OF _ _ _ _ _ _ that]) (use e ow in \<open>auto simp: own_def fr m'_def\<close>)
qed

text \<open>An entry of a page table the directory has, for a page that is not a data page.\<close>

lemma vm_ok_set_pte:
  fixes w :: u32
  assumes vm: "vm_ok A V D m U sf" and d: "d \<in> A" and p: "p < 0xC0000" "p \<notin> V"
    and pres: "present (entry m (D d) (p div 1024))"
  defines "m' \<equiv> m(slot (page_of (entry m (D d) (p div 1024))) (p mod 1024) := w)"
  shows "vm_ok A V D m' U sf" "own m' (D d) = own m (D d)"
    "ptrans m' (D d) p = (if present w then Some (frame_of w) else None)"
    "\<And>q. q < 1048576 \<Longrightarrow> q \<noteq> p \<Longrightarrow> ptrans m' (D d) q = ptrans m (D d) q"
    "\<And>g q. g \<in> A \<Longrightarrow> g \<noteq> d \<Longrightarrow> q < 1048576 \<Longrightarrow> ptrans m' (D g) q = ptrans m (D g) q"
    "\<And>g. g \<in> A \<Longrightarrow> g \<noteq> d \<Longrightarrow> own m' (D g) = own m (D g)"
proof -
  let ?e = "entry m (D d) (p div 1024)"
  let ?a = "slot (page_of ?e) (p mod 1024)"
  have dok: "dir_ok m D U sf d" by (rule vm_okD(5) [OF vm d])
  note dD = dir_okD [OF dok]
  have i: "p div 1024 < 768" using p(1) by simp
  have fa: "frame_of ?a = frame_of ?e" by (simp add: slot_frame page_of_aligned frame_of_page_of)
  have ut: "frame_of ?a \<in> utabs m (D d)" using i pres by (auto simp: tabs_def fa)
  have ne: "frame_of ?a \<noteq> frame_of (D d)"
    using dD(1) pres i by (auto simp: wf_dir_def fa)
  have t: "utabs m' (D d) = utabs m (D d)" "ktabs m' (D d) = ktabs m (D d)"
    unfolding m'_def by (rule tabs_upd [OF dD(2) _ ne]; auto)+
  show ow: "own m' (D d) = own m (D d)" by (simp add: own_def t)
  have after: "dir_ok m' D U sf d"
    using dok wf_dir_upd [OF dD(1) ne, of w] by (simp add: dir_ok_def t) (simp add: m'_def)
  have pt: "ptrans m' (D d) q = (if q = p then if present w then Some (frame_of w) else None else ptrans m (D d) q)"
    if "q < 1048576" for q
    unfolding m'_def using p(1) by (intro ptrans_set_pte [OF dD(1) _ that pres]) simp
  then show "ptrans m' (D d) p = (if present w then Some (frame_of w) else None)"
    "\<And>q. q < 1048576 \<Longrightarrow> q \<noteq> p \<Longrightarrow> ptrans m' (D d) q = ptrans m (D d) q"
    using p(1) by auto
  have same: "ptrans m' (D d) q = ptrans m (D d) q"
    if "q \<in> V \<and> (d = KDir \<or> owner q = d) \<or> q \<in> {0xC0000..<1048576}" for q
    using that pt [of q] p vm_okD(7) [OF vm, of q] by (auto simp: page_ok_def)
  note w = vm_ok_own_write [OF vm d _ _ _ _ _ after [unfolded m'_def] same [unfolded m'_def], of "{}"]
  show "vm_ok A V D m' U sf"
    unfolding m'_def by (rule w(1)) (use ut ow in \<open>auto simp: own_def m'_def\<close>)
  show "ptrans m' (D g) q = ptrans m (D g) q" if "g \<in> A" "g \<noteq> d" "q < 1048576" for g q
    unfolding m'_def by (rule w(2) [OF _ _ _ _ _ _ that]) (use ut ow in \<open>auto simp: own_def m'_def\<close>)
  show "own m' (D g) = own m (D g)" if "g \<in> A" "g \<noteq> d" for g
    unfolding m'_def by (rule w(3) [OF _ _ _ _ _ _ that]) (use ut ow in \<open>auto simp: own_def m'_def\<close>)
qed

section \<open>Mapping a page\<close>

text \<open>The operations on address spaces change memory and the accounting of frames only.\<close>

definition vm_frame :: "kstate \<Rightarrow> kstate \<Rightarrow> bool" where
  "vm_frame s s' \<longleftrightarrow> (\<exists>m b u. s' = s\<lparr>mem := m, bitmap := b, used_frames := u\<rparr>)"

lemma vm_frame_simps:
  assumes "vm_frame s s'"
  shows "dir_of s' = dir_of s" "cr3 s' = cr3 s" "heaps s' = heaps s" "large_dom s' = large_dom s"
    "kernel_page_dir s' = kernel_page_dir s" "safe_frame s' = safe_frame s" "layout_ok s' = layout_ok s"
    "console s' = console s"
  using assms
  by (auto simp: vm_frame_def dir_of_def fun_eq_iff safe_frame_def heap_start_def layout_ok_def
      kernel_page_tables_base_def kernel_page_table_def split: dir_id.split)

lemma vm_frame_refl [simp]: "vm_frame s s"
  unfolding vm_frame_def by (rule exI [of _ "mem s"], rule exI [of _ "bitmap s"], rule exI [of _ "used_frames s"]) simp

lemma vm_frame_trans: "vm_frame s t \<Longrightarrow> vm_frame t u \<Longrightarrow> vm_frame s u"
  unfolding vm_frame_def by force

lemma vm_frame_mem: "vm_frame s (s\<lparr>mem := m\<rparr>)"
  unfolding vm_frame_def by (rule exI [of _ m], rule exI [of _ "bitmap s"], rule exI [of _ "used_frames s"]) simp

lemma vm_frame_take: "vm_frame s (take_frame n s)"
  unfolding vm_frame_def take_frame_def by (rule exI [of _ "mem s"], rule exI, rule exI, simp)

lemma and_one_present: "x AND 1 = 1 \<longleftrightarrow> present x"
  by (simp add: present_def and_one_eq)

lemma frame_low_unat: "frame_of a < 0x40000 \<Longrightarrow> unat a < 0x40000000"
  by (simp add: frame_of_def)

lemma vm_invD:
  assumes "vm_inv A V s"
  shows "pmm_wf s" "layout_ok s" "cr3 s = dir_of s KDir" "vm_ok A V (dir_of s) (mem s) (used s) (safe_frame s)"
    "KDir \<in> A" "wf_dir (mem s) (cr3 s)" "direct_map (mem s) (cr3 s)"
    "d \<in> A \<Longrightarrow> page_aligned (dir_of s d)" "d \<in> A \<Longrightarrow> wf_dir (mem s) (dir_of s d)"
    "d \<in> A \<Longrightarrow> frame_of (dir_of s d) < 0x40000"
    "d \<in> A \<Longrightarrow> n \<in> utabs (mem s) (dir_of s d) \<Longrightarrow> n < 0x40000"
proof -
  show 1: "pmm_wf s" "layout_ok s" "cr3 s = dir_of s KDir"
      "vm_ok A V (dir_of s) (mem s) (used s) (safe_frame s)"
    using assms by (auto simp: vm_inv_def)
  note ok = vm_okD [OF 1(4)]
  show k: "KDir \<in> A" by (rule ok(1))
  show "wf_dir (mem s) (cr3 s)" unfolding 1(3) by (rule dir_okD(1) [OF ok(5) [OF k]])
  show "direct_map (mem s) (cr3 s)" unfolding 1(3) by (rule ok(4))
  show "page_aligned (dir_of s d)" "wf_dir (mem s) (dir_of s d)" if "d \<in> A"
    using dir_okD(1,2) [OF ok(5) [OF that]] by auto
  show "frame_of (dir_of s d) < 0x40000" if "d \<in> A"
    using dir_okD(6) [OF ok(5) [OF that]] ok(2,3) by (cases "d = KDir") auto
  show "n < 0x40000" if "d \<in> A" "n \<in> utabs (mem s) (dir_of s d)"
    using dir_okD(5) [OF ok(5) [OF that(1)] that(2)] by simp
qed

lemma high_slot: "p + 0xC0000000 + 4 * of_nat i = slot p i + 0xC0000000"
  by (simp add: slot_def)

lemma load_dir_entry:
  assumes "vm_inv A V s" "d \<in> A" "i < 1024"
  shows "load32 (dir_of s d + 0xC0000000 + 4 * of_nat i) s = Inr (entry (mem s) (dir_of s d) i, s)"
  unfolding high_slot entry_def
  using assms vm_invD(8,10) [OF assms(1,2)]
  by (intro load_direct vm_invD(6,7) [OF assms(1)] frame_low_unat) (simp_all add: page_simps)

lemma store_low:
  assumes "vm_inv A V s" "page_aligned p" "frame_of p < 0x40000" "i < 1024"
  shows "store32 (p + 0xC0000000 + 4 * of_nat i) w s = Inr ((), s\<lparr>mem := (mem s)(slot p i := w)\<rparr>)"
  unfolding high_slot
  using assms
  by (intro store_direct vm_invD(6,7) [OF assms(1)] frame_low_unat) (simp_all add: page_simps)

lemma dir_of_inj:
  assumes "vm_inv A V s" "d \<in> A" "e \<in> A" "dir_of s d = dir_of s e"
  shows "d = e"
  using vm_okD(6) [OF vm_invD(4) [OF assms(1)] assms(2,3)] assms(4) by (auto simp: own_def)

lemma kernel_dir_eq: "dir_of s d + 0xC0000000 = kernel_page_dir s \<longleftrightarrow> dir_of s d = dir_of s KDir"
  by (simp add: dir_of_def [of s KDir]) (metis add_diff_cancel diff_add_cancel)

lemma vm_inv_cong:
  assumes "vm_frame s s'" "vm_inv A V s" "pmm_wf s'" "vm_ok A V (dir_of s) (mem s') (used s') (safe_frame s)"
  shows "vm_inv A V s'"
  using assms by (simp add: vm_inv_def vm_frame_simps)

lemma mem_only [simp]: "used (s\<lparr>mem := m\<rparr>) = used s" "pmm_wf (s\<lparr>mem := m\<rparr>) = pmm_wf s"
  "safe_frame (s\<lparr>mem := m\<rparr>) = safe_frame s" "free_low (s\<lparr>mem := m\<rparr>) = free_low s"
  by (simp_all add: used_def pmm_wf_def safe_frame_def free_low_def heap_start_def
      kernel_page_tables_base_def kernel_page_table_def)

text \<open>
  What one call of \<^const>\<open>map_page\<close> on directory \<open>d\<close> leaves: page \<open>p\<close> maps to frame \<open>f\<close>, at most one
  free frame (the set \<open>N\<close>) has become a page table of \<open>d\<close>, and the other directories, the data
  pages and the rest of memory are as before.
\<close>

definition mapped :: "dir_id set \<Rightarrow> nat set \<Rightarrow> dir_id \<Rightarrow> nat \<Rightarrow> nat \<Rightarrow> nat set \<Rightarrow> kstate \<Rightarrow> kstate \<Rightarrow> bool" where
  "mapped A V d p f N s s' \<longleftrightarrow> vm_inv A V s' \<and> vm_frame s s'
     \<and> N \<subseteq> free_low s \<and> card N \<le> 1 \<and> used s' = used s \<union> N
     \<and> ptrans (mem s') (dir_of s d) p = Some f
     \<and> (\<forall>q\<in>V. d = KDir \<or> owner q = d \<longrightarrow> ptrans (mem s') (dir_of s d) q = ptrans (mem s) (dir_of s d) q)
     \<and> (\<forall>g\<in>A - {d}. \<forall>q<1048576. ptrans (mem s') (dir_of s g) q = ptrans (mem s) (dir_of s g) q)
     \<and> own (mem s') (dir_of s d) = own (mem s) (dir_of s d) \<union> N
     \<and> (\<forall>g\<in>A - {d}. own (mem s') (dir_of s g) = own (mem s) (dir_of s g))
     \<and> (\<forall>a. frame_of a \<notin> own (mem s) (dir_of s d) \<union> N \<longrightarrow> mem s' a = mem s a)"

lemma kernel_flags:
  assumes "page_aligned x"
  shows "present (x OR PAGE_KERNEL)" "(x OR PAGE_KERNEL) AND 0x80 = 0" "frame_of (x OR PAGE_KERNEL) = frame_of x"
    "page_of (x OR PAGE_KERNEL) = x"
  using assms
  by (simp_all add: present_or_flags frame_of_or_flags page_of_or_flags or_flags_and PAGE_KERNEL_def present_def)

text \<open>The write of the page-table entry, once the directory has a table for the page.\<close>

lemma map_pte:
  assumes vm: "vm_inv A V s" and d: "d \<in> A" and p: "p < 0xC0000" "p \<notin> V"
    and pres: "present (entry (mem s) (dir_of s d) (p div 1024))" and x: "page_aligned x"
  shows "\<exists>s'. store32 (page_of (entry (mem s) (dir_of s d) (p div 1024)) + 0xC0000000 + 4 * of_nat (p mod 1024))
      (x OR PAGE_KERNEL) s = Inr ((), s') \<and> mapped A V d p (frame_of x) {} s s'"
proof -
  let ?e = "entry (mem s) (dir_of s d) (p div 1024)"
  let ?m = "(mem s)(slot (page_of ?e) (p mod 1024) := x OR PAGE_KERNEL)"
  have ut: "frame_of ?e \<in> utabs (mem s) (dir_of s d)"
    using pres p(1) by (auto simp: tabs_def)
  then have low: "frame_of (page_of ?e) < 0x40000"
    using vm_invD(11) [OF vm d] by (simp add: frame_of_page_of)
  have st: "store32 (page_of ?e + 0xC0000000 + 4 * of_nat (p mod 1024)) (x OR PAGE_KERNEL) s =
      Inr ((), s\<lparr>mem := ?m\<rparr>)"
    by (rule store_low [OF vm page_of_aligned low]) simp
  note w = vm_ok_set_pte [OF vm_invD(4) [OF vm] d p pres, where w = "x OR PAGE_KERNEL"]
  have fr: "frame_of (slot (page_of ?e) (p mod 1024)) \<in> own (mem s) (dir_of s d)"
    using ut by (simp add: slot_frame page_of_aligned frame_of_page_of own_def)
  have inv: "vm_inv A V (s\<lparr>mem := ?m\<rparr>)"
    by (rule vm_inv_cong [OF vm_frame_mem vm]) (use w(1) vm_invD(1) [OF vm] in simp_all)
  have keep: "ptrans ?m (dir_of s d) q = ptrans (mem s) (dir_of s d) q" if "q \<in> V" for q
    using w(4) [of q] that p(2) vm_okD(7) [OF vm_invD(4) [OF vm] that] by (auto simp: page_ok_def)
  show ?thesis
    unfolding st mapped_def
    using inv vm_frame_mem w(2,3,5,6) keep fr
    by (intro exI [of _ "s\<lparr>mem := ?m\<rparr>"]) (auto simp: kernel_flags x)
qed

text \<open>The new page table: a frame of the allocator becomes the table of an absent entry.\<close>

definition tabled :: "dir_id set \<Rightarrow> nat set \<Rightarrow> dir_id \<Rightarrow> nat \<Rightarrow> nat \<Rightarrow> kstate \<Rightarrow> kstate \<Rightarrow> bool" where
  "tabled A V d i n s s' \<longleftrightarrow> vm_inv A V s' \<and> vm_frame s s' \<and> used s' = insert n (used s)
     \<and> entry (mem s') (dir_of s d) i = addr_of_frame n OR PAGE_KERNEL
     \<and> (\<forall>q\<in>V. d = KDir \<or> owner q = d \<longrightarrow> ptrans (mem s') (dir_of s d) q = ptrans (mem s) (dir_of s d) q)
     \<and> (\<forall>g\<in>A - {d}. \<forall>q<1048576. ptrans (mem s') (dir_of s g) q = ptrans (mem s) (dir_of s g) q)
     \<and> own (mem s') (dir_of s d) = insert n (own (mem s) (dir_of s d))
     \<and> (\<forall>g\<in>A - {d}. own (mem s') (dir_of s g) = own (mem s) (dir_of s g))
     \<and> (\<forall>a. frame_of a \<noteq> frame_of (dir_of s d) \<longrightarrow> mem s' a = mem s a)"

lemma take_frame_mem [simp]: "mem (take_frame n s) = mem s"
  by (simp add: take_frame_def)

lemma vm_ok_mono:
  assumes vm: "vm_ok A V D m U sf" and U: "U \<subseteq> U'"
  shows "vm_ok A V D m U' sf"
proof -
  have d: "dir_ok m D U' sf d" if "d \<in> A" for d
    using vm_okD(5) [OF vm that] U by (auto simp: dir_ok_def)
  have p: "\<exists>f. page_ok A D m U' sf p f" if p: "p \<in> V" for p
    using vm_okD(7) [OF vm that] U by (auto simp: page_ok_def)
  from vm show ?thesis by (simp add: vm_ok_def d p)
qed

lemma vm_inv_take:
  assumes "vm_inv A V s" "n < 1048576"
  shows "vm_inv A V (take_frame n s)"
proof (rule vm_inv_cong [OF vm_frame_take assms(1)])
  show "pmm_wf (take_frame n s)" by (rule pmm_wf_take [OF vm_invD(1) [OF assms(1)]])
  show "vm_ok A V (dir_of s) (mem (take_frame n s)) (used (take_frame n s)) (safe_frame s)"
    using vm_ok_mono [OF vm_invD(4) [OF assms(1)], of "insert n (used s)"] assms(2)
    by (auto simp: used_take)
qed

lemma map_pde:
  assumes vm: "vm_inv A V s" and d: "d \<in> A" and i: "i < 768" "\<not> present (entry (mem s) (dir_of s d) i)"
    and n: "n \<in> free_low s"
  shows "\<exists>s'. store32 (dir_of s d + 0xC0000000 + 4 * of_nat i) (addr_of_frame n OR PAGE_KERNEL) (take_frame n s)
      = Inr ((), s') \<and> tabled A V d i n s s'"
proof -
  let ?t = "take_frame n s"
  let ?m = "(mem s)(slot (dir_of s d) i := addr_of_frame n OR PAGE_KERNEL)"
  note nD = free_lowD [OF n]
  have al: "page_aligned (addr_of_frame n)" by (rule page_aligned_addr_of_frame)
  have fn: "frame_of (addr_of_frame n) = n" using nD by (simp add: frame_of_addr_of_frame)
  have vt: "vm_inv A V ?t" by (rule vm_inv_take [OF vm nD(5)])
  have st: "store32 (dir_of s d + 0xC0000000 + 4 * of_nat i) (addr_of_frame n OR PAGE_KERNEL) ?t =
      Inr ((), ?t\<lparr>mem := ?m\<rparr>)"
    using store_low [OF vt vm_invD(8,10) [OF vm d], of i] i(1) by simp
  note w = vm_ok_set_pde [OF vm_invD(4) [OF vm] d i, of "addr_of_frame n OR PAGE_KERNEL" n,
      OF _ free_low_not_used [OF n] nD(1,2)]
  note w' = w [unfolded kernel_flags(3) [OF al] fn, OF refl kernel_flags(1,2) [OF al]]
  have fr: "vm_frame s (?t\<lparr>mem := ?m\<rparr>)" by (rule vm_frame_trans [OF vm_frame_take vm_frame_mem])
  have inv: "vm_inv A V (?t\<lparr>mem := ?m\<rparr>)"
    by (rule vm_inv_cong [OF fr vm]) (use w'(1) nD pmm_wf_take [OF vm_invD(1) [OF vm]] in \<open>simp_all add: used_take\<close>)
  have fs: "frame_of (slot (dir_of s d) i) = frame_of (dir_of s d)"
    using i(1) vm_invD(8) [OF vm d] by (simp add: slot_frame)
  show ?thesis
    unfolding st tabled_def
    using inv fr w'(2-6) fs nD
    by (intro exI [of _ "?t\<lparr>mem := ?m\<rparr>"]) (auto simp: used_take)
qed

lemma tabled_mapped:
  assumes t: "tabled A V d i n s t" and m: "mapped A V d p f {} t u" and n: "n \<in> free_low s"
  shows "mapped A V d p f {n} s u"
proof -
  have d: "dir_of t = dir_of s" using t by (simp add: tabled_def vm_frame_simps)
  show ?thesis
    using t m n unfolding tabled_def mapped_def d
    by (auto intro: vm_frame_trans simp: own_def)
qed

lemma page_of_mask: "x AND - 4096 = page_of x" "x AND NOT 0xFFF = page_of x"
  by (simp_all add: page_of_def)

lemma dir_virtual:
  assumes "vm_inv A V s" "d \<in> A"
  shows "is_virtual (dir_of s d + 0xC0000000)"
  using high_half(1) [OF frame_low_unat [OF vm_invD(10) [OF assms]]]
  by (simp add: is_virtual_def word_le_nat_alt)

lemma map_page_vm:
  assumes vm: "vm_inv A V s" and d: "d \<in> A" and p: "frame_of va < 0xC0000" "frame_of va \<notin> V"
    and low: "\<not> (d = KDir \<and> frame_of va < 1024)" and x: "page_aligned x" "is_physical x"
    and fr: "free_low s \<noteq> {}"
  shows "\<exists>s' N. map_page (dir_of s d + 0xC0000000) va x PAGE_KERNEL s = Inr ((), s')
     \<and> mapped A V d (frame_of va) (frame_of x) N s s'"
proof -
  let ?p = "frame_of va" and ?dir = "dir_of s d"
  let ?e = "entry (mem s) ?dir (?p div 1024)"
  have i: "?p div 1024 < 768" using p(1) by simp
  have ld: "load32 (?dir + 0xC0000000 + 4 * of_nat (?p div 1024)) s = Inr (?e, s)"
    by (rule load_dir_entry [OF vm d]) (use i in simp)
  show ?thesis
  proof (cases "present ?e")
    case True
    then show ?thesis
      using map_pte [OF vm d p True x(1)] x(2) dir_virtual [OF vm d]
      by (simp add: map_page_def Let_def dir_index_nat table_index_nat ld and_one_present
          page_of_mask) blast
  next
    case False
    obtain n where n: "get_next_free_kernel_frame s = Inr (addr_of_frame n, take_frame n s)" "n \<in> free_low s"
      by (rule kernel_frames.alloc_frame [OF vm_invD(1) [OF vm] fr])
    from map_pde [OF vm d i False n(2)] obtain t where
      t: "store32 (?dir + 0xC0000000 + 4 * of_nat (?p div 1024)) (addr_of_frame n OR PAGE_KERNEL) (take_frame n s) = Inr ((), t)"
        "tabled A V d (?p div 1024) n s t" by blast
    have dt: "dir_of t = dir_of s" "vm_inv A V t"
      "entry (mem t) ?dir (?p div 1024) = addr_of_frame n OR PAGE_KERNEL"
      using t(2) by (simp_all add: tabled_def vm_frame_simps)
    have "present (entry (mem t) (dir_of t d) (?p div 1024))"
      by (simp add: dt kernel_flags page_aligned_addr_of_frame)
    from map_pte [OF dt(2) d p this x(1)] obtain u where
      u: "store32 (addr_of_frame n + 0xC0000000 + 4 * of_nat (?p mod 1024)) (x OR PAGE_KERNEL) t = Inr ((), u)"
        "mapped A V d ?p (frame_of x) {} t u"
      by (auto simp: dt kernel_flags page_aligned_addr_of_frame)
    have nlow: "\<not> (?dir + 0xC0000000 = kernel_page_dir s \<and> of_nat (?p div 1024) = (0::u32))"
    proof
      assume a: "?dir + 0xC0000000 = kernel_page_dir s \<and> of_nat (?p div 1024) = (0::u32)"
      then have "d = KDir" using dir_of_inj [OF vm d vm_invD(5) [OF vm]] kernel_dir_eq by auto
      moreover have "?p div 1024 = 0"
        using a i unat_of_nat [where 'a = 32, of "?p div 1024"] by simp
      ultimately show False using low by auto
    qed
    have "map_page (?dir + 0xC0000000) va x PAGE_KERNEL s = Inr ((), u)"
      using nlow False x(2) dir_virtual [OF vm d]
      by (simp add: map_page_def Let_def dir_index_nat table_index_nat ld and_one_present bnd_assoc
          n(1) t(1) u(1)) auto
    then show ?thesis using tabled_mapped [OF t(2) u(2) n(2)] by blast
  qed
qed


section \<open>A new data page\<close>

text \<open>
  A page that the kernel directory and its owner map to one frame, used and not yet a data frame
  or a table, is a data page.
\<close>

lemma vm_ok_new_page:
  assumes vm: "vm_ok A V D m U sf" and pg: "page_ok A D m U sf p f"
    and new: "\<And>q. q \<in> V \<Longrightarrow> ptrans m (D KDir) q \<noteq> Some f"
  shows "vm_ok A (insert p V) D m U sf"
proof -
  have f: "ptrans m (D KDir) p = Some f" using pg by (simp add: page_ok_def)
  have "\<forall>q\<in>V. ptrans m (D KDir) p \<noteq> ptrans m (D KDir) q"
    using new unfolding f by metis
  then show ?thesis using vm pg unfolding vm_ok_def by (simp add: eq_commute) blast
qed

text \<open>
  The double mapping that the heap domains make for every new page: a frame \<open>f\<close> that is in use
  but not yet in any address space is mapped at \<open>va\<close> by the owner's directory, then by the kernel's.
\<close>

definition fresh_frame :: "dir_id set \<Rightarrow> nat set \<Rightarrow> kstate \<Rightarrow> nat \<Rightarrow> bool" where
  "fresh_frame A V s f \<longleftrightarrow> f \<in> used s \<and> safe_frame s \<le> f \<and> f < 0x40000
     \<and> (\<forall>d\<in>A. f \<notin> own (mem s) (dir_of s d)) \<and> (\<forall>q\<in>V. ptrans (mem s) (dir_of s KDir) q \<noteq> Some f)"

definition grown :: "dir_id set \<Rightarrow> nat set \<Rightarrow> nat set \<Rightarrow> kstate \<Rightarrow> kstate \<Rightarrow> bool" where
  "grown A V N s s' \<longleftrightarrow> vm_frame s s' \<and> N \<subseteq> free_low s \<and> used s' = used s \<union> N
     \<and> (\<forall>q\<in>V. ptrans (mem s') (dir_of s KDir) q = ptrans (mem s) (dir_of s KDir) q)
     \<and> (\<forall>a. (\<forall>d\<in>A. frame_of a \<notin> own (mem s) (dir_of s d)) \<longrightarrow> frame_of a \<notin> N \<longrightarrow> mem s' a = mem s a)"

lemma grown_trans:
  assumes "grown A V N s t" "grown A V M t u"
    and "\<And>d. d \<in> A \<Longrightarrow> own (mem t) (dir_of s d) \<subseteq> own (mem s) (dir_of s d) \<union> N"
  shows "grown A V (N \<union> M) s u"
proof -
  have fr: "vm_frame s t" "vm_frame t u" using assms(1,2) by (auto simp: grown_def)
  have dt: "dir_of t = dir_of s" "safe_frame t = safe_frame s" using fr(1) by (simp_all add: vm_frame_simps)
  have mem: "mem u a = mem s a"
    if "\<forall>d\<in>A. frame_of a \<notin> own (mem s) (dir_of s d)" "frame_of a \<notin> N \<union> M" for a
  proof -
    have "\<forall>d\<in>A. frame_of a \<notin> own (mem t) (dir_of t d)"
      using that assms(3) by (fastforce simp: dt)
    then show ?thesis using that assms(1,2) by (simp add: grown_def)
  qed
  have "M \<subseteq> free_low s" using assms(1,2) by (auto simp: grown_def free_low_used dt)
  then show ?thesis
    using assms(1,2) mem vm_frame_trans [OF fr] by (auto simp: grown_def dt)
qed

lemma owner_not_KDir [simp]: "owner p \<noteq> KDir" "KDir \<noteq> owner p"
  by (simp_all add: owner_def)

lemma mapped_grown:
  assumes "mapped A V d p f N s s'" "vm_inv A V s" "d \<in> A"
  shows "grown A V N s s'"
proof -
  have "ptrans (mem s') (dir_of s KDir) q = ptrans (mem s) (dir_of s KDir) q" if "q \<in> V" for q
    using assms that vm_invD(5) [OF assms(2)] vm_okD(7) [OF vm_invD(4) [OF assms(2)] that]
    by (cases "d = KDir") (auto simp: mapped_def page_ok_def)
  then show ?thesis using assms(1,3) by (auto simp: mapped_def grown_def)
qed

lemma mapped_own:
  "mapped A V d p f N s s' \<Longrightarrow> g \<in> A \<Longrightarrow> own (mem s') (dir_of s g) \<subseteq> own (mem s) (dir_of s g) \<union> N"
  by (cases "g = d") (auto simp: mapped_def)

lemma double_map:
  assumes vm: "vm_inv A V s" and p: "1024 \<le> frame_of va" "frame_of va < 0xC0000" "frame_of va \<notin> V"
    and ow: "owner (frame_of va) \<in> A" and f: "fresh_frame A V s f" and fr: "2 \<le> card (free_low s)"
  shows "\<exists>t u N. map_page (dir_of s (owner (frame_of va)) + 0xC0000000) va (addr_of_frame f) PAGE_KERNEL s = Inr ((), t)
    \<and> map_page (kernel_page_dir s) va (addr_of_frame f) PAGE_KERNEL t = Inr ((), u)
    \<and> vm_inv A (insert (frame_of va) V) u \<and> grown A V N s u \<and> card N \<le> 2
    \<and> ptrans (mem u) (dir_of s KDir) (frame_of va) = Some f \<and> vm_frame s t"
proof -
  let ?p = "frame_of va" and ?x = "addr_of_frame f"
  have k: "KDir \<in> A" by (rule vm_invD(5) [OF vm])
  have f': "f < 0x40000" "frame_of ?x = f" "page_aligned ?x" "is_physical ?x"
    using f by (auto simp: fresh_frame_def frame_of_addr_of_frame page_aligned_addr_of_frame
        is_physical_def word_less_nat_alt unat_addr_of_frame)
  have "free_low s \<noteq> {}" using fr by auto
  from map_page_vm [OF vm ow p(2,3) _ f'(3,4) this] obtain t N where
    t: "map_page (dir_of s (owner ?p) + 0xC0000000) va ?x PAGE_KERNEL s = Inr ((), t)"
      "mapped A V (owner ?p) ?p f N s t" by (auto simp: f')
  have dt: "dir_of t = dir_of s" "safe_frame t = safe_frame s" "kernel_page_dir t = kernel_page_dir s"
    using t(2) by (simp_all add: mapped_def vm_frame_simps)
  have vt: "vm_inv A V t" and fst: "vm_frame s t" using t(2) by (simp_all add: mapped_def)
  have ft: "free_low t = free_low s - N" using t(2) by (auto simp: mapped_def free_low_used dt)
  have N: "N \<subseteq> free_low s" "card N \<le> 1" "finite N" using t(2)
    by (auto simp: mapped_def intro: finite_subset)
  have "card (free_low t) = card (free_low s) - card N"
    unfolding ft by (rule card_Diff_subset [OF N(3,1)])
  with fr N(2) have "free_low t \<noteq> {}" by auto
  from map_page_vm [OF vt k p(2,3) _ f'(3,4) this] obtain u M where
    u: "map_page (dir_of t KDir + 0xC0000000) va ?x PAGE_KERNEL t = Inr ((), u)"
      "mapped A V KDir ?p f M t u" using p(1) by (auto simp: f')
  have kd: "dir_of t KDir + 0xC0000000 = kernel_page_dir s"
    by (simp add: dir_of_def dt)
  have "vm_frame t u" using u(2) by (simp add: mapped_def)
  then have du: "dir_of u = dir_of s" "safe_frame u = safe_frame s"
    using vm_frame_simps [of t u] dt by auto
  have gr: "grown A V (N \<union> M) s u"
    by (rule grown_trans [OF mapped_grown [OF t(2) vm ow] mapped_grown [OF u(2) vt k]])
       (rule mapped_own [OF t(2)])
  have own: "f \<notin> own (mem u) (dir_of s g)" if "g \<in> A" for g
  proof -
    have "own (mem u) (dir_of s g) \<subseteq> own (mem s) (dir_of s g) \<union> N \<union> M"
      using mapped_own [OF t(2) that] mapped_own [OF u(2) that] by (auto simp: dt)
    moreover have "f \<notin> N \<union> M" using gr f by (auto simp: grown_def fresh_frame_def free_low_used)
    ultimately show ?thesis using f that by (auto simp: fresh_frame_def)
  qed
  have po: "page_ok A (dir_of s) (mem u) (used u) (safe_frame s) ?p f"
    using p(2) ow t(2) u(2) own f gr
    by (auto simp: page_ok_def mapped_def dt fresh_frame_def grown_def)
  have vu: "vm_inv A V u" using u(2) by (simp add: mapped_def)
  have "vm_ok A (insert ?p V) (dir_of u) (mem u) (used u) (safe_frame u)"
    using vm_ok_new_page [OF vm_invD(4) [OF vu]] po f gr
    by (simp add: du fresh_frame_def grown_def)
  then have "vm_inv A (insert ?p V) u" using vu by (simp add: vm_inv_def)
  moreover have "card (N \<union> M) \<le> 2"
    using card_Un_le [of N M] N(2) u(2) by (simp add: mapped_def)
  ultimately show ?thesis
    using t(1) u gr kd fst by (auto simp: mapped_def dt)
qed

text \<open>The allocation of the frame and the double mapping: at most three frames are taken.\<close>

lemma fresh_take:
  assumes vm: "vm_inv A V s" and n: "n \<in> free_low s"
  shows "fresh_frame A V (take_frame n s) n"
proof -
  note nD = free_lowD [OF n] free_low_not_used [OF n]
  have "n \<notin> own (mem s) (dir_of s d)" if "d \<in> A" for d
    using own_frame [OF vm_invD(4) [OF vm] that] nD vm_okD(2) [OF vm_invD(4) [OF vm]] by fastforce
  moreover have "ptrans (mem s) (dir_of s KDir) q \<noteq> Some n" if "q \<in> V" for q
    using vm_okD(7) [OF vm_invD(4) [OF vm] that] nD by (auto simp: page_ok_def)
  ultimately show ?thesis
    using nD vm_frame_simps(1) [OF vm_frame_take, of n s] by (auto simp: fresh_frame_def used_take)
qed

lemma new_page:
  assumes vm: "vm_inv A V s" and p: "1024 \<le> frame_of va" "frame_of va < 0xC0000" "frame_of va \<notin> V"
    and ow: "owner (frame_of va) \<in> A" and fr: "3 \<le> card (free_low s)"
  shows "\<exists>f t u v N. get_next_free_process_frame s = Inr (addr_of_frame f, t) \<and> addr_of_frame f \<noteq> 0
    \<and> map_page (dir_of s (owner (frame_of va)) + 0xC0000000) va (addr_of_frame f) PAGE_KERNEL t = Inr ((), u)
    \<and> map_page (kernel_page_dir s) va (addr_of_frame f) PAGE_KERNEL u = Inr ((), v)
    \<and> vm_inv A (insert (frame_of va) V) v \<and> grown A V N s v \<and> card N \<le> 3
    \<and> ptrans (mem v) (dir_of s KDir) (frame_of va) = Some f \<and> f \<in> N \<and> f \<in> free_low s
    \<and> vm_frame s t \<and> vm_frame s u"
proof -
  have ne: "free_low s \<noteq> {}" using fr by auto
  obtain f where f: "get_next_free_process_frame s = Inr (addr_of_frame f, take_frame f s)" "f \<in> free_low s"
    by (rule process_frames.alloc_frame [OF vm_invD(1) [OF vm] ne])
  let ?t = "take_frame f s"
  note fD = free_lowD [OF f(2)]
  have vt: "vm_inv A V ?t" by (rule vm_inv_take [OF vm fD(5)])
  have dt: "dir_of ?t = dir_of s" "kernel_page_dir ?t = kernel_page_dir s"
    using vm_frame_simps [OF vm_frame_take] by auto
  have "2 \<le> card (free_low ?t)" using fr f(2) by (simp add: free_low_take)
  from double_map [OF vt p ow fresh_take [OF vm f(2)] this] obtain u v N where
    uv: "map_page (dir_of s (owner (frame_of va)) + 0xC0000000) va (addr_of_frame f) PAGE_KERNEL ?t = Inr ((), u)"
      "map_page (kernel_page_dir s) va (addr_of_frame f) PAGE_KERNEL u = Inr ((), v)"
      "vm_inv A (insert (frame_of va) V) v" "grown A V N ?t v" "card N \<le> 2"
      "ptrans (mem v) (dir_of s KDir) (frame_of va) = Some f" "vm_frame ?t u"
    by (auto simp: dt)
  have "grown A V {f} s ?t"
    using f(2) fD by (auto simp: grown_def vm_frame_take used_take)
  from grown_trans [OF this uv(4)] have g: "grown A V (insert f N) s v" by (simp add: subset_insertI)
  have c: "card (insert f N) \<le> 3" using uv(5) card_insert_le_m1 [of 3 N f] by simp
  have "addr_of_frame f \<noteq> 0"
    using fD vm_invD(1) [OF vm] by (intro addr_of_frame_nonzero) (auto simp: pmm_wf_def)
  then show ?thesis using f uv(1,2,3,6) g c vm_frame_take vm_frame_trans [OF vm_frame_take uv(7)]
    by (intro exI [of _ f] exI [of _ ?t] exI [of _ u] exI [of _ v] exI [of _ "insert f N"]) simp
qed

end
