(* ===== verification/Heap_Domain.thy ===== *)
theory Heap_Domain
  imports Address_Space
begin

unbundle bit_operations_syntax

text \<open>
  The domain allocator, \<^verbatim>\<open>lib/heap_domain.c\<close>: seven size classes, each with its page directory and
  its 256 MB region of virtual addresses, and the large domain.  A pointer to a \<^verbatim>\<open>heap_domain_t\<close> is
  the name of one of the seven global domains; a free block holds the address of the next one in
  its first word.
\<close>

section \<open>The fields of a domain\<close>

definition domain :: "heap_id \<Rightarrow> (heap_domain \<Rightarrow> 'a) \<Rightarrow> 'a kop" where
  "domain h field = gets (\<lambda>s. field (heaps s h))"

definition set_domain :: "heap_id \<Rightarrow> (heap_domain \<Rightarrow> heap_domain) \<Rightarrow> unit kop" where
  "set_domain h f = modify (\<lambda>s. s\<lparr>heaps := (heaps s)(h := f (heaps s h))\<rparr>)"

definition set_large :: "(large_domain \<Rightarrow> large_domain) \<Rightarrow> unit kop" where
  "set_large f = modify (\<lambda>s. s\<lparr>large_dom := f (large_dom s)\<rparr>)"

section \<open>Size-class domains\<close>

text \<open>The loop that chains the blocks of a page, from block \<open>i\<close> on, \<open>k\<close> iterations left.\<close>

fun link_blocks :: "u32 \<Rightarrow> u32 \<Rightarrow> nat \<Rightarrow> nat \<Rightarrow> unit kop" where
  "link_blocks virt sz i 0 = ret ()"
| "link_blocks virt sz i (Suc k) =
     bnd (store32 (virt + of_nat i * sz) (virt + (of_nat i + 1) * sz)) (\<lambda>_.
     link_blocks virt sz (i + 1) k)"

fun premap_pages :: "heap_id \<Rightarrow> nat \<Rightarrow> unit kop" where
  "premap_pages h 0 = ret ()"
| "premap_pages h (Suc k) =
     bnd get_next_free_process_frame (\<lambda>phys.
     if phys = 0 then
       bnd (kprint_color COLOR_RED ''[HEAP] FATAL: PMM out of frames durring pre-map'' []) (\<lambda>_. raise Hang)
     else
       bnd (domain h next_virt_addr) (\<lambda>virt.
       bnd (domain h page_directory) (\<lambda>dir.
       bnd (map_page dir virt phys PAGE_KERNEL) (\<lambda>_.
       bnd (gets kernel_page_dir) (\<lambda>kernel_dir.
       bnd (map_page kernel_dir virt phys PAGE_KERNEL) (\<lambda>_.
       bnd (domain h block_size) (\<lambda>sz.
       bnd (domain h blocks_per_page) (\<lambda>n.
       bnd (link_blocks virt sz 0 (unat (n - 1))) (\<lambda>_.
       bnd (domain h next_free_block) (\<lambda>head.
       bnd (store32 (virt + (n - 1) * sz) head) (\<lambda>_.
       bnd (set_domain h (\<lambda>d. d\<lparr>next_free_block := virt\<rparr>)) (\<lambda>_.
       bnd (set_domain h (\<lambda>d. d\<lparr>next_virt_addr := next_virt_addr d + 4096\<rparr>)) (\<lambda>_.
       premap_pages h k)))))))))))))"

definition PREMAP_PAGES :: nat where "PREMAP_PAGES = 256"

definition init_heap_domain :: "heap_id \<Rightarrow> u32 \<Rightarrow> u32 \<Rightarrow> unit kop" where
  "init_heap_domain h sz virt_base =
     bnd (kprint (''[HEAP_DBG] init_heap_domain: block_size=%d virt_base=0x%x'' @ [CHR 0x0A])
            [AInt sz, AInt virt_base]) (\<lambda>_.
     bnd get_next_free_kernel_frame (\<lambda>phys_dir.
     if phys_dir = 0 then
       bnd (kprint_color COLOR_RED (''[HEAP] FATAL: PMM out of frames for page directory (size=%d)'' @ [CHR 0x0A])
              [AInt sz]) (\<lambda>_. raise Hang)
     else
       bnd (kprint (''[HEAP_DBG] phys_dir = 0x%x  virt = 0x%x'' @ [CHR 0x0A])
              [AInt phys_dir, AInt (phys_dir + 0xC0000000)]) (\<lambda>_.
       let dir = phys_dir + 0xC0000000 in
       bnd (set_domain h (\<lambda>d. d\<lparr>page_directory := dir\<rparr>)) (\<lambda>_.
       bnd (zero_entries dir 0 1024) (\<lambda>_.
       bnd (kprint (''[HEAP_DBG] page directory zeroed'' @ [CHR 0x0A]) []) (\<lambda>_.
       bnd (gets kernel_page_dir) (\<lambda>kernel_dir.
       bnd (copy_entries kernel_dir dir 768 256) (\<lambda>_.
       bnd (kprint (''[HEAP_DBG] kernel entries copied'' @ [CHR 0x0A]) []) (\<lambda>_.
       bnd (set_domain h (\<lambda>d. d\<lparr>block_size := sz\<rparr>)) (\<lambda>_.
       if sz = 0 then raise DivideByZero
       else
         bnd (set_domain h (\<lambda>d. d\<lparr>blocks_per_page := 4096 div sz\<rparr>)) (\<lambda>_.
         bnd (set_domain h (\<lambda>d. d\<lparr>next_virt_addr := virt_base\<rparr>)) (\<lambda>_.
         bnd (set_domain h (\<lambda>d. d\<lparr>next_free_block := 0\<rparr>)) (\<lambda>_.
         bnd (kprint (''[HEAP_DBG] init_heap_domain done'' @ [CHR 0x0A]) []) (\<lambda>_.
         premap_pages h PREMAP_PAGES))))))))))))))"

definition heap_domain_alloc :: "heap_id \<Rightarrow> u32 kop" where
  "heap_domain_alloc h =
     bnd (domain h next_free_block) (\<lambda>head.
     if head \<noteq> 0 then
       bnd (load32 head) (\<lambda>nxt.
       bnd (set_domain h (\<lambda>d. d\<lparr>next_free_block := nxt\<rparr>)) (\<lambda>_.
       ret head))
     else
       bnd get_next_free_process_frame (\<lambda>phys.
       if phys = 0 then
         bnd (kprint_color COLOR_RED (''[HEAP] FATAL: PMM out of frames during alloc'' @ [CHR 0x0A]) []) (\<lambda>_. ret 0)
       else
         bnd (domain h next_virt_addr) (\<lambda>virt.
         bnd (domain h page_directory) (\<lambda>dir.
         bnd (map_page dir virt phys PAGE_KERNEL) (\<lambda>_.
         bnd (gets kernel_page_dir) (\<lambda>kernel_dir.
         bnd (map_page kernel_dir virt phys PAGE_KERNEL) (\<lambda>_.
         bnd (domain h block_size) (\<lambda>sz.
         bnd (domain h blocks_per_page) (\<lambda>n.
         bnd (link_blocks virt sz 0 (unat (n - 1))) (\<lambda>_.
         bnd (store32 (virt + (n - 1) * sz) 0) (\<lambda>_.
         bnd (set_domain h (\<lambda>d. d\<lparr>next_free_block := virt\<rparr>)) (\<lambda>_.
         bnd (set_domain h (\<lambda>d. d\<lparr>next_virt_addr := next_virt_addr d + 4096\<rparr>)) (\<lambda>_.
         bnd (domain h next_free_block) (\<lambda>ptr.
         bnd (load32 ptr) (\<lambda>nxt.
         bnd (set_domain h (\<lambda>d. d\<lparr>next_free_block := nxt\<rparr>)) (\<lambda>_.
         ret ptr))))))))))))))))"

definition heap_domain_free :: "heap_id \<Rightarrow> u32 \<Rightarrow> unit kop" where
  "heap_domain_free h ptr =
     (if ptr = 0 then ret ()
      else
        bnd (domain h next_free_block) (\<lambda>head.
        bnd (store32 ptr head) (\<lambda>_.
        set_domain h (\<lambda>d. d\<lparr>next_free_block := ptr\<rparr>))))"

section \<open>The large domain\<close>

definition LARGE_VIRT_BASE :: u32 where "LARGE_VIRT_BASE = 0x80000000"

definition init_large_domain :: "unit kop" where
  "init_large_domain =
     bnd get_next_free_kernel_frame (\<lambda>phys_dir.
     if phys_dir = 0 then
       bnd (kprint_color COLOR_RED (''[HEAP] FATAL: no frame for large domain page directory'' @ [CHR 0x0A]) [])
         (\<lambda>_. raise Hang)
     else
       let dir = phys_dir + 0xC0000000 in
       bnd (set_large (\<lambda>d. d\<lparr>l_page_directory := dir\<rparr>)) (\<lambda>_.
       bnd (zero_entries dir 0 1024) (\<lambda>_.
       bnd (gets kernel_page_dir) (\<lambda>kernel_dir.
       bnd (copy_entries kernel_dir dir 768 256) (\<lambda>_.
       bnd (set_large (\<lambda>d. d\<lparr>l_next_virt_addr := LARGE_VIRT_BASE\<rparr>)) (\<lambda>_.
       set_large (\<lambda>d. d\<lparr>l_next_free_virt := 0\<rparr>)))))))"

definition unmap_in :: "u32 \<Rightarrow> u32 \<Rightarrow> bool \<Rightarrow> unit kop" where
  "unmap_in dir virt free_frame =
     (let dir_idx = drop_bit 22 virt;
          table_idx = drop_bit 12 virt AND 0x3FF
      in
      bnd (load32 (dir + 4 * dir_idx)) (\<lambda>pde.
      if pde AND 0x1 \<noteq> 0 then
        let tbl_virt = (pde AND NOT 0xFFF) + 0xC0000000 in
        bnd (if free_frame then
               bnd (load32 (tbl_virt + 4 * table_idx)) (\<lambda>pte.
               bnd (clear_frame (pte AND NOT 0xFFF)) (\<lambda>_. ret ()))
             else ret ()) (\<lambda>_.
        store32 (tbl_virt + 4 * table_idx) 0)
      else ret ()))"

text \<open>
  \<^verbatim>\<open>large_unmap_page\<close> runs the same steps on the large domain's directory, without freeing the
  frame, and on the kernel's, where \<^verbatim>\<open>free_frame\<close> decides.
\<close>

definition large_unmap_page :: "u32 \<Rightarrow> bool \<Rightarrow> unit kop" where
  "large_unmap_page virt free_frame =
     bnd (gets (\<lambda>s. l_page_directory (large_dom s))) (\<lambda>dir.
     bnd (unmap_in dir virt False) (\<lambda>_.
     bnd (gets kernel_page_dir) (\<lambda>kdir.
     unmap_in kdir virt free_frame)))"

text \<open>The mapping loop of \<^verbatim>\<open>kmalloc_large\<close>; \<open>False\<close> when it returns \<^verbatim>\<open>NULL\<close>.\<close>

fun map_large_pages :: "u32 \<Rightarrow> nat \<Rightarrow> nat \<Rightarrow> bool kop" where
  "map_large_pages virt_start i 0 = ret True"
| "map_large_pages virt_start i (Suc k) =
     bnd get_next_free_process_frame (\<lambda>phys.
     if phys = 0 then
       bnd (kprint_color COLOR_RED (''[HEAP] FATAL: PMM out of frames in kmalloc_large'' @ [CHR 0x0A]) []) (\<lambda>_. ret False)
     else
       let virt = virt_start + of_nat i * 4096 in
       bnd (gets (\<lambda>s. l_page_directory (large_dom s))) (\<lambda>dir.
       bnd (map_page dir virt phys PAGE_KERNEL) (\<lambda>_.
       bnd (gets kernel_page_dir) (\<lambda>kernel_dir.
       bnd (map_page kernel_dir virt phys PAGE_KERNEL) (\<lambda>_.
       map_large_pages virt_start (i + 1) k)))))"

definition take_fresh_virt :: "u32 \<Rightarrow> u32 kop" where
  "take_fresh_virt pages =
     bnd (gets (\<lambda>s. l_next_virt_addr (large_dom s))) (\<lambda>virt_start.
     bnd (set_large (\<lambda>d. d\<lparr>l_next_virt_addr := l_next_virt_addr d + pages * 4096\<rparr>)) (\<lambda>_.
     ret virt_start))"

definition kmalloc_large :: "u32 \<Rightarrow> u32 kop" where
  "kmalloc_large sz =
     (if sz = 0 then ret 0
      else
        let pages = (sz + 4 + 4095) div 4096 in
        bnd (gets (\<lambda>s. l_next_free_virt (large_dom s))) (\<lambda>candidate.
        bnd (if candidate \<noteq> 0 then
               bnd (load32 (candidate + 4)) (\<lambda>freed_pages.
               if freed_pages \<ge> pages then
                 bnd (load32 candidate) (\<lambda>nxt.
                 bnd (set_large (\<lambda>d. d\<lparr>l_next_free_virt := nxt\<rparr>)) (\<lambda>_.
                 bnd (large_unmap_page candidate True) (\<lambda>_.
                 ret candidate)))
               else take_fresh_virt pages)
             else take_fresh_virt pages) (\<lambda>virt_start.
        bnd (map_large_pages virt_start 0 (unat pages)) (\<lambda>complete.
        if complete then
          bnd (store32 virt_start pages) (\<lambda>_.
          ret (virt_start + 4))
        else ret 0))))"

fun unmap_pages :: "u32 \<Rightarrow> nat \<Rightarrow> nat \<Rightarrow> unit kop" where
  "unmap_pages real_start i 0 = ret ()"
| "unmap_pages real_start i (Suc k) =
     bnd (large_unmap_page (real_start + of_nat i * 4096) True) (\<lambda>_.
     unmap_pages real_start (i + 1) k)"

definition kfree_large :: "u32 \<Rightarrow> unit kop" where
  "kfree_large ptr =
     (if ptr = 0 then ret ()
      else
        let real_start = ptr - 4 in
        bnd (load32 real_start) (\<lambda>pages.
        bnd (unmap_pages real_start 1 (unat pages - 1)) (\<lambda>_.
        bnd (gets (\<lambda>s. l_next_free_virt (large_dom s))) (\<lambda>head.
        bnd (store32 real_start head) (\<lambda>_.
        bnd (store32 (real_start + 4) pages) (\<lambda>_.
        set_large (\<lambda>d. d\<lparr>l_next_free_virt := real_start\<rparr>)))))))"

section \<open>The interface\<close>

definition init_all_heaps :: "unit kop" where
  "init_all_heaps =
     bnd (kprint_color COLOR_WHITE (''[HEAP] Initializing heap domains........'' @ [CHR 0x0A]) []) (\<lambda>_.
     bnd (init_heap_domain Heap_64 64 0x10000000) (\<lambda>_.
     bnd (init_heap_domain Heap_128 128 0x20000000) (\<lambda>_.
     bnd (init_heap_domain Heap_256 256 0x30000000) (\<lambda>_.
     bnd (init_heap_domain Heap_512 512 0x40000000) (\<lambda>_.
     bnd (init_heap_domain Heap_1k 1024 0x50000000) (\<lambda>_.
     bnd (init_heap_domain Heap_2k 2048 0x60000000) (\<lambda>_.
     bnd (init_heap_domain Heap_4k 4096 0x70000000) (\<lambda>_.
     bnd init_large_domain (\<lambda>_.
     kprint_color COLOR_GREEN (''[HEAP] All heap domains ready'' @ [CHR 0x0A]) [])))))))))"

definition kmalloc :: "u32 \<Rightarrow> u32 kop" where
  "kmalloc sz =
     (if sz \<le> 64 then heap_domain_alloc Heap_64
      else if sz \<le> 128 then heap_domain_alloc Heap_128
      else if sz \<le> 256 then heap_domain_alloc Heap_256
      else if sz \<le> 512 then heap_domain_alloc Heap_512
      else if sz \<le> 1024 then heap_domain_alloc Heap_1k
      else if sz \<le> 2048 then heap_domain_alloc Heap_2k
      else if sz \<le> 4096 then heap_domain_alloc Heap_4k
      else kmalloc_large sz)"

definition kfree_heap :: "u32 \<Rightarrow> unit kop" where
  "kfree_heap addr =
     (if addr \<ge> 0x10000000 \<and> addr < 0x20000000 then heap_domain_free Heap_64 addr
      else if addr \<ge> 0x20000000 \<and> addr < 0x30000000 then heap_domain_free Heap_128 addr
      else if addr \<ge> 0x30000000 \<and> addr < 0x40000000 then heap_domain_free Heap_256 addr
      else if addr \<ge> 0x40000000 \<and> addr < 0x50000000 then heap_domain_free Heap_512 addr
      else if addr \<ge> 0x50000000 \<and> addr < 0x60000000 then heap_domain_free Heap_1k addr
      else if addr \<ge> 0x60000000 \<and> addr < 0x70000000 then heap_domain_free Heap_2k addr
      else if addr \<ge> 0x70000000 \<and> addr < 0x80000000 then heap_domain_free Heap_4k addr
      else if addr \<ge> 0x80000000 then kfree_large addr
      else ret ())"

text \<open>The macro \<^verbatim>\<open>kfree\<close>: its result is the value the pointer variable holds afterwards.\<close>

definition kfree :: "u32 \<Rightarrow> u32 kop" where
  "kfree ptr = bnd (kfree_heap ptr) (\<lambda>_. ret 0)"

end
