(* ===== verification/Heap_Invariant.thy ===== *)
theory Heap_Invariant
  imports Heap_Domain
begin

unbundle bit_operations_syntax

text \<open>
  The allocator's memory: the words of the mapped data pages as a store with read and write laws,
  the free lists in it, and the blocks of a page.
\<close>

section \<open>Words of memory behind an interface\<close>

definition peek :: "(u32 \<Rightarrow> ('s, u32) op) \<Rightarrow> 's \<Rightarrow> u32 \<Rightarrow> u32" where
  "peek rd s a = (case rd a s of Inl _ \<Rightarrow> 0 | Inr (w, _) \<Rightarrow> w)"

text \<open>The chain that starts at \<open>p\<close>, follows the first word of each block and ends at \<^verbatim>\<open>NULL\<close>.\<close>

fun flist :: "(u32 \<Rightarrow> u32) \<Rightarrow> u32 \<Rightarrow> u32 list \<Rightarrow> bool" where
  "flist m p [] \<longleftrightarrow> p = 0"
| "flist m p (x # xs) \<longleftrightarrow> p = x \<and> x \<noteq> 0 \<and> flist m (m x) xs"

lemma flist_cong: "(\<And>x. x \<in> set xs \<Longrightarrow> m x = m' x) \<Longrightarrow> flist m p xs = flist m' p xs"
  by (induction xs arbitrary: p) auto

lemma flist_0 [simp]: "flist m 0 xs \<longleftrightarrow> xs = []"
  by (cases xs) auto

lemma flist_nonzero: "flist m p xs \<Longrightarrow> x \<in> set xs \<Longrightarrow> x \<noteq> 0"
  by (induction xs arbitrary: p) auto

lemma flist_head: "flist m p xs \<Longrightarrow> p \<noteq> 0 \<Longrightarrow> \<exists>ys. xs = p # ys \<and> flist m (m p) ys"
  by (cases xs) auto

lemma flist_determ: "flist m p xs \<Longrightarrow> flist m p ys \<Longrightarrow> xs = ys"
  by (induction xs arbitrary: p ys) (case_tac ys; auto)+

locale word_memory =
  fixes rd :: "u32 \<Rightarrow> ('s, u32) op" and wr :: "u32 \<Rightarrow> u32 \<Rightarrow> ('s, unit) op"
    and ok :: "'s \<Rightarrow> bool" and addrs :: "u32 set"
  assumes rd_addr: "ok s \<Longrightarrow> a \<in> addrs \<Longrightarrow> \<exists>w. rd a s = Inr (w, s)"
    and wr_addr: "ok s \<Longrightarrow> a \<in> addrs \<Longrightarrow> \<exists>t. wr a w s = Inr ((), t) \<and> ok t
      \<and> (\<forall>b\<in>addrs. \<forall>v. rd b s = Inr (v, s) \<longrightarrow> rd b t = Inr (if b = a then w else v, t))"
begin

lemma rd_peek: "ok s \<Longrightarrow> a \<in> addrs \<Longrightarrow> rd a s = Inr (peek rd s a, s)"
  using rd_addr [of s a] by (auto simp: peek_def)

lemma wr_peek:
  assumes "ok s" "a \<in> addrs"
  shows "\<exists>t. wr a w s = Inr ((), t) \<and> ok t \<and> (\<forall>b\<in>addrs. peek rd t b = (if b = a then w else peek rd s b))"
proof -
  from wr_addr [OF assms, of w] obtain t where t: "wr a w s = Inr ((), t)" "ok t"
    "\<And>b v. b \<in> addrs \<Longrightarrow> rd b s = Inr (v, s) \<Longrightarrow> rd b t = Inr (if b = a then w else v, t)" by blast
  have "peek rd t b = (if b = a then w else peek rd s b)" if "b \<in> addrs" for b
    using t(3) [OF that rd_peek [OF assms(1) that]] by (simp add: peek_def [of rd t])
  with t(1,2) show ?thesis by blast
qed

lemma pop:
  assumes "ok s" "flist (peek rd s) p xs" "p \<noteq> 0" "set xs \<subseteq> addrs"
  shows "\<exists>ys. xs = p # ys \<and> rd p s = Inr (peek rd s p, s) \<and> flist (peek rd s) (peek rd s p) ys"
proof -
  from flist_head [OF assms(2,3)] obtain ys where "xs = p # ys" "flist (peek rd s) (peek rd s p) ys" by blast
  then show ?thesis using rd_peek [OF assms(1), of p] assms(4) by simp
qed

lemma push:
  assumes "ok s" "a \<in> addrs" "a \<noteq> 0" "a \<notin> set xs" "set xs \<subseteq> addrs" "flist (peek rd s) p xs"
  shows "\<exists>t. wr a p s = Inr ((), t) \<and> ok t \<and> flist (peek rd t) a (a # xs)
    \<and> (\<forall>b\<in>addrs. b \<noteq> a \<longrightarrow> peek rd t b = peek rd s b)"
proof -
  from wr_peek [OF assms(1,2), of p] obtain t where t: "wr a p s = Inr ((), t)" "ok t"
    "\<And>b. b \<in> addrs \<Longrightarrow> peek rd t b = (if b = a then p else peek rd s b)" by blast
  have "flist (peek rd t) p xs = flist (peek rd s) p xs"
    using t(3) assms(4,5) by (intro flist_cong) auto
  then show ?thesis using t assms by auto
qed

text \<open>A block freed twice is its own successor: the list no longer ends.\<close>

lemma push_twice:
  assumes "ok s" "a \<in> addrs"
  shows "\<exists>t u. wr a p s = Inr ((), t) \<and> wr a a t = Inr ((), u) \<and> ok u \<and> rd a u = Inr (a, u)"
proof -
  from wr_peek [OF assms, of p] obtain t where t: "wr a p s = Inr ((), t)" "ok t" by blast
  from wr_peek [OF t(2) assms(2), of a] obtain u where "wr a a t = Inr ((), u)" "ok u"
    "peek rd u a = a" using assms(2) by auto
  then show ?thesis using t(1) rd_peek [OF _ assms(2), of u] by auto
qed

end

section \<open>Data pages\<close>

definition data_addrs :: "nat set \<Rightarrow> u32 set" where
  "data_addrs V = {a. frame_of a \<in> V \<and> word_aligned a}"

lemma data_addr:
  assumes "vm_inv A V s" "frame_of a \<in> V"
  shows "\<exists>f. ptrans (mem s) (dir_of s KDir) (frame_of a) = Some f
    \<and> translate (mem s) (cr3 s) a = Some (addr_of_frame f OR (a AND 0xFFF))
    \<and> safe_frame s \<le> f \<and> f < 0x40000 \<and> (\<forall>d\<in>A. f \<notin> own (mem s) (dir_of s d))"
  using vm_okD(7) [OF vm_invD(4) [OF assms(1)] assms(2)] translate_wf [OF vm_invD(6) [OF assms(1)], of a]
    vm_invD(3) [OF assms(1)]
  by (auto simp: page_ok_def)

lemma unat_data: "f < 0x100000 \<Longrightarrow> unat (addr_of_frame f OR (a AND 0xFFF)) = f * 4096 + unat a mod 4096"
  using aligned_or_flags(2) [OF page_aligned_addr_of_frame, of "a AND 0xFFF" f]
  by (simp add: unat_addr_of_frame unat_and_FFF word_less_nat_alt)

lemma frame_of_data: "f < 0x100000 \<Longrightarrow> frame_of (addr_of_frame f OR (a AND 0xFFF)) = f"
  unfolding frame_of_def by (simp add: unat_data)

lemma page_offset_eq:
  assumes "f * 4096 + x mod 4096 = g * 4096 + y mod (4096 :: nat)"
  shows "f = g \<and> x mod 4096 = y mod 4096"
proof -
  have a: "(k * 4096 + w) div 4096 = k" "(k * 4096 + w) mod 4096 = w" if "w < 4096" for k w :: nat
    using that by simp_all
  have lt: "x mod 4096 < 4096" "y mod 4096 < 4096" by simp_all
  have "f = g" using a(1) [OF lt(1), of f] a(1) [OF lt(2), of g] assms by simp
  moreover have "x mod 4096 = y mod 4096" using a(2) [OF lt(1), of f] a(2) [OF lt(2), of g] assms by simp
  ultimately show ?thesis by simp
qed

text \<open>Different virtual data words are different physical words.\<close>

lemma translate_inj:
  assumes vm: "vm_inv A V s" and V: "frame_of a \<in> V" "frame_of b \<in> V"
    and eq: "translate (mem s) (cr3 s) a = translate (mem s) (cr3 s) b"
  shows "a = b"
proof -
  from data_addr [OF vm V(1)] obtain f where f: "ptrans (mem s) (dir_of s KDir) (frame_of a) = Some f"
    "translate (mem s) (cr3 s) a = Some (addr_of_frame f OR (a AND 0xFFF))" "f < 0x40000" by blast
  from data_addr [OF vm V(2)] obtain g where g: "ptrans (mem s) (dir_of s KDir) (frame_of b) = Some g"
    "translate (mem s) (cr3 s) b = Some (addr_of_frame g OR (b AND 0xFFF))" "g < 0x40000" by blast
  from eq f g have "unat (addr_of_frame f OR (a AND 0xFFF)) = unat (addr_of_frame g OR (b AND 0xFFF))" by simp
  then have "f * 4096 + unat a mod 4096 = g * 4096 + unat b mod 4096" using f(3) g(3) by (simp add: unat_data)
  from page_offset_eq [OF this] have "f = g" "unat a mod 4096 = unat b mod 4096" by simp_all
  moreover from this have "frame_of a = frame_of b"
    using vm_okD(8) [OF vm_invD(4) [OF vm] V] f(1) g(1) by metis
  ultimately show "a = b" by (intro u32_eqI) (metis frame_of_def div_mult_mod_eq)
qed

interpretation data: word_memory load32 store32
  "\<lambda>s. vm_inv A V s \<and> s\<lparr>mem := mem s0\<rparr> = s0" "data_addrs V" for A V s0
proof (unfold_locales, goal_cases)
  case (1 s a)
  then show ?case using data_addr [of A V s a] by (auto simp: data_addrs_def load32_def)
next
  case (2 s a w)
  then have vm: "vm_inv A V s" and fr: "s\<lparr>mem := mem s0\<rparr> = s0" and a: "frame_of a \<in> V" "word_aligned a"
    by (auto simp: data_addrs_def)
  from data_addr [OF vm a(1)] obtain f where f:
    "translate (mem s) (cr3 s) a = Some (addr_of_frame f OR (a AND 0xFFF))" "safe_frame s \<le> f" "f < 0x40000"
    "\<And>d. d \<in> A \<Longrightarrow> f \<notin> own (mem s) (dir_of s d)" by blast
  let ?pa = "addr_of_frame f OR (a AND 0xFFF)"
  let ?t = "s\<lparr>mem := (mem s)(?pa := w)\<rparr>"
  have fr': "frame_of ?pa = f" using f(3) by (simp add: frame_of_data)
  have pa: "safe_frame s \<le> frame_of ?pa" "\<And>d. d \<in> A \<Longrightarrow> frame_of ?pa \<notin> own (mem s) (dir_of s d)"
    using f(2,4) by (simp_all add: fr')
  have ok: "vm_ok A V (dir_of s) (mem ?t) (used s) (safe_frame s)"
    using vm_ok_data_write(1) [OF vm_invD(4) [OF vm] pa(1)] pa(2) by simp
  have pt: "ptrans (mem ?t) (dir_of s KDir) q = ptrans (mem s) (dir_of s KDir) q" if "q < 1048576" for q
    using vm_ok_data_write(2) [OF vm_invD(4) [OF vm] pa(1)] pa(2) vm_invD(5) [OF vm] that by simp
  have vt: "vm_inv A V ?t"
    by (rule vm_inv_cong [OF vm_frame_mem vm]) (use ok vm_invD(1) [OF vm] in simp_all)
  have st: "store32 a w s = Inr ((), ?t)" using a f(1) by (simp add: store32_def)
  have tr: "translate (mem ?t) (cr3 ?t) b = translate (mem s) (cr3 s) b" if "frame_of b \<in> V" for b
    using pt [of "frame_of b"] frame_of_lt [of b] vm_invD(3) [OF vm]
      translate_wf [OF vm_invD(6) [OF vm], of b] translate_wf [OF vm_invD(6) [OF vt], of b]
    by simp
  have "load32 b ?t = Inr (if b = a then w else v, ?t)" if b: "b \<in> data_addrs V" "load32 b s = Inr (v, s)" for b v
  proof -
    from b(1) have bV: "frame_of b \<in> V" "word_aligned b" by (auto simp: data_addrs_def)
    from data_addr [OF vm bV(1)] obtain g where g: "translate (mem s) (cr3 s) b = Some (addr_of_frame g OR (b AND 0xFFF))"
      by blast
    have "addr_of_frame g OR (b AND 0xFFF) = ?pa \<longleftrightarrow> b = a"
      using translate_inj [OF vm bV(1) a(1)] g f(1) by auto
    then show ?thesis using b(2) bV g tr [OF bV(1)] by (auto simp: load32_def)
  qed
  moreover have "?t\<lparr>mem := mem s0\<rparr> = s0" using fr by simp
  ultimately show ?case using st vt by auto
qed

section \<open>The blocks of a page\<close>

definition blk :: "u32 \<Rightarrow> u32 \<Rightarrow> nat \<Rightarrow> u32" where
  "blk virt sz i = virt + of_nat i * sz"

definition page_blocks :: "u32 \<Rightarrow> u32 \<Rightarrow> u32 list" where
  "page_blocks virt sz = map (blk virt sz) [0..<4096 div unat sz]"

text \<open>The sizes of the classes: \<open>sz\<close> divides a page and is a multiple of a word.\<close>

definition class_size :: "u32 \<Rightarrow> bool" where
  "class_size sz \<longleftrightarrow> sz \<noteq> 0 \<and> 4 dvd unat sz \<and> unat sz dvd 4096"

lemma class_sizeD:
  assumes "class_size sz"
  shows "0 < unat sz" "4 dvd unat sz" "0 < 4096 div unat sz" "4096 div unat sz * unat sz = 4096"
    "unat sz \<le> 4096" "unat (4096 div sz) = 4096 div unat sz" "i < 4096 div unat sz \<Longrightarrow> i * unat sz < 4096"
    "unat (4096 div sz - 1) = 4096 div unat sz - 1"
proof -
  have d: "unat sz dvd 4096" "sz \<noteq> 0" using assms by (auto simp: class_size_def)
  show 1: "0 < unat sz" using d(2) by (simp add: unat_gt_0)
  show "4 dvd unat sz" using assms by (simp add: class_size_def)
  show le: "unat sz \<le> 4096" by (rule dvd_imp_le [OF d(1)]) simp
  show pos: "0 < 4096 div unat sz" using le 1 by (simp add: div_greater_zero_iff)
  show eq: "4096 div unat sz * unat sz = 4096" using d(1) by simp
  show u: "unat (4096 div sz) = 4096 div unat sz" by (simp add: unat_div_distrib)
  show "i * unat sz < 4096" if "i < 4096 div unat sz"
    using that eq 1 by (metis mult_less_cancel2)
  have "1 \<le> 4096 div sz" using pos u by (simp add: word_le_nat_alt)
  then have "unat (4096 div sz - 1) = unat (4096 div sz) - unat (1::u32)" by (simp add: unat_sub word_le_nat_alt)
  then show "unat (4096 div sz - 1) = 4096 div unat sz - 1" using u by simp
qed

lemma unat_blk:
  assumes "page_aligned virt" "i * unat sz < 4096"
  shows "unat (blk virt sz i) = unat virt + i * unat sz" "frame_of (blk virt sz i) = frame_of virt"
proof -
  from assms(1) obtain k where v: "unat virt = 4096 * k" by (auto simp: page_aligned_iff)
  have k: "k < 1048576" using u32_bound [of virt] v by simp
  have "unat (blk virt sz i) = (unat virt + (i * unat sz)) mod 4294967296"
    by (simp add: blk_def unat_word_ariths unat_of_nat mod_simps)
  then show u: "unat (blk virt sz i) = unat virt + i * unat sz" using v k assms(2) by simp
  show "frame_of (blk virt sz i) = frame_of virt"
    using assms(2) unfolding frame_of_def u v by simp
qed

lemma blk_aligned:
  assumes "page_aligned virt" "i * unat sz < 4096" "4 dvd unat sz"
  shows "word_aligned (blk virt sz i)"
proof -
  have "4 dvd unat virt" using assms(1) by (auto simp: page_aligned_iff)
  then have "4 dvd unat virt + i * unat sz" using assms(3) by (intro dvd_add dvd_mult) auto
  then show ?thesis unfolding word_aligned_iff unat_blk(1) [OF assms(1,2)] by simp
qed

lemma blk_inj:
  assumes "page_aligned virt" "class_size sz" "i < 4096 div unat sz" "j < 4096 div unat sz"
  shows "blk virt sz i = blk virt sz j \<longleftrightarrow> i = j"
proof
  assume "blk virt sz i = blk virt sz j"
  then have "unat virt + i * unat sz = unat virt + j * unat sz"
    using unat_blk(1) [OF assms(1) class_sizeD(7) [OF assms(2,3)]]
      unat_blk(1) [OF assms(1) class_sizeD(7) [OF assms(2,4)]] by metis
  then have "i * unat sz = j * unat sz" by simp
  then show "i = j" using class_sizeD(1) [OF assms(2)] by (simp only: mult_cancel2) auto
qed simp

lemma page_blocks_props:
  assumes "page_aligned virt" "class_size sz"
  shows "distinct (page_blocks virt sz)" "page_blocks virt sz \<noteq> []"
    "x \<in> set (page_blocks virt sz) \<Longrightarrow> frame_of x = frame_of virt \<and> word_aligned x \<and> unat sz dvd unat x"
proof -
  show "distinct (page_blocks virt sz)"
    using blk_inj [OF assms] by (auto simp: page_blocks_def distinct_map inj_on_def)
  show "page_blocks virt sz \<noteq> []" using class_sizeD(3) [OF assms(2)] by (simp add: page_blocks_def)
  assume "x \<in> set (page_blocks virt sz)"
  then obtain i where i: "x = blk virt sz i" "i < 4096 div unat sz" by (auto simp: page_blocks_def)
  note b = class_sizeD(7) [OF assms(2) i(2)]
  have "unat sz dvd unat virt"
    using assms by (auto simp: page_aligned_iff class_size_def dest: mod_0_imp_dvd intro: dvd_trans)
  then have "unat sz dvd unat x" unfolding i(1) unat_blk(1) [OF assms(1) b] by simp
  then show "frame_of x = frame_of virt \<and> word_aligned x \<and> unat sz dvd unat x"
    using unat_blk(2) [OF assms(1) b] blk_aligned [OF assms(1) b class_sizeD(2) [OF assms(2)]] i(1) by simp
qed

section \<open>Building the chain of a page\<close>

abbreviation mem_only_ok :: "dir_id set \<Rightarrow> nat set \<Rightarrow> kstate \<Rightarrow> kstate \<Rightarrow> bool" where
  "mem_only_ok A V s0 s \<equiv> vm_inv A V s \<and> s\<lparr>mem := mem s0\<rparr> = s0"

lemma blk_addr:
  assumes "page_aligned virt" "class_size sz" "i < 4096 div unat sz" "frame_of virt \<in> V"
  shows "blk virt sz i \<in> data_addrs V"
  using assms unat_blk(2) [OF assms(1) class_sizeD(7) [OF assms(2,3)]]
    blk_aligned [OF assms(1) class_sizeD(7) [OF assms(2,3)] class_sizeD(2) [OF assms(2)]]
  by (simp add: data_addrs_def)

lemma link_blocks_run:
  assumes "mem_only_ok A V s0 s" "page_aligned virt" "class_size sz" "i + k < 4096 div unat sz" "frame_of virt \<in> V"
  shows "\<exists>t. link_blocks virt sz i k s = Inr ((), t) \<and> mem_only_ok A V s0 t
    \<and> (\<forall>j. i \<le> j \<and> j < i + k \<longrightarrow> peek load32 t (blk virt sz j) = blk virt sz (Suc j))
    \<and> (\<forall>b\<in>data_addrs V. (\<forall>j. i \<le> j \<and> j < i + k \<longrightarrow> b \<noteq> blk virt sz j) \<longrightarrow> peek load32 t b = peek load32 s b)"
  using assms(1,4)
proof (induction k arbitrary: i s)
  case 0
  then show ?case by auto
next
  case (Suc k)
  have i: "i < 4096 div unat sz" using Suc.prems(2) by simp
  note a = blk_addr [OF assms(2,3) i assms(5)]
  from data.wr_peek [OF Suc.prems(1) a, of "blk virt sz (Suc i)"] obtain t where
    t: "store32 (blk virt sz i) (blk virt sz (Suc i)) s = Inr ((), t)" "mem_only_ok A V s0 t"
      "\<And>b. b \<in> data_addrs V \<Longrightarrow> peek load32 t b = (if b = blk virt sz i then blk virt sz (Suc i) else peek load32 s b)"
    by blast
  from Suc.IH [OF t(2), of "Suc i"] Suc.prems(2) obtain u where
    u: "link_blocks virt sz (Suc i) k t = Inr ((), u)" "mem_only_ok A V s0 u"
      "\<And>j. Suc i \<le> j \<Longrightarrow> j < Suc i + k \<Longrightarrow> peek load32 u (blk virt sz j) = blk virt sz (Suc j)"
      "\<And>b. b \<in> data_addrs V \<Longrightarrow> (\<forall>j. Suc i \<le> j \<and> j < Suc i + k \<longrightarrow> b \<noteq> blk virt sz j) \<Longrightarrow> peek load32 u b = peek load32 t b"
    by auto
  have run: "link_blocks virt sz i (Suc k) s = Inr ((), u)"
    using t(1) u(1) by (simp add: blk_def add.commute)
  have same: "peek load32 u (blk virt sz i) = blk virt sz (Suc i)"
  proof -
    have "\<forall>j. Suc i \<le> j \<and> j < Suc i + k \<longrightarrow> blk virt sz i \<noteq> blk virt sz j"
      using Suc.prems(2) by (auto simp: blk_inj [OF assms(2,3) i])
    then show ?thesis using u(4) [OF a] t(3) [OF a] by simp
  qed
  have "peek load32 u (blk virt sz j) = blk virt sz (Suc j)" if "i \<le> j" "j < i + Suc k" for j
    using that u(3) [of j] same by (cases "j = i") auto
  moreover have "peek load32 u b = peek load32 s b"
    if b: "b \<in> data_addrs V" "\<forall>j. i \<le> j \<and> j < i + Suc k \<longrightarrow> b \<noteq> blk virt sz j" for b
    using u(4) [OF b(1)] t(3) [OF b(1)] b(2) by auto
  ultimately show ?case using run u(2) by blast
qed

lemma flist_chain:
  assumes "i < n" "\<And>j. i \<le> j \<Longrightarrow> j < n - 1 \<Longrightarrow> m (b j) = b (Suc j)" "m (b (n - 1)) = head"
    "flist m head xs" "\<And>j. i \<le> j \<Longrightarrow> j < n \<Longrightarrow> b j \<noteq> 0"
  shows "flist m (b i) (map b [i..<n] @ xs)"
  using assms
proof (induction "n - i" arbitrary: i)
  case 0
  then show ?case by simp
next
  case (Suc k)
  show ?case
  proof (cases "Suc i = n")
    case True
    then show ?thesis using Suc.prems by auto
  next
    case False
    have "flist m (b (Suc i)) (map b [Suc i..<n] @ xs)"
      using Suc.hyps(1) [of "Suc i"] Suc.hyps(2) Suc.prems False by auto
    then show ?thesis using Suc.prems False by (simp add: upt_conv_Cons)
  qed
qed

lemma page_chain:
  assumes ok: "mem_only_ok A V s0 s" and v: "page_aligned virt" "class_size sz" "frame_of virt \<in> V" "0 < frame_of virt"
    and xs: "flist (peek load32 s) head xs" "set xs \<subseteq> data_addrs V" "\<And>x. x \<in> set xs \<Longrightarrow> frame_of x \<noteq> frame_of virt"
  shows "\<exists>t u. link_blocks virt sz 0 (unat (4096 div sz - 1)) s = Inr ((), t)
    \<and> store32 (virt + (4096 div sz - 1) * sz) head t = Inr ((), u) \<and> mem_only_ok A V s0 t \<and> mem_only_ok A V s0 u
    \<and> flist (peek load32 u) virt (page_blocks virt sz @ xs)
    \<and> (\<forall>b\<in>data_addrs V. frame_of b \<noteq> frame_of virt \<longrightarrow> peek load32 u b = peek load32 s b)"
proof -
  let ?n = "4096 div unat sz"
  note c = class_sizeD [OF v(2)]
  have last: "virt + (4096 div sz - 1) * sz = blk virt sz (?n - 1)"
    using arg_cong [OF c(8), of "of_nat :: nat \<Rightarrow> u32"] unfolding blk_def by simp
  have fr: "frame_of (blk virt sz j) = frame_of virt" if "j < ?n" for j
    by (rule unat_blk(2) [OF v(1) c(7) [OF that]])
  from link_blocks_run [OF ok v(1,2) _ v(3), of 0 "?n - 1"] c(3) obtain t where
    t: "link_blocks virt sz 0 (?n - 1) s = Inr ((), t)" "mem_only_ok A V s0 t"
      "\<And>j. j < ?n - 1 \<Longrightarrow> peek load32 t (blk virt sz j) = blk virt sz (Suc j)"
      "\<And>b. b \<in> data_addrs V \<Longrightarrow> (\<forall>j<?n - 1. b \<noteq> blk virt sz j) \<Longrightarrow> peek load32 t b = peek load32 s b"
    by auto
  have n1: "?n - 1 < ?n" using c(3) by simp
  from data.wr_peek [OF t(2) blk_addr [OF v(1,2) n1 v(3)], of head] obtain u where
    u: "store32 (blk virt sz (?n - 1)) head t = Inr ((), u)" "mem_only_ok A V s0 u"
      "\<And>b. b \<in> data_addrs V \<Longrightarrow> peek load32 u b = (if b = blk virt sz (?n - 1) then head else peek load32 t b)"
    by blast
  have off: "peek load32 u b = peek load32 s b" if b: "b \<in> data_addrs V" "frame_of b \<noteq> frame_of virt" for b
  proof -
    have ne: "b \<noteq> blk virt sz j" if "j < ?n" for j using fr [OF that] b(2) by auto
    have "\<forall>j<?n - 1. b \<noteq> blk virt sz j" using ne by simp
    then show ?thesis using u(3) [OF b(1)] t(4) [OF b(1)] ne [OF n1] by simp
  qed
  have link: "peek load32 u (blk virt sz j) = blk virt sz (Suc j)" if "j < ?n - 1" for j
  proof -
    have "j < ?n" using that by simp
    then have "blk virt sz j \<noteq> blk virt sz (?n - 1)" using that blk_inj [OF v(1,2) _ n1, of j] by (auto simp del: One_nat_def)
    then show ?thesis using u(3) [OF blk_addr [OF v(1,2) \<open>j < ?n\<close> v(3)]] t(3) [OF that] by simp
  qed
  have "flist (peek load32 u) head xs = flist (peek load32 s) head xs"
    using off xs(2,3) by (intro flist_cong) auto
  moreover have "blk virt sz j \<noteq> 0" if "j < ?n" for j
    using fr [OF that] v(4) by (auto simp: frame_of_def)
  moreover have "peek load32 u (blk virt sz (?n - 1)) = head"
    using u(3) [OF blk_addr [OF v(1,2) n1 v(3)]] by simp
  ultimately have "flist (peek load32 u) (blk virt sz 0) (map (blk virt sz) [0..<?n] @ xs)"
    using link c(3) xs(1) by (intro flist_chain) auto
  then have "flist (peek load32 u) virt (page_blocks virt sz @ xs)"
    by (simp add: page_blocks_def blk_def)
  then show ?thesis using t(1,2) u(1,2) off c(8) last by auto
qed

section \<open>The allocator's invariant\<close>

primrec class_index :: "heap_id \<Rightarrow> nat" where
  "class_index Heap_64 = 0"
| "class_index Heap_128 = 1"
| "class_index Heap_256 = 2"
| "class_index Heap_512 = 3"
| "class_index Heap_1k = 4"
| "class_index Heap_2k = 5"
| "class_index Heap_4k = 6"

definition bsize :: "heap_id \<Rightarrow> u32" where
  "bsize h = 64 * 2 ^ class_index h"

definition region_base :: "heap_id \<Rightarrow> nat" where
  "region_base h = 0x10000 * (class_index h + 1)"

definition in_region :: "heap_id \<Rightarrow> nat \<Rightarrow> bool" where
  "in_region h p \<longleftrightarrow> region_base h \<le> p \<and> p < region_base h + 0x10000"

text \<open>The block starts of class \<open>h\<close> on the mapped pages \<open>V\<close>.\<close>

definition blocks :: "nat set \<Rightarrow> heap_id \<Rightarrow> u32 set" where
  "blocks V h = {x. frame_of x \<in> V \<and> in_region h (frame_of x) \<and> unat (bsize h) dvd unat x}"

definition domain_ok :: "nat set \<Rightarrow> kstate \<Rightarrow> heap_id \<Rightarrow> u32 list \<Rightarrow> bool" where
  "domain_ok V s h xs \<longleftrightarrow>
     block_size (heaps s h) = bsize h \<and> blocks_per_page (heaps s h) = 4096 div bsize h
     \<and> page_aligned (next_virt_addr (heaps s h)) \<and> frame_of (next_virt_addr (heaps s h)) \<le> region_base h + 0x10000
     \<and> {p\<in>V. in_region h p} = {region_base h..<frame_of (next_virt_addr (heaps s h))}
     \<and> region_base h \<le> frame_of (next_virt_addr (heaps s h))
     \<and> flist (peek load32 s) (next_free_block (heaps s h)) xs \<and> distinct xs \<and> set xs \<subseteq> blocks V h"

text \<open>
  \<open>A\<close>: the directories made so far; \<open>V\<close>: the mapped pages; \<open>fl h\<close>: the free blocks of class \<open>h\<close>, head
  first.
\<close>

definition heap_inv :: "dir_id set \<Rightarrow> nat set \<Rightarrow> (heap_id \<Rightarrow> u32 list) \<Rightarrow> kstate \<Rightarrow> bool" where
  "heap_inv A V fl s \<longleftrightarrow> vm_inv A V s \<and> (\<forall>h. HDir h \<in> A \<longrightarrow> domain_ok V s h (fl h))"

lemma class_size_bsize: "class_size (bsize h)"
  by (cases h) (simp_all add: class_size_def bsize_def)

lemma region_bounds: "in_region h p \<Longrightarrow> 0x10000 \<le> p \<and> p < 0x80000"
  by (cases h) (auto simp: in_region_def region_base_def)

lemma owner_region: "in_region h p \<Longrightarrow> owner p = HDir h"
  by (cases h) (auto simp: in_region_def region_base_def owner_def)

lemma region_unique: "in_region h p \<Longrightarrow> in_region g p \<Longrightarrow> g = h"
  using owner_region [of h p] owner_region [of g p] by simp

lemma blocks_addr: "x \<in> blocks V h \<Longrightarrow> x \<in> data_addrs V"
  using class_sizeD(2) [OF class_size_bsize, of h]
  by (auto simp: blocks_def data_addrs_def word_aligned_iff intro: dvd_trans)

lemma blocks_disjoint: "x \<in> blocks V h \<Longrightarrow> x \<in> blocks V g \<Longrightarrow> g = h"
  using region_unique by (auto simp: blocks_def)

lemma blocks_nonzero: "x \<in> blocks V h \<Longrightarrow> x \<noteq> 0"
  using region_bounds [of h 0] by (auto simp: blocks_def frame_of_def)

lemma peek_cong: "mem s = mem t \<Longrightarrow> cr3 s = cr3 t \<Longrightarrow> peek load32 s = peek load32 t"
  by (rule ext) (simp add: peek_def load32_def split: option.split)

lemma heap_invD:
  assumes "heap_inv A V fl s"
  shows "vm_inv A V s" "HDir h \<in> A \<Longrightarrow> domain_ok V s h (fl h)"
  using assms by (auto simp: heap_inv_def)

text \<open>Growing the address space leaves the words of the old data pages as they were.\<close>

lemma grown_peek:
  assumes vm: "vm_inv A V s" "vm_inv A V' s'" and g: "grown A V N s s'" and V: "V \<subseteq> V'" and b: "frame_of b \<in> V"
  shows "peek load32 s' b = peek load32 s b"
proof -
  from data_addr [OF vm(1) b] obtain f where f: "ptrans (mem s) (dir_of s KDir) (frame_of b) = Some f"
    "translate (mem s) (cr3 s) b = Some (addr_of_frame f OR (b AND 0xFFF))" "f < 0x40000"
    "\<forall>d\<in>A. f \<notin> own (mem s) (dir_of s d)" by blast
  from data_addr [OF vm(2), of b] V b obtain f' where f': "ptrans (mem s') (dir_of s' KDir) (frame_of b) = Some f'"
    "translate (mem s') (cr3 s') b = Some (addr_of_frame f' OR (b AND 0xFFF))" by blast
  have fr: "vm_frame s s'" using g by (simp add: grown_def)
  have "f' = f" using g f(1) f'(1) b by (simp add: grown_def vm_frame_simps(1) [OF fr])
  moreover have "f \<notin> N"
    using vm_okD(7) [OF vm_invD(4) [OF vm(1)] b] g f(1) by (auto simp: page_ok_def grown_def free_low_used)
  ultimately show ?thesis using g f f'
    by (auto simp: peek_def load32_def grown_def frame_of_data)
qed

lemma vm_inv_heaps:
  assumes "\<And>h. page_directory (hs h) = page_directory (heaps s h)"
  shows "vm_inv A V (s\<lparr>heaps := hs\<rparr>) = vm_inv A V s"
proof -
  have "dir_of (s\<lparr>heaps := hs\<rparr>) = dir_of s"
    using assms by (auto simp: dir_of_def fun_eq_iff split: dir_id.split)
  moreover have "pmm_wf (s\<lparr>heaps := hs\<rparr>) = pmm_wf s" "layout_ok (s\<lparr>heaps := hs\<rparr>) = layout_ok s"
    "used (s\<lparr>heaps := hs\<rparr>) = used s" "safe_frame (s\<lparr>heaps := hs\<rparr>) = safe_frame s"
    by (simp_all add: pmm_wf_def layout_ok_def used_def safe_frame_def heap_start_def
      kernel_page_tables_base_def kernel_page_table_def)
  ultimately show ?thesis by (simp add: vm_inv_def)
qed

text \<open>A domain that an operation on another one does not touch.\<close>

lemma domain_ok_other:
  assumes "domain_ok V s g xs" "heaps s' g = heaps s g" "\<And>b. b \<in> set xs \<Longrightarrow> peek load32 s' b = peek load32 s b"
    "V \<subseteq> V'" "\<And>p. p \<in> V' - V \<Longrightarrow> \<not> in_region g p"
  shows "domain_ok V' s' g xs"
proof -
  have "{p \<in> V'. in_region g p} = {p \<in> V. in_region g p}" using assms(4,5) by auto
  moreover have "blocks V g \<subseteq> blocks V' g" using assms(4) by (auto simp: blocks_def)
  ultimately show ?thesis
    using assms(1,2) flist_cong [of xs "peek load32 s'" "peek load32 s"] assms(3) by (auto simp: domain_ok_def)
qed

lemma dir_of_HDir: "dir_of s (HDir h) + 0xC0000000 = page_directory (heaps s h)"
  by (simp add: dir_of_def)

text \<open>
  What both \<^verbatim>\<open>init_heap_domain\<close> and \<^verbatim>\<open>heap_domain_alloc\<close> do to add a page to a class: the states after
  each step of the source and the invariant at the end.
\<close>

definition with_page :: "heap_id \<Rightarrow> kstate \<Rightarrow> kstate" where
  "with_page h s = s\<lparr>heaps := (heaps s)(h := (heaps s h)\<lparr>next_free_block := next_virt_addr (heaps s h),
     next_virt_addr := next_virt_addr (heaps s h) + 4096\<rparr>)\<rparr>"

definition new_pages :: "nat set \<Rightarrow> kstate \<Rightarrow> kstate \<Rightarrow> nat set \<Rightarrow> bool" where
  "new_pages V s s' N \<longleftrightarrow> used s' = used s \<union> N \<and> N \<subseteq> free_low s
     \<and> (\<forall>b\<in>data_addrs V. peek load32 s' b = peek load32 s b)"

lemma next_page:
  assumes "page_aligned a" "frame_of a < 0x80000"
  shows "page_aligned (a + 4096)" "frame_of (a + 4096) = frame_of a + 1"
proof -
  from assms(1) obtain k where k: "unat a = 4096 * k" by (auto simp: page_aligned_iff)
  have "k < 0x80000" using assms(2) by (simp add: frame_of_def k)
  then have "unat (a + 4096) = 4096 * (k + 1)" by (simp add: unat_word_ariths k)
  then show "page_aligned (a + 4096)" "frame_of (a + 4096) = frame_of a + 1"
    by (simp_all add: page_aligned_iff frame_of_def k)
qed

lemma domain_okD:
  assumes "domain_ok V s h xs"
  shows "block_size (heaps s h) = bsize h" "blocks_per_page (heaps s h) = 4096 div bsize h"
    "page_aligned (next_virt_addr (heaps s h))" "{p\<in>V. in_region h p} = {region_base h..<frame_of (next_virt_addr (heaps s h))}"
    "region_base h \<le> frame_of (next_virt_addr (heaps s h))"
    "flist (peek load32 s) (next_free_block (heaps s h)) xs" "distinct xs" "set xs \<subseteq> blocks V h"
    "frame_of (next_virt_addr (heaps s h)) \<le> region_base h + 0x10000"
  using assms by (simp_all add: domain_ok_def)

lemma domain_ok_page:
  assumes d: "domain_ok V s h xs" and room: "in_region h (frame_of (next_virt_addr (heaps s h)))"
    and s': "heaps s' = heaps s" "flist (peek load32 s') (next_virt_addr (heaps s h)) (page_blocks (next_virt_addr (heaps s h)) (bsize h) @ xs)"
  shows "domain_ok (insert (frame_of (next_virt_addr (heaps s h))) V) (with_page h s') h
    (page_blocks (next_virt_addr (heaps s h)) (bsize h) @ xs)"
proof -
  let ?virt = "next_virt_addr (heaps s h)"
  note D = domain_okD [OF d]
  note pb = page_blocks_props [OF D(3) class_size_bsize [of h]]
  have p: "frame_of ?virt < 0x80000" "region_base h \<le> frame_of ?virt" "frame_of ?virt < region_base h + 0x10000"
    using room region_bounds [OF room] by (auto simp: in_region_def)
  have "frame_of ?virt \<notin> V" using D(4) room by auto
  moreover have "frame_of x \<in> V" if "x \<in> set xs" for x using that D(8) by (auto simp: blocks_def)
  ultimately have dj: "set (page_blocks ?virt (bsize h)) \<inter> set xs = {}" using pb(3) by fastforce
  have "{q \<in> insert (frame_of ?virt) V. in_region h q} = insert (frame_of ?virt) {q \<in> V. in_region h q}"
    using room by auto
  then have reg: "{q \<in> insert (frame_of ?virt) V. in_region h q} = {region_base h..<frame_of ?virt + 1}"
    using D(4) p(2) by (simp add: atLeastLessThanSuc)
  have pk: "peek load32 (with_page h s') = peek load32 s'" by (rule peek_cong) (simp_all add: with_page_def)
  have "set (page_blocks ?virt (bsize h)) \<subseteq> blocks (insert (frame_of ?virt) V) h"
    using pb(3) room by (simp add: blocks_def subset_iff)
  moreover have "blocks V h \<subseteq> blocks (insert (frame_of ?virt) V) h" by (auto simp: blocks_def)
  ultimately have sub: "set (page_blocks ?virt (bsize h) @ xs) \<subseteq> blocks (insert (frame_of ?virt) V) h"
    using D(8) by auto
  have hd: "heaps (with_page h s') h = (heaps s h)\<lparr>next_free_block := ?virt, next_virt_addr := ?virt + 4096\<rparr>"
    by (simp add: with_page_def s'(1))
  show ?thesis
    using D(1,2) reg dj pb(1) D(7) sub s'(2) next_page [OF D(3) p(1)] p
    by (simp add: domain_ok_def hd pk)
qed

lemma mem_only_frame: "s\<lparr>mem := mem s0\<rparr> = s0 \<Longrightarrow> s = s0\<lparr>mem := mem s\<rparr>"
  by (cases s; cases s0) simp

lemma vm_frame_mem_only:
  assumes "t\<lparr>mem := mem s\<rparr> = s"
  shows "vm_frame s t"
  using vm_frame_mem [of s "mem t"] unfolding mem_only_frame [OF assms, symmetric] .

lemma expand:
  assumes inv: "heap_inv A V fl s" and h: "HDir h \<in> A"
    and room: "in_region h (frame_of (next_virt_addr (heaps s h)))" and fr: "3 \<le> card (free_low s)"
  shows "\<exists>f t u v w x N. get_next_free_process_frame s = Inr (addr_of_frame f, t) \<and> addr_of_frame f \<noteq> 0
    \<and> map_page (page_directory (heaps s h)) (next_virt_addr (heaps s h)) (addr_of_frame f) PAGE_KERNEL t = Inr ((), u)
    \<and> map_page (kernel_page_dir s) (next_virt_addr (heaps s h)) (addr_of_frame f) PAGE_KERNEL u = Inr ((), v)
    \<and> link_blocks (next_virt_addr (heaps s h)) (bsize h) 0 (unat (4096 div bsize h - 1)) v = Inr ((), w)
    \<and> store32 (next_virt_addr (heaps s h) + (4096 div bsize h - 1) * bsize h) (next_free_block (heaps s h)) w = Inr ((), x)
    \<and> vm_frame s t \<and> vm_frame s u \<and> vm_frame s v \<and> vm_frame s w \<and> vm_frame s x
    \<and> heap_inv A (insert (frame_of (next_virt_addr (heaps s h))) V)
        (fl(h := page_blocks (next_virt_addr (heaps s h)) (bsize h) @ fl h)) (with_page h x)
    \<and> new_pages V s (with_page h x) N \<and> card N \<le> 3"
proof -
  let ?virt = "next_virt_addr (heaps s h)" and ?p = "frame_of (next_virt_addr (heaps s h))"
  note vm = heap_invD(1) [OF inv] and d = heap_invD(2) [OF inv h]
  note D = domain_okD [OF d]
  have p: "1024 \<le> ?p" "?p < 0xC0000" "owner ?p \<in> A" using region_bounds [OF room] owner_region [OF room] h by auto
  have pV: "?p \<notin> V" using D(4) room by auto
  from new_page [OF vm p(1,2) pV p(3) fr] obtain f t u v N where
    f: "get_next_free_process_frame s = Inr (addr_of_frame f, t)" "addr_of_frame f \<noteq> 0" and
    u: "map_page (page_directory (heaps s h)) ?virt (addr_of_frame f) PAGE_KERNEL t = Inr ((), u)"
       "map_page (kernel_page_dir s) ?virt (addr_of_frame f) PAGE_KERNEL u = Inr ((), v)" and
    v: "vm_inv A (insert ?p V) v" "grown A V N s v" "card N \<le> 3" and tu: "vm_frame s t" "vm_frame s u"
    unfolding owner_region [OF room] dir_of_HDir by blast
  have fv: "vm_frame s v" using v(2) by (simp add: grown_def)
  have pkv: "peek load32 v b = peek load32 s b" if "frame_of b \<in> V" for b
    by (rule grown_peek [OF vm v(1,2) _ that]) blast
  have Vb: "frame_of x \<in> V" "x \<in> data_addrs (insert ?p V)" if "x \<in> blocks V g" for x g
    using that blocks_addr [OF that] by (auto simp: blocks_def data_addrs_def)
  have flv: "flist (peek load32 v) (next_free_block (heaps s h)) (fl h)"
    using D(6,8) flist_cong [of "fl h" "peek load32 v" "peek load32 s"] pkv Vb(1) by (metis subsetD)
  have ok: "mem_only_ok A (insert ?p V) v v" using v(1) by simp
  have xs: "set (fl h) \<subseteq> data_addrs (insert ?p V)" "\<And>x. x \<in> set (fl h) \<Longrightarrow> frame_of x \<noteq> ?p"
    using D(8) Vb pV by (metis subset_iff)+
  have "?p \<in> insert ?p V" "0 < ?p" using p(1) by auto
  from page_chain [OF ok D(3) class_size_bsize this flv xs]
  obtain w x where wx: "link_blocks ?virt (bsize h) 0 (unat (4096 div bsize h - 1)) v = Inr ((), w)"
      "store32 (?virt + (4096 div bsize h - 1) * bsize h) (next_free_block (heaps s h)) w = Inr ((), x)"
      "mem_only_ok A (insert ?p V) v w" "mem_only_ok A (insert ?p V) v x"
      "flist (peek load32 x) ?virt (page_blocks ?virt (bsize h) @ fl h)"
      "\<And>b. b \<in> data_addrs (insert ?p V) \<Longrightarrow> frame_of b \<noteq> ?p \<Longrightarrow> peek load32 x b = peek load32 v b"
    by blast
  have fwx: "vm_frame s w" "vm_frame s x"
    using wx(3,4) vm_frame_trans [OF fv vm_frame_mem_only] by auto
  have hx: "heaps x = heaps s" by (rule vm_frame_simps(3) [OF fwx(2)])
  have pkx: "peek load32 (with_page h x) b = peek load32 s b" if "b \<in> data_addrs V" for b
  proof -
    have "frame_of b \<in> V" "b \<in> data_addrs (insert ?p V)" using that by (auto simp: data_addrs_def)
    moreover have "peek load32 (with_page h x) = peek load32 x" by (rule peek_cong) (simp_all add: with_page_def)
    ultimately show ?thesis using wx(6) [of b] pkv [of b] pV by metis
  qed
  have dh: "domain_ok (insert ?p V) (with_page h x) h (page_blocks ?virt (bsize h) @ fl h)"
    by (rule domain_ok_page [OF d room hx wx(5)])
  have dg: "domain_ok (insert ?p V) (with_page h x) g (fl g)" if "g \<noteq> h" "HDir g \<in> A" for g
  proof (rule domain_ok_other [OF heap_invD(2) [OF inv that(2)]])
    show "heaps (with_page h x) g = heaps s g" using that(1) by (simp add: with_page_def hx)
    show "peek load32 (with_page h x) b = peek load32 s b" if "b \<in> set (fl g)" for b
      using domain_okD(8) [OF heap_invD(2) [OF inv \<open>HDir g \<in> A\<close>]] that blocks_addr pkx by blast
    show "\<not> in_region g q" if "q \<in> insert ?p V - V" for q
      using that region_unique [OF room] \<open>g \<noteq> h\<close> by auto
  qed auto
  have "vm_inv A (insert ?p V) (with_page h x)"
    unfolding with_page_def using wx(4) by (subst vm_inv_heaps) auto
  then have inv': "heap_inv A (insert ?p V) (fl(h := page_blocks ?virt (bsize h) @ fl h)) (with_page h x)"
    using dh dg by (auto simp: heap_inv_def)
  have "used (with_page h x) = used s \<union> N"
  proof -
    have "used (with_page h x) = used x" by (simp add: with_page_def used_def)
    also have "\<dots> = used v" using wx(4) mem_only_frame [of x v] mem_only(1) by metis
    finally show ?thesis using v(2) by (simp add: grown_def)
  qed
  then have "new_pages V s (with_page h x) N" using pkx v(2) by (simp add: new_pages_def grown_def)
  then show ?thesis using f u wx(1,2) tu fv fwx inv' v(3)
    by (intro exI [of _ f] exI [of _ t] exI [of _ u] exI [of _ v] exI [of _ w] exI [of _ x] exI [of _ N]) simp
qed


section \<open>Allocation and release in a size class\<close>

text \<open>The fast path: the head of the free list.\<close>

definition pop_block :: "heap_id \<Rightarrow> u32 \<Rightarrow> kstate \<Rightarrow> kstate" where
  "pop_block h nxt s = s\<lparr>heaps := (heaps s)(h := (heaps s h)\<lparr>next_free_block := nxt\<rparr>)\<rparr>"

lemma pop_block_inv:
  assumes inv: "heap_inv A V fl s" and h: "HDir h \<in> A" and xs: "fl h = x # xs"
  shows "heap_inv A V (fl(h := xs)) (pop_block h (peek load32 s x) s)"
    and "load32 x s = Inr (peek load32 s x, s)" and "next_free_block (heaps s h) = x" and "x \<noteq> 0"
    and "x \<in> blocks V h"
proof -
  note vm = heap_invD(1) [OF inv] and d = heap_invD(2) [OF inv h]
  note D = domain_okD [OF d]
  have ok: "mem_only_ok A V s s" using vm by simp
  show x: "next_free_block (heaps s h) = x" "x \<noteq> 0" "x \<in> blocks V h" using D(6,8) xs by auto
  show "load32 x s = Inr (peek load32 s x, s)"
    by (rule data.rd_peek [OF ok blocks_addr [OF x(3)]])
  let ?t = "pop_block h (peek load32 s x) s"
  have pk: "peek load32 ?t = peek load32 s" by (rule peek_cong) (simp_all add: pop_block_def)
  have "vm_inv A V ?t" unfolding pop_block_def using vm by (subst vm_inv_heaps) auto
  moreover have "domain_ok V ?t h xs"
    using D xs pk by (simp add: domain_ok_def) (simp add: pop_block_def)
  moreover have "domain_ok V ?t g (fl g)" if "HDir g \<in> A" "g \<noteq> h" for g
    by (rule domain_ok_other [OF heap_invD(2) [OF inv that(1)]]) (use pk that in \<open>auto simp: pop_block_def\<close>)
  ultimately show "heap_inv A V (fl(h := xs)) ?t" by (simp add: heap_inv_def)
qed

lemma heap_domain_alloc_fast:
  assumes "heap_inv A V fl s" "HDir h \<in> A" "fl h = x # xs"
  shows "heap_domain_alloc h s = Inr (x, pop_block h (peek load32 s x) s)"
  using pop_block_inv [OF assms]
  by (simp add: heap_domain_alloc_def domain_def set_domain_def pop_block_def)

text \<open>The slow path: a new page, its first block.\<close>

lemma heap_domain_alloc_slow:
  assumes inv: "heap_inv A V fl s" and h: "HDir h \<in> A" and e: "fl h = []"
    and room: "in_region h (frame_of (next_virt_addr (heaps s h)))" and fr: "3 \<le> card (free_low s)"
  shows "\<exists>s' N. heap_domain_alloc h s = Inr (next_virt_addr (heaps s h), s')
    \<and> heap_inv A (insert (frame_of (next_virt_addr (heaps s h))) V)
        (fl(h := tl (page_blocks (next_virt_addr (heaps s h)) (bsize h)))) s'
    \<and> new_pages V s s' N \<and> card N \<le> 3 \<and> large_dom s' = large_dom s \<and> safe_frame s' = safe_frame s"
proof -
  let ?virt = "next_virt_addr (heaps s h)" and ?V = "insert (frame_of (next_virt_addr (heaps s h))) V"
  note D = domain_okD [OF heap_invD(2) [OF inv h]]
  have nf: "next_free_block (heaps s h) = 0" using D(6) e by simp
  from expand [OF inv h room fr] obtain f t u v w x N where
    f: "get_next_free_process_frame s = Inr (addr_of_frame f, t)" "addr_of_frame f \<noteq> 0" and
    u: "map_page (page_directory (heaps s h)) ?virt (addr_of_frame f) PAGE_KERNEL t = Inr ((), u)"
       "map_page (kernel_page_dir s) ?virt (addr_of_frame f) PAGE_KERNEL u = Inr ((), v)" and
    w: "link_blocks ?virt (bsize h) 0 (unat (4096 div bsize h - 1)) v = Inr ((), w)"
       "store32 (?virt + (4096 div bsize h - 1) * bsize h) 0 w = Inr ((), x)" and
    fr: "vm_frame s t" "vm_frame s u" "vm_frame s v" "vm_frame s w" "vm_frame s x" and
    inv': "heap_inv A ?V (fl(h := page_blocks ?virt (bsize h) @ fl h)) (with_page h x)"
       "new_pages V s (with_page h x) N" "card N \<le> 3"
    unfolding nf by blast
  note fs = vm_frame_simps(3,5) [OF fr(1)] vm_frame_simps(3,5) [OF fr(2)] vm_frame_simps(3,5) [OF fr(3)]
    vm_frame_simps(3,5) [OF fr(4)] vm_frame_simps(3,5) [OF fr(5)]
  obtain ys where ys: "page_blocks ?virt (bsize h) = ?virt # ys"
    using page_blocks_props(2) [OF D(3) class_size_bsize] class_sizeD(3) [OF class_size_bsize, of h]
    by (auto simp: page_blocks_def blk_def upt_conv_Cons)
  let ?x = "with_page h x"
  have fl: "(fl(h := page_blocks ?virt (bsize h) @ fl h)) h = ?virt # ys" by (simp add: ys e)
  note pop = pop_block_inv [OF inv'(1) h fl]
  let ?y = "pop_block h (peek load32 ?x ?virt) ?x"
  have wp: "with_page h x = x\<lparr>heaps := (heaps s)(h := (heaps s h)\<lparr>next_free_block := ?virt, next_virt_addr := ?virt + 4096\<rparr>)\<rparr>"
    by (simp add: with_page_def fs)
  have "heap_domain_alloc h s = Inr (?virt, ?y)"
    using pop(2) f u w D(1,2) fs
    by (simp add: heap_domain_alloc_def domain_def set_domain_def nf pop_block_def wp)
  moreover have "heap_inv A ?V (fl(h := tl (page_blocks ?virt (bsize h)))) ?y"
    using pop(1) by (simp only: fun_upd_upd ys list.sel)
  moreover have "new_pages V s ?y N"
  proof -
    have "peek load32 ?y = peek load32 ?x" by (rule peek_cong) (simp_all add: pop_block_def)
    moreover have "used ?y = used ?x" by (simp add: pop_block_def used_def)
    ultimately show ?thesis using inv'(2) by (simp add: new_pages_def)
  qed
  moreover have "large_dom ?y = large_dom s" "safe_frame ?y = safe_frame s"
    using vm_frame_simps(4,6) [OF fr(5)]
    by (simp_all add: pop_block_def wp safe_frame_def heap_start_def kernel_page_tables_base_def kernel_page_table_def)
  ultimately show ?thesis using inv'(3) by blast
qed

text \<open>The class has no free block and the machine no free frame.\<close>

lemma heap_domain_alloc_exhausted:
  assumes "next_free_block (heaps s h) = 0" "used s = {..<1048576}"
  shows "\<exists>v. heap_domain_alloc h s = Inr (0, s\<lparr>console := v\<rparr>)"
  using all_used [OF assms(2)] assms(1)
  by (auto simp: get_next_free_process_frame_eq heap_domain_alloc_def domain_def)

lemma heap_domain_free_run:
  assumes inv: "heap_inv A V fl s" and h: "HDir h \<in> A" and p: "ptr \<in> blocks V h" "ptr \<notin> set (fl h)"
  shows "\<exists>s'. heap_domain_free h ptr s = Inr ((), s') \<and> heap_inv A V (fl(h := ptr # fl h)) s'
    \<and> (\<forall>b\<in>data_addrs V. b \<noteq> ptr \<longrightarrow> peek load32 s' b = peek load32 s b)
    \<and> peek load32 s' ptr = next_free_block (heaps s h)
    \<and> s' = s\<lparr>mem := mem s', heaps := (heaps s)(h := (heaps s h)\<lparr>next_free_block := ptr\<rparr>)\<rparr>"
proof -
  note vm = heap_invD(1) [OF inv] and D = domain_okD [OF heap_invD(2) [OF inv h]]
  have ok: "mem_only_ok A V s s" using vm by simp
  have xs: "set (fl h) \<subseteq> data_addrs V" using D(8) blocks_addr by blast
  note nz = blocks_nonzero [OF p(1)]
  from data.push [OF ok blocks_addr [OF p(1)] nz p(2) xs D(6)] obtain t where
    t: "store32 ptr (next_free_block (heaps s h)) s = Inr ((), t)" "vm_inv A V t" "t\<lparr>mem := mem s\<rparr> = s"
      "flist (peek load32 t) ptr (ptr # fl h)" "\<And>b. b \<in> data_addrs V \<Longrightarrow> b \<noteq> ptr \<Longrightarrow> peek load32 t b = peek load32 s b"
    by blast
  have wr: "peek load32 t ptr = next_free_block (heaps s h)"
    using data.wr_peek [OF ok blocks_addr [OF p(1)], of "next_free_block (heaps s h)"] t(1) blocks_addr [OF p(1)] by auto
  have ts: "t = s\<lparr>mem := mem t\<rparr>" by (rule mem_only_frame [OF t(3)])
  let ?u = "pop_block h ptr t"
  have pk: "peek load32 ?u = peek load32 t" by (rule peek_cong) (simp_all add: pop_block_def)
  have ht: "heaps t = heaps s" by (subst ts) simp
  have "vm_inv A V ?u" unfolding pop_block_def using t(2) by (subst vm_inv_heaps) auto
  moreover have "domain_ok V ?u h (ptr # fl h)"
    using D t(4) p pk ht by (simp add: domain_ok_def) (simp add: pop_block_def ht)
  moreover have "domain_ok V ?u g (fl g)" if "HDir g \<in> A" "g \<noteq> h" for g
  proof (rule domain_ok_other [OF heap_invD(2) [OF inv that(1)]])
    show "heaps ?u g = heaps s g" using that by (simp add: pop_block_def ht)
    show "peek load32 ?u b = peek load32 s b" if "b \<in> set (fl g)" for b
    proof -
      have "b \<in> blocks V g" using domain_okD(8) [OF heap_invD(2) [OF inv \<open>HDir g \<in> A\<close>]] that by blast
      then have "b \<in> data_addrs V" "b \<noteq> ptr" using blocks_addr blocks_disjoint [OF p(1)] \<open>g \<noteq> h\<close> by blast+
      then show ?thesis using t(5) pk by simp
    qed
  qed auto
  ultimately have "heap_inv A V (fl(h := ptr # fl h)) ?u" by (simp add: heap_inv_def)
  moreover have "heap_domain_free h ptr s = Inr ((), ?u)"
    using t(1) nz by (simp add: heap_domain_free_def domain_def set_domain_def pop_block_def)
  moreover have "?u = s\<lparr>mem := mem ?u, heaps := (heaps s)(h := (heaps s h)\<lparr>next_free_block := ptr\<rparr>)\<rparr>"
    by (subst ts) (simp add: pop_block_def)
  ultimately show ?thesis using t(5) pk wr by auto
qed

end
