(* ===== verification/Heap_Init.thy ===== *)
theory Heap_Init
  imports Heap_Invariant
begin

unbundle bit_operations_syntax

text \<open>
  The heap domains as \<^verbatim>\<open>init_all_heaps\<close> leaves them: new page directories, the 256 pre-mapped pages of
  every size class and the large domain.
\<close>

section \<open>A new page directory\<close>

text \<open>
  A directory is written while its frame \<open>n\<close> is in use but not yet in any address space; \<open>s0\<close> is the
  state before the first write.
\<close>

definition dir_work :: "dir_id set \<Rightarrow> nat set \<Rightarrow> nat \<Rightarrow> kstate \<Rightarrow> kstate \<Rightarrow> bool" where
  "dir_work A V n s0 s \<longleftrightarrow> vm_inv A V s \<and> fresh_frame A V s n
     \<and> (\<forall>a. frame_of a \<noteq> n \<longrightarrow> mem s a = mem s0 a) \<and> s\<lparr>mem := mem s0\<rparr> = s0
     \<and> (\<forall>q<1048576. ptrans (mem s) (dir_of s KDir) q = ptrans (mem s0) (dir_of s KDir) q)"

lemma dir_work_start: "vm_inv A V s \<Longrightarrow> fresh_frame A V s n \<Longrightarrow> dir_work A V n s s"
  by (simp add: dir_work_def)

lemma fresh_frame_lt: "fresh_frame A V s n \<Longrightarrow> n < 0x40000"
  by (simp add: fresh_frame_def)

lemma dir_work_write:
  assumes w: "dir_work A V n s0 s" and i: "i < 1024"
  shows "store32 (addr_of_frame n + 0xC0000000 + 4 * of_nat i) e s =
      Inr ((), s\<lparr>mem := (mem s)(slot (addr_of_frame n) i := e)\<rparr>)"
    and "dir_work A V n s0 (s\<lparr>mem := (mem s)(slot (addr_of_frame n) i := e)\<rparr>)"
proof -
  let ?a = "slot (addr_of_frame n) i"
  have vm: "vm_inv A V s" and fr: "fresh_frame A V s n" using w by (auto simp: dir_work_def)
  have n: "n < 0x40000" "frame_of (addr_of_frame n) = n"
    using fresh_frame_lt [OF fr] by (auto simp: frame_of_addr_of_frame)
  have fa: "frame_of ?a = n" using i n(2) by (simp add: slot_frame page_aligned_addr_of_frame)
  show "store32 (addr_of_frame n + 0xC0000000 + 4 * of_nat i) e s = Inr ((), s\<lparr>mem := (mem s)(?a := e)\<rparr>)"
    by (rule store_low [OF vm page_aligned_addr_of_frame _ i]) (simp add: n)
  have 1: "safe_frame s \<le> frame_of ?a" and 2: "\<And>d. d \<in> A \<Longrightarrow> frame_of ?a \<notin> own (mem s) (dir_of s d)"
    using fr by (auto simp: fresh_frame_def fa)
  have ok: "vm_ok A V (dir_of s) ((mem s)(?a := e)) (used s) (safe_frame s)"
    using vm_ok_data_write(1) [OF vm_invD(4) [OF vm] 1] 2 by simp
  have pt: "ptrans ((mem s)(?a := e)) (dir_of s KDir) q = ptrans (mem s) (dir_of s KDir) q" if "q < 1048576" for q
    using vm_ok_data_write(2) [OF vm_invD(4) [OF vm] 1] 2 vm_invD(5) [OF vm] that by simp
  have ow: "own ((mem s)(?a := e)) (dir_of s d) = own (mem s) (dir_of s d)" if "d \<in> A" for d
    using vm_ok_data_write(3) [OF vm_invD(4) [OF vm] 1] 2 that by simp
  let ?t = "s\<lparr>mem := (mem s)(?a := e)\<rparr>"
  have vt: "vm_inv A V ?t"
    by (rule vm_inv_cong [OF vm_frame_mem vm]) (use ok vm_invD(1) [OF vm] in simp_all)
  have Vs: "q < 1048576" if "q \<in> V" for q
    using vm_okD(7) [OF vm_invD(4) [OF vm] that] by (auto simp: page_ok_def)
  have "fresh_frame A V ?t n"
    using fr ow pt Vs vm_frame_simps(1) [OF vm_frame_mem [of s]]
    by (simp add: fresh_frame_def)
  moreover have "dir_of ?t = dir_of s" by (rule vm_frame_simps(1) [OF vm_frame_mem])
  ultimately show "dir_work A V n s0 ?t" using w vt fa pt by (auto simp: dir_work_def)
qed

lemma dir_work_entry:
  assumes "dir_work A V n s0 s" "d \<in> A" "i < 1024"
  shows "entry (mem s) (dir_of s0 d) i = entry (mem s0) (dir_of s0 d) i" "dir_of s = dir_of s0"
    "load32 (dir_of s0 d + 0xC0000000 + 4 * of_nat i) s = Inr (entry (mem s0) (dir_of s0 d) i, s)"
proof -
  have vm: "vm_inv A V s" and fr: "fresh_frame A V s n" and mo: "s\<lparr>mem := mem s0\<rparr> = s0"
    using assms(1) by (auto simp: dir_work_def)
  show d: "dir_of s = dir_of s0"
    using vm_frame_simps(1) [OF vm_frame_mem_only [OF mo]] .
  have "frame_of (slot (dir_of s0 d) i) \<noteq> n"
    using fr assms(2,3) vm_invD(8) [OF vm assms(2)] by (auto simp: fresh_frame_def own_def slot_frame d)
  then show e: "entry (mem s) (dir_of s0 d) i = entry (mem s0) (dir_of s0 d) i"
    using assms(1) by (simp add: entry_def dir_work_def)
  show "load32 (dir_of s0 d + 0xC0000000 + 4 * of_nat i) s = Inr (entry (mem s0) (dir_of s0 d) i, s)"
    using load_dir_entry [OF vm assms(2,3)] by (simp add: d e)
qed

lemma zero_entries_run:
  assumes "dir_work A V n s0 s" "i + k \<le> 1024"
  shows "\<exists>t. zero_entries (addr_of_frame n + 0xC0000000) i k s = Inr ((), t) \<and> dir_work A V n s0 t
    \<and> (\<forall>j<1024. entry (mem t) (addr_of_frame n) j = (if i \<le> j \<and> j < i + k then 0 else entry (mem s) (addr_of_frame n) j))"
  using assms
proof (induction k arbitrary: i s)
  case 0
  then show ?case by auto
next
  case (Suc k)
  let ?s = "s\<lparr>mem := (mem s)(slot (addr_of_frame n) i := 0)\<rparr>"
  have i: "i < 1024" using Suc.prems(2) by simp
  note w = dir_work_write [OF Suc.prems(1) i, of 0]
  from Suc.IH [OF w(2), of "Suc i"] Suc.prems(2) obtain t where
    t: "zero_entries (addr_of_frame n + 0xC0000000) (Suc i) k ?s = Inr ((), t)" "dir_work A V n s0 t"
      "\<And>j. j < 1024 \<Longrightarrow> entry (mem t) (addr_of_frame n) j =
         (if Suc i \<le> j \<and> j < Suc i + k then 0 else entry (mem ?s) (addr_of_frame n) j)" by auto
  have "entry (mem t) (addr_of_frame n) j = (if i \<le> j \<and> j < i + Suc k then 0 else entry (mem s) (addr_of_frame n) j)"
    if "j < 1024" for j
    using t(3) [OF that] that i by (auto simp: entry_set_pde page_aligned_addr_of_frame)
  then show ?case using t(1,2) w(1) by auto
qed

lemma copy_entries_run:
  assumes "dir_work A V n s0 s" "i + k \<le> 1024"
  shows "\<exists>t. copy_entries (kernel_page_dir s0) (addr_of_frame n + 0xC0000000) i k s = Inr ((), t) \<and> dir_work A V n s0 t
    \<and> (\<forall>j<1024. entry (mem t) (addr_of_frame n) j =
         (if i \<le> j \<and> j < i + k then entry (mem s0) (dir_of s0 KDir) j else entry (mem s) (addr_of_frame n) j))"
  using assms
proof (induction k arbitrary: i s)
  case 0
  then show ?case by auto
next
  case (Suc k)
  let ?e = "entry (mem s0) (dir_of s0 KDir) i"
  let ?s = "s\<lparr>mem := (mem s)(slot (addr_of_frame n) i := ?e)\<rparr>"
  have i: "i < 1024" using Suc.prems(2) by simp
  have vm: "vm_inv A V s" using Suc.prems(1) by (simp add: dir_work_def)
  have kd: "kernel_page_dir s0 = dir_of s0 KDir + 0xC0000000" by (simp add: dir_of_def)
  have ld: "load32 (kernel_page_dir s0 + 4 * of_nat i) s = Inr (?e, s)"
    unfolding kd by (rule dir_work_entry(3) [OF Suc.prems(1) vm_invD(5) [OF vm] i])
  note w = dir_work_write [OF Suc.prems(1) i, of ?e]
  from Suc.IH [OF w(2), of "Suc i"] Suc.prems(2) obtain t where
    t: "copy_entries (kernel_page_dir s0) (addr_of_frame n + 0xC0000000) (Suc i) k ?s = Inr ((), t)" "dir_work A V n s0 t"
      "\<And>j. j < 1024 \<Longrightarrow> entry (mem t) (addr_of_frame n) j =
         (if Suc i \<le> j \<and> j < Suc i + k then entry (mem s0) (dir_of s0 KDir) j else entry (mem ?s) (addr_of_frame n) j)"
    by auto
  have "entry (mem t) (addr_of_frame n) j =
      (if i \<le> j \<and> j < i + Suc k then entry (mem s0) (dir_of s0 KDir) j else entry (mem s) (addr_of_frame n) j)"
    if "j < 1024" for j
    using t(3) [OF that] that i by (auto simp: entry_set_pde page_aligned_addr_of_frame)
  then show ?case using t(1,2) w(1) ld by auto
qed

lemma console_same [simp]:
  "vm_inv A V (s\<lparr>console := v\<rparr>) = vm_inv A V s" "fresh_frame A V (s\<lparr>console := v\<rparr>) n = fresh_frame A V s n"
  "dir_of (s\<lparr>console := v\<rparr>) = dir_of s" "free_low (s\<lparr>console := v\<rparr>) = free_low s"
  "used (s\<lparr>console := v\<rparr>) = used s" "safe_frame (s\<lparr>console := v\<rparr>) = safe_frame s"
proof -
  show d: "dir_of (s\<lparr>console := v\<rparr>) = dir_of s"
    by (auto simp: dir_of_def fun_eq_iff split: dir_id.split)
  show sf: "safe_frame (s\<lparr>console := v\<rparr>) = safe_frame s"
    by (simp add: safe_frame_def heap_start_def kernel_page_tables_base_def kernel_page_table_def)
  show u: "used (s\<lparr>console := v\<rparr>) = used s" by (simp add: used_def)
  show "vm_inv A V (s\<lparr>console := v\<rparr>) = vm_inv A V s"
    by (simp add: vm_inv_def d sf u) (simp add: pmm_wf_def sf layout_ok_def)
  show "fresh_frame A V (s\<lparr>console := v\<rparr>) n = fresh_frame A V s n"
    by (simp add: fresh_frame_def d sf u)
  show "free_low (s\<lparr>console := v\<rparr>) = free_low s" by (simp add: free_low_used sf u)
qed

lemma dir_work_console:
  assumes "dir_work A V n s0 s"
  shows "dir_work A V n (s0\<lparr>console := v\<rparr>) (s\<lparr>console := v\<rparr>)"
proof -
  have "s\<lparr>mem := mem s0\<rparr> = s0" using assms by (simp add: dir_work_def)
  then have "s\<lparr>console := v, mem := mem s0\<rparr> = s0\<lparr>console := v\<rparr>" by (cases s; cases s0) simp
  then show ?thesis using assms by (simp add: dir_work_def)
qed

text \<open>The two loops, with console output \<open>v\<close> in between.\<close>

lemma new_directory_run:
  assumes vm: "vm_inv A V s" and fr: "fresh_frame A V s n"
  shows "\<exists>t. zero_entries (addr_of_frame n + 0xC0000000) 0 1024 s = Inr ((), t) \<and> dir_work A V n s t \<and>
    (\<forall>v. \<exists>u. copy_entries (kernel_page_dir s) (addr_of_frame n + 0xC0000000) 768 256 (t\<lparr>console := v\<rparr>) = Inr ((), u)
      \<and> dir_work A V n (s\<lparr>console := v\<rparr>) u \<and> (\<forall>j<768. entry (mem u) (addr_of_frame n) j = 0)
      \<and> (\<forall>j. 768 \<le> j \<and> j < 1024 \<longrightarrow> entry (mem u) (addr_of_frame n) j = entry (mem u) (dir_of s KDir) j))"
proof -
  from zero_entries_run [OF dir_work_start [OF vm fr], of 0 1024] obtain t where
    t: "zero_entries (addr_of_frame n + 0xC0000000) 0 1024 s = Inr ((), t)" "dir_work A V n s t"
      "\<And>j. j < 1024 \<Longrightarrow> entry (mem t) (addr_of_frame n) j = 0" by auto
  have "\<exists>u. copy_entries (kernel_page_dir s) (addr_of_frame n + 0xC0000000) 768 256 (t\<lparr>console := v\<rparr>) = Inr ((), u)
      \<and> dir_work A V n (s\<lparr>console := v\<rparr>) u \<and> (\<forall>j<768. entry (mem u) (addr_of_frame n) j = 0)
      \<and> (\<forall>j. 768 \<le> j \<and> j < 1024 \<longrightarrow> entry (mem u) (addr_of_frame n) j = entry (mem u) (dir_of s KDir) j)" for v
  proof -
    from copy_entries_run [OF dir_work_console [OF t(2)], of 768 256 v] obtain u where
      u: "copy_entries (kernel_page_dir s) (addr_of_frame n + 0xC0000000) 768 256 (t\<lparr>console := v\<rparr>) = Inr ((), u)"
        "dir_work A V n (s\<lparr>console := v\<rparr>) u"
        "\<And>j. j < 1024 \<Longrightarrow> entry (mem u) (addr_of_frame n) j =
           (if 768 \<le> j then entry (mem s) (dir_of s KDir) j else entry (mem t) (addr_of_frame n) j)" by auto
    have "entry (mem u) (dir_of s KDir) j = entry (mem s) (dir_of s KDir) j" if "j < 1024" for j
      using dir_work_entry(1) [OF u(2) vm_invD(5) [OF vm] that] by simp
    then show ?thesis using t(3) u by auto
  qed
  then show ?thesis using t(1,2) by blast
qed

lemma ktabs_cong:
  assumes "\<And>j. 768 \<le> j \<Longrightarrow> j < 1024 \<Longrightarrow> entry m p j = entry m q j"
  shows "ktabs m p = ktabs m q"
  using assms by (auto simp: tabs_def)

lemma wf_copied_dir:
  assumes wf: "wf_dir m q" and p: "page_aligned p"
    and lo: "\<And>j. j < 768 \<Longrightarrow> entry m p j = 0" and hi: "\<And>j. 768 \<le> j \<Longrightarrow> j < 1024 \<Longrightarrow> entry m p j = entry m q j"
    and fr: "frame_of p \<notin> ktabs m q"
  shows "wf_dir m p" "utabs m p = {}"
proof -
  have np: "\<not> present 0" by (simp add: present_def)
  have e: "768 \<le> j \<and> present (entry m q j) \<and> entry m p j = entry m q j"
    if "present (entry m p j)" "j < 1024" for j
    using that lo [of j] hi [of j] np by (cases "j < 768") auto
  show "utabs m p = {}" using lo np by (auto simp: tabs_def)
  have nf: "frame_of (entry m p j) \<noteq> frame_of p" if "present (entry m p j)" "j < 1024" for j
    using e [OF that] fr that(2) by (auto simp: tabs_def)
  have inj: "i = j" if "present (entry m p i)" "i < 1024" "present (entry m p j)" "j < 1024"
      "frame_of (entry m p i) = frame_of (entry m p j)" for i j
    using e [OF that(1,2)] e [OF that(3,4)] that(2,4,5) wf by (auto simp: wf_dir_def)
  have big: "entry m p j AND 0x80 = 0" if "present (entry m p j)" "j < 1024" for j
    using e [OF that] that(2) wf by (auto simp: wf_dir_def)
  show "wf_dir m p" unfolding wf_dir_def using p nf inj big by blast
qed

lemma vm_ok_new_dir:
  assumes vm: "vm_ok A V D m U sf" and d: "d \<notin> A" "page_aligned (D d)"
    and n: "frame_of (D d) \<in> U" "sf \<le> frame_of (D d)" "frame_of (D d) < 0x40000"
    and own: "\<And>e. e \<in> A \<Longrightarrow> frame_of (D d) \<notin> own m (D e)"
    and data: "\<And>q. q \<in> V \<Longrightarrow> ptrans m (D KDir) q \<noteq> Some (frame_of (D d))"
    and lo: "\<And>j. j < 768 \<Longrightarrow> entry m (D d) j = 0"
    and hi: "\<And>j. 768 \<le> j \<Longrightarrow> j < 1024 \<Longrightarrow> entry m (D d) j = entry m (D KDir) j"
  shows "vm_ok (insert d A) V D m U sf"
proof -
  have k: "KDir \<in> A" by (rule vm_okD(1) [OF vm])
  note kd = vm_okD(5) [OF vm k]
  have kt: "ktabs m (D d) = ktabs m (D KDir)" by (rule ktabs_cong [OF hi])
  have nk: "frame_of (D d) \<notin> ktabs m (D KDir)" by (rule not_ktab [OF vm k]) (use n in simp)
  note wf = wf_copied_dir [OF dir_okD(1) [OF kd] d(2) lo hi nk]
  have dd: "dir_ok m D U sf d"
    using kd wf n kt by (simp add: dir_ok_def)
  have od: "own m (D d) = {frame_of (D d)}" by (simp add: own_def wf(2))
  have disj: "own m (D e) \<inter> own m (D f) = {}" if "e \<in> insert d A" "f \<in> insert d A" "e \<noteq> f" for e f
    using that own [of e] own [of f] vm_okD(6) [OF vm, of e f] d(1) od by auto
  have pg: "\<exists>f. page_ok (insert d A) D m U sf p f" if p: "p \<in> V" for p
  proof -
    from vm_okD(7) [OF vm p] obtain f where f: "page_ok A D m U sf p f" by blast
    then have "f \<noteq> frame_of (D d)" using data [OF p] by (auto simp: page_ok_def)
    then have "page_ok (insert d A) D m U sf p f" using f by (auto simp: page_ok_def od)
    then show ?thesis ..
  qed
  have "\<forall>e\<in>insert d A. dir_ok m D U sf e" using dd vm_okD(5) [OF vm] by blast
  then show ?thesis
    unfolding vm_ok_def using vm_okD(1-4,8) [OF vm] disj pg by blast
qed

text \<open>The directories that do not exist yet may change.\<close>

lemma vm_ok_dirs:
  assumes vm: "vm_ok A V D m U sf" and D: "\<And>d. d \<in> A \<Longrightarrow> D' d = D d"
  shows "vm_ok A V D' m U sf"
proof -
  have k: "D' KDir = D KDir" by (rule D [OF vm_okD(1) [OF vm]])
  have dok: "dir_ok m D' U sf d" if "d \<in> A" for d
    using vm_okD(5) [OF vm that] D [OF that] k by (simp add: dir_ok_def)
  have pg: "\<exists>f. page_ok A D' m U sf p f" if "p \<in> V" for p
    using vm_okD(7) [OF vm that] D k by (auto simp: page_ok_def)
  have ow: "own m (D' d) = own m (D d)" if "d \<in> A" for d using D [OF that] by simp
  have disj: "own m (D' d) \<inter> own m (D' e) = {}" if "d \<in> A" "e \<in> A" "d \<noteq> e" for d e
    using vm_okD(6) [OF vm that] D that by simp
  show ?thesis unfolding vm_ok_def k
    using vm_okD(1-4,8) [OF vm] dok pg disj by blast
qed

lemma vm_inv_new_dir:
  assumes w: "dir_work A V n s0 s" and d: "d \<notin> A" "dir_of s0 d = addr_of_frame n"
    and lo: "\<forall>j<768. entry (mem s) (addr_of_frame n) j = 0"
    and hi: "\<forall>j. 768 \<le> j \<and> j < 1024 \<longrightarrow> entry (mem s) (addr_of_frame n) j = entry (mem s) (dir_of s0 KDir) j"
  shows "vm_inv (insert d A) V s"
proof -
  have vm: "vm_inv A V s" and fr: "fresh_frame A V s n" and mo: "s\<lparr>mem := mem s0\<rparr> = s0"
    using w by (auto simp: dir_work_def)
  have ds: "dir_of s = dir_of s0" using vm_frame_simps(1) [OF vm_frame_mem_only [OF mo]] .
  have fn: "frame_of (addr_of_frame n) = n" using fresh_frame_lt [OF fr] by (simp add: frame_of_addr_of_frame)
  have "vm_ok (insert d A) V (dir_of s) (mem s) (used s) (safe_frame s)"
    by (rule vm_ok_new_dir [OF vm_invD(4) [OF vm] d(1)])
       (use fr lo hi fn in \<open>simp_all add: ds d(2) page_aligned_addr_of_frame fresh_frame_def\<close>)
  then show ?thesis using vm by (simp add: vm_inv_def)
qed

section \<open>Pre-mapping\<close>

lemma page_blocks_iff:
  assumes "page_aligned virt" "class_size sz"
  shows "x \<in> set (page_blocks virt sz) \<longleftrightarrow> frame_of x = frame_of virt \<and> unat sz dvd unat x"
proof
  assume "x \<in> set (page_blocks virt sz)"
  then show "frame_of x = frame_of virt \<and> unat sz dvd unat x" using page_blocks_props(3) [OF assms] by simp
next
  assume x: "frame_of x = frame_of virt \<and> unat sz dvd unat x"
  note c = class_sizeD [OF assms(2)]
  from assms(1) obtain k where k: "unat virt = 4096 * k" by (auto simp: page_aligned_iff)
  with x have "unat x div 4096 = k" by (simp add: frame_of_def)
  then have ux: "unat x = unat virt + unat x mod 4096" using k by (metis mult_div_mod_eq)
  have "unat sz dvd unat virt" using k assms(2) by (auto simp: class_size_def)
  then have "unat sz dvd unat x mod 4096" using x ux by (metis dvd_add_right_iff)
  then obtain i where i: "unat x mod 4096 = i * unat sz" by (metis dvd_def mult.commute)
  then have lt: "i * unat sz < 4096" by (metis mod_less_divisor zero_less_numeral)
  then have "i * unat sz < 4096 div unat sz * unat sz" using c(4) by simp
  then have "i < 4096 div unat sz" by simp
  moreover have "x = blk virt sz i"
    by (rule u32_eqI) (use ux i unat_blk(1) [OF assms(1) lt] in simp)
  ultimately show "x \<in> set (page_blocks virt sz)" by (auto simp: page_blocks_def)
qed

lemma blocks_insert:
  assumes "page_aligned virt" "in_region h (frame_of virt)"
  shows "blocks (insert (frame_of virt) V) h = set (page_blocks virt (bsize h)) \<union> blocks V h"
    and "g \<noteq> h \<Longrightarrow> blocks (insert (frame_of virt) V) g = blocks V g"
proof -
  show "blocks (insert (frame_of virt) V) h = set (page_blocks virt (bsize h)) \<union> blocks V h"
    using assms(2) by (auto simp: blocks_def page_blocks_iff [OF assms(1) class_size_bsize])
  show "blocks (insert (frame_of virt) V) g = blocks V g" if "g \<noteq> h"
    using region_unique [OF assms(2)] that by (auto simp: blocks_def)
qed

definition all_free :: "dir_id set \<Rightarrow> nat set \<Rightarrow> (heap_id \<Rightarrow> u32 list) \<Rightarrow> bool" where
  "all_free A V fl \<longleftrightarrow> (\<forall>h. HDir h \<in> A \<longrightarrow> set (fl h) = blocks V h)"

lemma new_pages_free:
  assumes "new_pages V s s' N" "card N \<le> k" "safe_frame s' = safe_frame s"
  shows "card (free_low s) \<le> card (free_low s') + k"
proof -
  have "free_low s' = free_low s - N" using assms(1,3) by (auto simp: new_pages_def free_low_used)
  moreover have "finite N" using assms(1) by (auto simp: new_pages_def intro: finite_subset)
  ultimately show ?thesis using assms(2) diff_card_le_card_Diff [of N "free_low s"] by simp
qed

lemma premap_pages_run:
  assumes "heap_inv A V fl s" "HDir h \<in> A" "all_free A V fl"
    "frame_of (next_virt_addr (heaps s h)) + k \<le> region_base h + 0x10000" "3 * k \<le> card (free_low s)"
  shows "\<exists>s' V' fl'. premap_pages h k s = Inr ((), s') \<and> heap_inv A V' fl' s' \<and> all_free A V' fl'
    \<and> V' = V \<union> {frame_of (next_virt_addr (heaps s h))..<frame_of (next_virt_addr (heaps s h)) + k}
    \<and> card (free_low s) \<le> card (free_low s') + 3 * k"
  using assms
proof (induction k arbitrary: V fl s)
  case 0
  then show ?case by auto
next
  case (Suc k)
  let ?virt = "next_virt_addr (heaps s h)" and ?p = "frame_of (next_virt_addr (heaps s h))"
  note inv = Suc.prems(1) and h = Suc.prems(2)
  note D = domain_okD [OF heap_invD(2) [OF inv h]]
  have room: "in_region h ?p" using D(5) Suc.prems(4) by (simp add: in_region_def)
  have fr: "3 \<le> card (free_low s)" using Suc.prems(5) by simp
  from expand [OF inv h room fr] obtain f t u v w x N where
    f: "get_next_free_process_frame s = Inr (addr_of_frame f, t)" "addr_of_frame f \<noteq> 0" and
    u: "map_page (page_directory (heaps s h)) ?virt (addr_of_frame f) PAGE_KERNEL t = Inr ((), u)"
       "map_page (kernel_page_dir s) ?virt (addr_of_frame f) PAGE_KERNEL u = Inr ((), v)" and
    w: "link_blocks ?virt (bsize h) 0 (unat (4096 div bsize h - 1)) v = Inr ((), w)"
       "store32 (?virt + (4096 div bsize h - 1) * bsize h) (next_free_block (heaps s h)) w = Inr ((), x)" and
    fr: "vm_frame s t" "vm_frame s u" "vm_frame s v" "vm_frame s w" "vm_frame s x" and
    inv': "heap_inv A (insert ?p V) (fl(h := page_blocks ?virt (bsize h) @ fl h)) (with_page h x)"
       "new_pages V s (with_page h x) N" "card N \<le> 3"
    by blast
  note fs = vm_frame_simps(3,5) [OF fr(1)] vm_frame_simps(3,5) [OF fr(2)] vm_frame_simps(3,5) [OF fr(3)]
    vm_frame_simps(3,5) [OF fr(4)] vm_frame_simps(3,5) [OF fr(5)]
  let ?x = "with_page h x" and ?fl = "fl(h := page_blocks ?virt (bsize h) @ fl h)"
  have step: "premap_pages h (Suc k) s = premap_pages h k ?x"
    using f u w D(1,2) fs
    by (simp add: domain_def set_domain_def with_page_def)
  have sf: "safe_frame ?x = safe_frame s"
    using vm_frame_simps(6) [OF fr(5)]
    by (simp add: with_page_def safe_frame_def heap_start_def kernel_page_tables_base_def kernel_page_table_def)
  have c: "card (free_low s) \<le> card (free_low ?x) + 3" by (rule new_pages_free [OF inv'(2,3) sf])
  have af: "all_free A (insert ?p V) ?fl"
    using Suc.prems(3) blocks_insert [OF D(3) room] by (auto simp: all_free_def)
  have nv: "frame_of (next_virt_addr (heaps ?x h)) = Suc ?p"
    using next_page(2) [OF D(3)] region_bounds [OF room] by (simp add: with_page_def fs)
  from Suc.IH [OF inv'(1) h af, unfolded nv] Suc.prems(4,5) c obtain s' V' fl' where
    IH: "premap_pages h k ?x = Inr ((), s')" "heap_inv A V' fl' s'" "all_free A V' fl'"
      "V' = insert ?p V \<union> {Suc ?p..<Suc ?p + k}" "card (free_low ?x) \<le> card (free_low s') + 3 * k"
    by auto
  have "V' = V \<union> {?p..<?p + Suc k}" unfolding IH(4) by auto
  then show ?case using step IH c by auto
qed

lemma dir_work_peek:
  assumes w: "dir_work A V n s0 s" and vm: "vm_inv A V s0" and b: "frame_of b \<in> V"
  shows "peek load32 s b = peek load32 s0 b"
proof -
  have vs: "vm_inv A V s" and fr: "fresh_frame A V s n" and mo: "s\<lparr>mem := mem s0\<rparr> = s0"
    using w by (auto simp: dir_work_def)
  have ds: "dir_of s = dir_of s0" using vm_frame_simps(1) [OF vm_frame_mem_only [OF mo]] .
  from data_addr [OF vs b] obtain f where f: "ptrans (mem s) (dir_of s KDir) (frame_of b) = Some f"
    "translate (mem s) (cr3 s) b = Some (addr_of_frame f OR (b AND 0xFFF))" "f < 0x40000" by blast
  from data_addr [OF vm b] obtain g where g: "ptrans (mem s0) (dir_of s0 KDir) (frame_of b) = Some g"
    "translate (mem s0) (cr3 s0) b = Some (addr_of_frame g OR (b AND 0xFFF))" by blast
  have "f = g" using f(1) g(1) w frame_of_lt [of b] by (simp add: dir_work_def ds)
  moreover have "f \<noteq> n" using fr f(1) b by (auto simp: fresh_frame_def)
  moreover have "frame_of (addr_of_frame f OR (b AND 0xFFF)) = f" using f(3) by (simp add: frame_of_data)
  ultimately show ?thesis using f(2) g(2) w by (auto simp: peek_def load32_def dir_work_def)
qed

lemma kprint_ok: "fmt_ok cs args \<Longrightarrow> \<exists>v. kprint cs args s = Inr ((), s\<lparr>console := v\<rparr>)"
  by auto

text \<open>The fields of the new domain, and the old domains, once its directory exists.\<close>

definition blank_domain :: "heap_id \<Rightarrow> nat \<Rightarrow> heap_domain \<Rightarrow> heap_domain" where
  "blank_domain h n d = d\<lparr>page_directory := addr_of_frame n + 0xC0000000, block_size := bsize h,
     blocks_per_page := 4096 div bsize h, next_virt_addr := addr_of_frame (region_base h), next_free_block := 0\<rparr>"

lemma region_base_frame: "frame_of (addr_of_frame (region_base h)) = region_base h"
  by (cases h) (simp_all add: region_base_def frame_of_addr_of_frame)

lemma no_pages_yet:
  assumes "vm_inv A V s" "HDir h \<notin> A"
  shows "{p \<in> V. in_region h p} = {}" "blocks V h = {}"
proof -
  have "\<not> in_region h p" if "p \<in> V" for p
    using vm_okD(7) [OF vm_invD(4) [OF assms(1)] that] assms(2) owner_region [of h p] by (auto simp: page_ok_def)
  then show "{p \<in> V. in_region h p} = {}" "blocks V h = {}" by (auto simp: blocks_def)
qed

lemma heap_inv_blank:
  assumes inv: "heap_inv A V fl s" and h: "HDir h \<notin> A" and vm: "vm_inv (insert (HDir h) A) V u"
    and hp: "heaps u = (heaps s)(h := blank_domain h n (heaps s h))"
    and pk: "\<And>b. frame_of b \<in> V \<Longrightarrow> peek load32 u b = peek load32 s b"
  shows "heap_inv (insert (HDir h) A) V (fl(h := [])) u"
proof -
  have dh: "domain_ok V u h []"
    using no_pages_yet [OF heap_invD(1) [OF inv] h]
    by (simp add: domain_ok_def hp blank_domain_def page_aligned_addr_of_frame region_base_frame)
  have dg: "domain_ok V u g (fl g)" if g: "HDir g \<in> A" for g
  proof (rule domain_ok_other [OF heap_invD(2) [OF inv g]])
    show "heaps u g = heaps s g" using g h by (auto simp: hp)
    show "peek load32 u b = peek load32 s b" if "b \<in> set (fl g)" for b
      using domain_okD(8) [OF heap_invD(2) [OF inv g]] that pk by (auto simp: blocks_def)
  qed auto
  show ?thesis using vm dh dg h by (auto simp: heap_inv_def)
qed

lemma set_dir_frame:
  assumes vm: "vm_inv A V s" and fr: "fresh_frame A V s n" and h: "HDir h \<notin> A"
  defines "t \<equiv> s\<lparr>heaps := (heaps s)(h := (heaps s h)\<lparr>page_directory := addr_of_frame n + 0xC0000000\<rparr>)\<rparr>"
  shows "vm_inv A V t" "fresh_frame A V t n" "dir_of t (HDir h) = addr_of_frame n" "free_low t = free_low s"
    "kernel_page_dir t = kernel_page_dir s"
proof -
  have d: "dir_of t d = dir_of s d" if "d \<in> A" for d
    using that h by (auto simp: t_def dir_of_def split: dir_id.split)
  have same: "pmm_wf t = pmm_wf s" "layout_ok t = layout_ok s" "used t = used s" "safe_frame t = safe_frame s"
      "mem t = mem s" "cr3 t = cr3 s"
    by (simp_all add: t_def pmm_wf_def layout_ok_def used_def safe_frame_def heap_start_def
      kernel_page_tables_base_def kernel_page_table_def)
  have k: "dir_of t KDir = dir_of s KDir" by (rule d [OF vm_invD(5) [OF vm]])
  show "vm_inv A V t"
    using vm vm_ok_dirs [OF vm_invD(4) [OF vm] d] by (simp add: vm_inv_def same k)
  show "fresh_frame A V t n" using fr d k by (simp add: fresh_frame_def same)
  show "dir_of t (HDir h) = addr_of_frame n" by (simp add: t_def dir_of_def)
  show "free_low t = free_low s" by (simp add: free_low_used same)
  show "kernel_page_dir t = kernel_page_dir s" by (simp add: t_def)
qed

lemma take_frame_console: "take_frame n (s\<lparr>console := v\<rparr>) = (take_frame n s)\<lparr>console := v\<rparr>"
  by (simp add: take_frame_def)

lemma free_low_nonzero: "pmm_wf s \<Longrightarrow> n \<in> free_low s \<Longrightarrow> addr_of_frame n \<noteq> 0"
  using free_lowD [of n s] by (intro addr_of_frame_nonzero) (auto simp: pmm_wf_def)

lemma bsize_nonzero: "bsize h \<noteq> 0"
  using class_size_bsize [of h] by (simp add: class_size_def)

text \<open>The code of \<^const>\<open>init_heap_domain\<close> up to the pre-mapping loop, run step by step.\<close>

lemma init_heap_domain_start:
  assumes inv: "heap_inv A V fl s" and h: "HDir h \<notin> A" and ne: "free_low s \<noteq> {}"
  shows "\<exists>n u v. n \<in> free_low s \<and> init_heap_domain h (bsize h) (addr_of_frame (region_base h)) s =
      premap_pages h PREMAP_PAGES (u\<lparr>console := v\<rparr>)
    \<and> heap_inv (insert (HDir h) A) V (fl(h := [])) (u\<lparr>console := v\<rparr>) \<and> free_low u = free_low s - {n}
    \<and> next_virt_addr (heaps u h) = addr_of_frame (region_base h)"
proof -
  note vm = heap_invD(1) [OF inv]
  let ?base = "addr_of_frame (region_base h)"
  obtain c1 where c1: "kprint (''[HEAP_DBG] init_heap_domain: block_size=%d virt_base=0x%x'' @ [CHR 0x0A])
      [AInt (bsize h), AInt ?base] s = Inr ((), s\<lparr>console := c1\<rparr>)"
    using kprint_ok by fastforce
  let ?s1 = "s\<lparr>console := c1\<rparr>"
  have v1: "vm_inv A V ?s1" "free_low ?s1 \<noteq> {}" using vm ne by simp_all
  obtain n where n: "get_next_free_kernel_frame ?s1 = Inr (addr_of_frame n, take_frame n ?s1)" "n \<in> free_low ?s1"
    by (rule kernel_frames.alloc_frame [OF vm_invD(1) [OF v1(1)] v1(2)])
  have n1: "n < 1048576" using free_lowD(5) [OF n(2)] .
  let ?s2 = "take_frame n ?s1" and ?dir = "addr_of_frame n + 0xC0000000"
  have nz: "addr_of_frame n \<noteq> 0" by (rule free_low_nonzero [OF vm_invD(1) [OF v1(1)] n(2)])
  obtain c2 where c2: "kprint (''[HEAP_DBG] phys_dir = 0x%x  virt = 0x%x'' @ [CHR 0x0A])
      [AInt (addr_of_frame n), AInt ?dir] ?s2 = Inr ((), ?s2\<lparr>console := c2\<rparr>)"
    using kprint_ok by fastforce
  define s3 where "s3 = ?s2\<lparr>console := c2\<rparr>"
  have v3: "vm_inv A V s3" "fresh_frame A V s3 n"
    using vm_inv_take [OF v1(1) n1] fresh_take [OF v1(1) n(2)] by (simp_all add: s3_def)
  define s4 where "s4 = s3\<lparr>heaps := (heaps s3)(h := (heaps s3 h)\<lparr>page_directory := ?dir\<rparr>)\<rparr>"
  note s4 = set_dir_frame [OF v3 h, folded s4_def]
  from new_directory_run [OF s4(1,2)] obtain t where
    t: "zero_entries ?dir 0 1024 s4 = Inr ((), t)" "dir_work A V n s4 t"
      "\<forall>v. \<exists>u. copy_entries (kernel_page_dir s4) ?dir 768 256 (t\<lparr>console := v\<rparr>) = Inr ((), u)
      \<and> dir_work A V n (s4\<lparr>console := v\<rparr>) u \<and> (\<forall>j<768. entry (mem u) (addr_of_frame n) j = 0)
      \<and> (\<forall>j. 768 \<le> j \<and> j < 1024 \<longrightarrow> entry (mem u) (addr_of_frame n) j = entry (mem u) (dir_of s4 KDir) j)"
    by blast
  obtain c3 where c3: "kprint (''[HEAP_DBG] page directory zeroed'' @ [CHR 0x0A]) [] t = Inr ((), t\<lparr>console := c3\<rparr>)"
    using kprint_ok by fastforce
  from t(3) [rule_format, of c3] obtain u where
    u: "copy_entries (kernel_page_dir s4) ?dir 768 256 (t\<lparr>console := c3\<rparr>) = Inr ((), u)"
      "dir_work A V n (s4\<lparr>console := c3\<rparr>) u" "\<forall>j<768. entry (mem u) (addr_of_frame n) j = 0"
      "\<forall>j. 768 \<le> j \<and> j < 1024 \<longrightarrow> entry (mem u) (addr_of_frame n) j = entry (mem u) (dir_of s4 KDir) j" by blast
  have vu: "vm_inv (insert (HDir h) A) V u"
    by (rule vm_inv_new_dir [OF u(2) h _ u(3)]) (use s4(3) u(4) in simp_all)
  obtain c4 where c4: "kprint (''[HEAP_DBG] kernel entries copied'' @ [CHR 0x0A]) [] u = Inr ((), u\<lparr>console := c4\<rparr>)"
    using kprint_ok by fastforce
  let ?d = "blank_domain h n (heaps s h)"
  let ?u5 = "u\<lparr>heaps := (heaps s)(h := ?d)\<rparr>"
  obtain c5 where c5: "kprint (''[HEAP_DBG] init_heap_domain done'' @ [CHR 0x0A]) []
      (u\<lparr>console := c4, heaps := (heaps s)(h := ?d)\<rparr>)
      = Inr ((), ?u5\<lparr>console := c5\<rparr>)"
    by simp
  have s3s: "heaps s3 = heaps s" "free_low s3 = free_low s - {n}" "kernel_page_dir s3 = kernel_page_dir s"
    "mem s3 = mem s" "cr3 s3 = cr3 s"
    using free_low_take [of n "?s1"] by (simp_all add: s3_def) (simp_all add: take_frame_def)
  have mo: "u\<lparr>mem := mem (s4\<lparr>console := c3\<rparr>)\<rparr> = s4\<lparr>console := c3\<rparr>" "t\<lparr>mem := mem s4\<rparr> = s4"
    using u(2) t(2) by (simp_all add: dir_work_def)
  have hu: "heaps u = (heaps s)(h := (heaps s h)\<lparr>page_directory := ?dir\<rparr>)"
    using vm_frame_simps(3) [OF vm_frame_mem_only [OF mo(1)]] by (simp add: s4_def s3s)
  have kt: "kernel_page_dir t = kernel_page_dir s4" using vm_frame_simps(5) [OF vm_frame_mem_only [OF mo(2)]] .
  have run: "init_heap_domain h (bsize h) ?base s = premap_pages h PREMAP_PAGES (?u5\<lparr>console := c5\<rparr>)"
    using c1 n(1) nz c2 t(1) c3 u(1) c4 c5 bsize_nonzero [of h] kt
    by (simp add: init_heap_domain_def set_domain_def s4_def s3_def hu blank_domain_def Let_def del: kprint_run)
  have "vm_inv (insert (HDir h) A) V ?u5"
    using vu by (subst vm_inv_heaps) (simp_all add: hu blank_domain_def)
  moreover have "peek load32 (?u5\<lparr>console := c5\<rparr>) b = peek load32 s b" if "frame_of b \<in> V" for b
  proof -
    have "peek load32 (?u5\<lparr>console := c5\<rparr>) b = peek load32 u b" by (rule fun_cong [OF peek_cong]) simp_all
    also have "\<dots> = peek load32 (s4\<lparr>console := c3\<rparr>) b"
      by (rule dir_work_peek [OF u(2) _ that]) (use s4(1) in simp)
    also have "\<dots> = peek load32 s b" by (rule fun_cong [OF peek_cong]) (simp_all add: s4_def s3s)
    finally show ?thesis .
  qed
  ultimately have "heap_inv (insert (HDir h) A) V (fl(h := [])) (?u5\<lparr>console := c5\<rparr>)"
    by (intro heap_inv_blank [OF inv h]) simp_all
  moreover have "free_low ?u5 = free_low s - {n}"
  proof -
    have "free_low ?u5 = free_low u" by (simp add: free_low_def safe_frame_def heap_start_def
      kernel_page_tables_base_def kernel_page_table_def)
    also have "\<dots> = free_low s4"
      using mem_only_frame [OF mo(1)] mem_only(4) [of "mem u" "s4\<lparr>console := c3\<rparr>"] by simp
    finally show ?thesis using s4(4) s3s(2) by simp
  qed
  ultimately show ?thesis using run n(2)
    by (intro exI [of _ n] exI [of _ ?u5] exI [of _ c5]) (simp add: blank_domain_def)
qed


lemma init_heap_domain_run:
  assumes inv: "heap_inv A V fl s" and h: "HDir h \<notin> A" and af: "all_free A V fl" and fr: "769 \<le> card (free_low s)"
  shows "\<exists>s' V' fl'. init_heap_domain h (bsize h) (addr_of_frame (region_base h)) s = Inr ((), s')
    \<and> heap_inv (insert (HDir h) A) V' fl' s' \<and> all_free (insert (HDir h) A) V' fl'
    \<and> V' = V \<union> {region_base h..<region_base h + 256} \<and> card (free_low s) \<le> card (free_low s') + 769"
proof -
  have "free_low s \<noteq> {}" using fr by auto
  from init_heap_domain_start [OF inv h this] obtain n u v where
    s1: "n \<in> free_low s" "init_heap_domain h (bsize h) (addr_of_frame (region_base h)) s =
      premap_pages h PREMAP_PAGES (u\<lparr>console := v\<rparr>)"
      "heap_inv (insert (HDir h) A) V (fl(h := [])) (u\<lparr>console := v\<rparr>)" "free_low u = free_low s - {n}"
      "next_virt_addr (heaps u h) = addr_of_frame (region_base h)" by blast
  have af': "all_free (insert (HDir h) A) V (fl(h := []))"
    using af no_pages_yet(2) [OF heap_invD(1) [OF inv] h] by (auto simp: all_free_def)
  have c: "card (free_low u) = card (free_low s) - 1" using s1(1,4) by simp
  then have "3 * 256 \<le> card (free_low (u\<lparr>console := v\<rparr>))" using fr by simp
  from premap_pages_run [OF s1(3) _ af' _ this, of h] s1(2,5) obtain s' V' fl' where
    r: "init_heap_domain h (bsize h) (addr_of_frame (region_base h)) s = Inr ((), s')"
      "heap_inv (insert (HDir h) A) V' fl' s'" "all_free (insert (HDir h) A) V' fl'"
      "V' = V \<union> {region_base h..<region_base h + 256}" "card (free_low u) \<le> card (free_low s') + 768"
    by (auto simp: PREMAP_PAGES_def region_base_frame)
  then show ?thesis using c fr by (intro exI [of _ s'] exI [of _ V'] exI [of _ fl']) simp
qed

section \<open>The large domain and the whole initialisation\<close>

lemma heap_inv_large:
  assumes "heap_inv A V fl s" "LDir \<notin> A"
  shows "heap_inv A V fl (s\<lparr>large_dom := d\<rparr>)"
proof -
  let ?t = "s\<lparr>large_dom := d\<rparr>"
  have dA: "dir_of ?t e = dir_of s e" if "e \<in> A" for e
    using that assms(2) by (cases e) (auto simp: dir_of_def)
  have same: "pmm_wf ?t = pmm_wf s" "layout_ok ?t = layout_ok s" "used ?t = used s" "safe_frame ?t = safe_frame s"
    by (simp_all add: pmm_wf_def layout_ok_def used_def safe_frame_def heap_start_def
      kernel_page_tables_base_def kernel_page_table_def)
  note vm = heap_invD(1) [OF assms(1)]
  have "vm_inv A V ?t"
    using vm vm_ok_dirs [OF vm_invD(4) [OF vm] dA] dA [OF vm_invD(5) [OF vm]] by (simp add: vm_inv_def same)
  moreover have "peek load32 ?t = peek load32 s" by (rule peek_cong) simp_all
  ultimately show ?thesis using assms(1) by (simp add: heap_inv_def domain_ok_def)
qed

lemma heap_inv_console [simp]: "heap_inv A V fl (s\<lparr>console := v\<rparr>) = heap_inv A V fl s"
proof -
  have "peek load32 (s\<lparr>console := v\<rparr>) = peek load32 s" by (rule peek_cong) simp_all
  then show ?thesis by (simp add: heap_inv_def domain_ok_def)
qed

lemma heap_inv_take:
  assumes "heap_inv A V fl s" "n < 1048576"
  shows "heap_inv A V fl (take_frame n s)"
proof -
  have "peek load32 (take_frame n s) = peek load32 s" by (rule peek_cong) (simp_all add: take_frame_def)
  moreover have "heaps (take_frame n s) = heaps s" by (simp add: take_frame_def)
  ultimately show ?thesis using assms by (simp add: heap_inv_def domain_ok_def vm_inv_take)
qed

lemma init_large_domain_run:
  assumes inv: "heap_inv A V fl s" and L: "LDir \<notin> A" and ne: "free_low s \<noteq> {}"
  shows "\<exists>s'. init_large_domain s = Inr ((), s') \<and> heap_inv (insert LDir A) V fl s'
    \<and> l_next_virt_addr (large_dom s') = 0x80000000 \<and> l_next_free_virt (large_dom s') = 0
    \<and> card (free_low s) \<le> card (free_low s') + 1"
proof -
  note vm = heap_invD(1) [OF inv]
  obtain n where n: "get_next_free_kernel_frame s = Inr (addr_of_frame n, take_frame n s)" "n \<in> free_low s"
    by (rule kernel_frames.alloc_frame [OF vm_invD(1) [OF vm] ne])
  let ?dir = "addr_of_frame n + 0xC0000000"
  have n1: "n < 1048576" using free_lowD(5) [OF n(2)] .
  have nz: "addr_of_frame n \<noteq> 0" by (rule free_low_nonzero [OF vm_invD(1) [OF vm] n(2)])
  define s2 where "s2 = (take_frame n s)\<lparr>large_dom := (large_dom s)\<lparr>l_page_directory := ?dir\<rparr>\<rparr>"
  have i2: "heap_inv A V fl s2" unfolding s2_def by (intro heap_inv_large heap_inv_take inv n1 L)
  have s2: "dir_of s2 LDir = addr_of_frame n" "free_low s2 = free_low s - {n}" "mem s2 = mem s"
    "large_dom s2 = (large_dom s)\<lparr>l_page_directory := ?dir\<rparr>" "heaps s2 = heaps s"
    using free_low_take [of n s]
    by (simp_all add: s2_def dir_of_def free_low_def safe_frame_def heap_start_def
      kernel_page_tables_base_def kernel_page_table_def) (simp add: take_frame_def)
  have dA: "dir_of s2 d = dir_of (take_frame n s) d" if "d \<in> A" for d
    using that L by (cases d) (auto simp: dir_of_def s2_def)
  have "fresh_frame A V (take_frame n s) n" by (rule fresh_take [OF vm n(2)])
  then have f2: "fresh_frame A V s2 n"
    using dA dA [OF vm_invD(5) [OF vm]]
    by (simp add: fresh_frame_def s2_def used_def safe_frame_def heap_start_def kernel_page_tables_base_def kernel_page_table_def)
  from new_directory_run [OF heap_invD(1) [OF i2] f2] obtain t where
    t: "zero_entries ?dir 0 1024 s2 = Inr ((), t)" "dir_work A V n s2 t"
      "\<forall>v. \<exists>u. copy_entries (kernel_page_dir s2) ?dir 768 256 (t\<lparr>console := v\<rparr>) = Inr ((), u)
      \<and> dir_work A V n (s2\<lparr>console := v\<rparr>) u \<and> (\<forall>j<768. entry (mem u) (addr_of_frame n) j = 0)
      \<and> (\<forall>j. 768 \<le> j \<and> j < 1024 \<longrightarrow> entry (mem u) (addr_of_frame n) j = entry (mem u) (dir_of s2 KDir) j)"
    by blast
  have mt: "t\<lparr>mem := mem s2\<rparr> = s2" using t(2) by (simp add: dir_work_def)
  have ct: "console t = console s2" "kernel_page_dir t = kernel_page_dir s2"
    using vm_frame_simps(5,8) [OF vm_frame_mem_only [OF mt]] by auto
  have tt: "t\<lparr>console := console s2\<rparr> = t" unfolding ct(1) [symmetric] by simp
  from t(3) [rule_format, of "console s2"] obtain u where
    u: "copy_entries (kernel_page_dir t) ?dir 768 256 t = Inr ((), u)"
      "dir_work A V n s2 u" "\<forall>j<768. entry (mem u) (addr_of_frame n) j = 0"
      "\<forall>j. 768 \<le> j \<and> j < 1024 \<longrightarrow> entry (mem u) (addr_of_frame n) j = entry (mem u) (dir_of s2 KDir) j"
    by (auto simp: ct tt)
  have vu: "vm_inv (insert LDir A) V u" by (rule vm_inv_new_dir [OF u(2) L s2(1) u(3,4)])
  have mu: "u\<lparr>mem := mem s2\<rparr> = s2" using u(2) by (simp add: dir_work_def)
  note fu = vm_frame_simps(3,4) [OF vm_frame_mem_only [OF mu]]
  let ?v = "u\<lparr>large_dom := (large_dom u)\<lparr>l_next_virt_addr := 0x80000000, l_next_free_virt := 0\<rparr>\<rparr>"
  have run: "init_large_domain s = Inr ((), ?v)"
    using n(1) nz t(1) u(1) by (simp add: init_large_domain_def set_large_def s2_def Let_def LARGE_VIRT_BASE_def take_frame_def)
  have "dir_of ?v = dir_of u" by (auto simp: dir_of_def fun_eq_iff split: dir_id.split)
  then have vv: "vm_inv (insert LDir A) V ?v"
    using vu by (simp add: vm_inv_def pmm_wf_def layout_ok_def used_def safe_frame_def heap_start_def
      kernel_page_tables_base_def kernel_page_table_def)
  have pk: "peek load32 ?v b = peek load32 s2 b" if "frame_of b \<in> V" for b
  proof -
    have "peek load32 ?v b = peek load32 u b" by (rule fun_cong [OF peek_cong]) simp_all
    then show ?thesis using dir_work_peek [OF u(2) heap_invD(1) [OF i2] that] by simp
  qed
  have "domain_ok V ?v h (fl h)" if h: "HDir h \<in> A" for h
  proof (rule domain_ok_other [OF heap_invD(2) [OF i2 h]])
    show "heaps ?v h = heaps s2 h" using fu by simp
    show "peek load32 ?v b = peek load32 s2 b" if "b \<in> set (fl h)" for b
      using domain_okD(8) [OF heap_invD(2) [OF i2 h]] that pk by (auto simp: blocks_def)
  qed auto
  then have inv': "heap_inv (insert LDir A) V fl ?v" using vv by (auto simp: heap_inv_def)
  have "free_low ?v = free_low u" by (simp add: free_low_def safe_frame_def heap_start_def
      kernel_page_tables_base_def kernel_page_table_def)
  also have "\<dots> = free_low s2" using mem_only_frame [OF mu] mem_only(4) [of "mem u" s2] by simp
  finally have "card (free_low s) \<le> card (free_low ?v) + 1" using s2(2) n(2) by simp
  then show ?thesis using run inv' by (intro exI [of _ ?v]) simp
qed

definition premapped :: "nat set" where
  "premapped = {p. \<exists>h. region_base h \<le> p \<and> p < region_base h + 256}"

lemma heap_class_args:
  "bsize Heap_64 = 64" "bsize Heap_128 = 128" "bsize Heap_256 = 256" "bsize Heap_512 = 512"
  "bsize Heap_1k = 1024" "bsize Heap_2k = 2048" "bsize Heap_4k = 4096"
  "addr_of_frame (region_base Heap_64) = 0x10000000" "addr_of_frame (region_base Heap_128) = 0x20000000"
  "addr_of_frame (region_base Heap_256) = 0x30000000" "addr_of_frame (region_base Heap_512) = 0x40000000"
  "addr_of_frame (region_base Heap_1k) = 0x50000000" "addr_of_frame (region_base Heap_2k) = 0x60000000"
  "addr_of_frame (region_base Heap_4k) = 0x70000000"
  by (simp_all add: bsize_def region_base_def addr_of_frame_def)


text \<open>The initialisation of a sequence of classes, by induction on it.\<close>

fun init_classes :: "heap_id list \<Rightarrow> unit kop" where
  "init_classes [] = ret ()"
| "init_classes (h # hs) = bnd (init_heap_domain h (bsize h) (addr_of_frame (region_base h))) (\<lambda>_. init_classes hs)"

lemma init_classes_run:
  assumes "heap_inv A V fl s" "all_free A V fl" "distinct hs" "\<forall>h\<in>set hs. HDir h \<notin> A"
    "769 * length hs \<le> card (free_low s)"
  shows "\<exists>s' fl'. init_classes hs s = Inr ((), s')
    \<and> heap_inv (HDir ` set hs \<union> A) (V \<union> {p. \<exists>h\<in>set hs. region_base h \<le> p \<and> p < region_base h + 256}) fl' s'
    \<and> all_free (HDir ` set hs \<union> A) (V \<union> {p. \<exists>h\<in>set hs. region_base h \<le> p \<and> p < region_base h + 256}) fl'
    \<and> card (free_low s) \<le> card (free_low s') + 769 * length hs"
  using assms
proof (induction hs arbitrary: A V fl s)
  case Nil
  then show ?case by auto
next
  case (Cons h hs)
  have h: "HDir h \<notin> A" "769 \<le> card (free_low s)" using Cons.prems by auto
  from init_heap_domain_run [OF Cons.prems(1) h(1) Cons.prems(2) h(2)] obtain t W fl' where
    t: "init_heap_domain h (bsize h) (addr_of_frame (region_base h)) s = Inr ((), t)"
      "heap_inv (insert (HDir h) A) W fl' t" "all_free (insert (HDir h) A) W fl'"
      "W = V \<union> {region_base h..<region_base h + 256}" "card (free_low s) \<le> card (free_low t) + 769" by blast
  have hs: "distinct hs" "\<forall>g\<in>set hs. HDir g \<notin> insert (HDir h) A" "769 * length hs \<le> card (free_low t)"
    using Cons.prems t(5) by auto
  from Cons.IH [OF t(2,3) hs] obtain s' fl'' where
    r: "init_classes hs t = Inr ((), s')"
      "heap_inv (HDir ` set hs \<union> insert (HDir h) A) (W \<union> {p. \<exists>h\<in>set hs. region_base h \<le> p \<and> p < region_base h + 256}) fl'' s'"
      "all_free (HDir ` set hs \<union> insert (HDir h) A) (W \<union> {p. \<exists>h\<in>set hs. region_base h \<le> p \<and> p < region_base h + 256}) fl''"
      "card (free_low t) \<le> card (free_low s') + 769 * length hs" by blast
  have A: "HDir ` set hs \<union> insert (HDir h) A = HDir ` set (h # hs) \<union> A" by auto
  have V: "W \<union> {p. \<exists>h\<in>set hs. region_base h \<le> p \<and> p < region_base h + 256}
      = V \<union> {p. \<exists>h\<in>set (h # hs). region_base h \<le> p \<and> p < region_base h + 256}"
    unfolding t(4) by auto
  show ?case using r(1) r(2,3) [unfolded A V] r(4) t(1,5) by (intro exI [of _ s'] exI [of _ fl'']) simp
qed

definition heap_ids :: "heap_id list" where
  "heap_ids = [Heap_64, Heap_128, Heap_256, Heap_512, Heap_1k, Heap_2k, Heap_4k]"

lemma set_heap_ids [simp]: "set heap_ids = UNIV"
proof -
  have "h \<in> set heap_ids" for h by (cases h) (simp_all add: heap_ids_def)
  then show ?thesis by blast
qed

lemma init_all_heaps_classes:
  "init_all_heaps =
     bnd (kprint_color COLOR_WHITE (''[HEAP] Initializing heap domains........'' @ [CHR 0x0A]) []) (\<lambda>_.
     bnd (init_classes heap_ids) (\<lambda>_.
     bnd init_large_domain (\<lambda>_.
     kprint_color COLOR_GREEN (''[HEAP] All heap domains ready'' @ [CHR 0x0A]) [])))"
  by (simp add: init_all_heaps_def heap_ids_def heap_class_args bnd_assoc) (simp add: bnd_def ret_def)

lemma init_all_heaps_run:
  assumes vm: "vm_inv {KDir} {} s" and fr: "5384 \<le> card (free_low s)"
  shows "\<exists>s' fl. init_all_heaps s = Inr ((), s') \<and> heap_inv UNIV premapped fl s' \<and> all_free UNIV premapped fl
    \<and> l_next_virt_addr (large_dom s') = 0x80000000 \<and> l_next_free_virt (large_dom s') = 0
    \<and> card (free_low s) \<le> card (free_low s') + 5384"
proof -
  obtain v where v: "kprint_color COLOR_WHITE (''[HEAP] Initializing heap domains........'' @ [CHR 0x0A]) [] s =
      Inr ((), s\<lparr>console := v\<rparr>)" by simp
  define s0 where "s0 = s\<lparr>console := v\<rparr>"
  have len: "length heap_ids = 7" by (simp add: heap_ids_def)
  have i0: "heap_inv {KDir} {} (\<lambda>_. []) s0" "all_free {KDir} {} (\<lambda>_. [])" "distinct heap_ids"
    "\<forall>h\<in>set heap_ids. HDir h \<notin> {KDir}" "769 * length heap_ids \<le> card (free_low s0)"
    using vm fr by (simp_all add: heap_inv_def all_free_def heap_ids_def s0_def)
  have c0: "card (free_low s0) = card (free_low s)" by (simp add: s0_def)
  from init_classes_run [OF i0, unfolded set_heap_ids len Un_empty_left bex_UNIV c0, folded premapped_def] obtain t fl where
    t: "init_classes heap_ids s0 = Inr ((), t)"
      "heap_inv (HDir ` UNIV \<union> {KDir}) premapped fl t" "all_free (HDir ` UNIV \<union> {KDir}) premapped fl"
      "card (free_low s) \<le> card (free_low t) + 769 * 7" by blast
  have L: "LDir \<notin> HDir ` UNIV \<union> {KDir}" by auto
  have "1 \<le> card (free_low t)" using t(4) fr by simp
  then have "free_low t \<noteq> {}" by auto
  from init_large_domain_run [OF t(2) L this] obtain u where
    u: "init_large_domain t = Inr ((), u)" "heap_inv (insert LDir (HDir ` UNIV \<union> {KDir})) premapped fl u"
      "l_next_virt_addr (large_dom u) = 0x80000000" "l_next_free_virt (large_dom u) = 0"
      "card (free_low t) \<le> card (free_low u) + 1" by blast
  have "d \<in> insert LDir (HDir ` UNIV \<union> {KDir})" for d by (cases d) auto
  then have U: "insert LDir (HDir ` UNIV \<union> {KDir}) = UNIV" by blast
  have af: "all_free UNIV premapped fl" using t(3) by (simp add: all_free_def)
  show ?thesis
    unfolding init_all_heaps_classes using v t(1,4) u [unfolded U] af
    by (simp add: s0_def [symmetric] del: kprint_color_run) auto
qed

end
