(* ===== verification/Boot.thy ===== *)
theory Boot
  imports Heap_Init
begin

unbundle bit_operations_syntax

text \<open>
  From the directory of \<^verbatim>\<open>boot.s\<close> to a working heap: \<^verbatim>\<open>init_paging\<close> builds the direct map through the 4 MB
  page of the boot directory, \<^verbatim>\<open>init_pmm\<close> marks the kernel image, \<^verbatim>\<open>init_all_heaps\<close> makes the domains, in
  the order of \<^verbatim>\<open>kernel_main\<close>.
\<close>

section \<open>The boot directory\<close>

text \<open>
  What \<^verbatim>\<open>boot.s\<close> leaves: a directory outside the kernel's page tables whose entry 768 is the 4 MB page
  \<^verbatim>\<open>0x83\<close>, so that the first 4 MB of physical memory are at 3 GB.
\<close>

definition kframe :: "kstate \<Rightarrow> nat" where
  "kframe s = frame_of (kernel_page_dir s - 0xC0000000)"

definition boot_ok :: "kstate \<Rightarrow> bool" where
  "boot_ok s \<longleftrightarrow> layout_ok s \<and> page_aligned (cr3 s) \<and> (frame_of (cr3 s) < kframe s \<or> kframe s + 258 \<le> frame_of (cr3 s))
     \<and> entry (mem s) (cr3 s) 768 = 0x83"

lemma kernel_layout:
  assumes "layout_ok s"
  shows "kernel_page_dir s = addr_of_frame (kframe s) + 0xC0000000" "kernel_page_table s = addr_of_frame (kframe s + 1) + 0xC0000000"
    "kernel_page_tables_base s + of_nat i * 4096 = addr_of_frame (kframe s + 2 + i) + 0xC0000000"
    "256 \<le> kframe s" "kframe s + 258 \<le> 1024" "safe_frame s = kframe s + 258"
proof -
  have a: "page_aligned (kernel_page_dir s)" "0xC0100000 \<le> kernel_page_dir s" "kernel_page_dir s \<le> 0xC0400000 - 258 * 4096"
    using assms by (auto simp: layout_ok_def)
  from a(1) obtain k where k: "unat (kernel_page_dir s) = 4096 * k" by (auto simp: page_aligned_iff)
  have b: "786688 \<le> k" "k \<le> 787198" using a(2,3) k by (auto simp: word_le_nat_alt)
  have u: "unat (kernel_page_dir s - 0xC0000000) = (k - 786432) * 4096"
    using k b by (simp add: unat_sub word_le_nat_alt)
  then have kf: "kframe s = k - 786432" by (simp add: kframe_def frame_of_def)
  then show "256 \<le> kframe s" "kframe s + 258 \<le> 1024" using b by simp_all
  have e: "kernel_page_dir s - 0xC0000000 = addr_of_frame (kframe s)"
    by (rule u32_eqI) (use u kf b in \<open>simp add: unat_addr_of_frame\<close>)
  show d: "kernel_page_dir s = addr_of_frame (kframe s) + 0xC0000000"
    by (simp add: e [symmetric])
  have add: "addr_of_frame n + of_nat i * 4096 = addr_of_frame (n + i)" for n i
    by (simp add: addr_of_frame_def algebra_simps)
  show "kernel_page_table s = addr_of_frame (kframe s + 1) + 0xC0000000"
    using add [of "kframe s" 1] by (simp add: kernel_page_table_def d add.commute)
  have "kernel_page_tables_base s = addr_of_frame (kframe s + 2) + 0xC0000000"
    using add [of "kframe s" 2] by (simp add: kernel_page_tables_base_def kernel_page_table_def d add.commute)
  then show "kernel_page_tables_base s + of_nat i * 4096 = addr_of_frame (kframe s + 2 + i) + 0xC0000000"
    using add [of "kframe s + 2" i] by (simp add: algebra_simps)
  show "safe_frame s = kframe s + 258"
    using safe_frame_unat(2) [OF assms] k b kf by (simp add: frame_of_def)
qed

lemma unat_and_3FFFFF: "unat (a AND 0x3FFFFF :: u32) = unat a mod 0x400000"
proof -
  have "unat (a AND 0x3FFFFF) = unat a AND mask 22"
    by (simp add: unsigned_and_eq mask_eq_exp_minus_1)
  then show ?thesis by (simp add: take_bit_eq_mod flip: take_bit_eq_mask)
qed

text \<open>Stores to the kernel's tables through the boot mapping.\<close>

lemma boot_translate:
  assumes "page_aligned pd" "entry m pd 768 = 0x83" "f < 1024" "i < 1024"
  shows "translate m pd (slot (addr_of_frame f) i + 0xC0000000) = Some (slot (addr_of_frame f) i)"
proof -
  let ?a = "slot (addr_of_frame f) i"
  have ua: "unat ?a = f * 4096 + 4 * i"
    using assms(3,4) by (simp add: slot_unat page_aligned_addr_of_frame unat_addr_of_frame)
  have lt: "unat ?a < 0x400000" using ua assms(3,4) by simp
  have uv: "unat (?a + 0xC0000000) = unat ?a + 0xC0000000" by (rule high_half(1)) (use lt in simp)
  have fv: "frame_of (?a + 0xC0000000) = 0xC0000 + f"
  proof -
    have "(f * 4096 + 4 * i + 0xC0000000) div 4096 = f + 0xC0000" using assms(4) by simp
    then show ?thesis unfolding frame_of_def uv ua by simp
  qed
  have idx: "drop_bit 22 (?a + 0xC0000000) = (768 :: u32)"
  proof -
    have "(0xC0000 + f) div 1024 = 768" using assms(3) by simp
    then show ?thesis unfolding dir_index_nat fv by simp
  qed
  have mask: "(?a + 0xC0000000) AND 0x3FFFFF = ?a"
  proof (rule u32_eqI)
    have "unat ((?a + 0xC0000000) AND 0x3FFFFF) = unat (?a + 0xC0000000) mod 0x400000"
      using unat_and_3FFFFF by simp
    moreover have "(unat ?a + 768 * 0x400000) mod 0x400000 = unat ?a"
      using lt by (simp only: mod_mult_self1 mod_less)
    ultimately show "unat ((?a + 0xC0000000) AND 0x3FFFFF) = unat ?a" using uv by simp
  qed
  have "m (page_of pd + 4 * 768) = 0x83"
    using assms(1,2) by (simp add: entry_def slot_def page_of_page_aligned)
  then show ?thesis by (simp add: translate_def Let_def idx mask)
qed


section \<open>Writing the kernel's tables\<close>

text \<open>During \<^const>\<open>init_paging\<close> only memory changes, and the boot directory stays as it is.\<close>

definition booting :: "kstate \<Rightarrow> kstate \<Rightarrow> bool" where
  "booting s0 s \<longleftrightarrow> boot_ok s \<and> s\<lparr>mem := mem s0\<rparr> = s0"

lemma booting_fields:
  assumes "booting s0 s"
  shows "kernel_page_dir s = kernel_page_dir s0" "kernel_page_table s = kernel_page_table s0"
    "kernel_page_tables_base s = kernel_page_tables_base s0" "cr3 s = cr3 s0" "kframe s = kframe s0" "layout_ok s0"
proof -
  have mo: "s\<lparr>mem := mem s0\<rparr> = s0" and lo: "layout_ok s" using assms by (auto simp: booting_def boot_ok_def)
  note f = vm_frame_simps [OF vm_frame_mem_only [OF mo]]
  show "kernel_page_dir s = kernel_page_dir s0" "cr3 s = cr3 s0" "layout_ok s0" using f lo by auto
  then show "kernel_page_table s = kernel_page_table s0"
    "kernel_page_tables_base s = kernel_page_tables_base s0" "kframe s = kframe s0"
    by (simp_all add: kernel_page_table_def kernel_page_tables_base_def kframe_def)
qed

lemma boot_store:
  assumes b: "booting s0 s" and f: "kframe s0 \<le> f" "f < kframe s0 + 258" and i: "i < 1024"
  shows "store32 (addr_of_frame f + 0xC0000000 + 4 * of_nat i) w s = Inr ((), s\<lparr>mem := (mem s)(slot (addr_of_frame f) i := w)\<rparr>)"
    and "booting s0 (s\<lparr>mem := (mem s)(slot (addr_of_frame f) i := w)\<rparr>)"
proof -
  have bo: "boot_ok s" and mo: "s\<lparr>mem := mem s0\<rparr> = s0" using b by (auto simp: booting_def)
  note k = kernel_layout(4,5) [OF booting_fields(6) [OF b]]
  have f1: "f < 1024" using f k by simp
  let ?a = "slot (addr_of_frame f) i" and ?t = "s\<lparr>mem := (mem s)(slot (addr_of_frame f) i := w)\<rparr>"
  have tr: "translate (mem s) (cr3 s) (?a + 0xC0000000) = Some ?a"
    by (rule boot_translate [OF _ _ f1 i]) (use bo in \<open>auto simp: boot_ok_def\<close>)
  have al: "word_aligned (?a + 0xC0000000)"
  proof -
    have "unat ?a = f * 4096 + 4 * i" using f1 i by (simp add: slot_unat page_aligned_addr_of_frame unat_addr_of_frame)
    then have "unat ?a < 0x40000000" using f1 i by simp
    then show ?thesis using high_half(4) slot_aligned [OF page_aligned_addr_of_frame i] by blast
  qed
  show "store32 (addr_of_frame f + 0xC0000000 + 4 * of_nat i) w s = Inr ((), ?t)"
    unfolding high_slot store32_def using tr al by simp
  have "frame_of ?a = f" using f1 i by (simp add: slot_frame page_aligned_addr_of_frame frame_of_addr_of_frame)
  then have "entry (mem ?t) (cr3 s) 768 = entry (mem s) (cr3 s) 768"
    using bo f booting_fields(4,5) [OF b] by (intro trans [OF arg_cong2 [where f = "\<lambda>m p. entry m p 768"] entry_upd])
      (auto simp: boot_ok_def)
  then show "booting s0 ?t" using bo mo
    by (simp add: booting_def boot_ok_def) (simp add: layout_ok_def kframe_def)
qed


lemma setup_entries_run:
  assumes "booting s0 s" "i + k \<le> 1024"
  shows "\<exists>t. setup_entries_loop i k s = Inr ((), t) \<and> booting s0 t
    \<and> (\<forall>j. i \<le> j \<and> j < i + k \<longrightarrow> entry (mem t) (addr_of_frame (kframe s0)) j = 0)
    \<and> (\<forall>j<i. entry (mem t) (addr_of_frame (kframe s0)) j = entry (mem s) (addr_of_frame (kframe s0)) j)"
  using assms
proof (induction k arbitrary: i s)
  case 0
  then show ?case by auto
next
  case (Suc k)
  let ?K = "addr_of_frame (kframe s0)" and ?T = "addr_of_frame (kframe s0 + 1)"
  have i: "i < 1024" using Suc.prems by simp
  note L = kernel_layout [OF booting_fields(6) [OF Suc.prems(1)]]
  let ?s1 = "s\<lparr>mem := (mem s)(slot ?K i := 0)\<rparr>"
  note w1 = boot_store [OF Suc.prems(1) _ _ i, of "kframe s0" 0, simplified]
  let ?s2 = "?s1\<lparr>mem := (mem ?s1)(slot ?T i := 0)\<rparr>"
  note w2 = boot_store [OF w1(2) _ _ i, of "kframe s0 + 1" 0, simplified]
  have w2': "booting s0 ?s2" using w2(2) by simp
  have st: "setup_entries_loop i (Suc k) s = setup_entries_loop (Suc i) k ?s2"
    using w1(1) w2(1) booting_fields(1,2) [OF Suc.prems(1)] booting_fields(1,2) [OF w1(2)] L(1,2) by simp
  have "Suc i + k \<le> 1024" using Suc.prems(2) by simp
  from Suc.IH [OF w2' this] obtain t where
    t: "setup_entries_loop (Suc i) k ?s2 = Inr ((), t)" "booting s0 t"
      "\<And>j. Suc i \<le> j \<Longrightarrow> j < Suc i + k \<Longrightarrow> entry (mem t) ?K j = 0"
      "\<And>j. j < Suc i \<Longrightarrow> entry (mem t) ?K j = entry (mem ?s2) ?K j" by blast
  have ne: "frame_of (slot ?T i) \<noteq> frame_of ?K"
    using i L(5) by (simp add: slot_frame page_aligned_addr_of_frame frame_of_addr_of_frame)
  have e2: "entry (mem ?s2) ?K j = (if j = i then 0 else entry (mem s) ?K j)" if "j < 1024" for j
    using entry_upd [OF page_aligned_addr_of_frame that ne, of "mem ?s1" 0] that i
    by (simp add: entry_set_pde page_aligned_addr_of_frame)
  have "entry (mem t) ?K j = 0" if "i \<le> j" "j < i + Suc k" for j
    using that t(3) [of j] t(4) [of j] e2 [OF i] by (cases "j = i") auto
  moreover have "entry (mem t) ?K j = entry (mem s) ?K j" if "j < i" for j
    using that t(4) [of j] e2 [of j] i by simp
  ultimately show ?case unfolding st using t(1,2) by blast
qed

text \<open>The kernel's tables once \<open>d\<close> directory entries and the pages below \<open>n\<close> are entered.\<close>

definition entered :: "kstate \<Rightarrow> nat \<Rightarrow> nat \<Rightarrow> (u32 \<Rightarrow> u32) \<Rightarrow> bool" where
  "entered s0 d n m \<longleftrightarrow> (\<forall>j<768. entry m (addr_of_frame (kframe s0)) j = 0)
     \<and> (\<forall>i<d. entry m (addr_of_frame (kframe s0)) (768 + i) = addr_of_frame (kframe s0 + 2 + i) OR PAGE_KERNEL)
     \<and> (\<forall>p<n. entry m (addr_of_frame (kframe s0 + 2 + p div 1024)) (p mod 1024) = addr_of_frame p OR PAGE_KERNEL OR PAGE_GLOBAL)"

lemma entry_other_frame:
  assumes "f < 1024" "g < 1024" "f \<noteq> g" "i < 1024" "j < 1024"
  shows "entry (m(slot (addr_of_frame f) i := w)) (addr_of_frame g) j = entry m (addr_of_frame g) j"
  using assms
  by (intro entry_upd) (simp_all add: page_aligned_addr_of_frame slot_frame frame_of_addr_of_frame)

lemma entry_same_frame:
  "i < 1024 \<Longrightarrow> j < 1024 \<Longrightarrow> entry (m(slot (addr_of_frame f) i := w)) (addr_of_frame f) j =
    (if j = i then w else entry m (addr_of_frame f) j)"
  by (rule entry_set_pde) (rule page_aligned_addr_of_frame)

lemma entered_pde:
  assumes "entered s0 d n m" "d < 256" "n \<le> 0x40000" "kframe s0 + 258 \<le> 1024"
  shows "entered s0 (Suc d) n (m(slot (addr_of_frame (kframe s0)) (768 + d) := addr_of_frame (kframe s0 + 2 + d) OR PAGE_KERNEL))"
  using assms unfolding entered_def
  by (auto simp: entry_same_frame less_Suc_eq entry_other_frame)

lemma entered_pte:
  assumes "entered s0 d n m" "d \<le> 256" "n < 0x40000" "kframe s0 + 258 \<le> 1024"
  shows "entered s0 d (Suc n) (m(slot (addr_of_frame (kframe s0 + 2 + n div 1024)) (n mod 1024) := addr_of_frame n OR PAGE_KERNEL OR PAGE_GLOBAL))"
    (is "entered _ _ _ (m(?a := ?w))")
proof -
  let ?m = "m(?a := ?w)" and ?K = "addr_of_frame (kframe s0)"
  have nd: "n div 1024 < 256" using assms(3) by simp
  have K: "entry ?m ?K j = entry m ?K j" if "j < 1024" for j
    using nd assms(4) that by (intro entry_other_frame) auto
  have P: "entry ?m (addr_of_frame (kframe s0 + 2 + p div 1024)) (p mod 1024) =
      (if p = n then ?w else entry m (addr_of_frame (kframe s0 + 2 + p div 1024)) (p mod 1024))" if "p < 0x40000" for p
  proof (cases "p div 1024 = n div 1024")
    case True
    have "p mod 1024 = n mod 1024 \<longleftrightarrow> p = n" using True by (metis div_mult_mod_eq)
    then show ?thesis using True by (simp add: entry_same_frame)
  next
    case False
    then have "p \<noteq> n" by auto
    have "p div 1024 < 256" using that by simp
    then show ?thesis using False nd assms(4) \<open>p \<noteq> n\<close> by (simp add: entry_other_frame)
  qed
  have 1: "entry ?m ?K j = 0" if "j < 768" for j using assms(1) K [of j] that by (simp add: entered_def)
  have 2: "entry ?m ?K (768 + i) = addr_of_frame (kframe s0 + 2 + i) OR PAGE_KERNEL" if "i < d" for i
    using assms(1,2) K [of "768 + i"] that by (simp add: entered_def)
  have 3: "entry ?m (addr_of_frame (kframe s0 + 2 + p div 1024)) (p mod 1024) = addr_of_frame p OR PAGE_KERNEL OR PAGE_GLOBAL"
    if "p < Suc n" for p
    using assms(1,3) P [of p] that by (cases "p = n") (simp_all add: entered_def)
  show ?thesis unfolding entered_def using 1 2 3 by blast
qed

lemma new_table_iff: "0 < n \<Longrightarrow> n div 1024 = (n - 1) div 1024 \<longleftrightarrow> n mod 1024 \<noteq> (0::nat)"
  by (metis One_nat_def Suc_pred div_Suc diff_Suc_1 n_not_Suc_n mod_Suc)


lemma table_count:
  "n mod 1024 = 0 \<Longrightarrow> (n + 1023) div 1024 = n div (1024::nat)"
  "n mod 1024 \<noteq> 0 \<Longrightarrow> (n + 1023) div 1024 = Suc (n div (1024::nat))"
proof -
  have n: "n = 1024 * (n div 1024) + n mod 1024" by simp
  show "(n + 1023) div 1024 = n div 1024" if "n mod 1024 = 0"
    using that by (subst n) simp
  show "(n + 1023) div 1024 = Suc (n div 1024)" if "n mod 1024 \<noteq> 0"
  proof -
    from not0_implies_Suc [OF that] obtain r where r: "n mod 1024 = Suc r" ..
    then have "r < 1024" using mod_less_divisor [of 1024 n] by simp
    have "n + 1023 = 1024 * Suc (n div 1024) + r" using n r by simp
    then have "(n + 1023) div 1024 = (1024 * Suc (n div 1024) + r) div 1024" by (rule arg_cong)
    then show ?thesis using \<open>r < 1024\<close> by simp
  qed
qed

lemma map_kernel_loop_run:
  assumes "booting s0 s" "n + k = 0x40000" "entered s0 ((n + 1023) div 1024) n (mem s)"
    "n mod 1024 \<noteq> 0 \<Longrightarrow> cur = addr_of_frame (kframe s0 + 2 + n div 1024) + 0xC0000000"
    "ldi = (if n = 0 then 0xFFFFFFFF else of_nat (768 + (n - 1) div 1024))"
  shows "\<exists>t. map_kernel_loop k (addr_of_frame n) cur ldi s = Inr ((), t) \<and> booting s0 t \<and> entered s0 256 0x40000 (mem t)"
  using assms
proof (induction k arbitrary: n cur ldi s)
  case 0
  then have "n = 0x40000" by simp
  then show ?case using 0 by simp
next
  case (Suc k)
  let ?K = "addr_of_frame (kframe s0)" and ?T = "addr_of_frame (kframe s0 + 2 + n div 1024)"
  note L = kernel_layout [OF booting_fields(6) [OF Suc.prems(1)]]
  have n: "n < 0x40000" "n div 1024 < 256" using Suc.prems(2) by auto
  have lt: "addr_of_frame n < 0x40000000" using n(1) by (simp add: word_less_nat_alt unat_addr_of_frame)
  have fv: "frame_of (addr_of_frame n + 0xC0000000) = 0xC0000 + n"
    using n(1) high_half(2) [of "addr_of_frame n"] by (simp add: unat_addr_of_frame frame_of_addr_of_frame)
  have di: "drop_bit 22 (addr_of_frame n + 0xC0000000) = (of_nat (768 + n div 1024) :: u32)"
    "drop_bit 12 (addr_of_frame n + 0xC0000000) AND 0x3FF = (of_nat (n mod 1024) :: u32)"
  proof -
    have "(768 * 1024 + n) div 1024 = 768 + n div 1024" "(768 * 1024 + n) mod 1024 = n mod 1024"
      by (simp_all only: div_mult_self3 mod_mult_self3)
    then show "drop_bit 22 (addr_of_frame n + 0xC0000000) = (of_nat (768 + n div 1024) :: u32)"
      "drop_bit 12 (addr_of_frame n + 0xC0000000) AND 0x3FF = (of_nat (n mod 1024) :: u32)"
      unfolding dir_index_nat table_index_nat fv by simp_all
  qed
  have new: "of_nat (768 + n div 1024) \<noteq> ldi \<longleftrightarrow> n mod 1024 = 0"
  proof (cases "n = 0")
    case True
    then show ?thesis using Suc.prems(5) by simp
  next
    case False
    have "(of_nat (768 + n div 1024) :: u32) = of_nat (768 + (n - 1) div 1024) \<longleftrightarrow> n div 1024 = (n - 1) div 1024"
    proof -
      have "(n - 1) div 1024 < 256" using n(1) by simp
      then have "unat (of_nat (768 + n div 1024) :: u32) = 768 + n div 1024"
        "unat (of_nat (768 + (n - 1) div 1024) :: u32) = 768 + (n - 1) div 1024"
        unfolding unat_of_nat using n(2) by simp_all
      then show ?thesis by (metis add_left_cancel)
    qed
    then show ?thesis using Suc.prems(5) False new_table_iff [of n] by auto
  qed
  obtain s1 cur1 where s1: "booting s0 s1" "entered s0 (Suc (n div 1024)) n (mem s1)"
    "cur1 = ?T + 0xC0000000"
    "(if of_nat (768 + n div 1024) \<noteq> ldi then
               bnd (gets kernel_page_tables_base) (\<lambda>tables.
               bnd (gets kernel_page_dir) (\<lambda>dir.
               let current_page_table = tables + (of_nat (768 + n div 1024) - 768) * 4096;
                   phys = current_page_table - 0xC0000000
               in bnd (store32 (dir + 4 * of_nat (768 + n div 1024)) (phys OR PAGE_KERNEL)) (\<lambda>_.
                  ret current_page_table)))
             else ret cur) s = Inr (cur1, s1)"
  proof (cases "n mod 1024 = 0")
    case True
    let ?s1 = "s\<lparr>mem := (mem s)(slot ?K (768 + n div 1024) := ?T OR PAGE_KERNEL)\<rparr>"
    note w = boot_store [OF Suc.prems(1), of "kframe s0" "768 + n div 1024" "?T OR PAGE_KERNEL"]
    have st: "store32 (kernel_page_dir s + 4 * of_nat (768 + n div 1024)) (?T OR PAGE_KERNEL) s = Inr ((), ?s1)"
      unfolding booting_fields(1) [OF Suc.prems(1)] L(1) by (rule w(1)) (use n in simp_all)
    have bt: "kernel_page_tables_base s + (of_nat (768 + n div 1024) - 768) * 4096 = ?T + 0xC0000000"
      unfolding booting_fields(3) [OF Suc.prems(1)] L(3) [symmetric] by simp
    have "(n + 1023) div 1024 = n div 1024" by (rule table_count(1) [OF True])
    then have "entered s0 (n div 1024) n (mem s)" using Suc.prems(3) by simp
    then have "entered s0 (Suc (n div 1024)) n (mem ?s1)"
      using entered_pde [OF _ n(2) _ L(5)] n(1) by simp
    moreover have "booting s0 ?s1" by (rule w(2)) (use n in simp_all)
    moreover have pt: "?T + 0xC0000000 - 0xC0000000 = ?T" by simp
    ultimately show ?thesis
      by (intro that [of ?s1 "?T + 0xC0000000"])
        (use True new st bt in \<open>simp_all del: of_nat_add add: Let_def\<close>)
  next
    case False
    have "(n + 1023) div 1024 = Suc (n div 1024)" by (rule table_count(2) [OF False])
    then show ?thesis using Suc.prems(1,3) Suc.prems(4) [OF False] False new that [of s cur] by simp
  qed
  note w = boot_store [OF s1(1), of "kframe s0 + 2 + n div 1024" "n mod 1024" "addr_of_frame n OR PAGE_KERNEL OR PAGE_GLOBAL"]
  let ?s2 = "s1\<lparr>mem := (mem s1)(slot ?T (n mod 1024) := addr_of_frame n OR PAGE_KERNEL OR PAGE_GLOBAL)\<rparr>"
  have w1: "store32 (cur1 + 4 * of_nat (n mod 1024)) (addr_of_frame n OR PAGE_KERNEL OR PAGE_GLOBAL) s1 = Inr ((), ?s2)"
    unfolding s1(3) by (rule w(1)) (use n in simp_all)
  have w2: "booting s0 ?s2" by (rule w(2)) (use n in simp_all)
  have e2: "entered s0 ((Suc n + 1023) div 1024) (Suc n) (mem ?s2)"
    using entered_pte [OF s1(2) _ n(1) L(5)] n div_add_self1 [of 1024 n] by simp
  have step: "map_kernel_loop (Suc k) (addr_of_frame n) cur ldi s =
      map_kernel_loop k (addr_of_frame (Suc n)) cur1 (of_nat (768 + n div 1024)) ?s2"
    using lt s1(4) w1 unfolding map_kernel_loop.simps Let_def di
    by (simp add: addr_of_frame_Suc)
  have "Suc n div 1024 = n div 1024" if "Suc n mod 1024 \<noteq> 0" using that new_table_iff [of "Suc n"] by simp
  then have cur: "cur1 = addr_of_frame (kframe s0 + 2 + Suc n div 1024) + 0xC0000000" if "Suc n mod 1024 \<noteq> 0"
    using that s1(3) by simp
  have "Suc n + k = 0x40000" using Suc.prems(2) by simp
  from Suc.IH [OF w2 this e2 cur, of "of_nat (768 + n div 1024)"] show ?case unfolding step by simp
qed

section \<open>The direct map\<close>

lemma global_flags:
  assumes "page_aligned x"
  shows "present (x OR PAGE_KERNEL OR PAGE_GLOBAL)" "frame_of (x OR PAGE_KERNEL OR PAGE_GLOBAL) = frame_of x"
proof -
  have "present 0x103" by (simp add: present_def)
  then show "present (x OR PAGE_KERNEL OR PAGE_GLOBAL)" "frame_of (x OR PAGE_KERNEL OR PAGE_GLOBAL) = frame_of x"
    using assms by (simp_all add: PAGE_KERNEL_def PAGE_GLOBAL_def present_or_flags frame_of_or_flags or.assoc)
qed

lemma entered_present:
  assumes e: "entered s0 256 0x40000 m" and j: "j < 1024"
  shows "entry m (addr_of_frame (kframe s0)) j = (if j < 768 then 0 else addr_of_frame (kframe s0 + 2 + (j - 768)) OR PAGE_KERNEL)"
    "present (entry m (addr_of_frame (kframe s0)) j) \<longleftrightarrow> 768 \<le> j"
proof -
  show 1: "entry m (addr_of_frame (kframe s0)) j = (if j < 768 then 0 else addr_of_frame (kframe s0 + 2 + (j - 768)) OR PAGE_KERNEL)"
  proof (cases "j < 768")
    case False
    then have "j - 768 < 256" "768 + (j - 768) = j" using j by auto
    with e have "entry m (addr_of_frame (kframe s0)) (768 + (j - 768)) = addr_of_frame (kframe s0 + 2 + (j - 768)) OR PAGE_KERNEL"
      unfolding entered_def by blast
    then show ?thesis using False \<open>768 + (j - 768) = j\<close> by simp
  qed (use e in \<open>simp add: entered_def\<close>)
  show "present (entry m (addr_of_frame (kframe s0)) j) \<longleftrightarrow> 768 \<le> j"
    unfolding 1 by (simp add: kernel_flags page_aligned_addr_of_frame) (simp add: present_def)
qed

lemma entered_frame:
  assumes "entered s0 256 0x40000 m" "768 \<le> j" "j < 1024" "kframe s0 + 258 \<le> 1024"
  shows "frame_of (entry m (addr_of_frame (kframe s0)) j) = kframe s0 + 2 + (j - 768)"
    "page_of (entry m (addr_of_frame (kframe s0)) j) = addr_of_frame (kframe s0 + 2 + (j - 768))"
  using assms by (simp_all add: entered_present kernel_flags page_aligned_addr_of_frame frame_of_addr_of_frame)

lemma entered_wf:
  assumes e: "entered s0 256 0x40000 m" and k: "kframe s0 + 258 \<le> 1024"
  shows "wf_dir m (addr_of_frame (kframe s0))" "utabs m (addr_of_frame (kframe s0)) = {}"
    "ktabs m (addr_of_frame (kframe s0)) \<subseteq> {kframe s0 + 2..<kframe s0 + 258}"
proof -
  let ?K = "addr_of_frame (kframe s0)"
  have fk: "frame_of ?K = kframe s0" using k by (simp add: frame_of_addr_of_frame)
  have fl: "entry m ?K j AND 0x80 = 0" if "768 \<le> j" "j < 1024" for j
    using that entered_present(1) [OF e that(2)] by (simp add: kernel_flags page_aligned_addr_of_frame)
  have fr: "frame_of (entry m ?K j) = kframe s0 + 2 + (j - 768)" if "768 \<le> j" "j < 1024" for j
    by (rule entered_frame(1) [OF e that k])
  show "wf_dir m ?K"
    unfolding wf_dir_def fk using entered_present(2) [OF e] fl fr by (auto simp: page_aligned_addr_of_frame)
  show "utabs m ?K = {}" using entered_present(2) [OF e] by (auto simp: tabs_def)
  show "ktabs m ?K \<subseteq> {kframe s0 + 2..<kframe s0 + 258}" using fr by (auto simp: tabs_def)
qed

lemma entered_direct_map:
  assumes e: "entered s0 256 0x40000 m" and k: "kframe s0 + 258 \<le> 1024"
  shows "direct_map m (addr_of_frame (kframe s0))"
  unfolding direct_map_def
proof (intro allI impI)
  fix n :: nat assume n: "n < 0x40000"
  have dm: "(768 * 1024 + n) div 1024 = 768 + n div 1024" "(768 * 1024 + n) mod 1024 = n mod 1024"
    by (simp_all only: div_mult_self3 mod_mult_self3)
  have j: "768 \<le> 768 + n div 1024" "768 + n div 1024 < 1024" using n by auto
  have "entry m (addr_of_frame (kframe s0 + 2 + n div 1024)) (n mod 1024) = addr_of_frame n OR PAGE_KERNEL OR PAGE_GLOBAL"
    using e n by (simp add: entered_def)
  then show "ptrans m (addr_of_frame (kframe s0)) (0xC0000 + n) = Some n"
    using dm entered_present(2) [OF e j(2)] entered_frame(2) [OF e j k] global_flags [OF page_aligned_addr_of_frame, of n] n
    by (simp add: ptrans_def frame_of_addr_of_frame)
qed

section \<open>Initialisation of paging\<close>

lemma boot_ok_console [simp]: "boot_ok (s\<lparr>console := v\<rparr>) = boot_ok s" "kframe (s\<lparr>console := v\<rparr>) = kframe s"
  by (simp_all add: boot_ok_def layout_ok_def kframe_def)

lemma map_kernel_memory_run:
  assumes b: "boot_ok s" and z: "\<forall>j<768. entry (mem s) (addr_of_frame (kframe s)) j = 0"
  shows "\<exists>m. map_kernel_memory s = Inr ((), s\<lparr>mem := m\<rparr>) \<and> entered s 256 0x40000 m"
proof -
  have "booting s s" using b by (simp add: booting_def)
  from map_kernel_loop_run [OF this, where n = 0 and k = "0x40000" and cur = 0 and ldi = "0xFFFFFFFF"] z obtain t where
    t: "map_kernel_loop 0x40000 (addr_of_frame 0) 0 0xFFFFFFFF s = Inr ((), t)" "booting s t" "entered s 256 0x40000 (mem t)"
    by (auto simp: entered_def)
  have "t = s\<lparr>mem := mem t\<rparr>" using t(2) mem_only_frame by (auto simp: booting_def)
  moreover have "addr_of_frame 0 = 0" by (simp add: addr_of_frame_def)
  ultimately show ?thesis using t by (intro exI [of _ "mem t"]) (simp add: map_kernel_memory_def)
qed

lemma setup_entries_run_all:
  assumes b: "boot_ok s"
  shows "\<exists>m. setup_entries s = Inr ((), s\<lparr>mem := m\<rparr>) \<and> boot_ok (s\<lparr>mem := m\<rparr>)
    \<and> (\<forall>j<1024. entry m (addr_of_frame (kframe s)) j = 0)"
proof -
  have "booting s s" using b by (simp add: booting_def)
  from setup_entries_run [OF this, of 0 1024] obtain t where
    t: "setup_entries_loop 0 1024 s = Inr ((), t)" "booting s t" "\<forall>j<1024. entry (mem t) (addr_of_frame (kframe s)) j = 0"
    by auto
  have "t = s\<lparr>mem := mem t\<rparr>" using t(2) mem_only_frame by (auto simp: booting_def)
  then show ?thesis using t by (intro exI [of _ "mem t"]) (simp add: setup_entries_def booting_def)
qed


lemma init_paging_run:
  assumes b: "boot_ok s"
  shows "\<exists>m v. init_paging s = Inr ((), s\<lparr>mem := m, cr3 := kernel_page_dir s - 0xC0000000, cr0 := cr0 s OR 0x80000000,
      cr4 := cr4 s OR 0x80, console := v\<rparr>) \<and> entered s 256 0x40000 m"
proof -
  obtain c1 where c1: "kprint_color COLOR_WHITE ''[MEM] Creating blank entries........'' [] s = Inr ((), s\<lparr>console := c1\<rparr>)"
    by simp
  from b have "boot_ok (s\<lparr>console := c1\<rparr>)" by simp
  from setup_entries_run_all [OF this] obtain m where
    m: "setup_entries (s\<lparr>console := c1\<rparr>) = Inr ((), s\<lparr>console := c1, mem := m\<rparr>)" "boot_ok (s\<lparr>console := c1, mem := m\<rparr>)"
      "\<forall>j<1024. entry m (addr_of_frame (kframe s)) j = 0" by auto
  obtain c2 where c2: "kprint_color COLOR_GREEN (''[OK]'' @ [CHR 0x0A]) [] (s\<lparr>console := c1, mem := m\<rparr>) =
      Inr ((), s\<lparr>mem := m, console := c2\<rparr>)" by simp
  obtain c3 where c3: "kprint_color COLOR_WHITE ''[MEM] Mapping memory........'' [] (s\<lparr>mem := m, console := c2\<rparr>) =
      Inr ((), s\<lparr>mem := m, console := c3\<rparr>)" by simp
  have kf: "kframe (s\<lparr>mem := m, console := c3\<rparr>) = kframe s" by (simp add: kframe_def)
  have "boot_ok (s\<lparr>mem := m, console := c3\<rparr>)"
    using m(2) by (simp add: boot_ok_def layout_ok_def kframe_def)
  from map_kernel_memory_run [OF this] m(3) kf obtain m' where
    m': "map_kernel_memory (s\<lparr>mem := m, console := c3\<rparr>) = Inr ((), s\<lparr>console := c3, mem := m'\<rparr>)"
      "entered (s\<lparr>mem := m, console := c3\<rparr>) 256 0x40000 m'" by auto
  have "entered s 256 0x40000 m'" using m'(2) unfolding entered_def kf .
  then show ?thesis
    using c1 m(1) c2 c3 m'(1)
    by (simp add: init_paging_def set_CR3_register_def set_CR0_32_bit_register_def) blast
qed

section \<open>From the boot directory to the heap\<close>

text \<open>The three calls of \<^verbatim>\<open>kernel_main\<close> that set up memory.\<close>

definition init_memory :: "unit kop" where
  "init_memory = bnd init_paging (\<lambda>_. bnd init_pmm (\<lambda>_. init_all_heaps))"

lemma boot_vm_inv:
  assumes b: "boot_ok s"
  shows "\<exists>t u. init_paging s = Inr ((), t) \<and> init_pmm t = Inr ((), u) \<and> vm_inv {KDir} {} u \<and> 261120 \<le> card (free_low u)
    \<and> direct_map (mem t) (cr3 t) \<and> kernel_page_dir u = kernel_page_dir s"
proof -
  from init_paging_run [OF b] obtain m v where
    t: "init_paging s = Inr ((), s\<lparr>mem := m, cr3 := kernel_page_dir s - 0xC0000000, cr0 := cr0 s OR 0x80000000,
      cr4 := cr4 s OR 0x80, console := v\<rparr>)" (is "_ = Inr ((), ?t)") and e: "entered s 256 0x40000 m" by blast
  have l: "layout_ok s" using b by (simp add: boot_ok_def)
  note L = kernel_layout [OF l]
  have lt: "layout_ok ?t" using l by (simp add: layout_ok_def)
  have sft: "safe_frame ?t = safe_frame s"
    by (simp add: safe_frame_def heap_start_def kernel_page_tables_base_def kernel_page_table_def)
  from init_pmm_run [OF lt] obtain u where
    u: "init_pmm ?t = Inr ((), u)" "pmm_wf u" "used u = {n. n < safe_frame ?t}"
      "u = ?t\<lparr>virtual_kernel_memory_end := heap_start ?t, bitmap := bitmap u, used_frames := used_frames u\<rparr>" by blast
  have f: "mem u = m" "cr3 u = kernel_page_dir s - 0xC0000000" "kernel_page_dir u = kernel_page_dir s"
    by (subst u(4); simp)+
  have sf: "safe_frame u = safe_frame s" "layout_ok u"
    using l f(3) by (simp_all add: safe_frame_def heap_start_def kernel_page_tables_base_def kernel_page_table_def layout_ok_def)
  have kd: "dir_of u KDir = addr_of_frame (kframe s)" using L(1) f(3) by (simp add: dir_of_def)
  have fk: "frame_of (addr_of_frame (kframe s)) = kframe s" using L(5) by (simp add: frame_of_addr_of_frame)
  note wf = entered_wf [OF e L(5)]
  have "dir_ok (mem u) (dir_of u) (used u) (safe_frame u) KDir"
    using wf f(1) sf(1) L(6) fk by (auto simp: dir_ok_def kd)
  moreover have "direct_map m (addr_of_frame (kframe s))" by (rule entered_direct_map [OF e L(5)])
  ultimately have "vm_ok {KDir} {} (dir_of u) (mem u) (used u) (safe_frame u)"
    using f(1) sf(1) L(5,6) fk by (simp add: vm_ok_def kd)
  moreover have c3: "kernel_page_dir s - 0xC0000000 = addr_of_frame (kframe s)" using L(1) by simp
  ultimately have vm: "vm_inv {KDir} {} u" using u(2) sf(2) f(2) kd by (simp add: vm_inv_def)
  have "free_low u = {safe_frame s..<0x40000}"
    unfolding free_low_used sf(1) u(3) sft by auto
  then have "261120 \<le> card (free_low u)" using L(5,6) by simp
  moreover have "direct_map (mem ?t) (cr3 ?t)" using entered_direct_map [OF e L(5)] c3 by simp
  ultimately show ?thesis using t u(1) vm f(3) by blast
qed

definition boot_state :: kstate where
  "boot_state = demo_state\<lparr>mem := (\<lambda>a. if a = 0x100C00 then 0x83 else 0), cr3 := 0x100000\<rparr>"

lemma boot_state_ok: "boot_ok boot_state"
  by (simp add: boot_ok_def boot_state_def demo_state_def layout_ok_def page_aligned_def entry_def slot_def
      kframe_def frame_of_def)

text \<open>Below 3 GB the new directory has no entry.\<close>

lemma entered_low_unmapped:
  assumes e: "entered s0 256 0x40000 m" and k: "kframe s0 + 258 \<le> 1024" and v: "unat v < 0xC0000000"
  shows "translate m (addr_of_frame (kframe s0)) v = None"
proof -
  have "frame_of v div 1024 < 768" using v by (simp add: frame_of_def)
  then show ?thesis
    using entered_present(2) [OF e frame_index [of v]] by (simp add: translate_wf [OF entered_wf(1) [OF e k]] ptrans_def)
qed

text \<open>
  C35: \<^verbatim>\<open>init_paging\<close> runs to its end from the directory that \<^verbatim>\<open>boot.s\<close> sets up.  Then the kernel's own directory is active and it
  maps exactly the upper gigabyte: an address from \<^verbatim>\<open>0xC0000000\<close> on goes to the physical address \<^verbatim>\<open>0xC0000000\<close> below it, and no
  address below is mapped; global pages are enabled.
\<close>

theorem init_paging_direct_map:
  assumes "boot_ok s"
  shows "\<exists>s'. init_paging s = Inr ((), s') \<and> cr3 s' = kernel_page_dir s - 0xC0000000 \<and> cr4 s' = cr4 s OR 0x80
    \<and> (\<forall>v. translate (mem s') (cr3 s') v = (if 0xC0000000 \<le> v then Some (v - 0xC0000000) else None))"
proof -
  from init_paging_run [OF assms] obtain m v where
    t: "init_paging s = Inr ((), s\<lparr>mem := m, cr3 := kernel_page_dir s - 0xC0000000, cr0 := cr0 s OR 0x80000000,
      cr4 := cr4 s OR 0x80, console := v\<rparr>)" and e: "entered s 256 0x40000 m" by blast
  note L = kernel_layout [OF conjunct1 [OF assms [unfolded boot_ok_def]]]
  have "translate m (addr_of_frame (kframe s)) v = (if 0xC0000000 \<le> v then Some (v - 0xC0000000) else None)" for v
  proof (cases "0xC0000000 \<le> v")
    case True
    have "unat (v - 0xC0000000) = unat v - 0xC0000000" using True by (simp add: unat_sub)
    then have "unat (v - 0xC0000000) < 0x40000000" using u32_bound [of v] by simp
    from translate_direct [OF entered_wf(1) [OF e L(5)] entered_direct_map [OF e L(5)] this] True show ?thesis by simp
  next
    case False
    then have "unat v < 0xC0000000" by (simp add: word_le_nat_alt)
    then show ?thesis using entered_low_unmapped [OF e L(5)] False by simp
  qed
  then show ?thesis using t L(1) by simp
qed

theorem init_paging_direct_map_witness:
  "\<exists>s'. init_paging boot_state = Inr ((), s') \<and> cr3 s' = kernel_page_dir boot_state - 0xC0000000
    \<and> translate (mem s') (cr3 s') 0xD2345678 = Some 0x12345678 \<and> translate (mem s') (cr3 s') 0x12345678 = None"
proof -
  from init_paging_direct_map [OF boot_state_ok] obtain s' where
    s': "init_paging boot_state = Inr ((), s')" "cr3 s' = kernel_page_dir boot_state - 0xC0000000"
      "\<And>v. translate (mem s') (cr3 s') v = (if 0xC0000000 \<le> v then Some (v - 0xC0000000) else None)" by blast
  from s'(1,2) s'(3) [of "0xD2345678"] s'(3) [of "0x12345678"] show ?thesis by simp
qed

lemma init_memory_heap:
  assumes "boot_ok s"
  shows "\<exists>s' fl. init_memory s = Inr ((), s') \<and> heap_inv UNIV premapped fl s' \<and> (\<forall>h. set (fl h) = blocks premapped h)
    \<and> l_next_virt_addr (large_dom s') = 0x80000000 \<and> l_next_free_virt (large_dom s') = 0 \<and> 255736 \<le> card (free_low s')"
proof -
  from boot_vm_inv [OF assms] obtain t u where
    u: "init_paging s = Inr ((), t)" "init_pmm t = Inr ((), u)" "vm_inv {KDir} {} u" "261120 \<le> card (free_low u)" by blast
  have "5384 \<le> card (free_low u)" using u(4) by simp
  from init_all_heaps_run [OF u(3) this] obtain s' fl where
    r: "init_all_heaps u = Inr ((), s')" "heap_inv UNIV premapped fl s'" "all_free UNIV premapped fl"
      "l_next_virt_addr (large_dom s') = 0x80000000" "l_next_free_virt (large_dom s') = 0"
      "card (free_low u) \<le> card (free_low s') + 5384" by blast
  have "255736 \<le> card (free_low s')" using r(6) u(4) by simp
  then show ?thesis using u(1,2) r(1-5) by (auto simp: init_memory_def all_free_def)
qed

text \<open>
  C2: the boot sequence \<^verbatim>\<open>init_paging\<close>, \<^verbatim>\<open>init_pmm\<close>, \<^verbatim>\<open>init_all_heaps\<close> of \<^verbatim>\<open>kernel_main\<close> runs to its end from the
  state that \<^verbatim>\<open>boot.s\<close> leaves and establishes the allocator's invariant, with 256 mapped pages in
  each of the seven regions and every block of them on its free list.
\<close>

theorem init_memory_establishes_heap:
  assumes "boot_ok s"
  shows "\<exists>s' fl. init_memory s = Inr ((), s') \<and> heap_inv UNIV premapped fl s' \<and> (\<forall>h. set (fl h) = blocks premapped h)
    \<and> l_next_virt_addr (large_dom s') = 0x80000000 \<and> l_next_free_virt (large_dom s') = 0 \<and> 255736 \<le> card (free_low s')"
  by (rule init_memory_heap [OF assms])

theorem init_memory_establishes_heap_witness:
  "\<exists>s' fl. init_memory boot_state = Inr ((), s') \<and> heap_inv UNIV premapped fl s' \<and> (\<forall>h. set (fl h) = blocks premapped h)
    \<and> l_next_virt_addr (large_dom s') = 0x80000000 \<and> l_next_free_virt (large_dom s') = 0 \<and> 255736 \<le> card (free_low s')"
  by (rule init_memory_establishes_heap [OF boot_state_ok])

end
