(* ===== verification/Kmalloc.thy ===== *)
theory Kmalloc
  imports Boot
begin

unbundle bit_operations_syntax

text \<open>
  The interface of the allocator, \<^verbatim>\<open>kmalloc\<close> and \<^verbatim>\<open>kfree\<close>, on the size classes: an abstract view (the
  set of blocks in use of each class) and what the calls do to it.
\<close>

section \<open>The abstract view\<close>

definition allocated :: "nat set \<Rightarrow> (heap_id \<Rightarrow> u32 list) \<Rightarrow> heap_id \<Rightarrow> u32 set" where
  "allocated V fl h = blocks V h - set (fl h)"

definition class_of :: "u32 \<Rightarrow> heap_id" where
  "class_of sz = (if sz \<le> 64 then Heap_64 else if sz \<le> 128 then Heap_128 else if sz \<le> 256 then Heap_256
     else if sz \<le> 512 then Heap_512 else if sz \<le> 1024 then Heap_1k else if sz \<le> 2048 then Heap_2k else Heap_4k)"

text \<open>The class has a free block, or a page and the frames for one are left.\<close>

definition can_alloc :: "heap_id \<Rightarrow> kstate \<Rightarrow> bool" where
  "can_alloc h s \<longleftrightarrow> next_free_block (heaps s h) \<noteq> 0 \<or>
     in_region h (frame_of (next_virt_addr (heaps s h))) \<and> 3 \<le> card (free_low s)"

lemma class_of_least:
  "sz \<le> 4096 \<Longrightarrow> sz \<le> bsize (class_of sz)" "sz \<le> bsize g \<Longrightarrow> bsize (class_of sz) \<le> bsize g"
proof -
  show "sz \<le> 4096 \<Longrightarrow> sz \<le> bsize (class_of sz)" by (simp add: class_of_def heap_class_args)
  show "sz \<le> bsize g \<Longrightarrow> bsize (class_of sz) \<le> bsize g"
    by (cases g) (auto simp: class_of_def heap_class_args word_le_nat_alt)
qed

lemma kmalloc_class: "sz \<le> 4096 \<Longrightarrow> kmalloc sz = heap_domain_alloc (class_of sz)"
  by (simp add: kmalloc_def class_of_def)

lemma region_le:
  "(0x10000000 \<le> p) = (0x10000 \<le> frame_of p)" "(0x20000000 \<le> p) = (0x20000 \<le> frame_of p)"
  "(0x30000000 \<le> p) = (0x30000 \<le> frame_of p)" "(0x40000000 \<le> p) = (0x40000 \<le> frame_of p)"
  "(0x50000000 \<le> p) = (0x50000 \<le> frame_of p)" "(0x60000000 \<le> p) = (0x60000 \<le> frame_of p)"
  "(0x70000000 \<le> p) = (0x70000 \<le> frame_of p)" "(0x80000000 \<le> p) = (0x80000 \<le> frame_of p)"
  by (simp_all add: word_le_nat_alt frame_of_def less_eq_div_iff_mult_less_eq)

lemma block_region:
  assumes "in_region h (frame_of p)"
  shows "kfree_heap p = heap_domain_free h p"
  using assms
  by (cases h) (simp_all add: in_region_def region_base_def kfree_heap_def region_le not_le [symmetric])

lemma store_same: "load32 a s = Inr (w, s) \<Longrightarrow> store32 a w s = Inr ((), s)"
  by (cases s) (auto simp: load32_def store32_def split: option.splits if_splits)

lemma domain_head:
  assumes "heap_inv UNIV V fl s"
  shows "next_free_block (heaps s h) = (case fl h of [] \<Rightarrow> 0 | x # xs \<Rightarrow> x)" "next_free_block (heaps s h) = 0 \<longleftrightarrow> fl h = []"
  using domain_okD(6) [OF heap_invD(2) [OF assms UNIV_I, of h]] by (cases "fl h"; auto)+

section \<open>Allocation\<close>

text \<open>
  The specification of an allocation of class \<open>h\<close>: which block was free before, which are in use
  afterwards, and that no word of a page that was mapped before changes.
\<close>

definition alloc_spec :: "heap_id \<Rightarrow> nat set \<Rightarrow> (heap_id \<Rightarrow> u32 list) \<Rightarrow> kstate \<Rightarrow> u32 \<Rightarrow> nat set \<Rightarrow> (heap_id \<Rightarrow> u32 list) \<Rightarrow> kstate \<Rightarrow> bool" where
  "alloc_spec h V fl s p V' fl' s' \<longleftrightarrow> heap_inv UNIV V' fl' s' \<and> V \<subseteq> V' \<and> p \<noteq> 0 \<and> p \<in> blocks V' h
     \<and> p \<notin> allocated V fl h \<and> allocated V' fl' h = insert p (allocated V fl h)
     \<and> (\<forall>g. g \<noteq> h \<longrightarrow> allocated V' fl' g = allocated V fl g)
     \<and> (\<forall>b\<in>data_addrs V. peek load32 s' b = peek load32 s b)"

lemma alloc_fast_spec:
  assumes inv: "heap_inv UNIV V fl s" and x: "fl h = x # xs"
  shows "alloc_spec h V fl s x V (fl(h := xs)) (pop_block h (peek load32 s x) s)"
proof -
  note pop = pop_block_inv [OF inv UNIV_I x]
  have "distinct (fl h)" by (rule domain_okD(7) [OF heap_invD(2) [OF inv UNIV_I]])
  then have "allocated V (fl(h := xs)) h = insert x (allocated V fl h)"
    using pop(5) x by (auto simp: allocated_def)
  moreover have "peek load32 (pop_block h (peek load32 s x) s) = peek load32 s"
    by (rule peek_cong) (simp_all add: pop_block_def)
  ultimately show ?thesis using pop x by (simp add: alloc_spec_def allocated_def)
qed

lemma alloc_slow_spec:
  assumes inv: "heap_inv UNIV V fl s" and e: "fl h = []"
    and room: "in_region h (frame_of (next_virt_addr (heaps s h)))" and fr: "3 \<le> card (free_low s)"
  shows "\<exists>s' N. heap_domain_alloc h s = Inr (next_virt_addr (heaps s h), s')
    \<and> alloc_spec h V fl s (next_virt_addr (heaps s h)) (insert (frame_of (next_virt_addr (heaps s h))) V)
         (fl(h := tl (page_blocks (next_virt_addr (heaps s h)) (bsize h)))) s'
    \<and> new_pages V s s' N \<and> card N \<le> 3 \<and> large_dom s' = large_dom s \<and> safe_frame s' = safe_frame s"
proof -
  let ?virt = "next_virt_addr (heaps s h)"
  let ?V = "insert (frame_of ?virt) V" and ?fl = "fl(h := tl (page_blocks ?virt (bsize h)))"
  note D = domain_okD [OF heap_invD(2) [OF inv UNIV_I, of h]]
  from heap_domain_alloc_slow [OF inv UNIV_I e room fr] obtain s' N where
    s': "heap_domain_alloc h s = Inr (?virt, s')" "heap_inv UNIV ?V ?fl s'" "new_pages V s s' N"
      "card N \<le> 3" "large_dom s' = large_dom s" "safe_frame s' = safe_frame s" by blast
  note pb = page_blocks_props [OF D(3) class_size_bsize [of h]]
  have hd: "page_blocks ?virt (bsize h) = ?virt # tl (page_blocks ?virt (bsize h))"
    using pb(2) class_sizeD(3) [OF class_size_bsize, of h] by (simp add: page_blocks_def blk_def upt_conv_Cons)
  have pV: "frame_of ?virt \<notin> V" using D(4) room by auto
  have dj: "set (page_blocks ?virt (bsize h)) \<inter> blocks V h = {}"
    using pb(3) pV by (auto simp: blocks_def)
  have nz: "?virt \<noteq> 0" using region_bounds [OF room] by (auto simp: frame_of_def)
  note bi = blocks_insert [OF D(3) room]
  have vb: "?virt \<in> set (page_blocks ?virt (bsize h))" "?virt \<notin> set (tl (page_blocks ?virt (bsize h)))"
    using hd pb(1) by (metis list.set_intros(1), metis distinct.simps(2))
  have "set (page_blocks ?virt (bsize h)) = insert ?virt (set (tl (page_blocks ?virt (bsize h))))"
    using hd by (metis list.simps(15))
  then have al: "allocated ?V ?fl h = insert ?virt (allocated V fl h)"
    using vb dj e unfolding allocated_def bi(1) by auto
  have "\<forall>g. g \<noteq> h \<longrightarrow> allocated ?V ?fl g = allocated V fl g" using bi(2) by (simp add: allocated_def)
  moreover have "?virt \<in> blocks ?V h" using vb(1) bi(1) by blast
  moreover have "?virt \<notin> allocated V fl h" using pV by (auto simp: allocated_def blocks_def)
  ultimately have "alloc_spec h V fl s ?virt ?V ?fl s'"
    using s'(2,3) al nz unfolding alloc_spec_def new_pages_def by blast
  then show ?thesis using s'(1,3-6) by blast
qed

lemma heap_domain_alloc_spec:
  assumes inv: "heap_inv UNIV V fl s" and c: "can_alloc h s"
  shows "\<exists>p V' fl' s'. heap_domain_alloc h s = Inr (p, s') \<and> alloc_spec h V fl s p V' fl' s'"
proof (cases "fl h")
  case Nil
  then have "in_region h (frame_of (next_virt_addr (heaps s h)))" "3 \<le> card (free_low s)"
    using c domain_head(2) [OF inv, of h] by (auto simp: can_alloc_def)
  then show ?thesis using alloc_slow_spec [OF inv Nil] by blast
next
  case (Cons x xs)
  then show ?thesis using heap_domain_alloc_fast [OF inv UNIV_I Cons] alloc_fast_spec [OF inv Cons] by blast
qed

section \<open>A heap to try the theorems on\<close>

definition boot_heap :: kstate where
  "boot_heap = (case init_memory boot_state of Inr (_, s) \<Rightarrow> s | Inl _ \<Rightarrow> boot_state)"

lemma boot_heap_inv:
  "\<exists>fl. heap_inv UNIV premapped fl boot_heap \<and> (\<forall>h. set (fl h) = blocks premapped h \<and> fl h \<noteq> [])
    \<and> 255736 \<le> card (free_low boot_heap)"
proof -
  from boot_vm_inv [OF boot_state_ok] obtain t u where
    u: "init_paging boot_state = Inr ((), t)" "init_pmm t = Inr ((), u)" "vm_inv {KDir} {} u" "261120 \<le> card (free_low u)" by blast
  have "5384 \<le> card (free_low u)" using u(4) by simp
  from init_all_heaps_run [OF u(3) this] obtain s' fl where
    r: "init_all_heaps u = Inr ((), s')" "heap_inv UNIV premapped fl s'" "all_free UNIV premapped fl"
      "card (free_low u) \<le> card (free_low s') + 5384" by blast
  have s': "boot_heap = s'" using u(1,2) r(1) by (simp add: boot_heap_def init_memory_def)
  have af: "set (fl h) = blocks premapped h" for h using r(3) by (simp add: all_free_def)
  have "addr_of_frame (region_base h) \<in> blocks premapped h" for h
  proof -
    have "region_base h \<in> premapped" unfolding premapped_def by (intro CollectI exI [of _ h]) simp
    moreover have "unat (bsize h) dvd unat (addr_of_frame (region_base h))" by (cases h) (simp_all add: heap_class_args)
    ultimately show ?thesis by (simp add: blocks_def region_base_frame in_region_def)
  qed
  then have "fl h \<noteq> []" for h using af [of h] by (metis empty_iff list.set(1))
  then show ?thesis using r(2,4) u(4) s' af by (intro exI [of _ fl]) simp
qed


section \<open>Properties\<close>

text \<open>
  C3: \<^verbatim>\<open>kmalloc\<close> of at most 4096 bytes returns a non-null block of the smallest class that holds the request.
  The block is aligned to the class size and was not in use; afterwards it is the only block added to
  those in use, the invariant holds, and no word of a page that was mapped before has changed.
\<close>

theorem kmalloc_small_correct:
  assumes "heap_inv UNIV V fl s" "sz \<le> 4096" "can_alloc (class_of sz) s"
  shows "\<exists>p V' fl' s'. kmalloc sz s = Inr (p, s') \<and> heap_inv UNIV V' fl' s' \<and> V \<subseteq> V' \<and> p \<noteq> 0
     \<and> p \<in> blocks V' (class_of sz) \<and> sz \<le> bsize (class_of sz) \<and> (\<forall>g. sz \<le> bsize g \<longrightarrow> bsize (class_of sz) \<le> bsize g)
     \<and> p \<notin> allocated V fl (class_of sz)
     \<and> allocated V' fl' (class_of sz) = insert p (allocated V fl (class_of sz))
     \<and> (\<forall>g. g \<noteq> class_of sz \<longrightarrow> allocated V' fl' g = allocated V fl g)
     \<and> (\<forall>b\<in>data_addrs V. peek load32 s' b = peek load32 s b)"
proof -
  from heap_domain_alloc_spec [OF assms(1,3)] obtain p V' fl' s' where
    "heap_domain_alloc (class_of sz) s = Inr (p, s')" "alloc_spec (class_of sz) V fl s p V' fl' s'" by blast
  then show ?thesis
    using class_of_least [of sz] assms(2) unfolding alloc_spec_def kmalloc_class [OF assms(2)] by blast
qed

theorem kmalloc_small_correct_witness:
  "\<exists>V fl. heap_inv UNIV V fl boot_heap \<and> (\<exists>p V' fl' s'. kmalloc 100 boot_heap = Inr (p, s') \<and> heap_inv UNIV V' fl' s' \<and> V \<subseteq> V'
     \<and> p \<noteq> 0 \<and> p \<in> blocks V' (class_of 100) \<and> 100 \<le> bsize (class_of 100)
     \<and> (\<forall>g. 100 \<le> bsize g \<longrightarrow> bsize (class_of 100) \<le> bsize g)
     \<and> p \<notin> allocated V fl (class_of 100)
     \<and> allocated V' fl' (class_of 100) = insert p (allocated V fl (class_of 100))
     \<and> (\<forall>g. g \<noteq> class_of 100 \<longrightarrow> allocated V' fl' g = allocated V fl g)
     \<and> (\<forall>b\<in>data_addrs V. peek load32 s' b = peek load32 boot_heap b))"
proof -
  from boot_heap_inv obtain fl where fl: "heap_inv UNIV premapped fl boot_heap" "\<And>h. fl h \<noteq> []" by blast
  have "can_alloc (class_of 100) boot_heap" using domain_head(2) [OF fl(1)] fl(2) by (simp add: can_alloc_def)
  from kmalloc_small_correct [OF fl(1) _ this] fl(1) show ?thesis by (intro exI [of _ premapped] exI [of _ fl] conjI) simp_all
qed

text \<open>
  C4: \<^verbatim>\<open>kfree\<close> of a block in use puts it at the head of its class's free list and sets the pointer to
  \<^verbatim>\<open>NULL\<close>; the block is the only one that is no longer in use, the invariant holds, and the only data word
  that changes is the first word of the block.
\<close>

theorem kfree_releases_block:
  assumes inv: "heap_inv UNIV V fl s" and p: "p \<in> allocated V fl h"
  shows "\<exists>s'. kfree p s = Inr (0, s') \<and> heap_inv UNIV V (fl(h := p # fl h)) s'
     \<and> allocated V (fl(h := p # fl h)) h = allocated V fl h - {p} \<and> next_free_block (heaps s' h) = p
     \<and> (\<forall>b\<in>data_addrs V. b \<noteq> p \<longrightarrow> peek load32 s' b = peek load32 s b)"
proof -
  have pb: "p \<in> blocks V h" "p \<notin> set (fl h)" using p by (auto simp: allocated_def)
  then have "in_region h (frame_of p)" by (simp add: blocks_def)
  then have k: "kfree_heap p = heap_domain_free h p" by (rule block_region)
  from heap_domain_free_run [OF inv UNIV_I pb] obtain s' where
    s': "heap_domain_free h p s = Inr ((), s')" "heap_inv UNIV V (fl(h := p # fl h)) s'"
      "\<forall>b\<in>data_addrs V. b \<noteq> p \<longrightarrow> peek load32 s' b = peek load32 s b" by blast
  have "next_free_block (heaps s' h) = p" using domain_head(1) [OF s'(2), of h] by simp
  then show ?thesis using s' by (auto simp: kfree_def k allocated_def)
qed

text \<open>
  LIFO reuse: after \<^verbatim>\<open>kfree\<close> of a block in use, the next \<^verbatim>\<open>kmalloc\<close> for its class returns that very block.
\<close>

theorem kfree_kmalloc_lifo:
  assumes inv: "heap_inv UNIV V fl s" and p: "p \<in> allocated V fl (class_of sz)" and sz: "sz \<le> 4096"
  shows "\<exists>s'. bnd (kfree p) (\<lambda>_. kmalloc sz) s = Inr (p, s') \<and> heap_inv UNIV V fl s'"
proof -
  let ?h = "class_of sz"
  have pb: "p \<in> blocks V ?h" "p \<notin> set (fl ?h)" using p by (auto simp: allocated_def)
  then have "in_region ?h (frame_of p)" by (simp add: blocks_def)
  then have k: "kfree_heap p = heap_domain_free ?h p" by (rule block_region)
  from heap_domain_free_run [OF inv UNIV_I pb] obtain t where
    t: "heap_domain_free ?h p s = Inr ((), t)" "heap_inv UNIV V (fl(?h := p # fl ?h)) t" by blast
  have hd: "(fl(?h := p # fl ?h)) ?h = p # fl ?h" by simp
  have "heap_domain_alloc ?h t = Inr (p, pop_block ?h (peek load32 t p) t)"
    by (rule heap_domain_alloc_fast [OF t(2) UNIV_I hd])
  moreover have "heap_inv UNIV V fl (pop_block ?h (peek load32 t p) t)"
    using pop_block_inv(1) [OF t(2) UNIV_I hd] by (simp only: fun_upd_upd fun_upd_triv)
  ultimately show ?thesis using t(1) by (simp add: kfree_def k kmalloc_class [OF sz] bnd_assoc)
qed

text \<open>
  An allocation from the free list followed by the release of the block gives back the state it
  started from, memory and allocator alike.
\<close>

theorem kmalloc_kfree_roundtrip:
  assumes inv: "heap_inv UNIV V fl s" and sz: "sz \<le> 4096" and ne: "next_free_block (heaps s (class_of sz)) \<noteq> 0"
  shows "bnd (kmalloc sz) kfree s = Inr (0, s)"
proof -
  let ?h = "class_of sz"
  from ne obtain x xs where x: "fl ?h = x # xs" using domain_head(2) [OF inv, of ?h] by (cases "fl ?h") auto
  note pop = pop_block_inv [OF inv UNIV_I x]
  let ?t = "pop_block ?h (peek load32 s x) s"
  have al: "heap_domain_alloc ?h s = Inr (x, ?t)" by (rule heap_domain_alloc_fast [OF inv UNIV_I x])
  have k: "kfree_heap x = heap_domain_free ?h x" by (rule block_region) (use pop(5) in \<open>simp add: blocks_def\<close>)
  have "load32 x ?t = Inr (peek load32 s x, ?t)"
    using pop(2) by (simp add: load32_def pop_block_def split: option.splits if_splits)
  then have st: "store32 x (peek load32 s x) ?t = Inr ((), ?t)" by (rule store_same)
  have "?t\<lparr>heaps := (heaps ?t)(?h := (heaps ?t ?h)\<lparr>next_free_block := x\<rparr>)\<rparr> = s"
  proof -
    have "(heaps s ?h)\<lparr>next_free_block := x\<rparr> = heaps s ?h" using pop(3) by (cases "heaps s ?h") simp
    then show ?thesis by (simp add: pop_block_def)
  qed
  then have "heap_domain_free ?h x ?t = Inr ((), s)"
    using st pop(4) by (simp add: heap_domain_free_def domain_def set_domain_def) (simp add: pop_block_def)
  then show ?thesis using al by (simp add: kmalloc_class [OF sz] kfree_def k)
qed

text \<open>The booted heap after one \<^verbatim>\<open>kmalloc(64)\<close>, and the block it returned.\<close>

definition demo_block :: u32 where
  "demo_block = (case kmalloc 64 boot_heap of Inr (p, _) \<Rightarrow> p | Inl _ \<Rightarrow> 0)"

definition demo_heap :: kstate where
  "demo_heap = (case kmalloc 64 boot_heap of Inr (_, s) \<Rightarrow> s | Inl _ \<Rightarrow> boot_heap)"

lemma demo_heap_inv:
  "\<exists>fl. heap_inv UNIV premapped fl demo_heap \<and> demo_block \<in> allocated premapped fl (class_of 64) \<and> fl (class_of 64) \<noteq> []"
proof -
  let ?h = "class_of 64"
  have h: "?h = Heap_64" by (simp add: class_of_def)
  from boot_heap_inv obtain fl where fl: "heap_inv UNIV premapped fl boot_heap" "set (fl ?h) = blocks premapped ?h" by blast
  have two: "{0x10000000, 0x10000040} \<subseteq> blocks premapped ?h"
  proof -
    have "0x10000 \<in> premapped" unfolding premapped_def by (rule CollectI, rule exI [of _ Heap_64]) (simp add: region_base_def)
    then show ?thesis by (simp add: h blocks_def in_region_def region_base_def bsize_def frame_of_def)
  qed
  then obtain x xs where x: "fl ?h = x # xs" using fl(2) by (cases "fl ?h") auto
  have xs: "xs \<noteq> []"
  proof
    assume "xs = []"
    then have "blocks premapped ?h = {x}" using x fl(2) by simp
    with two have "(0x10000000::u32) = x" "(0x10000040::u32) = x" by auto
    then have "(0x10000000::u32) = 0x10000040" by simp
    then show False by simp
  qed
  note r = heap_domain_alloc_fast [OF fl(1) UNIV_I x] alloc_fast_spec [OF fl(1) x]
  have "kmalloc 64 boot_heap = Inr (x, pop_block ?h (peek load32 boot_heap x) boot_heap)"
    using r(1) by (simp add: kmalloc_class)
  then have d: "demo_heap = pop_block ?h (peek load32 boot_heap x) boot_heap" "demo_block = x"
    by (simp_all add: demo_heap_def demo_block_def)
  show ?thesis using r(2) xs unfolding d alloc_spec_def by (intro exI [of _ "fl(?h := xs)"]) simp
qed

theorem kfree_releases_block_witness:
  "\<exists>fl s'. demo_block \<in> allocated premapped fl (class_of 64) \<and> kfree demo_block demo_heap = Inr (0, s')
     \<and> heap_inv UNIV premapped (fl(class_of 64 := demo_block # fl (class_of 64))) s'
     \<and> next_free_block (heaps s' (class_of 64)) = demo_block"
proof -
  from demo_heap_inv obtain fl where fl: "heap_inv UNIV premapped fl demo_heap"
    "demo_block \<in> allocated premapped fl (class_of 64)" by blast
  from kfree_releases_block [OF fl] fl(2) show ?thesis by blast
qed

theorem kfree_kmalloc_lifo_witness:
  "\<exists>fl s'. bnd (kfree demo_block) (\<lambda>_. kmalloc 64) demo_heap = Inr (demo_block, s') \<and> heap_inv UNIV premapped fl s'"
proof -
  from demo_heap_inv obtain fl where fl: "heap_inv UNIV premapped fl demo_heap"
    "demo_block \<in> allocated premapped fl (class_of 64)" by blast
  have "(64::u32) \<le> 4096" by simp
  from kfree_kmalloc_lifo [OF fl this] show ?thesis by blast
qed

theorem kmalloc_kfree_roundtrip_witness:
  "bnd (kmalloc 64) kfree demo_heap = Inr (0, demo_heap)"
proof -
  from demo_heap_inv obtain fl where fl: "heap_inv UNIV premapped fl demo_heap" "fl (class_of 64) \<noteq> []" by blast
  show ?thesis by (rule kmalloc_kfree_roundtrip [OF fl(1)]) (use domain_head(2) [OF fl(1)] fl(2) in simp_all)
qed

text \<open>
  C34: a double free through two pointers to one block makes the block its own successor: the next two
  allocations of its class return the same block.  (The macro \<^verbatim>\<open>kfree\<close> clears only the variable it is
  given.)
\<close>

theorem double_free_aliases:
  assumes inv: "heap_inv UNIV V fl s" and p: "p \<in> blocks V (class_of sz)" and sz: "sz \<le> 4096"
  shows "\<exists>s'. bnd (kfree p) (\<lambda>_. bnd (kfree p) (\<lambda>_. bnd (kmalloc sz) (\<lambda>a. bnd (kmalloc sz) (\<lambda>b. ret (a, b))))) s
     = Inr ((p, p), s')"
proof -
  let ?h = "class_of sz"
  have k: "kfree_heap p = heap_domain_free ?h p" by (rule block_region) (use p in \<open>simp add: blocks_def\<close>)
  have ok: "mem_only_ok UNIV V s s" using heap_invD(1) [OF inv] by simp
  note nz = blocks_nonzero [OF p]
  from data.push_twice [OF ok blocks_addr [OF p], of "next_free_block (heaps s ?h)"] obtain t u where
    t: "store32 p (next_free_block (heaps s ?h)) s = Inr ((), t)" "store32 p p t = Inr ((), u)" "load32 p u = Inr (p, u)"
    by blast
  let ?f = "\<lambda>w. w\<lparr>heaps := (heaps w)(?h := (heaps w ?h)\<lparr>next_free_block := p\<rparr>)\<rparr>"
  have ht: "store32 a w (x\<lparr>heaps := y\<rparr>) = map_sum id (map_prod id (\<lambda>z. z\<lparr>heaps := y\<rparr>)) (store32 a w x)" for a w x y
    by (cases x) (auto simp: store32_def split: option.splits)
  have hu: "heaps u = heaps t" using t(2) by (auto simp: store32_def split: option.splits if_splits)
  have hl: "load32 a (x\<lparr>heaps := y\<rparr>) = map_sum id (map_prod id (\<lambda>z. z\<lparr>heaps := y\<rparr>)) (load32 a x)" for a x y
    by (auto simp: load32_def split: option.splits)
  show ?thesis using t nz hu
    by (simp add: kfree_def k kmalloc_class [OF sz] heap_domain_free_def heap_domain_alloc_def domain_def set_domain_def
        bnd_assoc ht hl)
qed

theorem double_free_aliases_witness:
  "\<exists>s'. bnd (kfree demo_block) (\<lambda>_. bnd (kfree demo_block) (\<lambda>_. bnd (kmalloc 64) (\<lambda>a. bnd (kmalloc 64) (\<lambda>b. ret (a, b))))) demo_heap
     = Inr ((demo_block, demo_block), s')"
proof -
  from demo_heap_inv obtain fl where fl: "heap_inv UNIV premapped fl demo_heap"
    "demo_block \<in> allocated premapped fl (class_of 64)" by blast
  then have "demo_block \<in> blocks premapped (class_of 64)" by (simp add: allocated_def)
  from double_free_aliases [OF fl(1) this] show ?thesis by simp
qed

text \<open>
  A pointer below the heap regions, \<^verbatim>\<open>NULL\<close> included, is ignored by \<^verbatim>\<open>kfree\<close>: the state is unchanged.
\<close>

theorem kfree_outside_heap:
  assumes "p < 0x10000000"
  shows "kfree p s = Inr (0, s)"
proof -
  have "\<not> 0x10000000 \<le> p" using assms by simp
  moreover have "\<not> x \<le> p" if "0x10000000 \<le> x" for x
    using that assms by (meson le_less_trans not_le order.strict_trans2)
  ultimately show ?thesis by (simp add: kfree_def kfree_heap_def)
qed

theorem kfree_outside_heap_witness: "kfree 0 boot_heap = Inr (0, boot_heap)"
  by (rule kfree_outside_heap) simp

text \<open>
  When the class has no free block and every frame is used, \<^verbatim>\<open>kmalloc\<close> returns \<^verbatim>\<open>NULL\<close>; apart from the
  message on the console nothing changes.
\<close>

theorem kmalloc_out_of_memory:
  assumes "sz \<le> 4096" "next_free_block (heaps s (class_of sz)) = 0" "used s = {..<1048576}"
  shows "\<exists>v. kmalloc sz s = Inr (0, s\<lparr>console := v\<rparr>)"
  unfolding kmalloc_class [OF assms(1)] by (rule heap_domain_alloc_exhausted [OF assms(2,3)])

theorem kmalloc_out_of_memory_witness:
  "\<exists>v. kmalloc 17 (filled 32768) = Inr (0, (filled 32768)\<lparr>console := v\<rparr>)"
  by (rule kmalloc_out_of_memory) (simp_all add: used_filled, simp add: filled_def demo_state_def zero_domain_def)

section \<open>The words of a block\<close>

definition block_words :: "heap_id \<Rightarrow> u32 \<Rightarrow> u32 set" where
  "block_words h p = {a. word_aligned a \<and> unat p \<le> unat a \<and> unat a < unat p + unat (bsize h)}"

lemma block_word_div:
  assumes "p \<in> blocks V h" "a \<in> block_words h p"
  shows "unat a div unat (bsize h) = unat p div unat (bsize h)" "frame_of a = frame_of p"
proof -
  note c = class_sizeD [OF class_size_bsize [of h]]
  from assms(1) obtain k where k: "unat p = unat (bsize h) * k" by (auto simp: blocks_def)
  from assms(2) have a: "unat (bsize h) * k \<le> unat a" "unat a < unat (bsize h) * k + unat (bsize h)"
    by (auto simp: block_words_def k)
  then have "unat a = unat (bsize h) * k + (unat a - unat (bsize h) * k)" "unat a - unat (bsize h) * k < unat (bsize h)" by auto
  then have "unat a div unat (bsize h) = k" by (metis div_mult_self4 div_less add.right_neutral c(1) less_numeral_extra(3))
  moreover have "unat p div unat (bsize h) = k" using k c(1) by simp
  ultimately show d: "unat a div unat (bsize h) = unat p div unat (bsize h)" by simp
  have "n div 4096 = n div unat (bsize h) div (4096 div unat (bsize h))" for n
    using c(4) by (metis div_mult2_eq mult.commute)
  then show "frame_of a = frame_of p" unfolding frame_of_def using d by metis
qed

lemma block_words_addr: "p \<in> blocks V h \<Longrightarrow> a \<in> block_words h p \<Longrightarrow> a \<in> data_addrs V"
  using block_word_div(2) [of p V h a] by (auto simp: data_addrs_def blocks_def block_words_def)

lemma block_words_disjoint:
  assumes "p \<in> blocks V h" "q \<in> blocks V g" "p \<noteq> q" "a \<in> block_words h p" "b \<in> block_words g q"
  shows "a \<noteq> b"
proof
  assume ab: "a = b"
  have fr: "frame_of p = frame_of q" using block_word_div(2) [OF assms(1,4)] block_word_div(2) [OF assms(2,5)] ab by simp
  have "in_region h (frame_of p)" "in_region g (frame_of q)" using assms(1,2) by (auto simp: blocks_def)
  then have hg: "h = g" using region_unique fr by metis
  have "unat p div unat (bsize h) = unat q div unat (bsize h)"
    using block_word_div(1) [OF assms(1,4)] block_word_div(1) [OF assms(2,5)] ab hg by simp
  moreover have "unat (bsize h) dvd unat p" "unat (bsize h) dvd unat q" using assms(1,2) hg by (auto simp: blocks_def)
  ultimately have "unat p = unat q" by (metis dvd_div_mult_self)
  then show False using assms(3) u32_eqI by blast
qed

lemma block_word_self: "p \<in> blocks V h \<Longrightarrow> p \<in> block_words h p"
  using blocks_addr [of p V h] class_sizeD(1) [OF class_size_bsize [of h]] by (simp add: block_words_def data_addrs_def)

lemma words_isolated:
  assumes inv: "heap_inv UNIV V fl s" and p: "p \<in> blocks V h" "q \<in> blocks V g" "p \<noteq> q"
    and a: "a \<in> block_words h p" "b \<in> block_words g q"
  shows "\<exists>x y. translate (mem s) (cr3 s) a = Some x \<and> translate (mem s) (cr3 s) b = Some y \<and> x \<noteq> y
     \<and> (\<forall>d. frame_of x \<notin> own (mem s) (dir_of s d)) \<and> safe_frame s \<le> frame_of x"
proof -
  note vm = heap_invD(1) [OF inv]
  have V: "frame_of a \<in> V" "frame_of b \<in> V"
    using block_words_addr [OF p(1) a(1)] block_words_addr [OF p(2) a(2)] by (auto simp: data_addrs_def)
  from data_addr [OF vm V(1)] obtain f where f: "translate (mem s) (cr3 s) a = Some (addr_of_frame f OR (a AND 0xFFF))"
    "safe_frame s \<le> f" "f < 0x40000" "\<forall>d\<in>UNIV. f \<notin> own (mem s) (dir_of s d)" by blast
  from data_addr [OF vm V(2)] obtain y where y: "translate (mem s) (cr3 s) b = Some y" by blast
  have "a \<noteq> b" by (rule block_words_disjoint [OF p a])
  then have "addr_of_frame f OR (a AND 0xFFF) \<noteq> y" using translate_inj [OF vm V] f(1) y by auto
  then show ?thesis using f y by (auto simp: frame_of_data)
qed

lemma mapped_twice:
  assumes inv: "heap_inv UNIV V fl s" and p: "p \<in> V" "in_region h p"
  shows "\<exists>f. ptrans (mem s) (kernel_page_dir s - 0xC0000000) p = Some f
     \<and> ptrans (mem s) (page_directory (heaps s h) - 0xC0000000) p = Some f
     \<and> f \<in> used s \<and> (\<forall>q\<in>V. q \<noteq> p \<longrightarrow> ptrans (mem s) (kernel_page_dir s - 0xC0000000) q \<noteq> Some f)"
proof -
  note ok = vm_invD(4) [OF heap_invD(1) [OF inv]]
  from vm_okD(7) [OF ok p(1)] obtain f where f: "page_ok UNIV (dir_of s) (mem s) (used s) (safe_frame s) p f" by blast
  have "ptrans (mem s) (dir_of s KDir) q \<noteq> Some f" if "q \<in> V" "q \<noteq> p" for q
    using vm_okD(8) [OF ok that(1) p(1) that(2)] f by (auto simp: page_ok_def)
  then show ?thesis using f owner_region [OF p(2)] by (auto simp: page_ok_def dir_of_def)
qed

section \<open>Any sequence of calls\<close>

text \<open>
  The states a kernel reaches with the size classes, with the set of live blocks: it boots, allocates
  (while the class can still grow inside its region), frees live blocks and writes into them.
\<close>

inductive heap_run :: "kstate \<Rightarrow> u32 set \<Rightarrow> bool" where
  boot: "boot_ok s0 \<Longrightarrow> init_memory s0 = Inr ((), s) \<Longrightarrow> heap_run s {}"
| alloc: "heap_run s L \<Longrightarrow> sz \<le> 4096 \<Longrightarrow> can_alloc (class_of sz) s \<Longrightarrow> kmalloc sz s = Inr (p, s') \<Longrightarrow>
    heap_run s' (insert p L)"
| free: "heap_run s L \<Longrightarrow> p \<in> L \<Longrightarrow> kfree p s = Inr (q, s') \<Longrightarrow> heap_run s' (L - {p})"
| client_write: "heap_run s L \<Longrightarrow> p \<in> L \<Longrightarrow> in_region h (frame_of p) \<Longrightarrow> a \<in> block_words h p \<Longrightarrow>
    store32 a w s = Inr ((), s') \<Longrightarrow> heap_run s' L"

definition live :: "nat set \<Rightarrow> (heap_id \<Rightarrow> u32 list) \<Rightarrow> u32 set" where
  "live V fl = (\<Union>h. allocated V fl h)"

lemma live_class: "p \<in> live V fl \<Longrightarrow> \<exists>h. p \<in> allocated V fl h \<and> in_region h (frame_of p)"
  by (auto simp: live_def allocated_def blocks_def)

lemma live_fun_upd:
  assumes "\<And>g. g \<noteq> h \<Longrightarrow> allocated V' fl' g = allocated V fl g"
  shows "live V' fl' = allocated V' fl' h \<union> (\<Union>g\<in>- {h}. allocated V fl g)"
    "live V fl = allocated V fl h \<union> (\<Union>g\<in>- {h}. allocated V fl g)"
proof -
  have all: "live W f = allocated W f h \<union> (\<Union>g\<in>- {h}. allocated W f g)" for W f by (auto simp: live_def)
  have "(\<Union>g\<in>- {h}. allocated V' fl' g) = (\<Union>g\<in>- {h}. allocated V fl g)" using assms by (intro SUP_cong) auto
  then show "live V' fl' = allocated V' fl' h \<union> (\<Union>g\<in>- {h}. allocated V fl g)" using all by metis
  show "live V fl = allocated V fl h \<union> (\<Union>g\<in>- {h}. allocated V fl g)" by (rule all)
qed

text \<open>A write into a block in use leaves every free list alone.\<close>

lemma heap_inv_writes:
  assumes inv: "heap_inv UNIV V fl s" and t: "mem_only_ok UNIV V s t"
    and fl: "\<And>g b. b \<in> set (fl g) \<Longrightarrow> peek load32 t b = peek load32 s b"
  shows "heap_inv UNIV V fl t"
proof -
  have ms: "t\<lparr>mem := mem s\<rparr> = s" using t by simp
  have hs: "heaps t = heaps s" by (rule vm_frame_simps(3) [OF vm_frame_mem_only [OF ms]])
  have "domain_ok V t g (fl g)" for g
    by (rule domain_ok_other [OF heap_invD(2) [OF inv UNIV_I]]) (use hs fl in auto)
  then show ?thesis using t by (simp add: heap_inv_def)
qed

lemma free_block_apart:
  assumes inv: "heap_inv UNIV V fl s" and p: "p \<in> allocated V fl h" and a: "a \<in> block_words h p" and b: "b \<in> set (fl g)"
  shows "a \<noteq> b"
proof -
  have pb: "p \<in> blocks V h" "p \<notin> set (fl h)" using p by (auto simp: allocated_def)
  have bb: "b \<in> blocks V g" using domain_okD(8) [OF heap_invD(2) [OF inv UNIV_I]] b by blast
  have "p \<noteq> b" using pb b blocks_disjoint [OF pb(1), of g] bb by auto
  then show ?thesis using block_words_disjoint [OF pb(1) bb _ a block_word_self [OF bb]] by simp
qed

lemma client_write_inv:
  assumes inv: "heap_inv UNIV V fl s" and p: "p \<in> allocated V fl h" and a: "a \<in> block_words h p"
    and st: "store32 a w s = Inr ((), s')"
  shows "heap_inv UNIV V fl s'"
proof -
  have "p \<in> blocks V h" using p by (auto simp: allocated_def)
  note aa = block_words_addr [OF this a]
  have ok: "mem_only_ok UNIV V s s" using heap_invD(1) [OF inv] by simp
  from data.wr_peek [OF ok aa, of w] st have
    t: "mem_only_ok UNIV V s s'" "\<And>b. b \<in> data_addrs V \<Longrightarrow> peek load32 s' b = (if b = a then w else peek load32 s b)" by auto
  show ?thesis
  proof (rule heap_inv_writes [OF inv t(1)])
    fix g b assume b: "b \<in> set (fl g)"
    then have "b \<in> blocks V g" using domain_okD(8) [OF heap_invD(2) [OF inv UNIV_I]] by blast
    then show "peek load32 s' b = peek load32 s b"
      using t(2) [OF blocks_addr] free_block_apart [OF inv p a b] by auto
  qed
qed

lemma heap_run_inv: "heap_run s L \<Longrightarrow> \<exists>V fl. heap_inv UNIV V fl s \<and> L = live V fl"
proof (induction rule: heap_run.induct)
  case (boot s0 s)
  from boot_vm_inv [OF boot(1)] obtain t u where
    u: "init_paging s0 = Inr ((), t)" "init_pmm t = Inr ((), u)" "vm_inv {KDir} {} u" "261120 \<le> card (free_low u)" by blast
  have "5384 \<le> card (free_low u)" using u(4) by simp
  from init_all_heaps_run [OF u(3) this] u(1,2) boot(2) obtain fl where
    "heap_inv UNIV premapped fl s" "all_free UNIV premapped fl" by (auto simp: init_memory_def)
  then show ?case by (auto simp: live_def allocated_def all_free_def)
next
  case (alloc s L sz p s')
  then obtain V fl where inv: "heap_inv UNIV V fl s" and L: "L = live V fl" by blast
  from heap_domain_alloc_spec [OF inv alloc(3)] alloc(4) obtain V' fl' where
    sp: "alloc_spec (class_of sz) V fl s p V' fl' s'" by (auto simp: kmalloc_class [OF alloc(2)])
  then have "heap_inv UNIV V' fl' s'" by (simp add: alloc_spec_def)
  moreover have "live V' fl' = insert p L"
    using sp live_fun_upd [of "class_of sz" V' fl' V fl] unfolding L alloc_spec_def by auto
  ultimately show ?case by metis
next
  case (free s L p q s')
  then obtain V fl where inv: "heap_inv UNIV V fl s" and L: "L = live V fl" by blast
  from live_class free(2) obtain h where h: "p \<in> allocated V fl h" "in_region h (frame_of p)" unfolding L by blast
  then have pb: "p \<in> blocks V h" "p \<notin> set (fl h)" by (auto simp: allocated_def)
  from heap_domain_free_run [OF inv UNIV_I pb] free(3) have i': "heap_inv UNIV V (fl(h := p # fl h)) s'"
    by (auto simp: kfree_def block_region [OF h(2)])
  have "p \<notin> allocated V fl g" if "g \<noteq> h" for g
    using that blocks_disjoint [OF pb(1), of g] by (auto simp: allocated_def)
  then have "live V (fl(h := p # fl h)) = L - {p}"
    unfolding L live_def by (auto simp: allocated_def split: if_splits)
  then show ?case using i' by metis
next
  case (client_write s L p h a w s')
  then obtain V fl where inv: "heap_inv UNIV V fl s" and L: "L = live V fl" by blast
  from live_class client_write(2) obtain g where g: "p \<in> allocated V fl g" "in_region g (frame_of p)" unfolding L by blast
  with client_write(3) region_unique have "g = h" by blast
  then show ?case using client_write_inv [OF inv _ client_write(4,5)] g(1) L by blast
qed

lemma demo_heap_run: "heap_run demo_heap {demo_block}"
proof -
  from boot_heap_inv obtain fb where fb: "heap_inv UNIV premapped fb boot_heap" "\<And>h. fb h \<noteq> []" by blast
  have cb: "can_alloc (class_of 64) boot_heap" using domain_head(2) [OF fb(1)] fb(2) by (simp add: can_alloc_def)
  from boot_vm_inv [OF boot_state_ok] obtain t u where
    u: "init_paging boot_state = Inr ((), t)" "init_pmm t = Inr ((), u)" "vm_inv {KDir} {} u" "261120 \<le> card (free_low u)" by blast
  have "5384 \<le> card (free_low u)" using u(4) by simp
  from init_all_heaps_run [OF u(3) this] u(1,2) have "init_memory boot_state = Inr ((), boot_heap)"
    by (auto simp: init_memory_def boot_heap_def)
  from heap_run.boot [OF boot_state_ok this] have r0: "heap_run boot_heap {}" .
  from heap_domain_alloc_spec [OF fb(1) cb] have "kmalloc 64 boot_heap = Inr (demo_block, demo_heap)"
    by (auto simp: kmalloc_class demo_block_def demo_heap_def)
  from heap_run.alloc [OF r0 _ cb this] show ?thesis by simp
qed

lemma demo_can_alloc: "can_alloc (class_of 64) demo_heap"
proof -
  from demo_heap_inv obtain fl where fl: "heap_inv UNIV premapped fl demo_heap" "fl (class_of 64) \<noteq> []" by blast
  then show ?thesis using domain_head(2) [OF fl(1)] by (simp add: can_alloc_def)
qed

text \<open>A second allocation: two live blocks of the class of 64 bytes.\<close>

lemma demo_two_blocks:
  "\<exists>s p. heap_run s {p, demo_block} \<and> p \<noteq> demo_block \<and> in_region Heap_64 (frame_of p) \<and> in_region Heap_64 (frame_of demo_block)
     \<and> p \<in> block_words Heap_64 p \<and> demo_block \<in> block_words Heap_64 demo_block"
proof -
  have h: "class_of 64 = Heap_64" by (simp add: class_of_def)
  from demo_heap_inv obtain fl where fl: "heap_inv UNIV premapped fl demo_heap" "demo_block \<in> allocated premapped fl (class_of 64)" by blast
  from heap_domain_alloc_spec [OF fl(1) demo_can_alloc] obtain p V' fl' s' where
    a: "heap_domain_alloc (class_of 64) demo_heap = Inr (p, s')" "alloc_spec (class_of 64) premapped fl demo_heap p V' fl' s'" by blast
  have p: "p \<in> blocks V' Heap_64" "p \<notin> allocated premapped fl Heap_64" using a(2) by (auto simp: alloc_spec_def h)
  have d: "demo_block \<in> blocks premapped Heap_64" using fl(2) by (simp add: h allocated_def)
  have "kmalloc 64 demo_heap = Inr (p, s')" using a(1) by (simp add: kmalloc_class)
  from heap_run.alloc [OF demo_heap_run _ demo_can_alloc this] have "heap_run s' {p, demo_block}" by simp
  moreover have "p \<noteq> demo_block" using p(2) fl(2) h by auto
  moreover have "in_region Heap_64 (frame_of p)" "in_region Heap_64 (frame_of demo_block)" using p(1) d by (auto simp: blocks_def)
  ultimately show ?thesis using block_word_self [OF p(1)] block_word_self [OF d] by blast
qed

text \<open>
  In every state reached by any sequence of allocations, releases of live blocks and writes into live
  blocks, from a booted kernel, the live blocks are aligned blocks of the size classes, an allocation
  that can succeed does, returns a block that is not live, and its memory is disjoint from that of
  every live block.
\<close>

theorem heap_run_safe:
  assumes run: "heap_run s L" and sz: "sz \<le> 4096" and c: "can_alloc (class_of sz) s"
  shows "\<exists>p s'. kmalloc sz s = Inr (p, s') \<and> p \<noteq> 0 \<and> p \<notin> L \<and> unat (bsize (class_of sz)) dvd unat p \<and> sz \<le> bsize (class_of sz)
     \<and> (\<forall>q\<in>L. \<exists>h. unat (bsize h) dvd unat q \<and> in_region h (frame_of q)
          \<and> block_words (class_of sz) p \<inter> block_words h q = {})"
proof -
  from heap_run_inv [OF run] obtain V fl where inv: "heap_inv UNIV V fl s" and L: "L = live V fl" by blast
  from heap_domain_alloc_spec [OF inv c] obtain p V' fl' s' where
    a: "heap_domain_alloc (class_of sz) s = Inr (p, s')" "alloc_spec (class_of sz) V fl s p V' fl' s'" by blast
  have pb: "p \<in> blocks V' (class_of sz)" "V \<subseteq> V'" "p \<notin> allocated V fl (class_of sz)" "p \<noteq> 0"
    using a(2) by (auto simp: alloc_spec_def)
  have nl: "p \<notin> L"
  proof
    assume "p \<in> L"
    then obtain g where g: "p \<in> allocated V fl g" unfolding L live_def by blast
    then have "p \<in> blocks V' g" using pb(2) by (auto simp: allocated_def blocks_def)
    then show False using g pb(3) blocks_disjoint [OF pb(1)] by blast
  qed
  have "\<exists>h. unat (bsize h) dvd unat q \<and> in_region h (frame_of q) \<and> block_words (class_of sz) p \<inter> block_words h q = {}" if q: "q \<in> L" for q
  proof -
    from live_class q obtain h where h: "q \<in> allocated V fl h" "in_region h (frame_of q)" unfolding L by blast
    then have qb: "q \<in> blocks V' h" "unat (bsize h) dvd unat q" using pb(2) by (auto simp: allocated_def blocks_def)
    have "p \<noteq> q" using q nl by auto
    then have "block_words (class_of sz) p \<inter> block_words h q = {}"
      using block_words_disjoint [OF pb(1) qb(1)] by blast
    then show ?thesis using qb h(2) by blast
  qed
  then show ?thesis
    using a(1) pb nl class_of_least(1) [OF sz] by (simp add: kmalloc_class [OF sz] blocks_def)
qed

theorem heap_run_safe_witness:
  "\<exists>p s'. kmalloc 64 demo_heap = Inr (p, s') \<and> p \<noteq> 0 \<and> p \<notin> {demo_block} \<and> unat (bsize (class_of 64)) dvd unat p
     \<and> 64 \<le> bsize (class_of 64) \<and> (\<forall>q\<in>{demo_block}. \<exists>h. unat (bsize h) dvd unat q \<and> in_region h (frame_of q)
          \<and> block_words (class_of 64) p \<inter> block_words h q = {})"
  using heap_run_safe [OF demo_heap_run _ demo_can_alloc] by simp

text \<open>
  Isolation of blocks: in every reachable state two different live blocks, of one class or of two, never
  share physical memory.  Every word of either is mapped, the two words are different physical words, and
  neither lies in the kernel image, a page directory or a page table.
\<close>

theorem blocks_isolated:
  assumes run: "heap_run s L" and p: "p \<in> L" "q \<in> L" "p \<noteq> q"
    and r: "in_region h (frame_of p)" "in_region g (frame_of q)"
    and a: "a \<in> block_words h p" "b \<in> block_words g q"
  shows "\<exists>x y. translate (mem s) (cr3 s) a = Some x \<and> translate (mem s) (cr3 s) b = Some y \<and> x \<noteq> y
     \<and> (\<forall>d. frame_of x \<notin> own (mem s) (dir_of s d)) \<and> safe_frame s \<le> frame_of x"
proof -
  from heap_run_inv [OF run] obtain V fl where inv: "heap_inv UNIV V fl s" and L: "L = live V fl" by blast
  have "p \<in> blocks V h" "q \<in> blocks V g"
    using live_class [of p V fl] live_class [of q V fl] p(1,2) r region_unique unfolding L by (auto simp: allocated_def)
  from words_isolated [OF inv this p(3) a] show ?thesis .
qed

theorem blocks_isolated_witness:
  "\<exists>s p x y. heap_run s {p, demo_block} \<and> p \<noteq> demo_block
     \<and> translate (mem s) (cr3 s) p = Some x \<and> translate (mem s) (cr3 s) demo_block = Some y \<and> x \<noteq> y
     \<and> (\<forall>d. frame_of x \<notin> own (mem s) (dir_of s d)) \<and> safe_frame s \<le> frame_of x"
proof -
  from demo_two_blocks obtain s p where p: "heap_run s {p, demo_block}" "p \<noteq> demo_block"
    "in_region Heap_64 (frame_of p)" "in_region Heap_64 (frame_of demo_block)"
    "p \<in> block_words Heap_64 p" "demo_block \<in> block_words Heap_64 demo_block" by blast
  from blocks_isolated [OF p(1) _ _ p(2-6)] p(1,2) show ?thesis by blast
qed

text \<open>
  In every reachable state each page that holds a live block is mapped twice, by the kernel's directory and
  by the directory of its class, to the same frame, which is marked in the bitmap, and no page with a live
  block of another page shares it.
\<close>

theorem double_mapping:
  assumes run: "heap_run s L" and p: "p \<in> L" "in_region h (frame_of p)"
  shows "\<exists>f. ptrans (mem s) (kernel_page_dir s - 0xC0000000) (frame_of p) = Some f
     \<and> ptrans (mem s) (page_directory (heaps s h) - 0xC0000000) (frame_of p) = Some f \<and> f \<in> used s
     \<and> (\<forall>q\<in>L. frame_of q \<noteq> frame_of p \<longrightarrow> ptrans (mem s) (kernel_page_dir s - 0xC0000000) (frame_of q) \<noteq> Some f)"
proof -
  from heap_run_inv [OF run] obtain V fl where inv: "heap_inv UNIV V fl s" and L: "L = live V fl" by blast
  have V: "frame_of q \<in> V" if "q \<in> L" for q using that unfolding L by (auto simp: live_def allocated_def blocks_def)
  from mapped_twice [OF inv V [OF p(1)] p(2)] V show ?thesis by blast
qed

theorem double_mapping_witness:
  "\<exists>f. ptrans (mem demo_heap) (kernel_page_dir demo_heap - 0xC0000000) (frame_of demo_block) = Some f
     \<and> ptrans (mem demo_heap) (page_directory (heaps demo_heap Heap_64) - 0xC0000000) (frame_of demo_block) = Some f
     \<and> f \<in> used demo_heap"
proof -
  from demo_two_blocks have "in_region Heap_64 (frame_of demo_block)" by blast
  from double_mapping [OF demo_heap_run _ this] show ?thesis by blast
qed

end
