(* ===== verification/Ram.thy ===== *)
theory Ram
  imports Heap_Invariant
begin

unbundle bit_operations_syntax

text \<open>
  Memory as the rest of the kernel sees it: the heap's data pages together with the static objects of
  the kernel image below its page directory, word by word and byte by byte.
\<close>

section \<open>Static objects of the kernel image\<close>

text \<open>
  The linker places the page directory and the page tables behind every other static object
  (\<^verbatim>\<open>linker.ld\<close>), so the frames below that of the directory hold code and static data only.
\<close>

definition image_addrs :: "kstate \<Rightarrow> u32 set" where
  "image_addrs s = {a. \<exists>b. a = b + 0xC0000000 \<and> frame_of b < frame_of (dir_of s KDir) \<and> word_aligned b}"

definition ram_addrs :: "nat set \<Rightarrow> kstate \<Rightarrow> u32 set" where
  "ram_addrs V s = data_addrs V \<union> image_addrs s"

lemma own_above_image:
  assumes "vm_inv A V s" "d \<in> A" "n < frame_of (dir_of s KDir)"
  shows "n \<notin> own (mem s) (dir_of s d)" "n \<notin> ktabs (mem s) (dir_of s d)" "n < safe_frame s"
proof -
  note vm = vm_invD(4) [OF assms(1)]
  have sf: "frame_of (dir_of s KDir) < safe_frame s" by (rule vm_okD(2) [OF vm])
  show "n \<notin> own (mem s) (dir_of s d)" using own_frame [OF vm assms(2)] sf assms(3) by fastforce
  show "n \<notin> ktabs (mem s) (dir_of s d)" using dir_okD(4) [OF vm_okD(5) [OF vm assms(2)]] assms(3) by fastforce
  show "n < safe_frame s" using sf assms(3) by simp
qed

lemma image_addrs_cong: "s\<lparr>mem := mem s0\<rparr> = s0 \<Longrightarrow> dir_of s = dir_of s0 \<and> image_addrs s = image_addrs s0"
proof -
  assume "s\<lparr>mem := mem s0\<rparr> = s0"
  moreover have "dir_of (s\<lparr>mem := m\<rparr>) = dir_of s" for m by (intro ext) (simp add: dir_of_def split: dir_id.split)
  ultimately have "dir_of s = dir_of s0" by metis
  then show ?thesis by (simp add: image_addrs_def)
qed

lemma ram_placed:
  assumes "vm_inv A V s" "a \<in> ram_addrs V s"
  shows "\<exists>pa. translate (mem s) (cr3 s) a = Some pa \<and> word_aligned a
    \<and> (\<forall>d\<in>A. frame_of pa \<notin> own (mem s) (dir_of s d) \<and> frame_of pa \<notin> ktabs (mem s) (dir_of s d))
    \<and> (a \<in> data_addrs V \<longrightarrow> safe_frame s \<le> frame_of pa) \<and> (a \<notin> data_addrs V \<longrightarrow> a = pa + 0xC0000000 \<and> frame_of pa < safe_frame s)"
proof (cases "a \<in> data_addrs V")
  case True
  then have a: "frame_of a \<in> V" "word_aligned a" by (auto simp: data_addrs_def)
  from data_addr [OF assms(1) a(1)] obtain f where
    f: "translate (mem s) (cr3 s) a = Some (addr_of_frame f OR (a AND 0xFFF))" "safe_frame s \<le> f" "f < 0x40000"
      "\<forall>d\<in>A. f \<notin> own (mem s) (dir_of s d)" by blast
  have fr: "frame_of (addr_of_frame f OR (a AND 0xFFF)) = f" using f(3) by (simp add: frame_of_data)
  have "\<forall>d\<in>A. f \<notin> ktabs (mem s) (dir_of s d)" using not_ktab [OF vm_invD(4) [OF assms(1)]] f(2) by blast
  then show ?thesis using f a True by (auto simp: fr)
next
  case False
  then obtain b where b: "a = b + 0xC0000000" "frame_of b < frame_of (dir_of s KDir)" "word_aligned b"
    using assms(2) by (auto simp: ram_addrs_def image_addrs_def)
  note o = own_above_image [OF assms(1) _ b(2)]
  have low: "unat b < 0x40000000"
    using o(3) [OF vm_invD(5) [OF assms(1)]] vm_okD(3) [OF vm_invD(4) [OF assms(1)]] by (intro frame_low_unat) simp
  have "translate (mem s) (cr3 s) a = Some b"
    unfolding b(1) by (rule translate_direct [OF vm_invD(6,7) [OF assms(1)] low])
  then show ?thesis using b low o(1,2) o(3) [OF vm_invD(5) [OF assms(1)]] False high_half(4) [OF low] by auto
qed

lemma ram_inj:
  assumes "vm_inv A V s" "a \<in> ram_addrs V s" "b \<in> ram_addrs V s"
    "translate (mem s) (cr3 s) a = translate (mem s) (cr3 s) b"
  shows "a = b"
proof (cases "a \<in> data_addrs V \<and> b \<in> data_addrs V")
  case True
  then show ?thesis using translate_inj [OF assms(1) _ _ assms(4)] by (simp add: data_addrs_def)
next
  case False
  from ram_placed [OF assms(1,2)] obtain pa where pa: "translate (mem s) (cr3 s) a = Some pa"
    "a \<in> data_addrs V \<longrightarrow> safe_frame s \<le> frame_of pa" "a \<notin> data_addrs V \<longrightarrow> a = pa + 0xC0000000 \<and> frame_of pa < safe_frame s" by blast
  from ram_placed [OF assms(1,3)] obtain pb where pb: "translate (mem s) (cr3 s) b = Some pb"
    "b \<in> data_addrs V \<longrightarrow> safe_frame s \<le> frame_of pb" "b \<notin> data_addrs V \<longrightarrow> b = pb + 0xC0000000 \<and> frame_of pb < safe_frame s" by blast
  have "pa = pb" using pa(1) pb(1) assms(4) by simp
  then show ?thesis using False pa(2,3) pb(2,3) by (metis not_le)
qed

interpretation ram: word_memory load32 store32 "mem_only_ok A V s0" "ram_addrs V s0" for A V s0
proof (unfold_locales, goal_cases)
  case (1 s a)
  then have fr: "s\<lparr>mem := mem s0\<rparr> = s0" by simp
  have "ram_addrs V s = ram_addrs V s0" using image_addrs_cong [OF fr] by (simp add: ram_addrs_def)
  then show ?case using 1 ram_placed [of A V s a] by (auto simp: load32_def)
next
  case (2 s a w)
  then have vm: "vm_inv A V s" and fr: "s\<lparr>mem := mem s0\<rparr> = s0" by auto
  have ra: "ram_addrs V s0 = ram_addrs V s" using image_addrs_cong [OF fr] by (simp add: ram_addrs_def)
  have as: "a \<in> ram_addrs V s" using 2(2) by (simp add: ra)
  from ram_placed [OF vm as] obtain pa where pa: "translate (mem s) (cr3 s) a = Some pa" "word_aligned a"
    "\<And>d. d \<in> A \<Longrightarrow> frame_of pa \<notin> own (mem s) (dir_of s d)" "\<And>d. d \<in> A \<Longrightarrow> frame_of pa \<notin> ktabs (mem s) (dir_of s d)" by blast
  let ?t = "s\<lparr>mem := (mem s)(pa := w)\<rparr>"
  have fw: "vm_ok A V (dir_of s) ((mem s)(pa := w)) (used s) (safe_frame s)"
    "d \<in> A \<Longrightarrow> q < 1048576 \<Longrightarrow> ptrans ((mem s)(pa := w)) (dir_of s d) q = ptrans (mem s) (dir_of s d) q"
    "d \<in> A \<Longrightarrow> own ((mem s)(pa := w)) (dir_of s d) = own (mem s) (dir_of s d)" for d q
    using vm_ok_foreign_write [OF vm_invD(4) [OF vm], where a = pa and w = w] pa(3,4) by blast+
  have vt: "vm_inv A V ?t"
    by (rule vm_inv_cong [OF vm_frame_mem vm]) (use fw(1) vm_invD(1) [OF vm] in simp_all)
  have run: "store32 a w s = Inr ((), ?t)" using pa(1,2) by (simp add: store32_def)
  have tr: "translate (mem ?t) (cr3 ?t) b = translate (mem s) (cr3 s) b" for b
    using fw(2) [OF vm_invD(5) [OF vm] frame_of_lt [of b]] vm_invD(3) [OF vm]
      translate_wf [OF vm_invD(6) [OF vm], of b] translate_wf [OF vm_invD(6) [OF vt], of b] by simp
  have "load32 b ?t = Inr (if b = a then w else v, ?t)" if b: "b \<in> ram_addrs V s" "load32 b s = Inr (v, s)" for b v
  proof -
    from ram_placed [OF vm b(1)] obtain pb where pb: "translate (mem s) (cr3 s) b = Some pb" "word_aligned b" by blast
    have "pb = pa \<longleftrightarrow> b = a" using ram_inj [OF vm b(1) as] pb(1) pa(1) by auto
    then show ?thesis using b(2) pb tr [of b] by (auto simp: load32_def)
  qed
  moreover have "?t\<lparr>mem := mem s0\<rparr> = s0" using fr by simp
  ultimately show ?case using run vt by (auto simp: ra)
qed

section \<open>Bytes of words\<close>

text \<open>
  A byte access reads or rewrites the aligned word that holds the byte: memory is little-endian.
\<close>

definition word_base :: "u32 \<Rightarrow> u32" where
  "word_base a = a AND NOT 3"

definition byte_shift :: "u32 \<Rightarrow> nat" where
  "byte_shift a = 8 * unat (a AND 3)"

definition get_byte :: "u32 \<Rightarrow> u32 \<Rightarrow> u8" where
  "get_byte a w = ucast (drop_bit (byte_shift a) w)"

definition put_byte :: "u32 \<Rightarrow> u8 \<Rightarrow> u32 \<Rightarrow> u32" where
  "put_byte a b w = (w AND NOT (push_bit (byte_shift a) 0xFF)) OR push_bit (byte_shift a) (ucast b)"

definition rd8 :: "(u32 \<Rightarrow> ('s, u32) op) \<Rightarrow> u32 \<Rightarrow> ('s, u8) op" where
  "rd8 rd a = bnd (rd (word_base a)) (\<lambda>w. ret (get_byte a w))"

definition wr8 :: "(u32 \<Rightarrow> ('s, u32) op) \<Rightarrow> (u32 \<Rightarrow> u32 \<Rightarrow> ('s, unit) op) \<Rightarrow> u32 \<Rightarrow> u8 \<Rightarrow> ('s, unit) op" where
  "wr8 rd wr a b = bnd (rd (word_base a)) (\<lambda>w. wr (word_base a) (put_byte a b w))"

definition load8 :: "u32 \<Rightarrow> u8 kop" where
  "load8 = rd8 load32"

definition store8 :: "u32 \<Rightarrow> u8 \<Rightarrow> unit kop" where
  "store8 = wr8 load32 store32"

definition load16 :: "u32 \<Rightarrow> u16 kop" where
  "load16 a = bnd (load8 a) (\<lambda>lo. bnd (load8 (a + 1)) (\<lambda>hi. ret (ucast lo OR push_bit 8 (ucast hi))))"

definition store16 :: "u32 \<Rightarrow> u16 \<Rightarrow> unit kop" where
  "store16 a w = bnd (store8 a (ucast w)) (\<lambda>_. store8 (a + 1) (ucast (drop_bit 8 w)))"

definition bpeek :: "(u32 \<Rightarrow> ('s, u32) op) \<Rightarrow> 's \<Rightarrow> u32 \<Rightarrow> u8" where
  "bpeek rd s a = get_byte a (peek rd s (word_base a))"

lemma unat_word_base: "unat (word_base a) = unat a - unat a mod 4"
proof -
  have "word_base a = a - (a AND 3)"
  proof -
    have "a - (a AND 3) = a AND NOT (a AND 3)"
      by (rule disjunctive_diff_eq_and_not) (rule bit_word_eqI, simp add: bit_simps)
    also have "\<dots> = word_base a" unfolding word_base_def by (rule bit_word_eqI) (auto simp: bit_simps)
    finally show ?thesis by simp
  qed
  moreover have "(a AND 3) \<le> a" by (simp add: word_le_nat_alt unat_and_3)
  ultimately show ?thesis by (simp add: unat_sub unat_and_3)
qed

lemma word_base_aligned: "word_aligned (word_base a)"
  by (simp add: word_aligned_iff unat_word_base minus_mod_eq_mult_div)

lemma word_base_frame: "frame_of (word_base a) = frame_of a"
proof -
  have "unat (word_base a) div 4 = unat a div 4" by (simp add: unat_word_base minus_mod_eq_mult_div)
  moreover have "n div 4096 = n div 4 div 1024" for n :: nat by (simp add: div_mult2_eq [symmetric])
  ultimately show ?thesis unfolding frame_of_def by metis
qed

lemma byte_addr_eqI: "word_base a = word_base b \<Longrightarrow> byte_shift a = byte_shift b \<Longrightarrow> a = b"
proof -
  assume ab: "word_base a = word_base b" "byte_shift a = byte_shift b"
  have "unat a mod 4 = unat b mod 4" using ab(2) by (simp add: byte_shift_def unat_and_3)
  moreover have "unat a - unat a mod 4 = unat b - unat b mod 4" using ab(1) unat_word_base by metis
  ultimately show "a = b" by (intro u32_eqI) (metis le_add_diff_inverse2 mod_less_eq_dividend)
qed

lemma byte_shift_cases: "byte_shift a \<in> {0, 8, 16, 24}"
proof -
  have "unat (a AND 3) < 4" by (simp add: unat_and_3)
  then have "unat (a AND 3) \<in> {0, 1, 2, 3}" by auto
  then show ?thesis by (auto simp: byte_shift_def)
qed

lemma bit_255: "bit (255 :: u32) n \<longleftrightarrow> n < 8"
proof -
  have m: "(255 :: u32) = mask 8" by (simp add: mask_eq_exp_minus_1)
  show ?thesis unfolding m bit_mask_iff by auto
qed

lemma bit_put_byte:
  assumes "n < 32"
  shows "bit (put_byte a b w) n \<longleftrightarrow> (if byte_shift a \<le> n \<and> n < byte_shift a + 8 then bit b (n - byte_shift a) else bit w n)"
proof -
  have "n < byte_shift a + 8 \<longleftrightarrow> n - byte_shift a < 8" if "byte_shift a \<le> n" using that by arith
  moreover have "bit b k \<Longrightarrow> k < 8" for k using bit_imp_le_length [of b k] by simp
  moreover have "bit (put_byte a b w) n \<longleftrightarrow>
      bit w n \<and> \<not> (byte_shift a \<le> n \<and> n - byte_shift a < 8) \<or> byte_shift a \<le> n \<and> bit b (n - byte_shift a)"
    using assms unfolding put_byte_def bit_or_iff bit_and_iff bit_not_iff bit_push_bit_iff bit_unsigned_iff bit_255
    by auto
  ultimately show ?thesis by (cases "byte_shift a \<le> n") auto
qed

lemma bit_get_byte: "bit (get_byte c w) n \<longleftrightarrow> n < 8 \<and> bit w (byte_shift c + n)"
  by (auto simp: get_byte_def bit_unsigned_iff bit_drop_bit_eq)

lemma get_put_byte: "get_byte c (put_byte a b w) = (if byte_shift c = byte_shift a then b else get_byte c w)"
proof (rule bit_word_eqI)
  fix n assume "n < LENGTH(8)"
  then have n: "n < 8" by simp
  have lt: "byte_shift c + n < 32" using byte_shift_cases [of c] n by auto
  have iff: "byte_shift a \<le> byte_shift c + n \<and> byte_shift c + n < byte_shift a + 8 \<longleftrightarrow> byte_shift c = byte_shift a"
    using byte_shift_cases [of a] byte_shift_cases [of c] n by auto
  show "bit (get_byte c (put_byte a b w)) n = bit (if byte_shift c = byte_shift a then b else get_byte c w) n"
    using n by (simp add: bit_get_byte bit_put_byte [OF lt] iff)
qed

context word_memory
begin

lemma rd8_run: "ok s \<Longrightarrow> word_base a \<in> addrs \<Longrightarrow> rd8 rd a s = Inr (bpeek rd s a, s)"
  by (simp add: rd8_def rd_peek bpeek_def)

lemma wr8_run:
  assumes "ok s" "word_base a \<in> addrs"
  shows "\<exists>t. wr8 rd wr a b s = Inr ((), t) \<and> ok t
    \<and> (\<forall>c. word_base c \<in> addrs \<longrightarrow> bpeek rd t c = (if c = a then b else bpeek rd s c))
    \<and> (\<forall>c\<in>addrs. c \<noteq> word_base a \<longrightarrow> peek rd t c = peek rd s c)"
proof -
  let ?w = "put_byte a b (peek rd s (word_base a))"
  from wr_peek [OF assms, of ?w] obtain t where
    t: "wr (word_base a) ?w s = Inr ((), t)" "ok t" "\<And>c. c \<in> addrs \<Longrightarrow> peek rd t c = (if c = word_base a then ?w else peek rd s c)"
    by blast
  have "bpeek rd t c = (if c = a then b else bpeek rd s c)" if "word_base c \<in> addrs" for c
    using t(3) [OF that] byte_addr_eqI [of c a] by (auto simp: bpeek_def get_put_byte)
  then show ?thesis using t assms rd_peek [OF assms] by (auto simp: wr8_def)
qed

end

end
