(* ===== verification/Kutils.thy ===== *)
theory Kutils
  imports Kmalloc Ram
begin

unbundle bit_operations_syntax

text \<open>
  The string and memory helpers of \<^verbatim>\<open>lib/kutils.c\<close> and the string comparison of
  \<^verbatim>\<open>lib/raxzus_shell_ui.c\<close>.  A \<^verbatim>\<open>char*\<close> is an address, read and written byte by byte; a string
  literal of the source is the list of its bytes, its terminator implied.
\<close>

section \<open>Operations\<close>

fun kmemset_loop :: "u32 \<Rightarrow> u32 \<Rightarrow> nat \<Rightarrow> nat \<Rightarrow> unit kop" where
  "kmemset_loop p fill i 0 = ret ()"
| "kmemset_loop p fill i (Suc k) =
     bnd (store8 (p + of_nat i) (ucast fill)) (\<lambda>_. kmemset_loop p fill (i + 1) k)"

definition kmemset :: "u32 \<Rightarrow> u32 \<Rightarrow> u32 \<Rightarrow> unit kop" where
  "kmemset ptr fill sz = kmemset_loop ptr fill 0 (unat sz)"

text \<open>
  \<^verbatim>\<open>tokinize_words\<close>; the locals of its loop are \<^verbatim>\<open>sim_input\<close>, \<^verbatim>\<open>index\<close> and \<^verbatim>\<open>is_string\<close>.  The result
  is the array and the count that the source stores through \<^verbatim>\<open>parser_word_count\<close>.
\<close>

definition word_char :: "u32 \<Rightarrow> u32 \<times> u32 \<times> bool \<Rightarrow> (u32 \<times> u32 \<times> bool) kop" where
  "word_char argv = (\<lambda>(sim_input, index, is_string).
     bnd (load8 sim_input) (\<lambda>c.
     let is_string = (if c = 34 then \<not> is_string else is_string) in
     if c = 32 \<and> \<not> is_string then
       bnd (store8 sim_input 0) (\<lambda>_.
       bnd (store32 (argv + 4 * index) (sim_input + 1)) (\<lambda>_.
       ret (sim_input + 1, index + 1, is_string)))
     else ret (sim_input + 1, index, is_string)))"

definition tokinize_words :: "u32 \<Rightarrow> (u32 \<times> u32) kop" where
  "tokinize_words inp =
     bnd (kmalloc 200) (\<lambda>argv.
     bnd (store32 argv inp) (\<lambda>_.
     bnd (loop (\<lambda>(sim_input, _). bnd (load8 sim_input) (\<lambda>c. ret (c \<noteq> 0))) (word_char argv) (inp, 1, False))
       (\<lambda>(_, index, _). ret (argv, index))))"

text \<open>\<^verbatim>\<open>char\<close> is signed on this target.  The second local is False once the function has returned 0.\<close>

definition is_valid_number :: "u32 \<Rightarrow> bool kop" where
  "is_valid_number str =
     bnd (loop (\<lambda>(p, valid). if valid then bnd (load8 p) (\<lambda>c. ret (c \<noteq> 0)) else ret False)
       (\<lambda>(p, valid). bnd (load8 p) (\<lambda>c.
          if sint c < 48 \<or> sint c > 57 then ret (p, False) else ret (p + 1, True)))
       (str, True)) (\<lambda>(_, valid). ret valid)"

definition int_ok :: "int \<Rightarrow> bool" where
  "int_ok x \<longleftrightarrow> -2147483648 \<le> x \<and> x \<le> 2147483647"

definition check_int :: "int \<Rightarrow> int kop" where
  "check_int x = (if int_ok x then ret x else raise SignedOverflow)"

definition string_to_int :: "u32 \<Rightarrow> int kop" where
  "string_to_int inp =
     bnd (loop (\<lambda>(p, result). bnd (load8 p) (\<lambda>c. ret (c \<noteq> 0)))
       (\<lambda>(p, result). bnd (load8 p) (\<lambda>c.
          let digit = sint c - 48 in
          bnd (check_int (result * 10)) (\<lambda>tens.
          bnd (check_int (tens + digit)) (\<lambda>result.
          ret (p + 1, result)))))
       (inp, 0)) (\<lambda>(_, result). ret result)"

text \<open>
  The character of a string literal at an index, its terminator included; the third local of the
  loop is False once the function has returned 0.
\<close>

definition lit_char :: "u8 list \<Rightarrow> nat \<Rightarrow> u8" where
  "lit_char t i = (if i < length t then t ! i else 0)"

definition checkString :: "u32 \<Rightarrow> u8 list \<Rightarrow> bool kop" where
  "checkString inp compareString =
     bnd (loop (\<lambda>(i, same). if same then bnd (load8 (inp + of_nat i)) (\<lambda>c. ret (c \<noteq> 0 \<and> lit_char compareString i \<noteq> 0))
                            else ret False)
       (\<lambda>(i, same). bnd (load8 (inp + of_nat i)) (\<lambda>c.
          if c \<noteq> lit_char compareString i then ret (i, False) else ret (i + 1, True)))
       (0, True)) (\<lambda>(i, same).
     if \<not> same then ret False
     else bnd (load8 (inp + of_nat i)) (\<lambda>c.
       if c \<noteq> 0 \<and> lit_char compareString i = 0 then ret False
       else if c = 0 \<and> lit_char compareString i \<noteq> 0 then ret False
       else ret True))"

section \<open>Strings in memory\<close>

fun cstr :: "(u32 \<Rightarrow> u8) \<Rightarrow> u32 \<Rightarrow> u8 list \<Rightarrow> bool" where
  "cstr m p [] \<longleftrightarrow> m p = 0"
| "cstr m p (c # cs) \<longleftrightarrow> m p = c \<and> c \<noteq> 0 \<and> cstr m (p + 1) cs"

definition span :: "u32 \<Rightarrow> nat \<Rightarrow> u32 set" where
  "span p n = {p + of_nat i | i. i < n}"

definition byte_addrs :: "nat set \<Rightarrow> kstate \<Rightarrow> u32 set" where
  "byte_addrs V s = {a. word_base a \<in> ram_addrs V s}"

lemma span_0 [simp]: "span p 0 = {}"
  by (simp add: span_def)

lemma span_Suc: "span p (Suc n) = insert p (span (p + 1) n)"
proof -
  have "x \<in> span p (Suc n) \<longleftrightarrow> x \<in> insert p (span (p + 1) n)" for x
  proof
    assume "x \<in> span p (Suc n)"
    then obtain i where "x = p + of_nat i" "i < Suc n" by (auto simp: span_def)
    then show "x \<in> insert p (span (p + 1) n)" by (cases i) (auto simp: span_def algebra_simps)
  next
    assume "x \<in> insert p (span (p + 1) n)"
    then show "x \<in> span p (Suc n)"
    proof
      assume "x = p"
      then have "x = p + of_nat 0 \<and> 0 < Suc n" by simp
      then show ?thesis unfolding span_def by blast
    next
      assume "x \<in> span (p + 1) n"
      then obtain i where "x = p + 1 + of_nat i" "i < n" by (auto simp: span_def)
      then have "x = p + of_nat (Suc i) \<and> Suc i < Suc n" by (simp add: algebra_simps)
      then show ?thesis unfolding span_def by blast
    qed
  qed
  then show ?thesis by blast
qed

lemma cstr_cong: "(\<And>a. a \<in> span p (Suc (length cs)) \<Longrightarrow> m a = m' a) \<Longrightarrow> cstr m p cs \<longleftrightarrow> cstr m' p cs"
proof (induction cs arbitrary: p)
  case (Cons c cs)
  have "span (p + 1) (Suc (length cs)) \<subseteq> span p (Suc (length (c # cs)))"
    unfolding span_Suc [of p "length (c # cs)"] by auto
  then have "cstr m (p + 1) cs \<longleftrightarrow> cstr m' (p + 1) cs" by (intro Cons.IH Cons.prems) blast
  moreover have "m p = m' p" by (rule Cons.prems) (simp add: span_Suc)
  ultimately show ?case by simp
qed (simp add: span_Suc)

lemma load8_run:
  "mem_only_ok A V s0 s \<Longrightarrow> a \<in> byte_addrs V s0 \<Longrightarrow> load8 a s = Inr (bpeek load32 s a, s)"
  unfolding load8_def byte_addrs_def by (rule ram.rd8_run) auto

lemma store8_run:
  assumes "mem_only_ok A V s0 s" "a \<in> byte_addrs V s0"
  shows "\<exists>t. store8 a b s = Inr ((), t) \<and> mem_only_ok A V s0 t
    \<and> (\<forall>c\<in>byte_addrs V s0. bpeek load32 t c = (if c = a then b else bpeek load32 s c))
    \<and> (\<forall>c\<in>ram_addrs V s0. c \<noteq> word_base a \<longrightarrow> peek load32 t c = peek load32 s c)"
  using ram.wr8_run [OF assms(1), of a b] assms(2) unfolding store8_def byte_addrs_def by auto

section \<open>Numbers and comparison\<close>

definition digit :: "u8 \<Rightarrow> bool" where
  "digit c \<longleftrightarrow> 48 \<le> c \<and> c \<le> 57"

lemma sint_u8: "sint (c :: u8) = (if uint c < 128 then uint c else uint c - 256)"
proof -
  have r: "0 \<le> uint c" "uint c < 256" using uint_lt2p [of c] by simp_all
  have "(uint c + 128) mod 256 = (if uint c < 128 then uint c + 128 else uint c - 128)"
  proof (cases "uint c < 128")
    case False
    then have "(uint c - 128 + 256) mod 256 = uint c - 128" using r by (simp only: mod_add_self2) simp
    then show ?thesis using False by (simp add: add.commute)
  qed (use r in simp)
  then show ?thesis by (simp add: sint_uint signed_take_bit_eq_take_bit_shift take_bit_eq_mod)
qed

lemma digit_sint: "digit c \<longleftrightarrow> 48 \<le> sint c \<and> sint c \<le> 57"
  using uint_lt2p [of c] by (auto simp: digit_def word_le_def sint_u8)

text \<open>The bytes of a readable string.\<close>

definition readable :: "nat set \<Rightarrow> kstate \<Rightarrow> u32 \<Rightarrow> u8 list \<Rightarrow> bool" where
  "readable V s p cs \<longleftrightarrow> cstr (bpeek load32 s) p cs \<and> span p (Suc (length cs)) \<subseteq> byte_addrs V s"

lemma readable_Cons:
  "readable V s p (c # cs) \<longleftrightarrow> bpeek load32 s p = c \<and> c \<noteq> 0 \<and> p \<in> byte_addrs V s \<and> readable V s (p + 1) cs"
  unfolding readable_def by (simp add: span_Suc [of p "Suc (length cs)"]) auto

lemma readable_Nil: "readable V s p [] \<longleftrightarrow> bpeek load32 s p = 0 \<and> p \<in> byte_addrs V s"
  by (simp add: readable_def span_Suc)

lemma readable_nth:
  "readable V s p cs \<Longrightarrow> i \<le> length cs \<Longrightarrow>
    bpeek load32 s (p + of_nat i) = lit_char cs i \<and> p + of_nat i \<in> byte_addrs V s"
proof (induction cs arbitrary: p i)
  case Nil
  then show ?case by (simp add: readable_Nil lit_char_def)
next
  case (Cons c cs)
  then have c: "bpeek load32 s p = c" "p \<in> byte_addrs V s" "readable V s (p + 1) cs" by (auto simp: readable_Cons)
  show ?case
  proof (cases i)
    case 0
    then show ?thesis using c by (simp add: lit_char_def)
  next
    case (Suc j)
    then show ?thesis using Cons.IH [OF c(3), of j] Cons.prems(2) by (simp add: lit_char_def algebra_simps)
  qed
qed

lemma readable_nonzero: "readable V s p cs \<Longrightarrow> i < length cs \<Longrightarrow> cs ! i \<noteq> 0"
proof (induction cs arbitrary: p i)
  case (Cons c cs)
  then show ?case by (cases i) (auto simp: readable_Cons)
qed simp

lemma load8_vm: "vm_inv A V s \<Longrightarrow> a \<in> byte_addrs V s \<Longrightarrow> load8 a s = Inr (bpeek load32 s a, s)"
  by (rule load8_run [where ?s0.0 = s]) auto

lemma load8_readable:
  "vm_inv A V s \<Longrightarrow> readable V s p cs \<Longrightarrow> i \<le> length cs \<Longrightarrow> load8 (p + of_nat i) s = Inr (lit_char cs i, s)"
  using readable_nth load8_vm by metis

lemma checkString_run:
  assumes vm: "vm_inv A V s" and r: "readable V s p cs" and t: "0 \<notin> set t"
  shows "checkString p t s = Inr (cs = t, s)"
proof -
  let ?c = "\<lambda>(i, same). if same then bnd (load8 (p + of_nat i)) (\<lambda>c. ret (c \<noteq> 0 \<and> lit_char t i \<noteq> 0)) else ret False"
  let ?b = "\<lambda>(i, same). bnd (load8 (p + of_nat i)) (\<lambda>c. if c \<noteq> lit_char t i then ret (i, False) else ret (i + 1, True))"
  have t0: "lit_char t i = 0 \<longleftrightarrow> length t \<le> i" for i using t by (auto simp: lit_char_def in_set_conv_nth)
  have c0: "lit_char cs i = 0 \<longleftrightarrow> length cs \<le> i" for i using readable_nonzero [OF r] by (auto simp: lit_char_def)
  note ld = load8_readable [OF vm r]
  have "\<exists>j same. loop ?c ?b (i, True) s = Inr ((j, same), s) \<and>
      (if same then j \<le> length cs \<and> j \<le> length t \<and> take j cs = take j t \<and> (j = length cs \<or> j = length t) else cs \<noteq> t)"
    if "i \<le> length cs" "i \<le> length t" "take i cs = take i t" for i
    using that
  proof (induction "length cs - i" arbitrary: i)
    case 0
    then have "?c (i, True) s = Inr (False, s)" using ld [of i] c0 [of i] by simp
    from loop_done [of ?c "(i, True)" s s ?b, OF this] 0 show ?case by auto
  next
    case (Suc n)
    then have i: "i < length cs" by simp
    show ?case
    proof (cases "i < length t")
      case False
      then have "?c (i, True) s = Inr (False, s)" using ld [of i] t0 [of i] i by simp
      from loop_done [of ?c "(i, True)" s s ?b, OF this] Suc False show ?thesis by auto
    next
      case True
      have go: "?c (i, True) s = Inr (True, s)" using ld [of i] t0 [of i] c0 [of i] i True by simp
      show ?thesis
      proof (cases "cs ! i = t ! i")
        case eq: True
        then have "?b (i, True) s = Inr ((i + 1, True), s)" using ld [of i] i True by (simp add: lit_char_def)
        from loop_more [of ?c "(i, True)" s s ?b, OF go this] Suc.hyps(1) [of "Suc i"] Suc.hyps(2) Suc.prems i True eq
        show ?thesis by (simp add: take_Suc_conv_app_nth)
      next
        case ne: False
        then have "?b (i, True) s = Inr ((i, False), s)" using ld [of i] i True by (simp add: lit_char_def)
        from loop_more [of ?c "(i, True)" s s ?b, OF go this] loop_done [of ?c "(i, False)" s s ?b] ne
        show ?thesis by auto
      qed
    qed
  qed
  from this [of 0] obtain j same where l: "loop ?c ?b (0, True) s = Inr ((j, same), s)"
    "if same then j \<le> length cs \<and> j \<le> length t \<and> take j cs = take j t \<and> (j = length cs \<or> j = length t) else cs \<noteq> t" by auto
  show ?thesis
  proof (cases same)
    case False
    then show ?thesis using l by (simp add: checkString_def)
  next
    case True
    then have j: "j \<le> length cs" "j \<le> length t" "take j cs = take j t" "j = length cs \<or> j = length t" using l(2) by auto
    have "cs = t \<longleftrightarrow> length cs = j \<and> length t = j" using j by (metis le_eq_less_or_eq take_all_iff)
    then show ?thesis using l(1) True ld [OF j(1)] j(4) c0 [of j] t0 [of j] j(1,2) by (auto simp: checkString_def)
  qed
qed

lemma is_valid_number_run:
  assumes vm: "vm_inv A V s" and r: "readable V s p cs"
  shows "is_valid_number p s = Inr (\<forall>c\<in>set cs. digit c, s)"
proof -
  let ?c = "\<lambda>(p, valid). if valid then bnd (load8 p) (\<lambda>c. ret (c \<noteq> 0)) else ret False"
  let ?b = "\<lambda>(p, valid). bnd (load8 p) (\<lambda>c. if sint c < 48 \<or> sint c > 57 then ret (p, False) else ret (p + 1, True))"
  have "\<exists>q. loop ?c ?b (p, True) s = Inr ((q, \<forall>c\<in>set cs. digit c), s)" using r
  proof (induction cs arbitrary: p)
    case Nil
    then have "?c (p, True) s = Inr (False, s)" using load8_vm [OF vm] by (simp add: readable_Nil)
    from loop_done [of ?c "(p, True)" s s ?b, OF this] show ?case by simp
  next
    case (Cons c cs)
    then have c: "bpeek load32 s p = c" "c \<noteq> 0" "p \<in> byte_addrs V s" "readable V s (p + 1) cs" by (auto simp: readable_Cons)
    note ld = load8_vm [OF vm c(3), unfolded c(1)]
    have go: "?c (p, True) s = Inr (True, s)" using ld c(2) by simp
    show ?case
    proof (cases "digit c")
      case True
      then have "?b (p, True) s = Inr ((p + 1, True), s)" using ld by (auto simp: digit_sint)
      from loop_more [of ?c "(p, True)" s s ?b, OF go this] Cons.IH [OF c(4)] True show ?thesis by simp
    next
      case False
      then have "?b (p, True) s = Inr ((p, False), s)" using ld by (auto simp: digit_sint)
      from loop_more [of ?c "(p, True)" s s ?b, OF go this] loop_done [of ?c "(p, False)" s s ?b] False show ?thesis by simp
    qed
  qed
  then show ?thesis by (auto simp: is_valid_number_def)
qed

text \<open>The value of a string of digits, read from the left onto \<open>r\<close>.\<close>

fun dec_value :: "int \<Rightarrow> u8 list \<Rightarrow> int" where
  "dec_value r [] = r"
| "dec_value r (c # cs) = dec_value (r * 10 + (uint c - 48)) cs"

lemma dec_value_mono: "0 \<le> r \<Longrightarrow> \<forall>c\<in>set cs. digit c \<Longrightarrow> r \<le> dec_value r cs"
proof (induction cs arbitrary: r)
  case (Cons c cs)
  have "0 \<le> uint c - 48" using Cons.prems(2) by (auto simp: digit_def word_le_def)
  then show ?case using Cons.IH [of "r * 10 + (uint c - 48)"] Cons.prems by auto
qed simp

lemma digit_sint_uint: "digit c \<Longrightarrow> sint c = uint c"
  by (auto simp: digit_def word_le_def sint_u8)

lemma string_to_int_run:
  assumes vm: "vm_inv A V s" and r: "readable V s p cs" and d: "\<forall>c\<in>set cs. digit c"
  shows "string_to_int p s = (if dec_value 0 cs \<le> 2147483647 then Inr (dec_value 0 cs, s) else Inl SignedOverflow)"
proof -
  define test where "test = (\<lambda>(p :: u32, result :: int). bnd (load8 p) (\<lambda>c. ret (c \<noteq> 0)))"
  define body where "body = (\<lambda>(p :: u32, result). bnd (load8 p) (\<lambda>c. let digit = sint c - 48 in
     bnd (check_int (result * 10)) (\<lambda>tens. bnd (check_int (tens + digit)) (\<lambda>result. ret (p + 1, result)))))"
  have "\<exists>q. loop test body (p, n) s = (if dec_value n cs \<le> 2147483647 then Inr ((q, dec_value n cs), s) else Inl SignedOverflow)"
    if "0 \<le> n" "n \<le> 2147483647" for n
    using r d that
  proof (induction cs arbitrary: p n)
    case Nil
    then have "test (p, n) s = Inr (False, s)" using load8_vm [OF vm] by (simp add: readable_Nil test_def)
    from loop_done [of test "(p, n)" s s body, OF this] Nil.prems show ?case by simp
  next
    case (Cons c cs)
    then have c: "bpeek load32 s p = c" "c \<noteq> 0" "p \<in> byte_addrs V s" "readable V s (p + 1) cs" "digit c"
      by (auto simp: readable_Cons)
    note ld = load8_vm [OF vm c(3), unfolded c(1)]
    have go: "test (p, n) s = Inr (True, s)" using ld c(2) by (simp add: test_def)
    let ?n = "n * 10 + (uint c - 48)"
    have "48 \<le> uint c" using c(5) by (simp add: digit_def word_le_def)
    note u = digit_sint_uint [OF c(5)] this
    have "0 \<le> ?n" using Cons.prems(3) u(2) by simp
    then have mono: "?n \<le> dec_value ?n cs" using Cons.prems(2) by (intro dec_value_mono) simp_all
    show ?case
    proof (cases "?n \<le> 2147483647")
      case True
      then have "body (p, n) s = Inr ((p + 1, ?n), s)" using ld u Cons.prems(3,4) by (simp add: check_int_def int_ok_def body_def)
      from loop_more [of test "(p, n)" s s body, OF go this] Cons.IH [OF c(4), of ?n] Cons.prems(2) True \<open>0 \<le> ?n\<close> show ?thesis by (auto split: if_splits)
    next
      case False
      then have "body (p, n) s = Inl SignedOverflow" using ld u Cons.prems(3,4) by (simp add: check_int_def int_ok_def body_def)
      then have "loop test body (p, n) s = Inl SignedOverflow" using go by (simp add: loop_unfold [of test body])
      then show ?thesis using False mono by simp
    qed
  qed
  from this [of 0] obtain q where
    q: "loop test body (p, 0) s = (if dec_value 0 cs \<le> 2147483647 then Inr ((q, dec_value 0 cs), s) else Inl SignedOverflow)"
    by auto
  have "string_to_int p = bnd (loop test body (p, 0)) (\<lambda>(_, result). ret result)"
    unfolding string_to_int_def test_def body_def ..
  then show ?thesis using q by simp
qed

section \<open>Filling memory\<close>

lemma span_mono: "m \<le> n \<Longrightarrow> span p m \<subseteq> span p n"
  by (auto simp: span_def)

lemma span_snoc: "span p (Suc n) = insert (p + of_nat n) (span p n)"
  by (auto simp: span_def less_Suc_eq)

lemma kmemset_loop_run:
  assumes "mem_only_ok A V s0 s" "span p (i + k) \<subseteq> byte_addrs V s0"
  shows "\<exists>t. kmemset_loop p fill i k s = Inr ((), t) \<and> mem_only_ok A V s0 t
    \<and> (\<forall>a\<in>byte_addrs V s0. bpeek load32 t a = (if \<exists>j. i \<le> j \<and> j < i + k \<and> a = p + of_nat j then ucast fill else bpeek load32 s a))"
  using assms
proof (induction k arbitrary: i s)
  case 0
  have "\<not> (\<exists>j. i \<le> j \<and> j < i + 0 \<and> a = p + of_nat j)" for a by auto
  then show ?case using 0 by (intro exI [of _ s] conjI ballI) (simp_all only: kmemset_loop.simps ret_run if_False simp_thms)
next
  case (Suc k)
  have "p + of_nat i \<in> span p (i + Suc k)" unfolding span_def by (intro CollectI exI [of _ i]) simp
  then have "p + of_nat i \<in> byte_addrs V s0" using Suc.prems(2) by blast
  from store8_run [OF Suc.prems(1) this, of "ucast fill"] obtain u where
    u: "store8 (p + of_nat i) (ucast fill) s = Inr ((), u)" "mem_only_ok A V s0 u"
      "\<And>a. a \<in> byte_addrs V s0 \<Longrightarrow> bpeek load32 u a = (if a = p + of_nat i then ucast fill else bpeek load32 s a)" by blast
  from Suc.IH [OF u(2), of "i + 1"] Suc.prems(2) obtain t where
    t: "kmemset_loop p fill (i + 1) k u = Inr ((), t)" "mem_only_ok A V s0 t"
      "\<And>a. a \<in> byte_addrs V s0 \<Longrightarrow> bpeek load32 t a = (if \<exists>j. i + 1 \<le> j \<and> j < i + 1 + k \<and> a = p + of_nat j then ucast fill else bpeek load32 u a)"
    by auto
  have ex: "(\<exists>j. i \<le> j \<and> j < i + Suc k \<and> a = p + of_nat j) \<longleftrightarrow> a = p + of_nat i \<or> (\<exists>j. i + 1 \<le> j \<and> j < i + 1 + k \<and> a = p + of_nat j)" for a
  proof
    assume "\<exists>j. i \<le> j \<and> j < i + Suc k \<and> a = p + of_nat j"
    then obtain j where j: "i \<le> j" "j < i + Suc k" "a = p + of_nat j" by blast
    then show "a = p + of_nat i \<or> (\<exists>j. i + 1 \<le> j \<and> j < i + 1 + k \<and> a = p + of_nat j)"
      by (cases "j = i") (simp, intro disjI2 exI [of _ j], simp)
  next
    assume "a = p + of_nat i \<or> (\<exists>j. i + 1 \<le> j \<and> j < i + 1 + k \<and> a = p + of_nat j)"
    then show "\<exists>j. i \<le> j \<and> j < i + Suc k \<and> a = p + of_nat j"
    proof
      assume "\<exists>j. i + 1 \<le> j \<and> j < i + 1 + k \<and> a = p + of_nat j"
      then obtain j where "i + 1 \<le> j" "j < i + 1 + k" "a = p + of_nat j" by blast
      then show ?thesis by (intro exI [of _ j]) simp
    qed (intro exI [of _ i], simp)
  qed
  have "bpeek load32 t a = (if \<exists>j. i \<le> j \<and> j < i + Suc k \<and> a = p + of_nat j then ucast fill else bpeek load32 s a)"
    if "a \<in> byte_addrs V s0" for a
    using t(3) [OF that] u(3) [OF that] unfolding ex by (auto split: if_splits)
  then show ?case using u(1) t(1,2) by auto
qed

lemma kmemset_run:
  assumes "mem_only_ok A V s0 s" "span p (unat n) \<subseteq> byte_addrs V s0"
  shows "\<exists>t. kmemset p fill n s = Inr ((), t) \<and> mem_only_ok A V s0 t
    \<and> (\<forall>a\<in>byte_addrs V s0. bpeek load32 t a = (if a \<in> span p (unat n) then ucast fill else bpeek load32 s a))"
proof -
  have "a \<in> span p k \<longleftrightarrow> (\<exists>j. 0 \<le> j \<and> j < 0 + k \<and> a = p + of_nat j)" for a k by (auto simp: span_def)
  then show ?thesis using kmemset_loop_run [OF assms(1), of p 0 "unat n" fill] assms(2) by (simp only: kmemset_def add_0)
qed

section \<open>Splitting a command line\<close>

text \<open>
  The words of a command line: a space separates two words unless it stands between quotes (a quote
  changes the mode before the space test).  \<open>word_starts\<close> are the addresses where they begin.
\<close>

fun split_words :: "bool \<Rightarrow> u8 list \<Rightarrow> u8 list list" where
  "split_words q [] = [[]]"
| "split_words q (c # cs) =
     (let q' = (if c = 34 then \<not> q else q) in
      if c = 32 \<and> \<not> q' then [] # split_words q' cs
      else case split_words q' cs of [] \<Rightarrow> [[c]] | w # ws \<Rightarrow> (c # w) # ws)"

fun word_starts :: "bool \<Rightarrow> u32 \<Rightarrow> u8 list \<Rightarrow> u32 list" where
  "word_starts q p [] = [p]"
| "word_starts q p (c # cs) =
     (let q' = (if c = 34 then \<not> q else q) in
      if c = 32 \<and> \<not> q' then p # word_starts q' (p + 1) cs
      else p # tl (word_starts q' (p + 1) cs))"

lemma split_words_ne [simp]: "split_words q cs \<noteq> []"
  by (induction q cs rule: split_words.induct) (auto simp: Let_def split: list.splits)

lemma word_starts_hd: "\<exists>xs. word_starts q p cs = p # xs"
  by (cases cs) (auto simp: Let_def)

lemma length_word_starts [simp]: "length (word_starts q p cs) = length (split_words q cs)"
proof (induction q cs arbitrary: p rule: split_words.induct)
  case (2 q c cs)
  then show ?case
    by (cases "split_words (if c = 34 then \<not> q else q) cs") (auto simp: Let_def dest: arg_cong [of _ "[]" length])
qed simp

lemma split_words_length: "length (split_words q cs) \<le> Suc (length cs)"
proof (induction q cs rule: split_words.induct)
  case (2 q c cs)
  then show ?case by (cases "split_words (if c = 34 then \<not> q else q) cs") (auto simp: Let_def)
qed simp

text \<open>The array that receives the pointers: 64 words apart from the bytes of the line.\<close>

definition slots :: "u32 \<Rightarrow> u32 set" where
  "slots argv = {argv + 4 * of_nat j | j. j < 64}"

definition apart :: "u32 \<Rightarrow> u32 set \<Rightarrow> bool" where
  "apart argv S \<longleftrightarrow> (\<forall>a\<in>S. word_base a \<notin> slots argv)"

lemma slot_in: "k < 64 \<Longrightarrow> argv + 4 * of_nat k \<in> slots argv"
  unfolding slots_def by blast

lemma slot_neq: "j < 64 \<Longrightarrow> k < 64 \<Longrightarrow> argv + 4 * of_nat j = argv + 4 * (of_nat k :: u32) \<longleftrightarrow> j = k"
proof -
  assume jk: "j < 64" "k < 64"
  have u: "unat (4 * of_nat i :: u32) = 4 * i" if "i < 64" for i using that by (simp add: unat_word_ariths unat_of_nat)
  show ?thesis
  proof
    assume "argv + 4 * of_nat j = argv + 4 * (of_nat k :: u32)"
    then have "(4 * of_nat j :: u32) = 4 * of_nat k" by simp
    then have "unat (4 * of_nat j :: u32) = unat (4 * of_nat k :: u32)" by (rule arg_cong)
    then have "4 * j = 4 * k" unfolding u [OF jk(1)] u [OF jk(2)] .
    then show "j = k" by simp
  qed simp
qed

lemma span_fresh: "n < 2 ^ 32 \<Longrightarrow> p \<notin> span (p + 1) (n - 1)"
proof
  assume n: "n < 2 ^ 32" and "p \<in> span (p + 1) (n - 1)"
  then obtain i where i: "i < n - 1" "p = p + 1 + of_nat i" by (auto simp: span_def)
  then have z: "(of_nat (Suc i) :: u32) = 0" by (simp add: algebra_simps)
  have "unat (of_nat (Suc i) :: u32) = Suc i" using i(1) n by (simp only: unat_of_nat) simp
  then show False unfolding z by simp
qed

text \<open>
  What the splitting of the line \<open>cs\<close> at \<open>p\<close> with \<open>k\<close> words before it has done when it ends in \<open>t\<close>.
\<close>

definition split_done :: "nat set \<Rightarrow> kstate \<Rightarrow> u32 \<Rightarrow> nat \<Rightarrow> bool \<Rightarrow> u32 \<Rightarrow> u8 list \<Rightarrow> kstate \<Rightarrow> kstate \<Rightarrow> bool" where
  "split_done V s0 argv k q p cs s t \<longleftrightarrow>
     (\<forall>j<length (split_words q cs). cstr (bpeek load32 t) (word_starts q p cs ! j) (split_words q cs ! j))
     \<and> (\<forall>j. 1 \<le> j \<and> j < length (split_words q cs) \<longrightarrow> peek load32 t (argv + 4 * of_nat (k + j - 1)) = word_starts q p cs ! j)
     \<and> (\<forall>a\<in>byte_addrs V s0. a \<notin> span p (length cs) \<longrightarrow> word_base a \<notin> slots argv \<longrightarrow> bpeek load32 t a = bpeek load32 s a)
     \<and> (\<forall>w\<in>ram_addrs V s0. (\<forall>a\<in>span p (length cs). w \<noteq> word_base a) \<longrightarrow>
          (\<forall>j. k \<le> j \<and> j < 64 \<longrightarrow> w \<noteq> argv + 4 * of_nat j) \<longrightarrow> peek load32 t w = peek load32 s w)"

lemma store32_ram:
  assumes "mem_only_ok A V s0 s" "x \<in> ram_addrs V s0"
  shows "\<exists>t. store32 x w s = Inr ((), t) \<and> mem_only_ok A V s0 t
    \<and> (\<forall>b\<in>ram_addrs V s0. peek load32 t b = (if b = x then w else peek load32 s b))
    \<and> (\<forall>a\<in>byte_addrs V s0. word_base a \<noteq> x \<longrightarrow> bpeek load32 t a = bpeek load32 s a)"
proof -
  from ram.wr_peek [OF assms, of w] obtain t where
    t: "store32 x w s = Inr ((), t)" "mem_only_ok A V s0 t" "\<forall>b\<in>ram_addrs V s0. peek load32 t b = (if b = x then w else peek load32 s b)"
    by blast
  then show ?thesis by (intro exI [of _ t]) (auto simp: bpeek_def byte_addrs_def)
qed

lemma apart_sub: "apart argv S \<Longrightarrow> T \<subseteq> S \<Longrightarrow> apart argv T"
  by (auto simp: apart_def)

lemma split_done_skip:
  assumes d: "split_done V s0 argv k q' (p + 1) cs s t" and q': "q' = (if c = 34 then \<not> q else q)" and c: "\<not> (c = 32 \<and> \<not> q')"
    and p: "bpeek load32 s p = c" "c \<noteq> 0" "p \<in> byte_addrs V s0" "word_base p \<notin> slots argv" "p \<notin> span (p + 1) (length cs)"
  shows "split_done V s0 argv k q p (c # cs) s t"
proof -
  obtain w ws where w: "split_words q' cs = w # ws" using split_words_ne by (meson neq_Nil_conv)
  obtain xs where x: "word_starts q' (p + 1) cs = (p + 1) # xs" using word_starts_hd by blast
  have eq: "split_words q (c # cs) = (c # w) # ws" "word_starts q p (c # cs) = p # xs"
    using w x c by (auto simp: Let_def simp flip: q')
  have old: "\<And>j. j < length (w # ws) \<Longrightarrow> cstr (bpeek load32 t) (((p + 1) # xs) ! j) ((w # ws) ! j)"
    "\<And>j. 1 \<le> j \<Longrightarrow> j < length (w # ws) \<Longrightarrow> peek load32 t (argv + 4 * of_nat (k + j - 1)) = ((p + 1) # xs) ! j"
    "\<And>a. a \<in> byte_addrs V s0 \<Longrightarrow> a \<notin> span (p + 1) (length cs) \<Longrightarrow> word_base a \<notin> slots argv \<Longrightarrow> bpeek load32 t a = bpeek load32 s a"
    "\<And>v. v \<in> ram_addrs V s0 \<Longrightarrow> (\<forall>a\<in>span (p + 1) (length cs). v \<noteq> word_base a) \<Longrightarrow>
          (\<forall>j. k \<le> j \<and> j < 64 \<longrightarrow> v \<noteq> argv + 4 * of_nat j) \<Longrightarrow> peek load32 t v = peek load32 s v"
    using d unfolding split_done_def w x by blast+
  have "bpeek load32 t p = c" using old(3) [OF p(3,5,4)] p(1) by simp
  then have "cstr (bpeek load32 t) ((p # xs) ! j) (((c # w) # ws) ! j)" if "j < length ((c # w) # ws)" for j
    using that old(1) [of j] p(2) by (cases j) auto
  moreover have "peek load32 t (argv + 4 * of_nat (k + j - 1)) = (p # xs) ! j" if "1 \<le> j" "j < length ((c # w) # ws)" for j
    using that old(2) [of j] by (cases j) auto
  ultimately show ?thesis unfolding split_done_def eq using old(3,4) by (auto simp: span_Suc)
qed

lemma split_done_split:
  assumes d: "split_done V s0 argv (Suc k) q' (p + 1) cs v t" and q': "q' = (if c = 34 then \<not> q else q)" and c: "c = 32 \<and> \<not> q'"
    and k: "1 \<le> k" "k < 64" and pv: "bpeek load32 v p = 0" "peek load32 v (argv + 4 * of_nat k) = p + 1"
    and p: "p \<in> byte_addrs V s0" "p \<notin> span (p + 1) (length cs)" "apart argv (span p (Suc (length cs)))" "slots argv \<subseteq> ram_addrs V s0"
    and vs: "\<And>a. a \<in> byte_addrs V s0 \<Longrightarrow> a \<noteq> p \<Longrightarrow> word_base a \<notin> slots argv \<Longrightarrow> bpeek load32 v a = bpeek load32 s a"
      "\<And>w. w \<in> ram_addrs V s0 \<Longrightarrow> w \<noteq> word_base p \<Longrightarrow> w \<noteq> argv + 4 * of_nat k \<Longrightarrow> peek load32 v w = peek load32 s w"
  shows "split_done V s0 argv k q p (c # cs) s t"
proof -
  obtain xs where x: "word_starts q' (p + 1) cs = (p + 1) # xs" using word_starts_hd by blast
  let ?ws = "split_words q' cs"
  have eq: "split_words q (c # cs) = [] # ?ws" "word_starts q p (c # cs) = p # (p + 1) # xs"
    using x c q' by (auto simp: Let_def)
  have old: "\<And>j. j < length ?ws \<Longrightarrow> cstr (bpeek load32 t) (((p + 1) # xs) ! j) (?ws ! j)"
    "\<And>j. 1 \<le> j \<Longrightarrow> j < length ?ws \<Longrightarrow> peek load32 t (argv + 4 * of_nat (Suc k + j - 1)) = ((p + 1) # xs) ! j"
    "\<And>a. a \<in> byte_addrs V s0 \<Longrightarrow> a \<notin> span (p + 1) (length cs) \<Longrightarrow> word_base a \<notin> slots argv \<Longrightarrow> bpeek load32 t a = bpeek load32 v a"
    "\<And>w. w \<in> ram_addrs V s0 \<Longrightarrow> (\<forall>a\<in>span (p + 1) (length cs). w \<noteq> word_base a) \<Longrightarrow>
          (\<forall>j. Suc k \<le> j \<and> j < 64 \<longrightarrow> w \<noteq> argv + 4 * of_nat j) \<Longrightarrow> peek load32 t w = peek load32 v w"
    using d unfolding split_done_def x by blast+
  have ap: "word_base a \<notin> slots argv" if "a \<in> insert p (span (p + 1) (length cs))" for a
    using that p(3) by (auto simp: apart_def span_Suc)
  have z: "bpeek load32 t p = 0" using old(3) [OF p(1,2) ap] pv(1) by simp
  have sl: "peek load32 t (argv + 4 * of_nat k) = p + 1"
  proof -
    have "peek load32 t (argv + 4 * of_nat k) = peek load32 v (argv + 4 * of_nat k)"
    proof (rule old(4))
      show "argv + 4 * of_nat k \<in> ram_addrs V s0" using p(4) slot_in [OF k(2)] by blast
      show "\<forall>a\<in>span (p + 1) (length cs). argv + 4 * of_nat k \<noteq> word_base a"
      proof
        fix a assume "a \<in> span (p + 1) (length cs)"
        then have "word_base a \<notin> slots argv" by (intro ap) simp
        then show "argv + 4 * of_nat k \<noteq> word_base a" using slot_in [OF k(2), of argv] by metis
      qed
      show "\<forall>j. Suc k \<le> j \<and> j < 64 \<longrightarrow> argv + 4 * of_nat k \<noteq> argv + 4 * of_nat j"
        using slot_neq [OF k(2)] by auto
    qed
    then show ?thesis using pv(2) by simp
  qed
  have "cstr (bpeek load32 t) ((p # (p + 1) # xs) ! j) (([] # ?ws) ! j)" if "j < length ([] # ?ws)" for j
    using that old(1) [of "j - 1"] z by (cases j) auto
  moreover have "peek load32 t (argv + 4 * of_nat (k + j - 1)) = (p # (p + 1) # xs) ! j" if j: "1 \<le> j" "j < length ([] # ?ws)" for j
  proof (cases "j = 1")
    case True
    then show ?thesis using sl by simp
  next
    case False
    then have "k + j - 1 = Suc k + (j - 1) - 1" "1 \<le> j - 1" "j - 1 < length ?ws" using j by auto
    then show ?thesis using old(2) [of "j - 1"] j by (simp add: nth_Cons')
  qed
  moreover have "bpeek load32 t a = bpeek load32 s a"
    if "a \<in> byte_addrs V s0" "a \<notin> span p (length (c # cs))" "word_base a \<notin> slots argv" for a
    using that old(3) [of a] vs(1) [of a] by (simp add: span_Suc)
  moreover have "peek load32 t w = peek load32 s w"
    if w: "w \<in> ram_addrs V s0" "\<forall>a\<in>span p (length (c # cs)). w \<noteq> word_base a" "\<forall>j. k \<le> j \<and> j < 64 \<longrightarrow> w \<noteq> argv + 4 * of_nat j" for w
  proof -
    have "w \<noteq> argv + 4 * of_nat k" "\<forall>j. Suc k \<le> j \<and> j < 64 \<longrightarrow> w \<noteq> argv + 4 * of_nat j" using w(3) k(2) by auto
    moreover have "w \<noteq> word_base p" "\<forall>a\<in>span (p + 1) (length cs). w \<noteq> word_base a" using w(2) by (auto simp: span_Suc)
    ultimately show ?thesis using old(4) [OF w(1)] vs(2) [OF w(1)] by simp
  qed
  ultimately show ?thesis unfolding split_done_def eq by blast
qed

definition more_chars :: "u32 \<times> u32 \<times> bool \<Rightarrow> bool kop" where
  "more_chars = (\<lambda>(sim_input, _). bnd (load8 sim_input) (\<lambda>c. ret (c \<noteq> 0)))"

lemma tokens_loop:
  assumes "mem_only_ok A V s0 s" "cstr (bpeek load32 s) p cs" "span p (Suc (length cs)) \<subseteq> byte_addrs V s0"
    "apart argv (span p (Suc (length cs)))" "slots argv \<subseteq> ram_addrs V s0"
    "k + length (split_words q cs) \<le> 65" "1 \<le> k" "length cs < 2 ^ 32 - 1"
  shows "\<exists>r q' t. loop more_chars (word_char argv) (p, of_nat k, q) s
      = Inr ((r, of_nat (k + length (split_words q cs) - 1), q'), t)
    \<and> mem_only_ok A V s0 t \<and> split_done V s0 argv k q p cs s t"
  using assms
proof (induction cs arbitrary: p k q s)
  case Nil
  have "more_chars (p, of_nat k, q) s = Inr (False, s)"
    using load8_run [OF Nil.prems(1), of p] Nil.prems(2,3) by (simp add: more_chars_def span_Suc)
  from loop_done [of more_chars "(p, of_nat k, q)" s s "word_char argv", OF this] Nil.prems show ?case
    by (auto simp: split_done_def)
next
  case (Cons c cs)
  let ?q = "if c = 34 then \<not> q else q"
  have c: "bpeek load32 s p = c" "c \<noteq> 0" "cstr (bpeek load32 s) (p + 1) cs" using Cons.prems(2) by auto
  have sp: "span p (Suc (length (c # cs))) = insert p (span (p + 1) (Suc (length cs)))" by (simp add: span_Suc [of p])
  have pb: "p \<in> byte_addrs V s0" "span (p + 1) (Suc (length cs)) \<subseteq> byte_addrs V s0"
    using Cons.prems(3) unfolding sp by auto
  have ap: "apart argv (span (p + 1) (Suc (length cs)))" "word_base p \<notin> slots argv"
    using Cons.prems(4) unfolding sp by (auto simp: apart_def)
  have fresh: "p \<notin> span (p + 1) (Suc (length cs))" using span_fresh [of "Suc (Suc (length cs))" p] Cons.prems(8) by simp
  then have fresh': "p \<notin> span (p + 1) (length cs)" using span_mono [of "length cs" "Suc (length cs)" "p + 1"] by auto
  note ld = load8_run [OF Cons.prems(1) pb(1), unfolded c(1)]
  have go: "more_chars (p, of_nat k, q) s = Inr (True, s)" using ld c(2) by (simp add: more_chars_def)
  show ?case
  proof (cases "c = 32 \<and> \<not> ?q")
    case False
    then have "word_char argv (p, of_nat k, q) s = Inr ((p + 1, of_nat k, ?q), s)" using ld by (auto simp: word_char_def)
    note st = loop_more [of more_chars "(p, of_nat k, q)" s s "word_char argv", OF go this]
    have len: "length (split_words q (c # cs)) = length (split_words ?q cs)"
      using False by (auto simp: Let_def split: list.splits dest: arg_cong [of _ "[]" length])
    from Cons.IH [OF Cons.prems(1) c(3) pb(2) ap(1) Cons.prems(5), of k ?q] Cons.prems(6-8) obtain r q' t where
      t: "loop more_chars (word_char argv) (p + 1, of_nat k, ?q) s = Inr ((r, of_nat (k + length (split_words ?q cs) - 1), q'), t)"
        "mem_only_ok A V s0 t" "split_done V s0 argv k ?q (p + 1) cs s t" unfolding len by auto
    have "split_done V s0 argv k q p (c # cs) s t"
      by (rule split_done_skip [OF t(3) refl False c(1,2) pb(1) ap(2) fresh'])
    then show ?thesis using st t(1,2) unfolding len by metis
  next
    case True
    then have q: "?q = q" "c = 32" "\<not> q" by auto
    from store8_run [OF Cons.prems(1) pb(1), of 0] obtain u where
      u: "store8 p 0 s = Inr ((), u)" "mem_only_ok A V s0 u"
        "\<And>a. a \<in> byte_addrs V s0 \<Longrightarrow> bpeek load32 u a = (if a = p then 0 else bpeek load32 s a)"
        "\<And>w. w \<in> ram_addrs V s0 \<Longrightarrow> w \<noteq> word_base p \<Longrightarrow> peek load32 u w = peek load32 s w" by blast
    have len: "length (split_words q (c # cs)) = Suc (length (split_words ?q cs))" using True by (auto simp: Let_def)
    have k: "k < 64" using Cons.prems(6) unfolding len by (cases "split_words ?q cs") auto
    have sl: "argv + 4 * of_nat k \<in> ram_addrs V s0" using Cons.prems(5) slot_in [OF k] by blast
    from store32_ram [OF u(2) sl, of "p + 1"] obtain v where
      v: "store32 (argv + 4 * of_nat k) (p + 1) u = Inr ((), v)" "mem_only_ok A V s0 v"
        "\<And>w. w \<in> ram_addrs V s0 \<Longrightarrow> peek load32 v w = (if w = argv + 4 * of_nat k then p + 1 else peek load32 u w)"
        "\<And>a. a \<in> byte_addrs V s0 \<Longrightarrow> word_base a \<noteq> argv + 4 * of_nat k \<Longrightarrow> bpeek load32 v a = bpeek load32 u a" by blast
    have ns: "word_base a \<noteq> argv + 4 * of_nat k" if "word_base a \<notin> slots argv" for a
      using that slot_in [OF k, of argv] by metis
    have "word_char argv (p, of_nat k, q) s = Inr ((p + 1, of_nat (Suc k), ?q), v)"
      using ld u(1) v(1) q by (simp add: word_char_def add.commute)
    note st = loop_more [of more_chars "(p, of_nat k, q)" s s "word_char argv", OF go this]
    have cv: "cstr (bpeek load32 v) (p + 1) cs"
    proof -
      have "bpeek load32 v a = bpeek load32 s a" if "a \<in> span (p + 1) (Suc (length cs))" for a
      proof -
        have "a \<in> byte_addrs V s0" "word_base a \<notin> slots argv" "a \<noteq> p" using that pb(2) ap(1) fresh by (auto simp: apart_def)
        then show ?thesis using u(3) [of a] v(4) [of a] ns [of a] by simp
      qed
      then show ?thesis using c(3) cstr_cong [of "p + 1" cs "bpeek load32 v" "bpeek load32 s"] by blast
    qed
    have "Suc k + length (split_words ?q cs) \<le> 65" using Cons.prems(6) unfolding len by simp
    moreover have "length cs < 2 ^ 32 - 1" using Cons.prems(8) by simp
    ultimately obtain r q' t where
      t: "loop more_chars (word_char argv) (p + 1, of_nat (Suc k), ?q) v = Inr ((r, of_nat (Suc k + length (split_words ?q cs) - 1), q'), t)"
        "mem_only_ok A V s0 t" "split_done V s0 argv (Suc k) ?q (p + 1) cs v t"
      using Cons.IH [OF v(2) cv pb(2) ap(1) Cons.prems(5), of "Suc k" ?q] by auto
    have "split_done V s0 argv k q p (c # cs) s t"
    proof (rule split_done_split [OF t(3) refl True Cons.prems(7) k _ _ pb(1) fresh' _ Cons.prems(5)])
      show "bpeek load32 v p = 0" using v(4) [OF pb(1) ns [OF ap(2)]] u(3) [OF pb(1)] by simp
      show "peek load32 v (argv + 4 * of_nat k) = p + 1" using v(3) [OF sl] by simp
      show "apart argv (span p (Suc (length cs)))" by (rule apart_sub [OF Cons.prems(4) span_mono]) simp
      show "bpeek load32 v a = bpeek load32 s a" if "a \<in> byte_addrs V s0" "a \<noteq> p" "word_base a \<notin> slots argv" for a
        using v(4) [OF that(1) ns [OF that(3)]] u(3) [OF that(1)] that(2) by simp
      show "peek load32 v w = peek load32 s w" if "w \<in> ram_addrs V s0" "w \<noteq> word_base p" "w \<noteq> argv + 4 * of_nat k" for w
        using v(3) [OF that(1)] u(4) [OF that(1,2)] that(3) by simp
    qed
    then show ?thesis using st t(1,2) unfolding len by (metis add_Suc_right add_Suc)
  qed
qed

lemma data_below_image:
  assumes "vm_inv A V s" "a \<in> data_addrs V" shows "a \<notin> image_addrs s"
proof
  assume "a \<in> image_addrs s"
  then obtain b where b: "a = b + 0xC0000000" "frame_of b < frame_of (dir_of s KDir)" by (auto simp: image_addrs_def)
  have "unat b < 0x40000000"
    using own_above_image(3) [OF assms(1) vm_invD(5) [OF assms(1)] b(2)] vm_okD(3) [OF vm_invD(4) [OF assms(1)]]
    by (intro frame_low_unat) simp
  then have "0xC0000 \<le> frame_of a" using high_half(2) [of b] b(1) by simp
  moreover have "frame_of a < 0xC0000"
    using vm_okD(7) [OF vm_invD(4) [OF assms(1)], of "frame_of a"] assms(2) by (auto simp: page_ok_def data_addrs_def)
  ultimately show False by simp
qed

lemma slots_block:
  assumes "x \<in> blocks V Heap_256"
  shows "slots x \<subseteq> block_words Heap_256 x"
proof
  fix a assume "a \<in> slots x"
  then obtain j where j: "j < 64" "a = x + 4 * of_nat j" by (auto simp: slots_def)
  have d: "256 dvd unat x" using assms by (simp add: blocks_def bsize_def)
  then obtain m where m: "unat x = 256 * m" by (auto simp: dvd_def)
  have "m < 16777216" using u32_bound [of x] m by simp
  moreover have u: "unat (4 * of_nat j :: u32) = 4 * j" using j(1) by (simp add: unat_word_ariths unat_of_nat)
  ultimately have "unat a = unat x + 4 * j" unfolding j(2) using j(1) m by (simp only: unat_word_ariths u) simp
  moreover have "4 dvd unat x + 4 * j" using m by (metis dvd_add dvd_mult2 dvd_triv_left mult.assoc num_double numeral_times_numeral)
  ultimately show "a \<in> block_words Heap_256 x"
    using j(1) by (simp add: block_words_def word_aligned_iff bsize_def)
qed

lemma word_span:
  "i < length (split_words q cs) \<Longrightarrow>
    span (word_starts q p cs ! i) (Suc (length (split_words q cs ! i))) \<subseteq> span p (Suc (length cs))"
proof (induction q cs arbitrary: p i rule: split_words.induct)
  case (2 q c cs)
  let ?q = "if c = 34 then \<not> q else q"
  obtain w ws where w: "split_words ?q cs = w # ws" using split_words_ne by (cases "split_words ?q cs") auto
  obtain xs where xs: "word_starts ?q (p + 1) cs = (p + 1) # xs" using word_starts_hd by blast
  have len: "span (p + 1) (Suc (length cs)) \<subseteq> span p (Suc (length (c # cs)))" unfolding span_Suc [of p "length (c # cs)"] by auto
  have p: "p \<in> span p (Suc (length (c # cs)))" by (simp add: span_Suc)
  have IH: "j < length (w # ws) \<Longrightarrow> span (((p + 1) # xs) ! j) (Suc (length ((w # ws) ! j))) \<subseteq> span (p + 1) (Suc (length cs))" for j
    using "2.IH" [OF refl, of j "p + 1"] w xs by (cases "c = 32 \<and> \<not> ?q") auto
  show ?case
  proof (cases i)
    case 0
    then show ?thesis using IH [of 0] w xs len p
      by (auto simp: Let_def span_Suc [of p "Suc (length w)"] span_Suc [of p 0])
  next
    case (Suc j)
    then show ?thesis using IH [of j] IH [of "Suc j"] w xs len "2.prems" by (auto simp: Let_def split: if_splits)
  qed
qed simp

lemma tokinize_words_full:
  assumes inv: "heap_inv UNIV V fl s" and ne: "next_free_block (heaps s Heap_256) \<noteq> 0"
    and str: "cstr (bpeek load32 s) inp cs" "\<forall>a\<in>span inp (Suc (length cs)). word_base a \<in> image_addrs s"
    and few: "length (split_words False cs) \<le> 64" and len: "length cs < 2 ^ 32 - 1"
  shows "\<exists>argv t. tokinize_words inp s = Inr ((argv, of_nat (length (split_words False cs))), t)
    \<and> argv \<in> blocks V Heap_256 \<and> argv \<notin> allocated V fl Heap_256 \<and> heap_inv UNIV V (fl(Heap_256 := tl (fl Heap_256))) t
    \<and> allocated V (fl(Heap_256 := tl (fl Heap_256))) Heap_256 = insert argv (allocated V fl Heap_256)
    \<and> (\<forall>i<length (split_words False cs). load32 (argv + 4 * of_nat i) t = Inr (peek load32 t (argv + 4 * of_nat i), t)
         \<and> readable V t (peek load32 t (argv + 4 * of_nat i)) (split_words False cs ! i))
    \<and> (\<exists>mm hh. t = s\<lparr>heaps := hh, mem := mm\<rparr>) \<and> image_addrs t = image_addrs s
    \<and> (\<forall>i<length (split_words False cs). peek load32 t (argv + 4 * of_nat i) = word_starts False inp cs ! i)
    \<and> (\<forall>a. word_base a \<in> image_addrs s \<longrightarrow> a \<notin> span inp (length cs) \<longrightarrow> bpeek load32 t a = bpeek load32 s a)
    \<and> (\<forall>w\<in>data_addrs V. w \<notin> slots argv \<longrightarrow> peek load32 t w = peek load32 s w)"
proof -
  from ne obtain x xs where x: "fl Heap_256 = x # xs" using domain_head(2) [OF inv, of Heap_256] by (cases "fl Heap_256") auto
  let ?s = "pop_block Heap_256 (peek load32 s x) s" and ?fl = "fl(Heap_256 := xs)"
  have al: "kmalloc 200 s = Inr (x, ?s)"
    using heap_domain_alloc_fast [OF inv UNIV_I x] by (simp add: kmalloc_class class_of_def)
  note pop = pop_block_inv [OF inv UNIV_I x]
  have sp: "x \<notin> allocated V fl Heap_256" "allocated V ?fl Heap_256 = insert x (allocated V fl Heap_256)"
    using alloc_fast_spec [OF inv x] by (auto simp: alloc_spec_def)
  have pk: "peek load32 ?s = peek load32 s" by (rule peek_cong) (simp_all add: pop_block_def)
  have im: "image_addrs ?s = image_addrs s" by (simp add: image_addrs_def dir_of_def pop_block_def)
  note vm = heap_invD(1) [OF pop(1)]
  have ok: "mem_only_ok UNIV V ?s ?s" using vm by simp
  have sl: "slots x \<subseteq> data_addrs V" using slots_block [OF pop(5)] block_words_addr [OF pop(5)] by blast
  then have slr: "slots x \<subseteq> ram_addrs V ?s" by (auto simp: ram_addrs_def)
  have sb: "span inp (Suc (length cs)) \<subseteq> byte_addrs V ?s" using str(2) im by (auto simp: byte_addrs_def ram_addrs_def)
  have ap: "apart x (span inp (Suc (length cs)))"
    unfolding apart_def using str(2) im data_below_image [OF vm] sl by blast
  have x0: "x \<in> slots x" using slot_in [of 0 x] by simp
  from store32_ram [OF ok, of x inp] x0 slr obtain u where
    u: "store32 x inp ?s = Inr ((), u)" "mem_only_ok UNIV V ?s u"
      "\<And>b. b \<in> ram_addrs V ?s \<Longrightarrow> peek load32 u b = (if b = x then inp else peek load32 ?s b)"
      "\<And>a. a \<in> byte_addrs V ?s \<Longrightarrow> word_base a \<noteq> x \<Longrightarrow> bpeek load32 u a = bpeek load32 ?s a" by blast
  have cu: "cstr (bpeek load32 u) inp cs"
  proof -
    have "bpeek load32 u a = bpeek load32 s a" if a: "a \<in> span inp (Suc (length cs))" for a
    proof -
      have "word_base a \<noteq> x" using ap a x0 by (auto simp: apart_def)
      moreover have "a \<in> byte_addrs V ?s" using a sb by blast
      ultimately show ?thesis using u(4) [of a] by (simp add: bpeek_def pk)
    qed
    then show ?thesis using str(1) cstr_cong [of inp cs "bpeek load32 u" "bpeek load32 s"] by blast
  qed
  have "1 + length (split_words False cs) \<le> 65" using few by simp
  from tokens_loop [OF u(2) cu sb ap slr this _ len] obtain r q t where
    t: "loop more_chars (word_char x) (inp, of_nat 1, False) u = Inr ((r, of_nat (1 + length (split_words False cs) - 1), q), t)"
      "mem_only_ok UNIV V ?s t" "split_done V ?s x 1 False inp cs u t" by auto
  have run: "tokinize_words inp s = Inr ((x, of_nat (length (split_words False cs))), t)"
    using al u(1) t(1) by (simp add: tokinize_words_def flip: more_chars_def)
  have fr: "peek load32 t w = peek load32 u w" if "w \<in> data_addrs V" "w \<notin> slots x \<or> w = x" for w
  proof -
    have wr: "w \<in> ram_addrs V ?s" using that(1) by (simp add: ram_addrs_def)
    have "\<forall>a\<in>span inp (length cs). w \<noteq> word_base a"
      using str(2) im data_below_image [OF vm that(1)] span_mono [of "length cs" "Suc (length cs)" inp] by auto
    moreover have "w \<noteq> x + 4 * of_nat j" if j: "1 \<le> j" "j < 64" for j
      using that \<open>w \<notin> slots x \<or> w = x\<close> slot_in [OF j(2), of x] slot_neq [of 0 j x] by auto
    ultimately show ?thesis using t(3) wr unfolding split_done_def by blast
  qed
  have inv': "heap_inv UNIV V ?fl t"
  proof (rule heap_inv_writes [OF pop(1) t(2)])
    fix g b assume b: "b \<in> set (?fl g)"
    then have bb: "b \<in> blocks V g" using domain_okD(8) [OF heap_invD(2) [OF pop(1) UNIV_I]] by blast
    note bd = blocks_addr [OF bb]
    have xa: "x \<in> allocated V ?fl Heap_256" using sp(2) by simp
    have ns: "b \<notin> slots x" using free_block_apart [OF pop(1) xa _ b] slots_block [OF pop(5)] by blast
    moreover have "b \<noteq> x" using ns x0 by auto
    ultimately show "peek load32 t b = peek load32 ?s b" using fr [OF bd] u(3) [of b] bd by (simp add: ram_addrs_def)
  qed
  have imt: "image_addrs t = image_addrs s" using conjunct2 [OF image_addrs_cong [OF conjunct2 [OF t(2)]]] im by simp
  have ws: "peek load32 t (x + 4 * of_nat i) = word_starts False inp cs ! i" if i: "i < length (split_words False cs)" for i
  proof (cases "i = 0")
    case True
    have "peek load32 t x = peek load32 u x" by (rule fr) (use sl x0 in auto)
    also have "\<dots> = inp" using u(3) [of x] slr x0 by auto
    finally show ?thesis using True word_starts_hd [of False inp cs] by auto
  next
    case False
    then show ?thesis using t(3) i unfolding split_done_def by auto
  qed
  have rd: "readable V t (peek load32 t (x + 4 * of_nat i)) (split_words False cs ! i)"
    if i: "i < length (split_words False cs)" for i
  proof -
    have "span (word_starts False inp cs ! i) (Suc (length (split_words False cs ! i))) \<subseteq> byte_addrs V t"
      using word_span [OF i, of inp] str(2) imt by (fastforce simp: byte_addrs_def ram_addrs_def)
    then show ?thesis using t(3) i ws [OF i] unfolding split_done_def readable_def by simp
  qed
  have bt: "bpeek load32 t a = bpeek load32 s a" if a: "word_base a \<in> image_addrs s" "a \<notin> span inp (length cs)" for a
  proof -
    have b: "a \<in> byte_addrs V ?s" using a(1) im by (simp add: byte_addrs_def ram_addrs_def)
    have ns: "word_base a \<notin> slots x" using data_below_image [OF vm] sl a(1) im by blast
    have "bpeek load32 t a = bpeek load32 u a" using t(3) b a(2) ns unfolding split_done_def by blast
    also have "\<dots> = bpeek load32 s a" using u(4) [OF b] ns x0 by (auto simp: bpeek_def pk)
    finally show ?thesis .
  qed
  have ld: "load32 (x + 4 * of_nat i) t = Inr (peek load32 t (x + 4 * of_nat i), t)" if i: "i < length (split_words False cs)" for i
  proof -
    have "i < 64" using i few by simp
    then have "x + 4 * of_nat i \<in> ram_addrs V ?s" using slot_in slr by blast
    then show ?thesis by (rule ram.rd_peek [OF t(2)])
  qed
  have dt: "peek load32 t w = peek load32 s w" if w: "w \<in> data_addrs V" "w \<notin> slots x" for w
    using fr [OF w(1)] w u(3) [of w] x0 by (auto simp: ram_addrs_def pk)
  have "t = ?s\<lparr>mem := mem t\<rparr>" by (rule mem_only_frame [OF conjunct2 [OF t(2)]])
  then have "\<exists>mm hh. t = s\<lparr>heaps := hh, mem := mm\<rparr>" unfolding pop_block_def by blast
  then show ?thesis using run pop(5) sp inv' imt rd ld ws bt dt by (intro exI [of _ x] exI [of _ t]) (simp add: x)
qed

lemma tokinize_words_run:
  assumes inv: "heap_inv UNIV V fl s" and ne: "next_free_block (heaps s Heap_256) \<noteq> 0"
    and str: "cstr (bpeek load32 s) inp cs" "\<forall>a\<in>span inp (Suc (length cs)). word_base a \<in> image_addrs s"
    and few: "length (split_words False cs) \<le> 64" and len: "length cs < 2 ^ 32 - 1"
  shows "\<exists>argv t. tokinize_words inp s = Inr ((argv, of_nat (length (split_words False cs))), t)
    \<and> argv \<in> blocks V Heap_256 \<and> argv \<notin> allocated V fl Heap_256 \<and> heap_inv UNIV V (fl(Heap_256 := tl (fl Heap_256))) t
    \<and> allocated V (fl(Heap_256 := tl (fl Heap_256))) Heap_256 = insert argv (allocated V fl Heap_256)
    \<and> (\<forall>i<length (split_words False cs). load32 (argv + 4 * of_nat i) t = Inr (peek load32 t (argv + 4 * of_nat i), t)
         \<and> readable V t (peek load32 t (argv + 4 * of_nat i)) (split_words False cs ! i))
    \<and> (\<exists>mm hh. t = s\<lparr>heaps := hh, mem := mm\<rparr>) \<and> image_addrs t = image_addrs s"
  using tokinize_words_full [OF assms] by blast

text \<open>
  C10: \<^verbatim>\<open>tokinize_words\<close> refines the splitting of a line into words: for a string of the kernel's static data
  with at most 64 words it returns the number of words and an array, a fresh block of the 256-byte
  class, whose pointers are strings in memory that spell the words in order; quoted spaces stay in
  their word, the allocator's invariant is kept, and the array is the only new allocation.
\<close>

theorem tokinize_words_correct:
  assumes inv: "heap_inv UNIV V fl s" and ne: "next_free_block (heaps s Heap_256) \<noteq> 0"
    and str: "cstr (bpeek load32 s) inp cs" "\<forall>a\<in>span inp (Suc (length cs)). word_base a \<in> image_addrs s"
    and few: "length (split_words False cs) \<le> 64" and len: "length cs < 2 ^ 32 - 1"
  shows "\<exists>argv t. tokinize_words inp s = Inr ((argv, of_nat (length (split_words False cs))), t)
    \<and> argv \<in> blocks V Heap_256 \<and> argv \<notin> allocated V fl Heap_256 \<and> heap_inv UNIV V (fl(Heap_256 := tl (fl Heap_256))) t
    \<and> allocated V (fl(Heap_256 := tl (fl Heap_256))) Heap_256 = insert argv (allocated V fl Heap_256)
    \<and> (\<forall>i<length (split_words False cs). cstr (bpeek load32 t) (peek load32 t (argv + 4 * of_nat i)) (split_words False cs ! i))"
  using tokinize_words_run [OF assms] by (force simp: readable_def)

section \<open>A state with a given string\<close>

lemma string_written:
  assumes "mem_only_ok A V s0 s" "span p (Suc (length cs)) \<subseteq> byte_addrs V s0" "0 \<notin> set cs" "length cs < 2 ^ 32 - 1"
  shows "\<exists>t. mem_only_ok A V s0 t \<and> cstr (bpeek load32 t) p cs
    \<and> (\<forall>a\<in>byte_addrs V s0. a \<notin> span p (Suc (length cs)) \<longrightarrow> bpeek load32 t a = bpeek load32 s a)
    \<and> (\<forall>w\<in>ram_addrs V s0. (\<forall>a\<in>span p (Suc (length cs)). w \<noteq> word_base a) \<longrightarrow> peek load32 t w = peek load32 s w)"
  using assms
proof (induction cs arbitrary: p)
  case Nil
  then have "p \<in> byte_addrs V s0" by (simp add: span_Suc)
  from store8_run [OF Nil.prems(1) this, of 0] this show ?case by (auto simp: span_Suc)
next
  case (Cons c cs)
  have sp: "span p (Suc (length (c # cs))) = insert p (span (p + 1) (Suc (length cs)))" by (simp add: span_Suc [of p])
  have pb: "p \<in> byte_addrs V s0" "span (p + 1) (Suc (length cs)) \<subseteq> byte_addrs V s0" using Cons.prems(2) unfolding sp by auto
  from Cons.IH [OF Cons.prems(1) pb(2)] Cons.prems(3,4) obtain u where
    u: "mem_only_ok A V s0 u" "cstr (bpeek load32 u) (p + 1) cs"
      "\<And>a. a \<in> byte_addrs V s0 \<Longrightarrow> a \<notin> span (p + 1) (Suc (length cs)) \<Longrightarrow> bpeek load32 u a = bpeek load32 s a"
      "\<And>w. w \<in> ram_addrs V s0 \<Longrightarrow> \<forall>a\<in>span (p + 1) (Suc (length cs)). w \<noteq> word_base a \<Longrightarrow> peek load32 u w = peek load32 s w" by auto
  from store8_run [OF u(1) pb(1), of c] obtain t where
    t: "mem_only_ok A V s0 t" "\<And>a. a \<in> byte_addrs V s0 \<Longrightarrow> bpeek load32 t a = (if a = p then c else bpeek load32 u a)"
      "\<And>w. w \<in> ram_addrs V s0 \<Longrightarrow> w \<noteq> word_base p \<Longrightarrow> peek load32 t w = peek load32 u w" by blast
  have fresh: "p \<notin> span (p + 1) (Suc (length cs))" using span_fresh [of "Suc (Suc (length cs))" p] Cons.prems(4) by simp
  have "cstr (bpeek load32 t) (p + 1) cs"
    using u(2) cstr_cong [of "p + 1" cs "bpeek load32 t" "bpeek load32 u"] t(2) pb(2) fresh by (metis subsetD)
  then have "cstr (bpeek load32 t) p (c # cs)" using t(2) [OF pb(1)] Cons.prems(3) by simp
  then show ?case using t u(3,4) unfolding sp by (intro exI [of _ t]) auto
qed

text \<open>The booted kernel with the string \<open>cs\<close> at \<^verbatim>\<open>0xC0001000\<close>.\<close>

lemma image_span_layout:
  assumes "n0 < 4096" "a \<in> span 0xC0001000 (Suc n0)" "layout_ok s"
  shows "word_base a \<in> image_addrs s"
proof -
  from assms(2) obtain i where i: "i < Suc (n0)" "a = 0xC0001000 + of_nat i" by (auto simp: span_def)
  have ua: "unat a = 0xC0001000 + i" using i assms(1) by (simp add: unat_word_ariths unat_of_nat)
  let ?w = "word_base a"
  have uw: "0xC0000000 \<le> unat ?w" "unat ?w < 0xC0003000"
    using ua i(1) assms(1) mod_less_divisor [of 4 "unat a"] by (simp_all add: unat_word_base)
  have ub: "unat (?w - 0xC0000000) = unat ?w - 0xC0000000" using uw(1) by (simp add: unat_sub word_le_nat_alt)
  have fr: "frame_of (?w - 0xC0000000) < 3" using uw by (simp add: frame_of_def ub less_mult_imp_div_less)
  have wa: "word_aligned (?w - 0xC0000000)"
    using high_half(4) [of "?w - 0xC0000000"] uw ub word_base_aligned [of a] by simp
  have "0x100 \<le> frame_of (dir_of s KDir)"
  proof -
    have l: "0xC0100000 \<le> unat (kernel_page_dir s)" using assms(3) by (simp add: layout_ok_def word_le_nat_alt)
    then have "unat (dir_of s KDir) = unat (kernel_page_dir s) - 0xC0000000"
      by (simp add: dir_of_def unat_sub word_le_nat_alt)
    then show ?thesis using l by (simp add: frame_of_def)
  qed
  then have "frame_of (?w - 0xC0000000) < frame_of (dir_of s KDir)" using fr by simp
  then show ?thesis using wa unfolding image_addrs_def by (intro CollectI exI [of _ "?w - 0xC0000000"]) simp
qed

lemma image_span:
  assumes "n0 < 4096" "a \<in> span 0xC0001000 (Suc n0)"
  shows "word_base a \<in> image_addrs boot_heap"
proof -
  from boot_heap_inv obtain fl where "heap_inv UNIV premapped fl boot_heap" by blast
  from image_span_layout [OF assms vm_invD(2) [OF heap_invD(1) [OF this]]] show ?thesis .
qed

lemma string_state_image:
  assumes "0 \<notin> set cs" "length cs < 4096"
  shows "\<exists>fl s. heap_inv UNIV premapped fl s \<and> (\<forall>h. next_free_block (heaps s h) \<noteq> 0) \<and> cstr (bpeek load32 s) 0xC0001000 cs
    \<and> (\<forall>a\<in>span 0xC0001000 (Suc (length cs)). word_base a \<in> image_addrs s) \<and> image_addrs s = image_addrs boot_heap
    \<and> s\<lparr>mem := mem boot_heap\<rparr> = boot_heap"
proof -
  from boot_heap_inv obtain fl where fl: "heap_inv UNIV premapped fl boot_heap" "\<And>h. fl h \<noteq> []" by blast
  note vm = heap_invD(1) [OF fl(1)]
  have im: "word_base a \<in> image_addrs boot_heap" if "a \<in> span 0xC0001000 (Suc (length cs))" for a
    by (rule image_span [OF assms(2) that])
  have ok: "mem_only_ok UNIV premapped boot_heap boot_heap" using vm by simp
  have sb: "span 0xC0001000 (Suc (length cs)) \<subseteq> byte_addrs premapped boot_heap"
    using im by (auto simp: byte_addrs_def ram_addrs_def)
  have "length cs < 2 ^ 32 - 1" using assms(2) by simp
  from string_written [OF ok sb assms(1) this] obtain t where
    t: "mem_only_ok UNIV premapped boot_heap t" "cstr (bpeek load32 t) 0xC0001000 cs"
      "\<And>w. w \<in> ram_addrs premapped boot_heap \<Longrightarrow> \<forall>a\<in>span 0xC0001000 (Suc (length cs)). w \<noteq> word_base a \<Longrightarrow>
        peek load32 t w = peek load32 boot_heap w" by blast
  have "heap_inv UNIV premapped fl t"
  proof (rule heap_inv_writes [OF fl(1) t(1)])
    fix g b assume "b \<in> set (fl g)"
    then have "b \<in> blocks premapped g" using domain_okD(8) [OF heap_invD(2) [OF fl(1) UNIV_I]] by blast
    note bd = blocks_addr [OF this]
    show "peek load32 t b = peek load32 boot_heap b"
      by (rule t(3)) (use bd im data_below_image [OF vm bd] in \<open>auto simp: ram_addrs_def\<close>)
  qed
  moreover have it: "image_addrs t = image_addrs boot_heap" using image_addrs_cong [of boot_heap t] t(1) by blast
  moreover have "next_free_block (heaps t h) \<noteq> 0" for h
    using domain_head(2) [OF \<open>heap_inv UNIV premapped fl t\<close>] fl(2) by simp
  ultimately show ?thesis using t(1,2) im by (intro exI [of _ fl] exI [of _ t]) simp
qed

lemma string_state:
  assumes "0 \<notin> set cs" "length cs < 4096"
  shows "\<exists>fl s. heap_inv UNIV premapped fl s \<and> (\<forall>h. next_free_block (heaps s h) \<noteq> 0) \<and> cstr (bpeek load32 s) 0xC0001000 cs
    \<and> (\<forall>a\<in>span 0xC0001000 (Suc (length cs)). word_base a \<in> image_addrs s)"
  using string_state_image [OF assms] by blast

theorem tokinize_words_correct_witness:
  "\<exists>fl s argv t. cstr (bpeek load32 s) 0xC0001000 (bytes ''say \"a b\" now'')
    \<and> tokinize_words 0xC0001000 s = Inr ((argv, 3), t) \<and> heap_inv UNIV premapped fl t
    \<and> cstr (bpeek load32 t) (peek load32 t (argv + 4)) (bytes ''\"a b\"'')
    \<and> cstr (bpeek load32 t) (peek load32 t (argv + 8)) (bytes ''now'')"
proof -
  let ?cs = "bytes ''say \"a b\" now''"
  have sw: "split_words False ?cs = [bytes ''say'', bytes ''\"a b\"'', bytes ''now'']" by (simp add: bytes_def)
  from string_state [of ?cs] obtain fl s where
    s: "heap_inv UNIV premapped fl s" "next_free_block (heaps s Heap_256) \<noteq> 0" "cstr (bpeek load32 s) 0xC0001000 ?cs"
      "\<forall>a\<in>span 0xC0001000 (Suc (length ?cs)). word_base a \<in> image_addrs s" by (auto simp: bytes_def)
  from tokinize_words_correct [OF s] obtain argv t where
    t: "tokinize_words 0xC0001000 s = Inr ((argv, of_nat (length (split_words False ?cs))), t)"
      "heap_inv UNIV premapped (fl(Heap_256 := tl (fl Heap_256))) t"
      "\<And>i. i < length (split_words False ?cs) \<Longrightarrow>
         cstr (bpeek load32 t) (peek load32 t (argv + 4 * of_nat i)) (split_words False ?cs ! i)"
    unfolding sw by (auto simp: bytes_def)
  show ?thesis using s(3) t(1,2) t(3) [of 1] t(3) [of 2] unfolding sw
    by (intro exI [of _ "fl(Heap_256 := tl (fl Heap_256))"] exI [of _ s] exI [of _ argv] exI [of _ t]) (simp add: numeral_2_eq_2 numeral_3_eq_3)
qed

lemma dec_value_append: "dec_value r (xs @ [c]) = dec_value r xs * 10 + (uint c - 48)"
  by (induction xs arbitrary: r) simp_all

lemma digit_of_nat: "n < 10 \<Longrightarrow> digit (of_nat n + 48) \<and> uint (of_nat n + 48 :: u8) = int n + 48"
proof -
  assume n: "n < 10"
  have "uint (of_nat n + 48 :: u8) = int n + 48"
  proof -
    have "n \<in> {0, 1, 2, 3, 4, 5, 6, 7, 8, 9}" using n by auto
    then show ?thesis by (elim insertE emptyE) simp_all
  qed
  then show ?thesis using n by (simp add: digit_def word_le_def)
qed

lemma decimal_digits: "(\<forall>c\<in>set (decimal n). digit c) \<and> dec_value 0 (decimal n) = int n"
proof (induction n rule: less_induct)
  case (less n)
  show ?case
  proof (cases "n < 10")
    case True
    then show ?thesis using digit_of_nat [of n] by (simp add: decimal.simps [of n])
  next
    case False
    then show ?thesis using less.IH [of "n div 10"] digit_of_nat [of "n mod 10"]
      by (simp add: decimal.simps [of n] dec_value_append) (metis div_mult_mod_eq mult.commute of_nat_add of_nat_mult of_nat_numeral)
  qed
qed

lemma decimal_nonzero: "0 \<notin> set (decimal n)"
  using decimal_digits [of n] by (auto simp: digit_def)

text \<open>
  \<^verbatim>\<open>checkString\<close> decides equality: for a string in memory and a literal it returns 1 exactly when they
  are the same sequence of characters, reads nothing behind either terminator and changes nothing.
\<close>

theorem checkString_correct:
  assumes "vm_inv A V s" "cstr (bpeek load32 s) p cs" "span p (Suc (length cs)) \<subseteq> byte_addrs V s" "0 \<notin> set t"
  shows "checkString p t s = Inr (cs = t, s)"
  using assms by (intro checkString_run) (simp_all add: readable_def)

theorem checkString_correct_witness:
  "\<exists>s. cstr (bpeek load32 s) 0xC0001000 (bytes ''helper'')
    \<and> checkString 0xC0001000 (bytes ''helper'') s = Inr (True, s) \<and> checkString 0xC0001000 (bytes ''help'') s = Inr (False, s)"
proof -
  let ?cs = "bytes ''helper''"
  from string_state [of ?cs] obtain fl s where
    s: "heap_inv UNIV premapped fl s" "cstr (bpeek load32 s) 0xC0001000 ?cs"
      "\<forall>a\<in>span 0xC0001000 (Suc (length ?cs)). word_base a \<in> image_addrs s" by (auto simp: bytes_def)
  have sb: "span 0xC0001000 (Suc (length ?cs)) \<subseteq> byte_addrs premapped s" using s(3) by (auto simp: byte_addrs_def ram_addrs_def)
  note c = checkString_correct [OF heap_invD(1) [OF s(1)] s(2) sb]
  have "checkString 0xC0001000 (bytes ''helper'') s = Inr (True, s)" by (subst c) (simp_all add: bytes_def)
  moreover have "checkString 0xC0001000 (bytes ''help'') s = Inr (False, s)" by (subst c) (simp_all add: bytes_def)
  ultimately show ?thesis using s(2) by blast
qed

text \<open>
  Numbers on the command line.  \<^verbatim>\<open>is_valid_number\<close> accepts exactly the strings of digits, the empty one
  among them; on such a string \<^verbatim>\<open>string_to_int\<close> computes its decimal value as long as that fits a
  signed 32-bit integer and overflows otherwise.
\<close>

theorem number_parsing:
  assumes "vm_inv A V s" "cstr (bpeek load32 s) p cs" "span p (Suc (length cs)) \<subseteq> byte_addrs V s"
  shows "is_valid_number p s = Inr (\<forall>c\<in>set cs. 48 \<le> c \<and> c \<le> 57, s)
    \<and> ((\<forall>c\<in>set cs. 48 \<le> c \<and> c \<le> 57) \<longrightarrow> string_to_int p s =
        (if dec_value 0 cs \<le> 2147483647 then Inr (dec_value 0 cs, s) else Inl SignedOverflow))"
proof -
  have r: "readable V s p cs" using assms(2,3) by (simp add: readable_def)
  from is_valid_number_run [OF assms(1) r] string_to_int_run [OF assms(1) r] show ?thesis by (simp add: digit_def)
qed

theorem number_parsing_witness:
  "\<exists>s. cstr (bpeek load32 s) 0xC0001000 (bytes ''4294967296'')
    \<and> is_valid_number 0xC0001000 s = Inr (True, s) \<and> string_to_int 0xC0001000 s = Inl SignedOverflow"
proof -
  let ?cs = "bytes ''4294967296''"
  from string_state [of ?cs] obtain fl s where
    s: "heap_inv UNIV premapped fl s" "cstr (bpeek load32 s) 0xC0001000 ?cs"
      "\<forall>a\<in>span 0xC0001000 (Suc (length ?cs)). word_base a \<in> image_addrs s" by (auto simp: bytes_def)
  have sb: "span 0xC0001000 (Suc (length ?cs)) \<subseteq> byte_addrs premapped s" using s(3) by (auto simp: byte_addrs_def ram_addrs_def)
  have d: "\<forall>c\<in>set ?cs. 48 \<le> c \<and> c \<le> 57" "dec_value 0 ?cs = 4294967296" by (simp_all add: bytes_def)
  from number_parsing [OF heap_invD(1) [OF s(1)] s(2) sb] d s(2) show ?thesis by auto
qed

text \<open>
  Printing and parsing: for every non-negative \<^verbatim>\<open>int\<close>, \<^verbatim>\<open>string_to_int\<close> reads back what \<^verbatim>\<open>int_to_string\<close> printed.
\<close>

theorem print_parse_roundtrip:
  assumes "vm_inv A V s" "0 \<le> sint w" "cstr (bpeek load32 s) p (int_to_string w)"
    "span p (Suc (length (int_to_string w))) \<subseteq> byte_addrs V s"
  shows "string_to_int p s = Inr (sint w, s)"
proof -
  have dec: "int_to_string w = decimal (nat (sint w))"
    using assms(2) int_to_string_decimal_eq [of w] by simp
  have "sint w < 2147483648" using sint_range_size [of w] by (simp add: word_size)
  moreover have "readable V s p (decimal (nat (sint w)))" using assms(3,4) by (simp add: readable_def dec)
  ultimately show ?thesis using string_to_int_run [OF assms(1)] decimal_digits [of "nat (sint w)"] assms(2) by simp
qed

theorem print_parse_roundtrip_witness:
  "\<exists>s. cstr (bpeek load32 s) 0xC0001000 (int_to_string 1048576) \<and> string_to_int 0xC0001000 s = Inr (1048576, s)"
proof -
  let ?cs = "int_to_string 1048576"
  have d: "?cs = decimal 1048576" using int_to_string_decimal_eq [of 1048576] by simp
  have "length ?cs < 4096" using length_decimal [of 1048576 7] by (simp add: d)
  from string_state [OF _ this] decimal_nonzero obtain fl s where
    s: "heap_inv UNIV premapped fl s" "cstr (bpeek load32 s) 0xC0001000 ?cs"
      "\<forall>a\<in>span 0xC0001000 (Suc (length ?cs)). word_base a \<in> image_addrs s" unfolding d by blast
  have sb: "span 0xC0001000 (Suc (length ?cs)) \<subseteq> byte_addrs premapped s" using s(3) by (auto simp: byte_addrs_def ram_addrs_def)
  from print_parse_roundtrip [OF heap_invD(1) [OF s(1)] _ s(2) sb] s(2) show ?thesis by auto
qed

end
