(* ===== verification/Machine.thy ===== *)
theory Machine
  imports Kutils
begin

unbundle bit_operations_syntax

text \<open>
  The machine around the kernel's memory: the I/O ports, the interrupt and descriptor tables, the
  keyboard's and the scheduler's static variables.  What a device answers is a function of the
  history of port accesses, newest first; the history also records the instructions whose effect
  lies outside the model.  Includes \<^verbatim>\<open>lib/io.c\<close>.
\<close>

section \<open>State\<close>

datatype io =
    Inb u16 u8
  | Outb u16 u8
  | Inw u16 u16
  | Outw u16 u16
  | Rdtsc u32
  | Hlt
  | Sti
  | Cli
  | SoftInt u8 u32 u32

record gdt_entry =
  limit_low :: u16
  base_low :: u16
  base_mid :: u8
  access :: u8
  granularity :: u8
  base_high :: u8

record tss_entry =
  esp0 :: u32
  ss0 :: u32
  iomap_base :: u16
  tss_rest :: "nat \<Rightarrow> u32"

record table_ptr =
  tbl_limit :: u16
  tbl_base :: u32

record idt_entry =
  idt_base_low :: u16
  selector :: u16
  always0 :: u8
  flags :: u8
  idt_base_high :: u16

record machine =
  kern :: kstate
  port_in :: "io list \<Rightarrow> u16 \<Rightarrow> u16"
  tsc :: "io list \<Rightarrow> u32"
  trace :: "io list"
  left_shift_pressed :: bool
  right_shift_pressed :: bool
  command_buffer :: u32
  buffer_pos :: int
  gdt :: "nat \<Rightarrow> gdt_entry"
  tss :: tss_entry
  gdtr :: table_ptr
  gdt_addr :: u32
  tss_addr :: u32
  tss_kernel_stack :: u32
  idt :: "nat \<Rightarrow> idt_entry"
  idtp :: table_ptr
  idt_addr :: u32
  loaded_gdt :: table_ptr
  loaded_idt :: table_ptr
  task_register :: u16
  code_segment :: u16
  isr_wrapper :: "nat \<Rightarrow> u32"
  current_process :: u32
  next_process :: u32
  process_lists :: u32
  current_index :: u16
  blink_counter :: u32

type_synonym 'a mop = "(machine, 'a) op"

section \<open>Kernel operations in the machine\<close>

definition kern_op :: "'a kop \<Rightarrow> 'a mop" where
  "kern_op f = (\<lambda>m. case f (kern m) of Inl e \<Rightarrow> Inl e | Inr (a, k) \<Rightarrow> Inr (a, m\<lparr>kern := k\<rparr>))"

definition putf :: "string \<Rightarrow> karg list \<Rightarrow> unit mop" where
  "putf start_text args = kern_op (kprint start_text args)"

definition putf_color :: "u8 \<Rightarrow> string \<Rightarrow> karg list \<Rightarrow> unit mop" where
  "putf_color c start_text args = kern_op (kprint_color c start_text args)"

lemma kern_op_Inr [simp]: "f (kern m) = Inr (a, k) \<Longrightarrow> kern_op f m = Inr (a, m\<lparr>kern := k\<rparr>)"
  by (simp add: kern_op_def)

lemma kern_op_Inl [simp]: "f (kern m) = Inl e \<Longrightarrow> kern_op f m = Inl e"
  by (simp add: kern_op_def)

lemma putf_run [simp]:
  "fmt_ok cs args \<Longrightarrow> putf cs args m = Inr ((), m\<lparr>kern := kern m\<lparr>console := console_after cs args (console (kern m))\<rparr>\<rparr>)"
  by (simp add: putf_def)

lemma putf_color_run [simp]:
  "fmt_ok cs args \<Longrightarrow> putf_color c cs args m =
     Inr ((), m\<lparr>kern := kern m\<lparr>console := console_after cs args (set_color c (console (kern m)))\<rparr>\<rparr>)"
  by (simp add: putf_color_def)

section \<open>Ports\<close>

definition event :: "io \<Rightarrow> unit mop" where
  "event e = modify (\<lambda>m. m\<lparr>trace := e # trace m\<rparr>)"

definition outb :: "u16 \<Rightarrow> u8 \<Rightarrow> unit mop" where
  "outb port val = event (Outb port val)"

definition inb :: "u16 \<Rightarrow> u8 mop" where
  "inb port =
     bnd (gets (\<lambda>m. ucast (port_in m (trace m) port))) (\<lambda>result.
     bnd (event (Inb port result)) (\<lambda>_. ret result))"

definition outw :: "u16 \<Rightarrow> u16 \<Rightarrow> unit mop" where
  "outw port val = event (Outw port val)"

definition inw :: "u16 \<Rightarrow> u16 mop" where
  "inw port =
     bnd (gets (\<lambda>m. port_in m (trace m) port)) (\<lambda>result.
     bnd (event (Inw port result)) (\<lambda>_. ret result))"

lemma event_run [simp]: "event e m = Inr ((), m\<lparr>trace := e # trace m\<rparr>)"
  by (simp add: event_def)

lemma outb_run [simp]: "outb p v m = Inr ((), m\<lparr>trace := Outb p v # trace m\<rparr>)"
  by (simp add: outb_def)

lemma outw_run [simp]: "outw p v m = Inr ((), m\<lparr>trace := Outw p v # trace m\<rparr>)"
  by (simp add: outw_def)

lemma inb_run [simp]:
  "inb p m = Inr (ucast (port_in m (trace m) p), m\<lparr>trace := Inb p (ucast (port_in m (trace m) p)) # trace m\<rparr>)"
  by (simp add: inb_def)

lemma inw_run [simp]:
  "inw p m = Inr (port_in m (trace m) p, m\<lparr>trace := Inw p (port_in m (trace m) p) # trace m\<rparr>)"
  by (simp add: inw_def)

end
