(* ===== verification/Pic_Rtc.thy ===== *)
theory Pic_Rtc
  imports Machine
begin

unbundle bit_operations_syntax

text \<open>
  The interrupt controllers (\<^verbatim>\<open>lib/pic.c\<close>): the code that programs them, and the two 8259 chips as the
  automaton that its data sheet describes, as far as the code relies on it.
\<close>

section \<open>Operations\<close>

definition PIC1_COMMAND :: u16 where "PIC1_COMMAND = 0x20"
definition PIC1_DATA :: u16 where "PIC1_DATA = 0x21"
definition PIC2_COMMAND :: u16 where "PIC2_COMMAND = 0xA0"
definition PIC2_DATA :: u16 where "PIC2_DATA = 0xA1"
definition PIC_EOI :: u8 where "PIC_EOI = 0x20"

lemmas pic_ports = PIC1_COMMAND_def PIC1_DATA_def PIC2_COMMAND_def PIC2_DATA_def

definition pic_remap :: "u8 \<Rightarrow> u8 \<Rightarrow> unit mop" where
  "pic_remap offset1 offset2 =
     bnd (putf_color COLOR_WHITE ''[INIT] Establishing connection with PIC'' []) (\<lambda>_.
     bnd (inb PIC1_DATA) (\<lambda>mask1.
     bnd (inb PIC2_DATA) (\<lambda>mask2.
     bnd (outb PIC1_COMMAND 0x11) (\<lambda>_.
     bnd (outb PIC2_COMMAND 0x11) (\<lambda>_.
     bnd (putf_color COLOR_GREEN (''.........[OK]'' @ [CHR 0x0A]) []) (\<lambda>_.
     bnd (putf_color COLOR_WHITE ''[INIT] Mapping with Vector offset'' []) (\<lambda>_.
     bnd (outb PIC1_DATA offset1) (\<lambda>_.
     bnd (outb PIC2_DATA offset2) (\<lambda>_.
     bnd (outb PIC1_DATA 0x04) (\<lambda>_.
     bnd (outb PIC2_DATA 0x02) (\<lambda>_.
     bnd (outb PIC1_DATA 0x01) (\<lambda>_.
     bnd (outb PIC2_DATA 0x01) (\<lambda>_.
     bnd (outb PIC1_DATA mask1) (\<lambda>_.
     bnd (outb PIC2_DATA mask2) (\<lambda>_.
     putf_color COLOR_GREEN (''.........[OK]'' @ [CHR 0x0A]) [])))))))))))))))"

text \<open>\<^verbatim>\<open>1 << irq\<close> on an \<^verbatim>\<open>int\<close>: undefined from 32 on.\<close>

definition irq_bit :: "u8 \<Rightarrow> u8 mop" where
  "irq_bit irq = (if irq < 32 then ret (ucast (push_bit (unat irq) (1 :: u32))) else raise (BadShift (uint irq)))"

definition pic_enable_irq :: "u8 \<Rightarrow> unit mop" where
  "pic_enable_irq irq =
     (let port = (if irq < 8 then PIC1_DATA else PIC2_DATA);
          irq = (if irq < 8 then irq else irq - 8)
      in bnd (inb port) (\<lambda>mask.
         bnd (irq_bit irq) (\<lambda>b.
         outb port (mask AND NOT b))))"

text \<open>
  \<^verbatim>\<open>pic_disable_irq\<close> is called once with a number whose shift is undefined; \<open>pic_disable_with\<close> leaves open what the shift gives.
\<close>

definition pic_disable_with :: "(u8 \<Rightarrow> u8 mop) \<Rightarrow> u8 \<Rightarrow> unit mop" where
  "pic_disable_with shift irq =
     (let port = (if irq < 8 then PIC1_DATA else PIC2_DATA);
          irq = (if irq < 8 then irq else irq - 8)
      in bnd (inb port) (\<lambda>mask.
         bnd (shift irq) (\<lambda>b.
         outb port (mask OR b))))"

definition pic_disable_irq :: "u8 \<Rightarrow> unit mop" where
  "pic_disable_irq = pic_disable_with irq_bit"

text \<open>The shift as a compiled program has it: some byte \<open>w\<close> in the undefined case.\<close>

definition some_bit :: "u8 \<Rightarrow> u8 \<Rightarrow> u8 mop" where
  "some_bit w irq = (if irq < 32 then irq_bit irq else ret w)"

definition pic_send_eoi :: "u8 \<Rightarrow> unit mop" where
  "pic_send_eoi irq =
     bnd (if irq \<ge> 8 then outb PIC2_COMMAND PIC_EOI else ret ()) (\<lambda>_.
     outb PIC1_COMMAND PIC_EOI)"

section \<open>The chips\<close>

text \<open>
  One 8259: a command with bit 4 set (ICW1) clears the mask and starts the initialisation; the next
  data bytes are the vector base, the cascade wiring and, if ICW1 asked for it, the mode; any other
  data byte is the interrupt mask, which reading the data port returns.
\<close>

datatype icw = Ready | ICW2 bool | ICW3 bool | ICW4

record chip =
  vector_base :: u8
  cascade :: u8
  mode :: u8
  imr :: u8
  expecting :: icw

definition chip0 :: chip where
  "chip0 = \<lparr>vector_base = 0, cascade = 0, mode = 0, imr = 0, expecting = Ready\<rparr>"

fun chip_command :: "u8 \<Rightarrow> chip \<Rightarrow> chip" where
  "chip_command v c = (if v AND 0x10 = 0 then c else c\<lparr>imr := 0, expecting := ICW2 (v AND 1 \<noteq> 0)\<rparr>)"

fun chip_data :: "u8 \<Rightarrow> chip \<Rightarrow> chip" where
  "chip_data v c = (case expecting c of
       Ready \<Rightarrow> c\<lparr>imr := v\<rparr>
     | ICW2 four \<Rightarrow> c\<lparr>vector_base := v AND 0xF8, expecting := ICW3 four\<rparr>
     | ICW3 four \<Rightarrow> c\<lparr>cascade := v, expecting := (if four then ICW4 else Ready)\<rparr>
     | ICW4 \<Rightarrow> c\<lparr>mode := v, expecting := Ready\<rparr>)"

fun chip_after :: "u16 \<Rightarrow> u16 \<Rightarrow> io list \<Rightarrow> chip" where
  "chip_after cmd dat [] = chip0"
| "chip_after cmd dat (Outb p v # tr) =
     (let c = chip_after cmd dat tr in
      if p = cmd then chip_command v c else if p = dat then chip_data v c else c)"
| "chip_after cmd dat (_ # tr) = chip_after cmd dat tr"

abbreviation master :: "io list \<Rightarrow> chip" where
  "master \<equiv> chip_after 0x20 0x21"

abbreviation slave :: "io list \<Rightarrow> chip" where
  "slave \<equiv> chip_after 0xA0 0xA1"

text \<open>Reading a data port outside the initialisation returns the mask.\<close>

definition imr_readable :: "(io list \<Rightarrow> u16 \<Rightarrow> u16) \<Rightarrow> bool" where
  "imr_readable dev \<longleftrightarrow> (\<forall>tr.
     (expecting (master tr) = Ready \<longrightarrow> ucast (dev tr 0x21) = imr (master tr)) \<and>
     (expecting (slave tr) = Ready \<longrightarrow> ucast (dev tr 0xA1) = imr (slave tr)))"

text \<open>
  \<^verbatim>\<open>pic_remap\<close> programs both chips: each ends ready, with the requested vector base, the master's cascade
  on line 2 and the slave's identity 2, 8086 mode, and with the very mask it had before.
\<close>

lemma pic_remap_run:
  assumes "imr_readable (port_in m)" "expecting (master (trace m)) = Ready" "expecting (slave (trace m)) = Ready"
  shows "\<exists>t c. pic_remap a b m = Inr ((), m\<lparr>trace := t, kern := (kern m)\<lparr>console := c\<rparr>\<rparr>)
    \<and> master t = \<lparr>vector_base = a AND 0xF8, cascade = 4, mode = 1, imr = imr (master (trace m)), expecting = Ready\<rparr>
    \<and> slave t = \<lparr>vector_base = b AND 0xF8, cascade = 2, mode = 1, imr = imr (slave (trace m)), expecting = Ready\<rparr>"
proof -
  have r: "ucast (port_in m (trace m) 0x21) = imr (master (trace m))"
    "ucast (port_in m (Inb 0x21 x # trace m) 0xA1) = imr (slave (trace m))" for x
    using assms unfolding imr_readable_def by (metis, metis chip_after.simps(3))
  let ?t = "map (\<lambda>(p, v). Outb p v) [(0xA1, imr (slave (trace m))), (0x21, imr (master (trace m))), (0xA1, 1), (0x21, 1), (0xA1, 2), (0x21, 4),
     (0xA1, b), (0x21, a), (0xA0, 0x11), (0x20, 0x11)]
    @ Inb 0xA1 (imr (slave (trace m))) # Inb 0x21 (imr (master (trace m))) # trace m"
  have "\<exists>c. pic_remap a b m = Inr ((), m\<lparr>trace := ?t, kern := (kern m)\<lparr>console := c\<rparr>\<rparr>)"
    by (simp add: pic_remap_def pic_ports r) blast
  then obtain c where c: "pic_remap a b m = Inr ((), m\<lparr>trace := ?t, kern := (kern m)\<lparr>console := c\<rparr>\<rparr>)" by blast
  show ?thesis by (rule exI [of _ ?t], rule exI [of _ c], rule conjI [OF c]) simp
qed

theorem pic_remap_programs:
  assumes "imr_readable (port_in m)" "expecting (master (trace m)) = Ready" "expecting (slave (trace m)) = Ready"
  shows "\<exists>m'. pic_remap a b m = Inr ((), m')
    \<and> master (trace m') = \<lparr>vector_base = a AND 0xF8, cascade = 4, mode = 1, imr = imr (master (trace m)), expecting = Ready\<rparr>
    \<and> slave (trace m') = \<lparr>vector_base = b AND 0xF8, cascade = 2, mode = 1, imr = imr (slave (trace m)), expecting = Ready\<rparr>"
  using pic_remap_run [OF assms, of a b] by fastforce

text \<open>A machine whose controllers answer as the data sheet says, with every mask bit set.\<close>

definition demo_ports :: "io list \<Rightarrow> u16 \<Rightarrow> u16" where
  "demo_ports tr p = (if p = 0x21 then ucast (imr (master tr)) else if p = 0xA1 then ucast (imr (slave tr)) else 0)"

definition demo_tss :: tss_entry where
  "demo_tss = \<lparr>esp0 = 0, ss0 = 0, iomap_base = 0, tss_rest = (\<lambda>_. 0)\<rparr>"

definition demo_machine :: machine where
  "demo_machine = \<lparr>kern = demo_state, port_in = demo_ports, tsc = (\<lambda>_. 0), trace = [Outb 0xA1 0xFF, Outb 0x21 0xFF],
     left_shift_pressed = False, right_shift_pressed = False, command_buffer = 0xC0001000, buffer_pos = 0,
     gdt = (\<lambda>_. \<lparr>limit_low = 0, base_low = 0, base_mid = 0, access = 0, granularity = 0, base_high = 0\<rparr>),
     tss = demo_tss, gdtr = \<lparr>tbl_limit = 0, tbl_base = 0\<rparr>, gdt_addr = 0xC0110000, tss_addr = 0xC0111000,
     tss_kernel_stack = 0xC0112000,
     idt = (\<lambda>_. \<lparr>idt_base_low = 0, selector = 0, always0 = 0, flags = 0, idt_base_high = 0\<rparr>),
     idtp = \<lparr>tbl_limit = 0, tbl_base = 0\<rparr>, idt_addr = 0xC0113000, loaded_gdt = \<lparr>tbl_limit = 0, tbl_base = 0\<rparr>,
     loaded_idt = \<lparr>tbl_limit = 0, tbl_base = 0\<rparr>, task_register = 0, code_segment = 8,
     isr_wrapper = (\<lambda>n. 0xC0100000 + 16 * of_nat n), current_process = 0, next_process = 0, process_lists = 0,
     current_index = 0, blink_counter = 0\<rparr>"

lemma ucast_16_8: "ucast (ucast (v :: u8) :: u16) = v"
  by (rule bit_word_eqI) (simp add: bit_unsigned_iff)

lemma demo_ports_imr: "imr_readable demo_ports"
  by (simp add: imr_readable_def demo_ports_def ucast_16_8)

lemma demo_machine_pic:
  "port_in demo_machine = demo_ports" "imr (master (trace demo_machine)) = 0xFF" "imr (slave (trace demo_machine)) = 0xFF"
  "expecting (master (trace demo_machine)) = Ready" "expecting (slave (trace demo_machine)) = Ready"
  by (simp_all add: demo_machine_def chip0_def)

theorem pic_remap_programs_witness:
  "\<exists>m'. pic_remap 32 40 demo_machine = Inr ((), m')
    \<and> master (trace m') = \<lparr>vector_base = 32, cascade = 4, mode = 1, imr = 0xFF, expecting = Ready\<rparr>
    \<and> slave (trace m') = \<lparr>vector_base = 40, cascade = 2, mode = 1, imr = 0xFF, expecting = Ready\<rparr>"
  using pic_remap_programs [of demo_machine 32 40] by (simp add: demo_machine_pic demo_ports_imr)

section \<open>Masking one line\<close>

definition irq_masked :: "io list \<Rightarrow> nat \<Rightarrow> bool" where
  "irq_masked tr j = bit (imr (if j < 8 then master tr else slave tr)) (j mod 8)"

lemma bit_one_line: "bit (push_bit k (1 :: 'a::len word)) n \<longleftrightarrow> n = k \<and> n < LENGTH('a)"
  by (auto simp: bit_exp_iff)

lemma irq_bit_run:
  assumes "k < 8"
  shows "irq_bit k m = Inr (push_bit (unat k) 1, m)"
proof -
  have u: "unat k < 8" using assms by (simp add: word_less_nat_alt)
  have "ucast (push_bit (unat k) (1 :: u32)) = (push_bit (unat k) 1 :: u8)"
    by (rule bit_word_eqI) (auto simp only: bit_unsigned_iff bit_one_line, simp_all)
  moreover have "k < 32" using assms by (rule less_trans) simp
  ultimately show ?thesis by (simp add: irq_bit_def)
qed

text \<open>The data port of a line, its number there, and the mask a ready chip reports.\<close>

lemma irq_line:
  fixes irq :: u8
  assumes "irq < 16" "imr_readable (port_in m)" "expecting (master (trace m)) = Ready" "expecting (slave (trace m)) = Ready"
  defines "port \<equiv> if irq < 8 then PIC1_DATA else PIC2_DATA" and "k \<equiv> if irq < 8 then irq else irq - 8"
  shows "k < 8" "unat k = unat irq mod 8" "ucast (port_in m (trace m) port) = imr (if irq < 8 then master (trace m) else slave (trace m))"
    "port = 0x21 \<longleftrightarrow> irq < 8" "port = 0xA1 \<longleftrightarrow> \<not> irq < 8"
proof -
  have u: "unat irq < 16" using assms(1) by (simp add: word_less_nat_alt)
  have b: "irq < 8 \<longleftrightarrow> unat irq < 8" by (simp add: word_less_nat_alt)
  have sub: "unat (irq - 8) = unat irq - 8" if "\<not> irq < 8" using that by (simp add: unat_sub)
  show k: "unat k = unat irq mod 8"
  proof (cases "irq < 8")
    case True
    then show ?thesis using b by (simp add: k_def)
  next
    case False
    have "unat irq mod 8 = (unat irq - 8) mod 8" by (rule le_mod_geq) (use False b in simp)
    also have "\<dots> = unat irq - 8" using u by simp
    finally show ?thesis using False sub by (simp add: k_def)
  qed
  show "k < 8" using k by (simp add: word_less_nat_alt)
  show "ucast (port_in m (trace m) port) = imr (if irq < 8 then master (trace m) else slave (trace m))"
    using assms(2-4) by (simp add: port_def pic_ports imr_readable_def)
  show "port = 0x21 \<longleftrightarrow> irq < 8" "port = 0xA1 \<longleftrightarrow> \<not> irq < 8" by (simp_all add: port_def pic_ports)
qed

text \<open>What a chip keeps when its mask is written.\<close>

definition wiring :: "chip \<Rightarrow> u8 \<times> u8 \<times> u8 \<times> icw" where
  "wiring c = (vector_base c, cascade c, mode c, expecting c)"

text \<open>Writing the mask of the chip that has line \<open>irq\<close>.\<close>

lemma write_mask:
  assumes "irq < 16" "expecting (master tr) = Ready" "expecting (slave tr) = Ready" "j < 16"
  shows "irq_masked (Outb (if irq < 8 then PIC1_DATA else PIC2_DATA) v # Inb p w # tr) j \<longleftrightarrow>
    (if (j < 8) = ((irq :: u8) < 8) then bit v (j mod 8) else irq_masked tr j)"
  using assms by (simp add: irq_masked_def pic_ports)

lemma nat_line: "irq < 16 \<Longrightarrow> j < 16 \<Longrightarrow> (j < 8) = (irq < 8) \<Longrightarrow> j mod 8 = unat irq mod 8 \<longleftrightarrow> j = unat (irq :: u8)"
proof -
  assume a: "irq < 16" "j < 16" "(j < 8) = (irq < 8)"
  have lt: "unat irq < 16" "(j < 8) = (unat irq < 8)" using a by (simp_all add: word_less_nat_alt)
  have m: "n mod 8 = (if n < 8 then n else n - 8)" if "n < 16" for n :: nat
    using that le_mod_geq [of 8 n] by simp
  show ?thesis unfolding m [OF lt(1)] m [OF a(2)] using lt by (cases "j < 8") (simp_all, arith)
qed

lemma pic_mask_run:
  assumes irq: "irq < 16" and dev: "imr_readable (port_in m)" "expecting (master (trace m)) = Ready" "expecting (slave (trace m)) = Ready"
  shows "\<exists>d e. pic_disable_irq irq m = Inr ((), m\<lparr>trace := d\<rparr>) \<and> pic_enable_irq irq m = Inr ((), m\<lparr>trace := e\<rparr>)
    \<and> expecting (master d) = Ready \<and> expecting (slave d) = Ready \<and> expecting (master e) = Ready \<and> expecting (slave e) = Ready
    \<and> wiring (master d) = wiring (master (trace m)) \<and> wiring (slave d) = wiring (slave (trace m))
    \<and> wiring (master e) = wiring (master (trace m)) \<and> wiring (slave e) = wiring (slave (trace m))
    \<and> (\<forall>j<16. (irq_masked d j \<longleftrightarrow> j = unat irq \<or> irq_masked (trace m) j)
            \<and> (irq_masked e j \<longleftrightarrow> j \<noteq> unat irq \<and> irq_masked (trace m) j))"
proof -
  note l = irq_line [OF irq dev]
  let ?port = "if irq < 8 then PIC1_DATA else PIC2_DATA" and ?k = "if irq < 8 then irq else irq - 8"
  let ?old = "imr (if irq < 8 then master (trace m) else slave (trace m))"
  let ?t = "Inb ?port ?old # trace m"
  have d: "pic_disable_irq irq m = Inr ((), m\<lparr>trace := Outb ?port (?old OR push_bit (unat ?k) 1) # ?t\<rparr>)"
    using irq_bit_run [OF l(1)] l(3) by (simp add: pic_disable_irq_def pic_disable_with_def Let_def)
  have e: "pic_enable_irq irq m = Inr ((), m\<lparr>trace := Outb ?port (?old AND NOT (push_bit (unat ?k) 1)) # ?t\<rparr>)"
    using irq_bit_run [OF l(1)] l(3) by (simp add: pic_enable_irq_def Let_def)
  have same: "bit ?old (j mod 8) = irq_masked (trace m) j" if "(j < 8) = (irq < 8)" for j
    using that by (simp add: irq_masked_def)
  have one: "bit (push_bit (unat ?k) (1 :: u8)) (j mod 8) \<longleftrightarrow> j = unat irq" if "j < 16" "(j < 8) = (irq < 8)" for j
  proof -
    have "bit (push_bit (unat ?k) (1 :: u8)) (j mod 8) \<longleftrightarrow> j mod 8 = unat irq mod 8"
      unfolding l(2) bit_one_line by simp
    then show ?thesis using nat_line [OF irq that] by simp
  qed
  have other: "j \<noteq> unat irq" if "(j < 8) \<noteq> (irq < 8)" for j using that by (auto simp: word_less_nat_alt)
  have "irq_masked (Outb ?port (?old OR push_bit (unat ?k) 1) # ?t) j \<longleftrightarrow> j = unat irq \<or> irq_masked (trace m) j"
    "irq_masked (Outb ?port (?old AND NOT (push_bit (unat ?k) 1)) # ?t) j \<longleftrightarrow> j \<noteq> unat irq \<and> irq_masked (trace m) j"
    if j: "j < 16" for j
    unfolding write_mask [OF irq dev(2,3) j]
    using one [OF j] same [of j] other [of j]
    by (cases "(j < 8) = (irq < 8)"; simp only: if_True if_False bit_or_iff bit_and_iff bit_not_iff; auto)+
  moreover have "expecting (master (Outb ?port v # ?t)) = Ready \<and> expecting (slave (Outb ?port v # ?t)) = Ready" for v
    using dev(2,3) by (simp add: pic_ports Let_def)
  moreover have "wiring (master (Outb ?port v # ?t)) = wiring (master (trace m)) \<and> wiring (slave (Outb ?port v # ?t)) = wiring (slave (trace m))" for v
    using dev(2,3) by (simp add: pic_ports Let_def wiring_def)
  ultimately show ?thesis using d e
    by (intro exI [of _ "Outb ?port (?old OR push_bit (unat ?k) 1) # ?t"]
        exI [of _ "Outb ?port (?old AND NOT (push_bit (unat ?k) 1)) # ?t"]) blast
qed

text \<open>
  \<^verbatim>\<open>pic_disable_irq\<close> masks exactly the requested line of the sixteen and \<^verbatim>\<open>pic_enable_irq\<close> unmasks
  exactly that line; the other fifteen, of both chips, keep their state.
\<close>

theorem pic_masking:
  assumes irq: "irq < 16" and dev: "imr_readable (port_in m)" "expecting (master (trace m)) = Ready" "expecting (slave (trace m)) = Ready"
  shows "\<exists>d e. pic_disable_irq irq m = Inr ((), d) \<and> pic_enable_irq irq m = Inr ((), e) \<and> kern d = kern m \<and> kern e = kern m
    \<and> (\<forall>j<16. (irq_masked (trace d) j \<longleftrightarrow> j = unat irq \<or> irq_masked (trace m) j)
            \<and> (irq_masked (trace e) j \<longleftrightarrow> j \<noteq> unat irq \<and> irq_masked (trace m) j))"
proof -
  from pic_mask_run [OF assms] obtain d e where
    "pic_disable_irq irq m = Inr ((), m\<lparr>trace := d\<rparr>)" "pic_enable_irq irq m = Inr ((), m\<lparr>trace := e\<rparr>)"
    "\<forall>j<16. (irq_masked d j \<longleftrightarrow> j = unat irq \<or> irq_masked (trace m) j) \<and> (irq_masked e j \<longleftrightarrow> j \<noteq> unat irq \<and> irq_masked (trace m) j)" by blast
  then show ?thesis by (intro exI [of _ "m\<lparr>trace := d\<rparr>"] exI [of _ "m\<lparr>trace := e\<rparr>"]) simp
qed

theorem pic_masking_witness:
  "\<exists>d e. pic_disable_irq 1 demo_machine = Inr ((), d) \<and> pic_enable_irq 1 demo_machine = Inr ((), e)
    \<and> irq_masked (trace d) 1 \<and> \<not> irq_masked (trace e) 1 \<and> irq_masked (trace e) 14"
proof -
  have "irq_masked (trace demo_machine) 1" "irq_masked (trace demo_machine) 14"
    by (simp_all add: irq_masked_def demo_machine_pic)
  then show ?thesis using pic_masking [of 1 demo_machine] by (auto simp: demo_machine_pic demo_ports_imr)
qed

text \<open>
  An interrupt line from 40 on, as in the call \<^verbatim>\<open>pic_disable_irq(46)\<close> of \<^verbatim>\<open>kernel_main\<close>, which passes a vector
  number where a line is expected, shifts by 32 or more: undefined behaviour.
\<close>

theorem pic_irq_shift_undefined:
  assumes "40 \<le> irq"
  shows "pic_disable_irq irq m = Inl (BadShift (uint irq - 8)) \<and> pic_enable_irq irq m = Inl (BadShift (uint irq - 8))"
proof -
  have u: "40 \<le> unat irq" using assms by (simp add: word_le_nat_alt)
  then have "\<not> irq < 8" "8 \<le> irq" by (simp_all add: word_less_nat_alt word_le_nat_alt)
  moreover from this have s: "unat (irq - 8) = unat irq - 8" by (simp add: unat_sub)
  moreover have "\<not> irq - 8 < 32" using u s by (simp add: word_less_nat_alt)
  moreover have "uint (irq - 8) = uint irq - 8"
  proof -
    have "uint (irq - 8) = int (unat (irq - 8))" by (rule uint_nat)
    also have "\<dots> = int (unat irq) - 8" unfolding s using u by (subst of_nat_diff) simp_all
    also have "\<dots> = uint irq - 8" by (simp only: uint_nat)
    finally show ?thesis .
  qed
  ultimately show ?thesis by (simp add: pic_disable_irq_def pic_disable_with_def pic_enable_irq_def irq_bit_def)
qed

theorem pic_irq_shift_undefined_witness:
  "pic_disable_irq 46 demo_machine = Inl (BadShift 38)"
  using pic_irq_shift_undefined [of 46 demo_machine] by simp

definition pic_send_eoi_ports :: "u8 \<Rightarrow> io list" where
  "pic_send_eoi_ports irq = (if irq \<ge> 8 then [Outb 0x20 0x20, Outb 0xA0 0x20] else [Outb 0x20 0x20])"

lemma pic_send_eoi_run [simp]:
  "pic_send_eoi irq m = Inr ((), m\<lparr>trace := pic_send_eoi_ports irq @ trace m\<rparr>)"
  by (simp add: pic_send_eoi_def pic_send_eoi_ports_def pic_ports PIC_EOI_def)

section \<open>The real-time clock\<close>

definition read_cmos :: "u8 \<Rightarrow> u8 mop" where
  "read_cmos reg = bnd (outb 0x70 reg) (\<lambda>_. inb 0x71)"

definition bcd_to_binary :: "u8 \<Rightarrow> u8" where
  "bcd_to_binary bcd = drop_bit 4 bcd * 10 + (bcd AND 0x0F)"

definition print_rtc_time :: "unit mop" where
  "print_rtc_time =
     bnd (read_cmos 0x00) (\<lambda>s.
     let seconds = bcd_to_binary s in
     bnd (read_cmos 0x02) (\<lambda>mi.
     let minutes = bcd_to_binary mi in
     bnd (read_cmos 0x04) (\<lambda>h.
     let hours = bcd_to_binary h + 1 in
     bnd (read_cmos 0x07) (\<lambda>d.
     let day = bcd_to_binary d in
     bnd (read_cmos 0x08) (\<lambda>mo.
     let month = bcd_to_binary mo in
     bnd (read_cmos 0x09) (\<lambda>raw_year.
     let year = ucast (bcd_to_binary raw_year) + (2000 :: u16) in
     putf (''  Current time: %d/%d/%d %d:%d   '' @ [CHR 0x0A])
       [AInt (ucast day), AInt (ucast month), AInt (ucast year), AInt (ucast hours), AInt (ucast minutes)]))))))"

definition to_bcd :: "nat \<Rightarrow> u8" where
  "to_bcd n = of_nat (n div 10 * 16 + n mod 10)"

lemma bcd_decode: "n < 100 \<Longrightarrow> bcd_to_binary (to_bcd n) = of_nat n"
proof -
  assume n: "n < 100"
  let ?w = "n div 10 * 16 + n mod 10"
  have d: "n div 10 < 10" "n mod 10 < 10" using n by (simp_all add: less_mult_imp_div_less)
  have w: "?w < 256" using d by simp
  have u: "unat (to_bcd n) = ?w" unfolding to_bcd_def unat_of_nat using w by simp
  have hi: "drop_bit 4 (to_bcd n) = of_nat (n div 10)"
  proof (rule unsigned_word_eqI)
    have "unat (drop_bit 4 (to_bcd n)) = ?w div 16" unfolding unat_drop_bit_eq u by (simp add: drop_bit_eq_div)
    also have "\<dots> = n div 10" using d by simp
    finally show "unat (drop_bit 4 (to_bcd n)) = unat (of_nat (n div 10) :: u8)" using d by (simp add: unat_of_nat)
  qed
  have "(to_bcd n AND 0x0F) = to_bcd n AND mask 4" by (simp add: mask_eq_exp_minus_1)
  then have "unat (to_bcd n AND 0x0F) = unat (to_bcd n) mod 16"
    by (simp add: take_bit_eq_mod unat_mod_distrib flip: take_bit_eq_mask)
  then have lo: "(to_bcd n AND 0x0F) = of_nat (n mod 10)"
    by (intro word_unat_eq_iff [THEN iffD2]) (use d u in \<open>simp add: unat_of_nat\<close>)
  have "bcd_to_binary (to_bcd n) = of_nat (n div 10 * 10 + n mod 10)" unfolding bcd_to_binary_def hi lo by (simp only: of_nat_add of_nat_mult of_nat_numeral)
  then show ?thesis unfolding div_mult_mod_eq .
qed

text \<open>
  \<^verbatim>\<open>bcd_to_binary\<close> decodes every binary-coded decimal from 0 to 99.
\<close>

theorem bcd_roundtrip:
  assumes "n < 100"
  shows "bcd_to_binary (to_bcd n) = of_nat n"
  by (rule bcd_decode [OF assms])

theorem bcd_roundtrip_witness: "bcd_to_binary (to_bcd 59) = 59"
  using bcd_roundtrip [of 59] by simp

text \<open>The clock chip: reading port \<^verbatim>\<open>0x71\<close> answers with the register that was last selected, in BCD.\<close>

definition clock_chip :: "(io list \<Rightarrow> u16 \<Rightarrow> u16) \<Rightarrow> (u8 \<Rightarrow> nat) \<Rightarrow> bool" where
  "clock_chip dev clock \<longleftrightarrow> (\<forall>tr r. clock r < 100 \<longrightarrow> dev (Outb 0x70 r # tr) 0x71 = ucast (to_bcd (clock r)))"

lemma read_cmos_run:
  assumes "clock_chip (port_in m) clock" "clock r < 100"
  shows "read_cmos r m = Inr (to_bcd (clock r), m\<lparr>trace := Inb 0x71 (to_bcd (clock r)) # Outb 0x70 r # trace m\<rparr>)"
  using assms by (simp add: read_cmos_def clock_chip_def ucast_16_8)

text \<open>
  \<^verbatim>\<open>print_rtc_time\<close> prints the clock's day, month, year from 2000 on, minutes, and one hour more than the clock
  shows, without carrying into the day: at 23 hours it prints 24.
\<close>

theorem print_rtc_time_output:
  assumes "clock_chip (port_in m) clock" "\<And>r. clock r < 100"
  shows "\<exists>m'. print_rtc_time m = Inr ((), m')
    \<and> kprintf (''  Current time: %d/%d/%d %d:%d   '' @ [CHR 0x0A])
        [AInt (of_nat (clock 7)), AInt (of_nat (clock 8)), AInt (of_nat (2000 + clock 9)), AInt (of_nat (clock 4 + 1)), AInt (of_nat (clock 2))]
        (console (kern m)) = Inr (console (kern m'))"
proof -
  have rd: "read_cmos r k = Inr (to_bcd (clock r), k\<lparr>trace := Inb 0x71 (to_bcd (clock r)) # Outb 0x70 r # trace k\<rparr>)"
    if "port_in k = port_in m" for r k
    by (rule read_cmos_run) (use assms that in simp_all)
  have small: "ucast (of_nat n :: u8) = (of_nat n :: 'b::len word)" if "n < 256" for n
  proof -
    have "unat (of_nat n :: u8) = n" using that by (simp add: unat_of_nat)
    then show ?thesis using of_nat_unat [of "of_nat n :: u8"] by metis
  qed
  have small16: "ucast (of_nat n :: u16) = (of_nat n :: u32)" if "n < 65536" for n
  proof -
    have "unat (of_nat n :: u16) = n" using that by (simp add: unat_of_nat)
    then show ?thesis using of_nat_unat [of "of_nat n :: u16"] by metis
  qed
  note c = assms(2)
  have dec: "bcd_to_binary (to_bcd (clock r)) = of_nat (clock r)" for r by (rule bcd_decode [OF c])
  have lt: "clock r < 256" for r using c [of r] by simp
  have year: "ucast (of_nat (clock 9) + (2000 :: u16)) = (of_nat (2000 + clock 9) :: u32)"
    using small16 [of "2000 + clock 9"] c [of 9] by (simp add: add.commute)
  have hour: "ucast (of_nat (clock 4) + 1 :: u8) = (of_nat (clock 4 + 1) :: u32)"
    using small [of "clock 4 + 1"] c [of 4] by (simp add: add.commute)
  show ?thesis
    by (simp add: print_rtc_time_def rd dec year hour small [OF lt] kprintf_ok)
qed

definition clock_ports :: "io list \<Rightarrow> u16 \<Rightarrow> u16" where
  "clock_ports tr p = (case tr of Outb q r # _ \<Rightarrow> if p = 0x71 \<and> q = 0x70 \<and> r = 4 then ucast (to_bcd 23) else ucast (to_bcd 1) | _ \<Rightarrow> 0)"

theorem print_rtc_time_output_witness:
  "\<exists>m'. print_rtc_time (demo_machine\<lparr>port_in := clock_ports\<rparr>) = Inr ((), m')
    \<and> kprintf (''  Current time: %d/%d/%d %d:%d   '' @ [CHR 0x0A]) [AInt 1, AInt 1, AInt 2001, AInt 24, AInt 1]
        (console (kern demo_machine)) = Inr (console (kern m'))"
proof -
  let ?m = "demo_machine\<lparr>port_in := clock_ports\<rparr>" and ?clock = "\<lambda>r :: u8. if r = 4 then 23 else 1 :: nat"
  have "clock_chip (port_in ?m) ?clock" by (simp add: clock_chip_def clock_ports_def)
  from print_rtc_time_output [OF this] show ?thesis by simp
qed

end
