(* ===== verification/Ata_Disk.thy ===== *)
theory Ata_Disk
  imports Pic_Rtc
begin

unbundle bit_operations_syntax

text \<open>
  The disk driver (\<^verbatim>\<open>lib/ata_disk_driver.c\<close>): programmed I/O with 28-bit block addresses.  Its buffers
  are in memory, an array of 16-bit words.  The drive itself is a parameter: a function of the history of port accesses that follows the
  protocol \<open>ata_disk\<close>.
\<close>

section \<open>Operations\<close>

definition ATA_DATA :: u16 where "ATA_DATA = 0x1F0"
definition ATA_SECTOR_COUNT :: u16 where "ATA_SECTOR_COUNT = 0x1F2"
definition ATA_LBA_LOW :: u16 where "ATA_LBA_LOW = 0x1F3"
definition ATA_LBA_MID :: u16 where "ATA_LBA_MID = 0x1F4"
definition ATA_LBA_HIGH :: u16 where "ATA_LBA_HIGH = 0x1F5"
definition ATA_DRIVE :: u16 where "ATA_DRIVE = 0x1F6"
definition ATA_COMMAND :: u16 where "ATA_COMMAND = 0x1F7"
definition ATA_STATUS :: u16 where "ATA_STATUS = 0x1F7"
definition ATA_CMD_READ :: u8 where "ATA_CMD_READ = 0x20"
definition ATA_CMD_WRITE :: u8 where "ATA_CMD_WRITE = 0x30"
definition ATA_MASTER :: u8 where "ATA_MASTER = 0xE0"

lemmas ata_ports = ATA_DATA_def ATA_SECTOR_COUNT_def ATA_LBA_LOW_def ATA_LBA_MID_def ATA_LBA_HIGH_def ATA_DRIVE_def
  ATA_COMMAND_def ATA_STATUS_def ATA_CMD_READ_def ATA_CMD_WRITE_def ATA_MASTER_def

definition set_master_slave_super_lba :: "u32 \<Rightarrow> u8 \<Rightarrow> u8" where
  "set_master_slave_super_lba lba drive_select = drive_select OR ucast (drop_bit 24 lba AND 0x0F)"

definition get_low_lba :: "u32 \<Rightarrow> u8" where
  "get_low_lba lba = ucast (lba AND 0xFF)"

definition get_mid_lba :: "u32 \<Rightarrow> u8" where
  "get_mid_lba lba = ucast (drop_bit 8 lba AND 0xFF)"

definition get_high_lba :: "u32 \<Rightarrow> u8" where
  "get_high_lba lba = ucast (drop_bit 16 lba AND 0xFF)"

text \<open>\<^verbatim>\<open>while (inb(port) ...) {}\<close>: reads of a port as long as its value satisfies the condition.\<close>

definition poll :: "u16 \<Rightarrow> (u8 \<Rightarrow> bool) \<Rightarrow> unit mop" where
  "poll port waiting = loop (\<lambda>_. bnd (inb port) (\<lambda>v. ret (waiting v))) ret ()"

definition ata_wait_ready :: "unit mop" where
  "ata_wait_ready = poll ATA_STATUS (\<lambda>v. v AND 0x80 \<noteq> 0)"

definition ata_wait_drq :: "unit mop" where
  "ata_wait_drq = poll ATA_STATUS (\<lambda>v. v AND 0x08 = 0)"

fun read_words :: "u32 \<Rightarrow> nat \<Rightarrow> nat \<Rightarrow> unit mop" where
  "read_words buffer i 0 = ret ()"
| "read_words buffer i (Suc k) =
     bnd (inw ATA_DATA) (\<lambda>w.
     bnd (kern_op (store16 (buffer + 2 * of_nat i) w)) (\<lambda>_.
     read_words buffer (i + 1) k))"

fun read_sectors :: "u32 \<Rightarrow> nat \<Rightarrow> nat \<Rightarrow> unit mop" where
  "read_sectors buffer s 0 = ret ()"
| "read_sectors buffer s (Suc k) =
     bnd ata_wait_ready (\<lambda>_.
     bnd ata_wait_drq (\<lambda>_.
     bnd (read_words buffer (s * 256) 256) (\<lambda>_.
     read_sectors buffer (s + 1) k)))"

definition ata_settle :: "unit mop" where
  "ata_settle = bnd (inb 0x3F6) (\<lambda>_. bnd (inb 0x3F6) (\<lambda>_. bnd (inb 0x3F6) (\<lambda>_. bnd (inb 0x3F6) (\<lambda>_. ret ()))))"

definition ata_select :: "u32 \<Rightarrow> u8 \<Rightarrow> u8 \<Rightarrow> unit mop" where
  "ata_select lba sector_count command =
     bnd ata_wait_ready (\<lambda>_.
     bnd (outb ATA_DRIVE (set_master_slave_super_lba lba ATA_MASTER)) (\<lambda>_.
     bnd (outb ATA_SECTOR_COUNT sector_count) (\<lambda>_.
     bnd (outb ATA_LBA_LOW (get_low_lba lba)) (\<lambda>_.
     bnd (outb ATA_LBA_MID (get_mid_lba lba)) (\<lambda>_.
     bnd (outb ATA_LBA_HIGH (get_high_lba lba)) (\<lambda>_.
     bnd (poll 0x1F7 (\<lambda>v. v AND 0x80 \<noteq> 0)) (\<lambda>_.
     bnd (outb ATA_COMMAND command) (\<lambda>_.
     bnd ata_settle (\<lambda>_.
     ata_wait_ready)))))))))"

definition ata_read_sector :: "u32 \<Rightarrow> u8 \<Rightarrow> u32 \<Rightarrow> unit mop" where
  "ata_read_sector lba sector_count buffer =
     bnd (ata_select lba sector_count ATA_CMD_READ) (\<lambda>_.
     read_sectors buffer 0 (unat sector_count))"

fun write_words :: "u32 \<Rightarrow> nat \<Rightarrow> nat \<Rightarrow> unit mop" where
  "write_words buffer i 0 = ret ()"
| "write_words buffer i (Suc k) =
     bnd (kern_op (load16 (buffer + 2 * of_nat i))) (\<lambda>w.
     bnd (outw ATA_DATA w) (\<lambda>_.
     write_words buffer (i + 1) k))"

fun write_sectors :: "u32 \<Rightarrow> nat \<Rightarrow> nat \<Rightarrow> unit mop" where
  "write_sectors buffer s 0 = ret ()"
| "write_sectors buffer s (Suc k) =
     bnd ata_wait_ready (\<lambda>_.
     bnd ata_wait_drq (\<lambda>_.
     bnd (write_words buffer (s * 256) 256) (\<lambda>_.
     write_sectors buffer (s + 1) k)))"

definition ata_write_sector :: "u32 \<Rightarrow> u8 \<Rightarrow> u32 \<Rightarrow> unit mop" where
  "ata_write_sector lba sector_count buffer =
     bnd (ata_select lba sector_count ATA_CMD_WRITE) (\<lambda>_.
     bnd (write_sectors buffer 0 (unat sector_count)) (\<lambda>_.
     bnd (outb ATA_COMMAND 0xE7) (\<lambda>_.
     ata_wait_ready)))"

section \<open>Polling\<close>

text \<open>The machine after \<open>n\<close> more reads of a port.\<close>

fun reads :: "u16 \<Rightarrow> nat \<Rightarrow> machine \<Rightarrow> machine" where
  "reads p 0 m = m"
| "reads p (Suc n) m = reads p n (m\<lparr>trace := Inb p (ucast (port_in m (trace m) p)) # trace m\<rparr>)"

abbreviation status :: "u16 \<Rightarrow> machine \<Rightarrow> u8" where
  "status p m \<equiv> ucast (port_in m (trace m) p)"

lemma reads_keep [simp]: "kern (reads p n m) = kern m" "port_in (reads p n m) = port_in m"
  by (induction n arbitrary: m) simp_all

lemma poll_unfold:
  "poll p w m = (if w (status p m) then poll p w (reads p 1 m) else Inr ((), reads p 1 m))"
  by (simp add: poll_def loop_unfold [of _ ret _ m])

lemma poll_returns:
  "\<forall>i<n. w (status p (reads p i m)) \<Longrightarrow> \<not> w (status p (reads p n m)) \<Longrightarrow> poll p w m = Inr ((), reads p (Suc n) m)"
proof (induction n arbitrary: m)
  case 0
  then show ?case by (simp add: poll_unfold [of p w m])
next
  case (Suc n)
  have "w (status p m)" using Suc.prems(1) by fastforce
  moreover have "poll p w (reads p 1 m) = Inr ((), reads p (Suc n) (reads p 1 m))"
    by (rule Suc.IH) (use Suc.prems in fastforce)+
  ultimately show ?case by (simp add: poll_unfold [of p w m])
qed

lemma poll_hangs:
  assumes "\<forall>n. w (status p (reads p n m))"
  shows "poll p w m = Inl Hang"
  unfolding poll_def
proof (rule loop_Hang [where I = "\<lambda>_ k. \<forall>n. w (status p (reads p n k))"])
  fix x :: unit and k assume k: "\<forall>n. w (status p (reads p n k))"
  have "w (status p k)" using k [rule_format, of 0] by simp
  moreover have "\<forall>n. w (status p (reads p n (reads p 1 k)))" using k [rule_format, of "Suc n" for n] by simp
  ultimately show "\<exists>t y u. bnd (inb p) (\<lambda>v. ret (w v)) k = Inr (True, t) \<and> ret x t = Inr (y, u) \<and> (\<forall>n. w (status p (reads p n u)))"
    by simp
qed (rule assms)

text \<open>
  C37: \<^verbatim>\<open>ata_wait_ready\<close> ends as soon as a read of the status port has the busy bit clear, having read the
  port until then and changed nothing else, and it never ends on a drive that stays busy.
\<close>

theorem ata_wait_ready_liveness:
  "if \<exists>n. status ATA_STATUS (reads ATA_STATUS n m) AND 0x80 = 0
   then ata_wait_ready m = Inr ((), reads ATA_STATUS (Suc (LEAST n. status ATA_STATUS (reads ATA_STATUS n m) AND 0x80 = 0)) m)
   else ata_wait_ready m = Inl Hang"
proof (cases "\<exists>n. status ATA_STATUS (reads ATA_STATUS n m) AND 0x80 = 0")
  case True
  let ?P = "\<lambda>n. status ATA_STATUS (reads ATA_STATUS n m) AND 0x80 = 0"
  have "?P (LEAST n. ?P n)" by (rule LeastI_ex [OF True])
  moreover have "\<forall>i<(LEAST n. ?P n). \<not> ?P i" using not_less_Least by blast
  ultimately show ?thesis using True unfolding ata_wait_ready_def by (subst if_P [OF True], intro poll_returns) auto
next
  case False
  then show ?thesis unfolding ata_wait_ready_def by (subst if_not_P [OF False], intro poll_hangs) auto
qed

section \<open>The drive\<close>

text \<open>
  The drive as its interface specification describes it, as far as the driver relies on it.  It shows its phase in the
  status register: busy (bit 7), and, while it is not busy, whether it requests a word of data (bit 3).  In the history \<open>tr\<close> these
  are the bits that a read of the status would give now.
\<close>

type_synonym device = "io list \<Rightarrow> u16 \<Rightarrow> u16"

definition busy :: "device \<Rightarrow> io list \<Rightarrow> bool" where
  "busy dev tr \<longleftrightarrow> (ucast (dev tr 0x1F7) :: u8) AND 0x80 \<noteq> 0"

definition requests :: "device \<Rightarrow> io list \<Rightarrow> bool" where
  "requests dev tr \<longleftrightarrow> \<not> busy dev tr \<and> (ucast (dev tr 0x1F7) :: u8) AND 0x08 \<noteq> 0"

text \<open>
  The registers hold the last byte that was written to them while the drive was neither busy nor requesting data; other writes
  are lost.
\<close>

fun task_file :: "device \<Rightarrow> u16 \<Rightarrow> io list \<Rightarrow> u8" where
  "task_file dev p [] = 0"
| "task_file dev p (Outb q v # tr) =
     (if q = p \<and> \<not> busy dev tr \<and> \<not> requests dev tr then v else task_file dev p tr)"
| "task_file dev p (_ # tr) = task_file dev p tr"

definition lba_regs :: "device \<Rightarrow> io list \<Rightarrow> nat" where
  "lba_regs dev tr = unat (task_file dev 0x1F6 tr AND 0x0F) * 16777216 + unat (task_file dev 0x1F5 tr) * 65536
     + unat (task_file dev 0x1F4 tr) * 256 + unat (task_file dev 0x1F3 tr)"

definition sectors :: "u8 \<Rightarrow> nat" where
  "sectors v = (if v = 0 then 256 else unat v)"

record transfer =
  cmd :: u8
  start :: nat
  total :: nat
  moved :: nat

definition outstanding :: "u8 \<Rightarrow> transfer option \<Rightarrow> bool" where
  "outstanding c x = (case x of None \<Rightarrow> False | Some t \<Rightarrow> cmd t = c \<and> moved t < total t)"

abbreviation another_word :: "transfer option \<Rightarrow> transfer option" where
  "another_word \<equiv> map_option (\<lambda>t. t\<lparr>moved := moved t + 1\<rparr>)"

text \<open>
  The last command that the drive accepted.  It takes the block address and the sector count (0 stands for 256) from the registers; a
  command that is written while the drive is busy or requests data is ignored.  An access to the data port moves a word only
  while the drive requests one; without a request it moves nothing.
\<close>

fun command :: "device \<Rightarrow> io list \<Rightarrow> transfer option" where
  "command dev [] = None"
| "command dev (Outb p v # tr) = (if p = 0x1F7 \<and> \<not> busy dev tr \<and> \<not> requests dev tr
     then Some \<lparr>cmd = v, start = lba_regs dev tr * 256, total = sectors (task_file dev 0x1F2 tr) * 256, moved = 0\<rparr>
     else command dev tr)"
| "command dev (Inw p v # tr) =
     (if p = 0x1F0 \<and> requests dev tr \<and> outstanding 0x20 (command dev tr) then another_word (command dev tr) else command dev tr)"
| "command dev (Outw p v # tr) =
     (if p = 0x1F0 \<and> requests dev tr \<and> outstanding 0x30 (command dev tr) then another_word (command dev tr) else command dev tr)"
| "command dev (_ # tr) = command dev tr"

text \<open>None of the driver's three commands is in the middle of its data.\<close>

definition idle :: "transfer option \<Rightarrow> bool" where
  "idle x = (case x of None \<Rightarrow> True | Some t \<Rightarrow> cmd t = 0xE7 \<or> (cmd t = 0x20 \<or> cmd t = 0x30) \<and> total t \<le> moved t)"

text \<open>The disk's contents, by 16-bit word: a word is stored when the drive requested it.\<close>

fun disk_after :: "device \<Rightarrow> (nat \<Rightarrow> u16) \<Rightarrow> io list \<Rightarrow> nat \<Rightarrow> u16" where
  "disk_after dev d [] = d"
| "disk_after dev d (Outw p v # tr) =
     (if p = 0x1F0 \<and> requests dev tr \<and> outstanding 0x30 (command dev tr)
      then (disk_after dev d tr)(start (the (command dev tr)) + moved (the (command dev tr)) := v) else disk_after dev d tr)"
| "disk_after dev d (_ # tr) = disk_after dev d tr"

text \<open>
  Accesses that do not make the drive leave its phase: reads of its registers, writes of the address and count registers with the
  master drive selected, and the words of a sector except its last one.  A command, a reset (\<^verbatim>\<open>0x3F6\<close>) and the last word
  of a sector may make it busy.
\<close>

definition mid_sector :: "u8 \<Rightarrow> device \<Rightarrow> io list \<Rightarrow> bool" where
  "mid_sector c dev tr \<longleftrightarrow> requests dev tr \<and> outstanding c (command dev tr) \<and> (moved (the (command dev tr)) + 1) mod 256 \<noteq> 0"

fun calm :: "device \<Rightarrow> io \<Rightarrow> io list \<Rightarrow> bool" where
  "calm dev (Inb p v) tr \<longleftrightarrow> p \<noteq> 0x1F0"
| "calm dev (Outb p v) tr \<longleftrightarrow> p \<noteq> 0x1F0 \<and> p \<noteq> 0x1F7 \<and> p \<noteq> 0x3F6 \<and> (p = 0x1F6 \<longrightarrow> v AND 0x10 = 0)"
| "calm dev (Inw p v) tr \<longleftrightarrow> p = 0x1F0 \<and> mid_sector 0x20 dev tr"
| "calm dev (Outw p v) tr \<longleftrightarrow> p = 0x1F0 \<and> mid_sector 0x30 dev tr"
| "calm dev _ tr \<longleftrightarrow> True"

text \<open>
  A drive with the contents \<open>d\<close>.  The data port gives the next word while the drive requests it, and anything at other times.  A drive that is
  not busy stays so, and keeps its request, until a command or the end of a sector.  It requests data only for a command with
  words outstanding.  It does not stay busy for ever, and while words are outstanding it requests one sooner or later; in
  between it may be busy, or neither busy nor requesting, for any time.  The status is up to date at every read, so
  that the four reads of \<^verbatim>\<open>0x3F6\<close> in the driver, a delay of 400 ns, are not needed; media errors are left out.
\<close>

definition ata_disk :: "device \<Rightarrow> (nat \<Rightarrow> u16) \<Rightarrow> bool" where
  "ata_disk dev d \<longleftrightarrow>
     (\<forall>tr. requests dev tr \<and> outstanding 0x20 (command dev tr) \<longrightarrow>
        dev tr 0x1F0 = disk_after dev d tr (start (the (command dev tr)) + moved (the (command dev tr))))
     \<and> (\<forall>e tr. calm dev e tr \<and> \<not> busy dev tr \<longrightarrow> \<not> busy dev (e # tr) \<and> (requests dev tr \<longrightarrow> requests dev (e # tr)))
     \<and> (\<forall>tr. idle (command dev tr) \<longrightarrow> \<not> requests dev tr)
     \<and> (\<forall>m. port_in m = dev \<longrightarrow> (\<exists>n. \<not> busy dev (trace (reads 0x1F7 n m))))
     \<and> (\<forall>m. port_in m = dev \<longrightarrow> outstanding 0x20 (command dev (trace m)) \<or> outstanding 0x30 (command dev (trace m)) \<longrightarrow>
          (\<exists>n. requests dev (trace (reads 0x1F7 n m))))"

lemma ata_diskD:
  assumes "ata_disk dev d"
  shows "requests dev tr \<Longrightarrow> outstanding 0x20 (command dev tr) \<Longrightarrow>
      dev tr 0x1F0 = disk_after dev d tr (start (the (command dev tr)) + moved (the (command dev tr)))"
    "calm dev e tr \<Longrightarrow> \<not> busy dev tr \<Longrightarrow> \<not> busy dev (e # tr)"
    "calm dev e tr \<Longrightarrow> requests dev tr \<Longrightarrow> requests dev (e # tr)"
    "idle (command dev tr) \<Longrightarrow> \<not> requests dev tr"
    "port_in m = dev \<Longrightarrow> \<exists>n. \<not> busy dev (trace (reads 0x1F7 n m))"
    "port_in m = dev \<Longrightarrow> outstanding 0x20 (command dev (trace m)) \<or> outstanding 0x30 (command dev (trace m)) \<Longrightarrow>
      \<exists>n. requests dev (trace (reads 0x1F7 n m))"
  using assms unfolding ata_disk_def requests_def by blast+

text \<open>Steps that only read status ports.\<close>

definition quiet :: "machine \<Rightarrow> machine \<Rightarrow> bool" where
  "quiet m m' \<longleftrightarrow> m'\<lparr>trace := trace m\<rparr> = m \<and> (\<forall>dev. command dev (trace m') = command dev (trace m))
     \<and> (\<forall>dev d. disk_after dev d (trace m') = disk_after dev d (trace m)) \<and> (\<forall>dev p. task_file dev p (trace m') = task_file dev p (trace m))"

lemma quiet_refl: "quiet m m"
  by (simp add: quiet_def)

lemma quiet_trans: "quiet m k \<Longrightarrow> quiet k l \<Longrightarrow> quiet m l"
proof -
  assume a: "quiet m k" "quiet k l"
  have "l\<lparr>trace := trace m\<rparr> = (l\<lparr>trace := trace k\<rparr>)\<lparr>trace := trace m\<rparr>" by simp
  also have "\<dots> = m" using a by (simp add: quiet_def)
  finally show ?thesis using a by (simp add: quiet_def)
qed

lemma quiet_inb: "quiet m (m\<lparr>trace := Inb p v # trace m\<rparr>)"
  by (simp add: quiet_def)

lemma quiet_reads: "quiet m (reads p n m)"
proof (induction n arbitrary: m)
  case (Suc n)
  show ?case using quiet_trans [OF quiet_inb Suc.IH] by simp
qed (simp add: quiet_refl)

lemma quietD:
  assumes "quiet m m'"
  shows "kern m' = kern m" "port_in m' = port_in m" "command dev (trace m') = command dev (trace m)"
    "disk_after dev d (trace m') = disk_after dev d (trace m)" "task_file dev p (trace m') = task_file dev p (trace m)"
    "m'\<lparr>trace := trace m\<rparr> = m"
proof -
  have e: "m'\<lparr>trace := trace m\<rparr> = m" using assms by (simp add: quiet_def)
  show "kern m' = kern m" "port_in m' = port_in m" by (subst e [symmetric], simp)+
qed (use assms in \<open>simp_all add: quiet_def\<close>)

lemma least_exists: "\<exists>n. P (n :: nat) \<Longrightarrow> \<exists>n. P n \<and> (\<forall>i<n. \<not> P i)"
  by (metis LeastI_ex not_less_Least)

lemma reads_stable:
  assumes "ata_disk (port_in m) d" "p \<noteq> 0x1F0"
  shows "\<not> busy (port_in m) (trace m) \<Longrightarrow> \<not> busy (port_in m) (trace (reads p n m))"
    "requests (port_in m) (trace m) \<Longrightarrow> requests (port_in m) (trace (reads p n m))"
  using assms
proof (induction n arbitrary: m)
  case (Suc n)
  {
    case 1
    then show ?case
      using Suc.IH(1) [of "m\<lparr>trace := Inb p (status p m) # trace m\<rparr>"] ata_diskD(2) [OF 1(2), of "Inb p (status p m)" "trace m"] by simp
  next
    case 2
    then show ?case
      using Suc.IH(2) [of "m\<lparr>trace := Inb p (status p m) # trace m\<rparr>"] ata_diskD(3) [OF 2(2), of "Inb p (status p m)" "trace m"] by simp
  }
qed simp_all

lemma reads_Suc: "reads p (Suc n) m = (reads p n m)\<lparr>trace := Inb p (status p (reads p n m)) # trace (reads p n m)\<rparr>"
proof (induction n arbitrary: m)
  case (Suc n)
  let ?m = "m\<lparr>trace := Inb p (status p m) # trace m\<rparr>"
  have "reads p n ?m = reads p (Suc n) m" "reads p (Suc n) ?m = reads p (Suc (Suc n)) m" by (simp_all only: reads.simps)
  then show ?case using Suc.IH [of ?m] by metis
qed simp

lemma ready_run:
  assumes "ata_disk (port_in m) d"
  shows "\<exists>k. poll 0x1F7 (\<lambda>v. v AND 0x80 \<noteq> 0) m = Inr ((), k) \<and> quiet m k \<and> \<not> busy (port_in m) (trace k)"
proof -
  from least_exists [OF ata_diskD(5) [OF assms refl]] obtain n where
    n: "\<not> busy (port_in m) (trace (reads 0x1F7 n m))" "\<forall>i<n. busy (port_in m) (trace (reads 0x1F7 i m))" by blast
  then have "poll 0x1F7 (\<lambda>v. v AND 0x80 \<noteq> 0) m = Inr ((), reads 0x1F7 (Suc n) m)"
    by (intro poll_returns) (simp_all add: busy_def)
  moreover have "\<not> busy (port_in m) (trace (reads 0x1F7 (Suc n) m))"
    unfolding reads_Suc using ata_diskD(2) [OF assms _ n(1)] by simp
  ultimately show ?thesis using quiet_reads by blast
qed

lemma drq_run:
  assumes dev: "ata_disk (port_in m) d" and nb: "\<not> busy (port_in m) (trace m)"
    and out: "outstanding 0x20 (command (port_in m) (trace m)) \<or> outstanding 0x30 (command (port_in m) (trace m))"
  shows "\<exists>k. ata_wait_drq m = Inr ((), k) \<and> quiet m k \<and> requests (port_in m) (trace k)"
proof -
  from least_exists [OF ata_diskD(6) [OF dev refl out]] obtain n where
    n: "requests (port_in m) (trace (reads 0x1F7 n m))" "\<forall>i<n. \<not> requests (port_in m) (trace (reads 0x1F7 i m))" by blast
  have "status 0x1F7 (reads 0x1F7 i m) AND 0x08 = 0 \<longleftrightarrow> \<not> requests (port_in m) (trace (reads 0x1F7 i m))" for i
    using reads_stable(1) [OF dev _ nb, of "0x1F7" i] by (simp add: requests_def)
  then have "poll 0x1F7 (\<lambda>v. v AND 0x08 = 0) m = Inr ((), reads 0x1F7 (Suc n) m)"
    using n by (intro poll_returns) simp_all
  moreover have "requests (port_in m) (trace (reads 0x1F7 (Suc n) m))"
    unfolding reads_Suc using ata_diskD(3) [OF dev _ n(1)] by simp
  ultimately show ?thesis using quiet_reads unfolding ata_wait_drq_def ATA_STATUS_def by blast
qed

section \<open>Block addresses\<close>

lemma unat_byte: "unat (ucast (x AND 0xFF :: u32) :: u8) = unat x mod 256"
proof -
  have m: "(0xFF :: u32) = mask 8" by (simp add: mask_eq_exp_minus_1)
  have "unat (x AND 0xFF) = unat x mod 256"
    unfolding m by (simp add: take_bit_eq_mod unat_mod_distrib flip: take_bit_eq_mask)
  then show ?thesis by (simp add: unsigned_ucast_eq take_bit_eq_mod)
qed

lemma drive_nibble: "(set_master_slave_super_lba lba ATA_MASTER AND 0x0F) = ucast (drop_bit 24 lba AND 0x0F)"
proof (rule bit_word_eqI)
  fix n assume "n < LENGTH(8)"
  have m: "(0x0F :: u8) = mask 4" "(0x0F :: u32) = mask 4" by (simp_all add: mask_eq_exp_minus_1)
  have e: "bit (0xE0 :: u8) n \<Longrightarrow> \<not> n < 4"
  proof
    assume "bit (0xE0 :: u8) n" "n < 4"
    then have "n \<in> {0, 1, 2, 3}" by auto
    with \<open>bit (0xE0 :: u8) n\<close> show False by (elim insertE emptyE) simp_all
  qed
  show "bit (set_master_slave_super_lba lba ATA_MASTER AND 0x0F) n = bit (ucast (drop_bit 24 lba AND 0x0F) :: u8) n"
    using e \<open>n < LENGTH(8)\<close> unfolding set_master_slave_super_lba_def ATA_MASTER_def m
    by (auto simp: bit_simps)
qed

lemma unat_nibble: "unat (ucast (x AND 0x0F :: u32) :: u8) = unat x mod 16"
proof -
  have m: "(0x0F :: u32) = mask 4" by (simp add: mask_eq_exp_minus_1)
  have "unat (x AND 0x0F) = unat x mod 16"
    unfolding m by (simp add: take_bit_eq_mod unat_mod_distrib flip: take_bit_eq_mask)
  then show ?thesis by (simp add: unsigned_ucast_eq take_bit_eq_mod)
qed

lemma unat_drop: "unat (drop_bit n (x :: u32)) = unat x div 2 ^ n"
  unfolding unat_drop_bit_eq by (rule drop_bit_eq_div)

lemma lba_bytes:
  assumes "unat lba < 268435456"
  shows "unat (set_master_slave_super_lba lba ATA_MASTER AND 0x0F) * 16777216 + unat (get_high_lba lba) * 65536
     + unat (get_mid_lba lba) * 256 + unat (get_low_lba lba) = unat lba"
proof -
  let ?x = "unat lba"
  have d: "unat (set_master_slave_super_lba lba ATA_MASTER AND 0x0F) = ?x div 16777216"
    unfolding drive_nibble unat_nibble unat_drop using assms by (simp add: less_mult_imp_div_less)
  have l: "unat (get_low_lba lba) = ?x mod 256" unfolding get_low_lba_def by (rule unat_byte)
  have mi: "unat (get_mid_lba lba) = ?x div 256 mod 256" unfolding get_mid_lba_def unat_byte unat_drop by simp
  have h: "unat (get_high_lba lba) = ?x div 65536 mod 256" unfolding get_high_lba_def unat_byte unat_drop by simp
  have "?x div 65536 = ?x div 256 div 256" "?x div 16777216 = ?x div 256 div 256 div 256" by (simp_all add: div_mult2_eq [symmetric])
  then have "?x div 16777216 * 256 + ?x div 65536 mod 256 = ?x div 65536" "?x div 65536 * 256 + ?x div 256 mod 256 = ?x div 256"
    by (metis div_mult_mod_eq)+
  moreover have "?x div 256 * 256 + ?x mod 256 = ?x" by (rule div_mult_mod_eq)
  ultimately show ?thesis unfolding d l mi h by linarith
qed

section \<open>Commands\<close>

lemma settle_run: "\<exists>k. ata_settle m = Inr ((), k) \<and> quiet m k"
proof -
  define s where "s = (\<lambda>k. k\<lparr>trace := Inb 0x3F6 (status 0x3F6 k) # trace k\<rparr>)"
  have "ata_settle m = Inr ((), s (s (s (s m))))" by (simp add: ata_settle_def s_def)
  moreover have "quiet k (s k)" for k unfolding s_def by (rule quiet_inb)
  ultimately show ?thesis by (blast intro: quiet_trans)
qed

lemma master_selected: "set_master_slave_super_lba lba ATA_MASTER AND 0x10 = 0"
proof (rule bit_word_eqI)
  fix n assume "n < LENGTH(8)"
  then have "n \<in> {0, 1, 2, 3, 4, 5, 6, 7}" by auto
  then show "bit (set_master_slave_super_lba lba ATA_MASTER AND 0x10) n = bit 0 n"
    by (elim insertE emptyE; hypsubst)
      (simp_all add: set_master_slave_super_lba_def ATA_MASTER_def bit_simps)
qed

text \<open>A write to an address or count register of a drive that is waiting for a command.\<close>

lemma register_write:
  assumes "ata_disk dev d" "\<not> busy dev tr" "idle (command dev tr)" "p \<noteq> 0x1F0" "p \<noteq> 0x1F7" "p \<noteq> 0x3F6" "p = 0x1F6 \<longrightarrow> v AND 0x10 = 0"
  shows "\<not> busy dev (Outb p v # tr)" "command dev (Outb p v # tr) = command dev tr"
    "task_file dev q (Outb p v # tr) = (if q = p then v else task_file dev q tr)" "disk_after dev e (Outb p v # tr) = disk_after dev e tr"
  using ata_diskD(2) [OF assms(1), of "Outb p v" tr] ata_diskD(4) [OF assms(1,3)] assms(2-7) by simp_all

lemma select_run:
  assumes dev: "ata_disk (port_in m) d" and idle: "idle (command (port_in m) (trace m))" and lba: "unat lba < 268435456"
  shows "\<exists>m'. ata_select lba n c m = Inr ((), m') \<and> m'\<lparr>trace := trace m\<rparr> = m
    \<and> command (port_in m) (trace m') = Some \<lparr>cmd = c, start = unat lba * 256, total = sectors n * 256, moved = 0\<rparr>
    \<and> (\<forall>e. disk_after (port_in m) e (trace m') = disk_after (port_in m) e (trace m)) \<and> \<not> busy (port_in m) (trace m')"
proof -
  let ?w = "poll 0x1F7 (\<lambda>v. v AND 0x80 \<noteq> 0)" and ?D = "port_in m"
  have st: "x\<lparr>trace := t\<rparr>\<lparr>trace := u\<rparr> = x\<lparr>trace := u\<rparr>" for x :: machine and t u by simp
  from ready_run [OF dev] obtain k1 where k1: "?w m = Inr ((), k1)" "quiet m k1" "\<not> busy ?D (trace k1)" by blast
  have i1: "idle (command ?D (trace k1))" using idle quietD(3) [OF k1(2)] by simp
  let ?t1 = "Outb 0x1F6 (set_master_slave_super_lba lba ATA_MASTER) # trace k1"
  let ?t2 = "Outb 0x1F2 n # ?t1"
  let ?t3 = "Outb 0x1F3 (get_low_lba lba) # ?t2"
  let ?t4 = "Outb 0x1F4 (get_mid_lba lba) # ?t3"
  let ?t5 = "Outb 0x1F5 (get_high_lba lba) # ?t4"
  have r1: "\<not> busy ?D ?t1 \<and> idle (command ?D ?t1)"
    using register_write(1,2) [OF dev k1(3) i1, of "0x1F6" "set_master_slave_super_lba lba ATA_MASTER"] i1 master_selected
    by (simp del: command.simps)
  have r2: "\<not> busy ?D ?t2 \<and> idle (command ?D ?t2)"
    using register_write(1,2) [OF dev conjunct1 [OF r1] conjunct2 [OF r1], of "0x1F2" n] r1 by (simp del: command.simps)
  have r3: "\<not> busy ?D ?t3 \<and> idle (command ?D ?t3)"
    using register_write(1,2) [OF dev conjunct1 [OF r2] conjunct2 [OF r2], of "0x1F3" "get_low_lba lba"] r2 by (simp del: command.simps)
  have r4: "\<not> busy ?D ?t4 \<and> idle (command ?D ?t4)"
    using register_write(1,2) [OF dev conjunct1 [OF r3] conjunct2 [OF r3], of "0x1F4" "get_mid_lba lba"] r3 by (simp del: command.simps)
  have r5: "\<not> busy ?D ?t5 \<and> idle (command ?D ?t5)"
    using register_write(1,2) [OF dev conjunct1 [OF r4] conjunct2 [OF r4], of "0x1F5" "get_high_lba lba"] r4 by (simp del: command.simps)
  note free = k1(3) i1 r1 r2 r3 r4 r5
  have nreq: "\<not> requests ?D (trace k1)" "\<not> requests ?D ?t1" "\<not> requests ?D ?t2" "\<not> requests ?D ?t3" "\<not> requests ?D ?t4" "\<not> requests ?D ?t5"
    using free by (auto simp del: command.simps intro: ata_diskD(4) [OF dev, THEN notE])
  define k2 where "k2 = k1\<lparr>trace := ?t5\<rparr>"
  have p2: "port_in k2 = ?D" using quietD(2) [OF k1(2)] by (simp add: k2_def)
  then have "ata_disk (port_in k2) d" using dev by simp
  from ready_run [OF this] p2 obtain k3 where k3: "?w k2 = Inr ((), k3)" "quiet k2 k3" "\<not> busy ?D (trace k3)" by auto
  have nr: "\<not> requests ?D (trace k3)" using r5 quietD(3) [OF k3(2)] by (intro ata_diskD(4) [OF dev]) (simp add: k2_def del: command.simps)
  define k4 where "k4 = k3\<lparr>trace := Outb 0x1F7 c # trace k3\<rparr>"
  from settle_run obtain k8 where k8: "ata_settle k4 = Inr ((), k8)" "quiet k4 k8" by blast
  note q = k8(2)
  have p8: "port_in k8 = ?D" using quietD(2) [OF q] quietD(2) [OF k3(2)] p2 by (simp add: k4_def)
  from ready_run [of k8 d] dev p8 obtain m' where m': "?w k8 = Inr ((), m')" "quiet k8 m'" "\<not> busy ?D (trace m')" by auto
  note q' = quiet_trans [OF q m'(2)]
  have run: "ata_select lba n c m = Inr ((), m')"
    using k1(1) k3(1) m'(1) k8(1)
    by (simp add: ata_select_def ata_wait_ready_def ata_ports k2_def [unfolded ATA_MASTER_def] k4_def)
  have regs: "task_file ?D 0x1F6 (trace k3) = set_master_slave_super_lba lba ATA_MASTER" "task_file ?D 0x1F5 (trace k3) = get_high_lba lba"
    "task_file ?D 0x1F4 (trace k3) = get_mid_lba lba" "task_file ?D 0x1F3 (trace k3) = get_low_lba lba" "task_file ?D 0x1F2 (trace k3) = n"
    unfolding quietD(5) [OF k3(2)] k2_def using free nreq by simp_all
  have cm: "command ?D (trace m') = Some \<lparr>cmd = c, start = unat lba * 256, total = sectors n * 256, moved = 0\<rparr>"
    unfolding quietD(3) [OF q'] using lba_bytes [OF lba] k3(3) nr by (simp add: k4_def lba_regs_def regs)
  have da: "disk_after ?D e (trace m') = disk_after ?D e (trace m)" for e
    by (simp add: quietD(4) [OF q'] k4_def quietD(4) [OF k3(2)] k2_def quietD(4) [OF k1(2)])
  have "m'\<lparr>trace := trace m\<rparr> = m"
  proof -
    have "m'\<lparr>trace := trace m\<rparr> = k4\<lparr>trace := trace m\<rparr>" using quietD(6) [OF q'] by (metis st)
    also have "\<dots> = k2\<lparr>trace := trace m\<rparr>" unfolding k4_def using quietD(6) [OF k3(2)] by (metis st)
    also have "\<dots> = m" unfolding k2_def using quietD(6) [OF k1(2)] by simp
    finally show ?thesis .
  qed
  then show ?thesis using run cm da m'(3) by blast
qed

text \<open>A drive that requests data ignores the whole command.\<close>

lemma requests_write:
  assumes "ata_disk dev d" "requests dev tr" "p \<noteq> 0x1F0" "p \<noteq> 0x1F7" "p \<noteq> 0x3F6" "p = 0x1F6 \<longrightarrow> v AND 0x10 = 0"
  shows "requests dev (Outb p v # tr)"
  using ata_diskD(3) [OF assms(1), of "Outb p v" tr] assms(2-6) by simp

lemma select_ignored:
  assumes dev: "ata_disk (port_in m) d" and rq: "requests (port_in m) (trace m)"
  shows "\<exists>m'. ata_select lba n c m = Inr ((), m') \<and> m'\<lparr>trace := trace m\<rparr> = m
    \<and> command (port_in m) (trace m') = command (port_in m) (trace m)
    \<and> (\<forall>e. disk_after (port_in m) e (trace m') = disk_after (port_in m) e (trace m))"
proof -
  let ?w = "poll 0x1F7 (\<lambda>v. v AND 0x80 \<noteq> 0)" and ?D = "port_in m"
  have st: "x\<lparr>trace := t\<rparr>\<lparr>trace := u\<rparr> = x\<lparr>trace := u\<rparr>" for x :: machine and t u by simp
  have w: "?w k = Inr ((), reads 0x1F7 1 k)" if "requests (port_in k) (trace k)" for k
    using that poll_unfold [of "0x1F7" "\<lambda>v. v AND 0x80 \<noteq> 0" k] by (simp add: requests_def busy_def)
  define k1 where "k1 = reads 0x1F7 1 m"
  have k1: "?w m = Inr ((), k1)" "quiet m k1" "requests ?D (trace k1)"
    unfolding k1_def by (rule w [OF rq], rule quiet_reads, rule reads_stable(2) [OF dev _ rq], simp)
  let ?t5 = "Outb 0x1F5 (get_high_lba lba) # Outb 0x1F4 (get_mid_lba lba) # Outb 0x1F3 (get_low_lba lba) # Outb 0x1F2 n
    # Outb 0x1F6 (set_master_slave_super_lba lba ATA_MASTER) # trace k1"
  have r5: "requests ?D ?t5" by (intro requests_write [OF dev] k1(3)) (simp_all add: master_selected)
  define k2 where "k2 = k1\<lparr>trace := ?t5\<rparr>"
  have p2: "port_in k2 = ?D" using quietD(2) [OF k1(2)] by (simp add: k2_def)
  define k3 where "k3 = reads 0x1F7 1 k2"
  have r2: "requests (port_in k2) (trace k2)" using r5 p2 by (simp add: k2_def)
  have k3: "?w k2 = Inr ((), k3)" "quiet k2 k3" "requests ?D (trace k3)"
    unfolding k3_def p2 [symmetric]
    by (rule w [OF r2], rule quiet_reads, rule reads_stable(2) [OF dev [folded p2] _ r2], simp)
  define k4 where "k4 = k3\<lparr>trace := Outb 0x1F7 c # trace k3\<rparr>"
  from settle_run obtain k8 where k8: "ata_settle k4 = Inr ((), k8)" "quiet k4 k8" by blast
  note q = k8(2)
  have p8: "port_in k8 = ?D" using quietD(2) [OF q] quietD(2) [OF k3(2)] p2 by (simp add: k4_def)
  from ready_run [of k8 d] dev p8 obtain m' where m': "?w k8 = Inr ((), m')" "quiet k8 m'" by auto
  note q' = quiet_trans [OF q m'(2)]
  have run: "ata_select lba n c m = Inr ((), m')"
    using k1(1) k3(1) m'(1) k8(1)
    by (simp add: ata_select_def ata_wait_ready_def ata_ports k2_def [unfolded ATA_MASTER_def] k4_def)
  have cm: "command ?D (trace m') = command ?D (trace m)"
    by (simp add: quietD(3) [OF q'] k4_def k3(3) quietD(3) [OF k3(2)]) (simp add: k2_def quietD(3) [OF k1(2)])
  have da: "disk_after ?D e (trace m') = disk_after ?D e (trace m)" for e
    by (simp add: quietD(4) [OF q'] k4_def quietD(4) [OF k3(2)] k2_def quietD(4) [OF k1(2)])
  have "m'\<lparr>trace := trace m\<rparr> = m"
  proof -
    have "m'\<lparr>trace := trace m\<rparr> = k4\<lparr>trace := trace m\<rparr>" using quietD(6) [OF q'] by (metis st)
    also have "\<dots> = k2\<lparr>trace := trace m\<rparr>" unfolding k4_def using quietD(6) [OF k3(2)] by (metis st)
    also have "\<dots> = m" unfolding k2_def using quietD(6) [OF k1(2)] by simp
    finally show ?thesis .
  qed
  then show ?thesis using run cm da by blast
qed

section \<open>Half words in memory\<close>

definition peek16 :: "kstate \<Rightarrow> u32 \<Rightarrow> u16" where
  "peek16 s a = ucast (bpeek load32 s a) OR push_bit 8 (ucast (bpeek load32 s (a + 1)))"

lemma halves: "ucast (ucast w :: u8) OR push_bit 8 (ucast (ucast (drop_bit 8 w) :: u8)) = (w :: u16)"
  by (rule bit_word_eqI) (auto simp: bit_simps)

lemma one_neq: "a + 1 \<noteq> (a :: u32)"
  by simp

lemma store16_run:
  assumes "mem_only_ok A V s0 s" "a \<in> byte_addrs V s0" "a + 1 \<in> byte_addrs V s0"
  shows "\<exists>t. store16 a w s = Inr ((), t) \<and> mem_only_ok A V s0 t \<and> peek16 t a = w
    \<and> (\<forall>c\<in>byte_addrs V s0. c \<noteq> a \<longrightarrow> c \<noteq> a + 1 \<longrightarrow> bpeek load32 t c = bpeek load32 s c)"
proof -
  from store8_run [OF assms(1,2), of "ucast w"] obtain u where
    u: "store8 a (ucast w) s = Inr ((), u)" "mem_only_ok A V s0 u"
      "\<And>c. c \<in> byte_addrs V s0 \<Longrightarrow> bpeek load32 u c = (if c = a then ucast w else bpeek load32 s c)" by blast
  from store8_run [OF u(2) assms(3), of "ucast (drop_bit 8 w)"] obtain t where
    t: "store8 (a + 1) (ucast (drop_bit 8 w)) u = Inr ((), t)" "mem_only_ok A V s0 t"
      "\<And>c. c \<in> byte_addrs V s0 \<Longrightarrow> bpeek load32 t c = (if c = a + 1 then ucast (drop_bit 8 w) else bpeek load32 u c)" by blast
  have "bpeek load32 t a = ucast w" "bpeek load32 t (a + 1) = ucast (drop_bit 8 w)"
    using t(3) [OF assms(2)] t(3) [OF assms(3)] u(3) [OF assms(2)] by simp_all
  then have "peek16 t a = w" by (simp only: peek16_def halves)
  then show ?thesis using t u by (auto simp: store16_def)
qed

lemma load16_run:
  assumes "mem_only_ok A V s0 s" "a \<in> byte_addrs V s0" "a + 1 \<in> byte_addrs V s0"
  shows "load16 a s = Inr (peek16 s a, s)"
  using load8_run [OF assms(1,2)] load8_run [OF assms(1,3)] by (simp add: load16_def peek16_def)

text \<open>The half words of a buffer, and where its bytes are.\<close>

definition half :: "u32 \<Rightarrow> nat \<Rightarrow> u32" where
  "half b i = b + of_nat (2 * i)"

lemma half_span:
  assumes "span b (2 * n) \<subseteq> S" "i < n"
  shows "half b i \<in> S" "half b i + 1 \<in> S"
proof -
  have "b + of_nat (2 * i) \<in> span b (2 * n)" unfolding span_def using assms(2) by (intro CollectI exI [of _ "2 * i"]) simp
  moreover have "b + of_nat (2 * i) + 1 \<in> span b (2 * n)"
    unfolding span_def using assms(2) by (intro CollectI exI [of _ "2 * i + 1"]) (simp add: algebra_simps)
  ultimately show "half b i \<in> S" "half b i + 1 \<in> S" using assms(1) by (auto simp: half_def)
qed

lemma off_inj: "i < 2 ^ 32 \<Longrightarrow> j < 2 ^ 32 \<Longrightarrow> b + of_nat i = b + (of_nat j :: u32) \<longleftrightarrow> i = j"
proof
  assume ij: "i < 2 ^ 32" "j < 2 ^ 32" and "b + of_nat i = b + (of_nat j :: u32)"
  then have "(of_nat i :: u32) = of_nat j" by simp
  then have "unat (of_nat i :: u32) = unat (of_nat j :: u32)" by (rule arg_cong)
  then show "i = j" using ij by (simp add: unat_of_nat)
qed simp

lemma half_neq:
  assumes "i < 2 ^ 31" "j < 2 ^ 31" "i \<noteq> j"
  shows "half b j \<noteq> half b i" "half b j \<noteq> half b i + 1" "half b j + 1 \<noteq> half b i" "half b j + 1 \<noteq> half b i + 1"
proof -
  have lt: "2 * i < 2 ^ 32" "2 * i + 1 < 2 ^ 32" "2 * j < 2 ^ 32" "2 * j + 1 < 2 ^ 32" using assms by simp_all
  have s: "half b k + 1 = b + of_nat (2 * k + 1)" for k by (simp add: half_def)
  have p: "2 * j \<noteq> 2 * i + 1" "2 * j + 1 \<noteq> 2 * i" by presburger+
  show "half b j \<noteq> half b i" unfolding half_def off_inj [OF lt(3,1)] using assms(3) by simp
  show "half b j \<noteq> half b i + 1" unfolding s unfolding half_def off_inj [OF lt(3,2)] by (rule p)
  show "half b j + 1 \<noteq> half b i" unfolding s unfolding half_def off_inj [OF lt(4,1)] by (rule p)
  show "half b j + 1 \<noteq> half b i + 1" unfolding s off_inj [OF lt(4,2)] using assms(3) by simp
qed

lemma peek16_cong: "bpeek load32 t a = bpeek load32 s a \<Longrightarrow> bpeek load32 t (a + 1) = bpeek load32 s (a + 1) \<Longrightarrow> peek16 t a = peek16 s a"
  by (simp add: peek16_def)

section \<open>Reading\<close>

definition filled_to :: "nat set \<Rightarrow> kstate \<Rightarrow> u32 \<Rightarrow> nat \<Rightarrow> nat \<Rightarrow> (nat \<Rightarrow> u16) \<Rightarrow> kstate \<Rightarrow> kstate \<Rightarrow> bool" where
  "filled_to V s0 b i j f s t \<longleftrightarrow> (\<forall>q. i \<le> q \<and> q < j \<longrightarrow> peek16 t (half b q) = f q)
     \<and> (\<forall>c\<in>byte_addrs V s0. (\<forall>q. i \<le> q \<and> q < j \<longrightarrow> c \<noteq> half b q \<and> c \<noteq> half b q + 1) \<longrightarrow> bpeek load32 t c = bpeek load32 s c)"

lemma filled_to_refl: "filled_to V s0 b i i f s s"
  by (auto simp: filled_to_def)

lemma filled_to_trans:
  assumes "filled_to V s0 b i j f s t" "filled_to V s0 b j k f t u" "i \<le> j" "j \<le> k" "k < 2 ^ 31" "span b (2 * k) \<subseteq> byte_addrs V s0"
  shows "filled_to V s0 b i k f s u"
  unfolding filled_to_def
proof (intro conjI allI impI ballI)
  fix q assume q: "i \<le> q \<and> q < k"
  show "peek16 u (half b q) = f q"
  proof (cases "q < j")
    case True
    have ne: "half b q \<noteq> half b r \<and> half b q \<noteq> half b r + 1" "half b q + 1 \<noteq> half b r \<and> half b q + 1 \<noteq> half b r + 1"
      if "j \<le> r" "r < k" for r
      using half_neq [of r q b] that True assms(4,5) q by auto
    have "peek16 u (half b q) = peek16 t (half b q)"
      by (rule peek16_cong) (use assms(2) ne half_span [OF assms(6), of q] q in \<open>auto simp: filled_to_def\<close>)
    then show ?thesis using assms(1) q True by (simp add: filled_to_def)
  next
    case False
    then show ?thesis using assms(2) q by (simp add: filled_to_def)
  qed
next
  fix c assume c: "c \<in> byte_addrs V s0" "\<forall>q. i \<le> q \<and> q < k \<longrightarrow> c \<noteq> half b q \<and> c \<noteq> half b q + 1"
  have "bpeek load32 u c = bpeek load32 t c" using assms(2,3) c unfolding filled_to_def by (meson le_trans)
  moreover have "bpeek load32 t c = bpeek load32 s c" using assms(1,4) c unfolding filled_to_def by (meson less_le_trans)
  ultimately show "bpeek load32 u c = bpeek load32 s c" by simp
qed

abbreviation transfer_at :: "u8 \<Rightarrow> nat \<Rightarrow> nat \<Rightarrow> nat \<Rightarrow> transfer" where
  "transfer_at c l n i \<equiv> \<lparr>cmd = c, start = l, total = n, moved = i\<rparr>"

text \<open>The fields that a transfer leaves alone.\<close>

definition same_but :: "machine \<Rightarrow> machine \<Rightarrow> bool" where
  "same_but m m' \<longleftrightarrow> m'\<lparr>trace := trace m, kern := kern m\<rparr> = m"

lemma same_but_refl [simp]: "same_but m m"
  by (simp add: same_but_def)

lemma same_but_trans: "same_but m k \<Longrightarrow> same_but k l \<Longrightarrow> same_but m l"
proof -
  assume a: "same_but m k" "same_but k l"
  have "l\<lparr>trace := trace m, kern := kern m\<rparr> = (l\<lparr>trace := trace k, kern := kern k\<rparr>)\<lparr>trace := trace m, kern := kern m\<rparr>" by simp
  also have "\<dots> = k\<lparr>trace := trace m, kern := kern m\<rparr>" by (simp only: a(2) [unfolded same_but_def])
  also have "\<dots> = m" by (rule a(1) [unfolded same_but_def])
  finally show ?thesis by (simp only: same_but_def)
qed

lemma same_but_port: "same_but m m' \<Longrightarrow> port_in m' = port_in m"
  unfolding same_but_def by (metis machine.select_convs(2) machine.update_convs(1,4) machine.surjective)

lemma quiet_same: "quiet m m' \<Longrightarrow> same_but m m'"
  using quietD(1,6) [of m m'] by (cases m, cases m') (simp add: same_but_def)

lemma same_but_kern_trace: "same_but m (m\<lparr>trace := t, kern := k\<rparr>)"
  by (simp add: same_but_def)

text \<open>A word inside a sector: the drive keeps its request unless the word was the sector's last one.\<close>

lemma word_kept:
  assumes "ata_disk dev d" "requests dev tr" "command dev tr = Some (transfer_at c l n i)" "i < n"
    "e = Inw 0x1F0 v \<and> c = 0x20 \<or> e = Outw 0x1F0 v \<and> c = 0x30"
  shows "command dev (e # tr) = Some (transfer_at c l n (i + 1))" "(i + 1) mod 256 \<noteq> 0 \<Longrightarrow> requests dev (e # tr)"
proof -
  show "command dev (e # tr) = Some (transfer_at c l n (i + 1))" using assms by (auto simp: outstanding_def)
  assume "(i + 1) mod 256 \<noteq> 0"
  then have "calm dev e tr" using assms by (auto simp: mid_sector_def outstanding_def)
  then show "requests dev (e # tr)" by (rule ata_diskD(3) [OF assms(1) _ assms(2)])
qed

lemma sector_inside: "i mod 256 + Suc k \<le> 256 \<Longrightarrow> 0 < k \<Longrightarrow> (i + 1) mod 256 \<noteq> 0 \<and> (i + 1) mod 256 + k \<le> (256 :: nat)"
  by (simp add: mod_Suc)

lemma read_words_run:
  assumes "mem_only_ok A V s0 (kern m)" "ata_disk (port_in m) d" "command (port_in m) (trace m) = Some (transfer_at 0x20 l n i)"
    "i + k \<le> n" "span b (2 * (i + k)) \<subseteq> byte_addrs V s0" "i + k < 2 ^ 31"
    "0 < k \<longrightarrow> requests (port_in m) (trace m) \<and> i mod 256 + k \<le> 256"
  shows "\<exists>m'. read_words b i k m = Inr ((), m') \<and> mem_only_ok A V s0 (kern m') \<and> same_but m m'
    \<and> command (port_in m) (trace m') = Some (transfer_at 0x20 l n (i + k))
    \<and> (\<forall>e. disk_after (port_in m) e (trace m') = disk_after (port_in m) e (trace m))
    \<and> filled_to V s0 b i (i + k) (\<lambda>q. disk_after (port_in m) d (trace m) (l + q)) (kern m) (kern m')"
  using assms
proof (induction k arbitrary: i m)
  case 0
  then show ?case by (auto simp: filled_to_def)
next
  case (Suc k)
  let ?D = "port_in m"
  let ?f = "\<lambda>q. disk_after ?D d (trace m) (l + q)"
  have i: "i < i + Suc k" "i < n" using Suc.prems(4) by simp_all
  have rq: "requests ?D (trace m)" "i mod 256 + Suc k \<le> 256" using Suc.prems(7) by simp_all
  note hs = half_span [OF Suc.prems(5) i(1)]
  let ?w = "?f i"
  have rd: "?D (trace m) 0x1F0 = ?w"
    using ata_diskD(1) [OF Suc.prems(2) rq(1)] Suc.prems(3) i(2) by (simp add: outstanding_def)
  let ?m1 = "m\<lparr>trace := Inw 0x1F0 ?w # trace m\<rparr>"
  from store16_run [OF Suc.prems(1) hs, of ?w] obtain t where
    t: "store16 (half b i) ?w (kern m) = Inr ((), t)" "mem_only_ok A V s0 t" "peek16 t (half b i) = ?w"
      "\<forall>c\<in>byte_addrs V s0. c \<noteq> half b i \<longrightarrow> c \<noteq> half b i + 1 \<longrightarrow> bpeek load32 t c = bpeek load32 (kern m) c" by blast
  define m2 where "m2 = m\<lparr>trace := Inw 0x1F0 ?w # trace m, kern := t\<rparr>"
  note kept = word_kept [OF Suc.prems(2) rq(1) Suc.prems(3) i(2), of "Inw 0x1F0 ?w" ?w]
  have p2: "port_in m2 = ?D" by (simp add: m2_def)
  have m2: "mem_only_ok A V s0 (kern m2)" "ata_disk (port_in m2) d" "command (port_in m2) (trace m2) = Some (transfer_at 0x20 l n (i + 1))"
    "\<And>e. disk_after ?D e (trace m2) = disk_after ?D e (trace m)" "same_but m m2" "kern m2 = t"
    using Suc.prems(2) kept(1) t(2) by (simp_all add: m2_def same_but_kern_trace del: command.simps)
  have "0 < k \<longrightarrow> requests (port_in m2) (trace m2) \<and> (i + 1) mod 256 + k \<le> 256"
    using sector_inside [OF rq(2)] kept(2) by (simp add: m2_def)
  moreover have "i + 1 + k \<le> n" "span b (2 * (i + 1 + k)) \<subseteq> byte_addrs V s0" "i + 1 + k < 2 ^ 31" using Suc.prems(4-6) by simp_all
  ultimately obtain m' where
    m': "read_words b (i + 1) k m2 = Inr ((), m')" "mem_only_ok A V s0 (kern m')" "same_but m2 m'"
      "command ?D (trace m') = Some (transfer_at 0x20 l n (i + 1 + k))" "\<forall>e. disk_after ?D e (trace m') = disk_after ?D e (trace m2)"
      "filled_to V s0 b (i + 1) (i + 1 + k) (\<lambda>q. disk_after ?D d (trace m2) (l + q)) (kern m2) (kern m')"
    using Suc.IH [OF m2(1-3)] unfolding p2 by blast
  have "filled_to V s0 b i (i + 1) ?f (kern m) (kern m2)"
  proof -
    have "i \<le> q \<and> q < i + 1 \<longleftrightarrow> q = i" for q by auto
    then show ?thesis using t(3,4) by (simp only: filled_to_def m2(6)) simp
  qed
  then have f: "filled_to V s0 b i (i + 1 + k) ?f (kern m) (kern m')"
    by (rule filled_to_trans [OF _ m'(6) [unfolded m2(4)]]) (use Suc.prems(5,6) in simp_all)
  have "kern_op (store16 (half b i) ?w) ?m1 = Inr ((), m2)" using t(1) by (simp add: m2_def)
  then have run: "read_words b i (Suc k) m = Inr ((), m')"
    using rd m'(1) by (simp add: ATA_DATA_def half_def del: of_nat_Suc)
  show ?case using run m'(2,4,5) m2(4) f same_but_trans [OF m2(5) m'(3)] by simp
qed

text \<open>The two waits before a sector.\<close>

lemma sector_waits:
  assumes "ata_disk (port_in m) d"
    "outstanding 0x20 (command (port_in m) (trace m)) \<or> outstanding 0x30 (command (port_in m) (trace m))"
  shows "\<exists>k1 k2. ata_wait_ready m = Inr ((), k1) \<and> ata_wait_drq k1 = Inr ((), k2) \<and> quiet m k2 \<and> requests (port_in m) (trace k2)"
proof -
  from ready_run [OF assms(1)] obtain k1 where
    k1: "ata_wait_ready m = Inr ((), k1)" "quiet m k1" "\<not> busy (port_in m) (trace k1)" unfolding ata_wait_ready_def ATA_STATUS_def by blast
  from drq_run [of k1 d] assms k1(3) obtain k2 where
    "ata_wait_drq k1 = Inr ((), k2)" "quiet k1 k2" "requests (port_in m) (trace k2)" by (auto simp: quietD [OF k1(2)])
  then show ?thesis using k1 quiet_trans by blast
qed

lemma read_sectors_run:
  assumes "mem_only_ok A V s0 (kern m)" "ata_disk (port_in m) d" "command (port_in m) (trace m) = Some (transfer_at 0x20 l n (s * 256))"
    "(s + k) * 256 \<le> n" "span b (2 * ((s + k) * 256)) \<subseteq> byte_addrs V s0" "(s + k) * 256 < 2 ^ 31"
  shows "\<exists>m'. read_sectors b s k m = Inr ((), m') \<and> mem_only_ok A V s0 (kern m') \<and> same_but m m'
    \<and> command (port_in m) (trace m') = Some (transfer_at 0x20 l n ((s + k) * 256))
    \<and> (\<forall>e. disk_after (port_in m) e (trace m') = disk_after (port_in m) e (trace m))
    \<and> filled_to V s0 b (s * 256) ((s + k) * 256) (\<lambda>q. disk_after (port_in m) d (trace m) (l + q)) (kern m) (kern m')"
  using assms
proof (induction k arbitrary: s m)
  case 0
  then show ?case by (auto simp: filled_to_def)
next
  case (Suc k)
  let ?D = "port_in m"
  have "outstanding 0x20 (command ?D (trace m))" using Suc.prems(3,4) by (simp add: outstanding_def)
  with sector_waits [OF Suc.prems(2)] obtain k1 k2 where
    k1: "ata_wait_ready m = Inr ((), k1)" and k2: "ata_wait_drq k1 = Inr ((), k2)" and q: "quiet m k2" and rq: "requests ?D (trace k2)" by blast
  have "s * 256 + 256 \<le> n" "s * 256 + 256 < 2 ^ 31" using Suc.prems(4,6) by simp_all
  moreover have sp: "span b (2 * (s * 256 + 256)) \<subseteq> byte_addrs V s0"
    using Suc.prems(5) span_mono [of "2 * (s * 256 + 256)" "2 * ((s + Suc k) * 256)" b] by simp
  ultimately obtain k3 where
    k3: "read_words b (s * 256) 256 k2 = Inr ((), k3)" "mem_only_ok A V s0 (kern k3)" "same_but k2 k3"
      "command ?D (trace k3) = Some (transfer_at 0x20 l n (s * 256 + 256))" "\<forall>e. disk_after ?D e (trace k3) = disk_after ?D e (trace m)"
      "filled_to V s0 b (s * 256) (s * 256 + 256) (\<lambda>q. disk_after ?D d (trace m) (l + q)) (kern m) (kern k3)"
    using read_words_run [of A V k2 s0 d l n "s * 256" 256 b] Suc.prems(1-3) rq by (simp add: quietD [OF q]) blast
  have e: "(s + 1) * 256 = s * 256 + 256" "(s + 1 + k) * 256 = (s + Suc k) * 256" by simp_all
  have pk: "port_in k3 = ?D" using same_but_port [OF k3(3)] quietD(2) [OF q] by simp
  from Suc.IH [of k3 "s + 1"] k3(2,4) pk Suc.prems(2,4-6) obtain m' where
    m': "read_sectors b (s + 1) k k3 = Inr ((), m')" "mem_only_ok A V s0 (kern m')" "same_but k3 m'"
      "command ?D (trace m') = Some (transfer_at 0x20 l n ((s + Suc k) * 256))"
      "\<forall>e. disk_after ?D e (trace m') = disk_after ?D e (trace m)"
      "filled_to V s0 b (s * 256 + 256) ((s + Suc k) * 256) (\<lambda>q. disk_after ?D d (trace m) (l + q)) (kern k3) (kern m')"
    unfolding e using k3(5) by auto
  have "filled_to V s0 b (s * 256) ((s + Suc k) * 256) (\<lambda>q. disk_after ?D d (trace m) (l + q)) (kern m) (kern m')"
    by (rule filled_to_trans [OF k3(6) m'(6)]) (use Suc.prems(5,6) in simp_all)
  moreover have "same_but m m'" by (rule same_but_trans [OF same_but_trans [OF quiet_same [OF q] k3(3)] m'(3)])
  moreover have "read_sectors b s (Suc k) m = Inr ((), m')" using k1 k2 k3(1) m'(1) by simp
  ultimately show ?case using m'(2,4,5) by blast
qed

section \<open>Writing\<close>

definition overlay :: "(nat \<Rightarrow> u16) \<Rightarrow> nat \<Rightarrow> nat \<Rightarrow> nat \<Rightarrow> (nat \<Rightarrow> u16) \<Rightarrow> nat \<Rightarrow> u16" where
  "overlay f l i j D x = (if l + i \<le> x \<and> x < l + j then f (x - l) else D x)"

lemma overlay_refl: "overlay f l i i D = D"
  by (auto simp: overlay_def fun_eq_iff)

lemma overlay_trans: "i \<le> j \<Longrightarrow> j \<le> k \<Longrightarrow> overlay f l j k (overlay f l i j D) = overlay f l i k D"
  by (auto simp: overlay_def fun_eq_iff)

lemma write_words_run:
  assumes "mem_only_ok A V s0 (kern m)" "ata_disk (port_in m) d" "command (port_in m) (trace m) = Some (transfer_at 0x30 l n i)"
    "i + k \<le> n" "span b (2 * (i + k)) \<subseteq> byte_addrs V s0"
    "0 < k \<longrightarrow> requests (port_in m) (trace m) \<and> i mod 256 + k \<le> 256"
  shows "\<exists>m'. write_words b i k m = Inr ((), m') \<and> same_but m m' \<and> kern m' = kern m
    \<and> command (port_in m) (trace m') = Some (transfer_at 0x30 l n (i + k))
    \<and> (\<forall>e. disk_after (port_in m) e (trace m') =
         overlay (\<lambda>q. peek16 (kern m) (half b q)) l i (i + k) (disk_after (port_in m) e (trace m)))"
  using assms
proof (induction k arbitrary: i m)
  case 0
  then show ?case by (auto simp: overlay_refl)
next
  case (Suc k)
  let ?D = "port_in m" and ?f = "\<lambda>q. peek16 (kern m) (half b q)"
  have i: "i < n" using Suc.prems(4) by simp
  have rq: "requests ?D (trace m)" "i mod 256 + Suc k \<le> 256" using Suc.prems(6) by simp_all
  note hs = half_span [OF Suc.prems(5), of i]
  have ld: "load16 (half b i) (kern m) = Inr (?f i, kern m)"
    by (rule load16_run [OF Suc.prems(1)]) (use hs in simp_all)
  note kept = word_kept [OF Suc.prems(2) rq(1) Suc.prems(3) i, of "Outw 0x1F0 (?f i)" "?f i"]
  define m2 where "m2 = m\<lparr>trace := Outw 0x1F0 (?f i) # trace m\<rparr>"
  have m2: "kern m2 = kern m" "port_in m2 = ?D" "command ?D (trace m2) = Some (transfer_at 0x30 l n (i + 1))" "same_but m m2"
    using kept(1) by (simp_all add: m2_def same_but_def del: command.simps)
  have d2: "disk_after ?D e (trace m2) = overlay ?f l i (i + 1) (disk_after ?D e (trace m))" for e
    using Suc.prems(3) i rq(1) by (auto simp: m2_def outstanding_def overlay_def fun_eq_iff)
  have "0 < k \<longrightarrow> requests ?D (trace m2) \<and> (i + 1) mod 256 + k \<le> 256"
    using sector_inside [OF rq(2)] kept(2) by (simp add: m2_def)
  moreover have "i + 1 + k \<le> n" "span b (2 * (i + 1 + k)) \<subseteq> byte_addrs V s0" using Suc.prems(4,5) by simp_all
  ultimately obtain m' where
    m': "write_words b (i + 1) k m2 = Inr ((), m')" "same_but m2 m'" "kern m' = kern m"
      "command ?D (trace m') = Some (transfer_at 0x30 l n (i + 1 + k))"
      "\<forall>e. disk_after ?D e (trace m') = overlay ?f l (i + 1) (i + 1 + k) (disk_after ?D e (trace m2))"
    using Suc.IH [of m2 "i + 1"] Suc.prems(1,2) m2(3) unfolding m2(1,2) by blast
  have "write_words b i (Suc k) m = Inr ((), m')"
    using ld m'(1) by (simp add: ATA_DATA_def half_def m2_def)
  moreover have "disk_after ?D e (trace m') = overlay ?f l i (i + Suc k) (disk_after ?D e (trace m))" for e
    using m'(5) by (simp add: d2 overlay_trans)
  ultimately show ?case using m'(3,4) same_but_trans [OF m2(4) m'(2)] by simp
qed

lemma write_sectors_run:
  assumes "mem_only_ok A V s0 (kern m)" "ata_disk (port_in m) d" "command (port_in m) (trace m) = Some (transfer_at 0x30 l n (s * 256))"
    "(s + k) * 256 \<le> n" "span b (2 * ((s + k) * 256)) \<subseteq> byte_addrs V s0"
  shows "\<exists>m'. write_sectors b s k m = Inr ((), m') \<and> same_but m m' \<and> kern m' = kern m
    \<and> command (port_in m) (trace m') = Some (transfer_at 0x30 l n ((s + k) * 256))
    \<and> (\<forall>e. disk_after (port_in m) e (trace m') =
         overlay (\<lambda>q. peek16 (kern m) (half b q)) l (s * 256) ((s + k) * 256) (disk_after (port_in m) e (trace m)))"
  using assms
proof (induction k arbitrary: s m)
  case 0
  then show ?case by (auto simp: overlay_refl)
next
  case (Suc k)
  let ?D = "port_in m" and ?f = "\<lambda>q. peek16 (kern m) (half b q)"
  have "outstanding 0x30 (command ?D (trace m))" using Suc.prems(3,4) by (simp add: outstanding_def)
  with sector_waits [OF Suc.prems(2)] obtain k1 k2 where
    k1: "ata_wait_ready m = Inr ((), k1)" and k2: "ata_wait_drq k1 = Inr ((), k2)" and q: "quiet m k2" and rq: "requests ?D (trace k2)" by blast
  have le: "s * 256 + 256 \<le> n" using Suc.prems(4) by simp
  have sp: "span b (2 * (s * 256 + 256)) \<subseteq> byte_addrs V s0"
    using Suc.prems(5) span_mono [of "2 * (s * 256 + 256)" "2 * ((s + Suc k) * 256)" b] by simp
  from write_words_run [of A V k2 s0 d l n "s * 256" 256 b] le sp rq Suc.prems(1-3) obtain k3 where
    k3: "write_words b (s * 256) 256 k2 = Inr ((), k3)" "same_but k2 k3" "kern k3 = kern m"
      "command ?D (trace k3) = Some (transfer_at 0x30 l n (s * 256 + 256))"
      "\<forall>e. disk_after ?D e (trace k3) = overlay ?f l (s * 256) (s * 256 + 256) (disk_after ?D e (trace m))"
    by (simp add: quietD [OF q]) blast
  have e: "(s + 1) * 256 = s * 256 + 256" "(s + 1 + k) * 256 = (s + Suc k) * 256" by simp_all
  have pk: "port_in k3 = ?D" using same_but_port [OF k3(2)] quietD(2) [OF q] by simp
  from Suc.IH [of k3 "s + 1"] k3(3,4) pk Suc.prems(1,2,4,5) obtain m' where
    m': "write_sectors b (s + 1) k k3 = Inr ((), m')" "same_but k3 m'" "kern m' = kern m"
      "command ?D (trace m') = Some (transfer_at 0x30 l n ((s + Suc k) * 256))"
      "\<forall>e. disk_after ?D e (trace m') = overlay ?f l (s * 256 + 256) ((s + Suc k) * 256) (disk_after ?D e (trace k3))"
    unfolding e by auto
  have "same_but m m'" by (rule same_but_trans [OF same_but_trans [OF quiet_same [OF q] k3(2)] m'(2)])
  moreover have "write_sectors b s (Suc k) m = Inr ((), m')" using k1 k2 k3(1) m'(1) by simp
  moreover have "disk_after ?D e (trace m') = overlay ?f l (s * 256) ((s + Suc k) * 256) (disk_after ?D e (trace m))" for e
    using m'(5) k3(5) by (simp add: overlay_trans)
  ultimately show ?case using m'(3,4) by blast
qed

section \<open>Whole operations\<close>

lemma sectors_pos: "n \<noteq> 0 \<Longrightarrow> sectors n = unat n"
  by (simp add: sectors_def)

lemma idle_done: "c = 0x20 \<or> c = 0x30 \<Longrightarrow> n \<le> i \<Longrightarrow> idle (Some (transfer_at c l n i))"
  by (auto simp: idle_def)

lemma idle_flush: "idle (command dev tr) \<Longrightarrow> idle (command dev (Outb 0x1F7 0xE7 # tr))"
  by (simp add: idle_def)

lemma same_but_of_trace: "k\<lparr>trace := trace m\<rparr> = m \<Longrightarrow> same_but m k \<and> kern k = kern m \<and> port_in k = port_in m"
  by (cases m, cases k) (auto simp: same_but_def)

lemma read_sector_run:
  assumes vm: "vm_inv A V (kern m)" and dev: "ata_disk (port_in m) d" and idle: "idle (command (port_in m) (trace m))"
    and lba: "unat lba < 268435456" and n: "n \<noteq> 0" and buf: "span b (512 * unat n) \<subseteq> byte_addrs V (kern m)"
  shows "\<exists>m'. ata_read_sector lba n b m = Inr ((), m') \<and> same_but m m' \<and> mem_only_ok A V (kern m) (kern m')
    \<and> idle (command (port_in m) (trace m')) \<and> disk_after (port_in m) d (trace m') = disk_after (port_in m) d (trace m)
    \<and> filled_to V (kern m) b 0 (256 * unat n) (\<lambda>q. disk_after (port_in m) d (trace m) (unat lba * 256 + q)) (kern m) (kern m')"
proof -
  let ?D = "port_in m"
  from select_run [OF dev idle lba, where n = n and c = "0x20"] obtain k where
    k: "ata_select lba n 0x20 m = Inr ((), k)" "k\<lparr>trace := trace m\<rparr> = m"
      "command ?D (trace k) = Some (transfer_at 0x20 (unat lba * 256) (unat n * 256) 0)"
      "\<forall>e. disk_after ?D e (trace k) = disk_after ?D e (trace m)" unfolding sectors_pos [OF n] by blast
  note q = same_but_of_trace [OF k(2)]
  have "unat n < 256" using unsigned_less [of n, where ?'a = nat] by simp
  then have lt: "(0 + unat n) * 256 < 2 ^ 31" by simp
  from read_sectors_run [of A V k "kern m" d "unat lba * 256" "unat n * 256" 0 "unat n" b, OF _ _ _ _ _ lt] obtain m' where
    m': "read_sectors b 0 (unat n) k = Inr ((), m')" "mem_only_ok A V (kern m) (kern m')" "same_but k m'"
      "command ?D (trace m') = Some (transfer_at 0x20 (unat lba * 256) (unat n * 256) (unat n * 256))"
      "\<forall>e. disk_after ?D e (trace m') = disk_after ?D e (trace m)"
      "filled_to V (kern m) b 0 (unat n * 256) (\<lambda>q. disk_after ?D d (trace m) (unat lba * 256 + q)) (kern m) (kern m')"
    using vm dev k(3,4) buf by (auto simp: q mult.commute)
  have "same_but m m'" using q m'(3) same_but_trans by blast
  then show ?thesis using k(1) m' idle_done [of "0x20"]
    by (simp add: ata_read_sector_def ATA_CMD_READ_def mult.commute)
qed

lemma write_sector_run:
  assumes vm: "vm_inv A V (kern m)" and dev: "ata_disk (port_in m) d" and idle: "idle (command (port_in m) (trace m))"
    and lba: "unat lba < 268435456" and n: "n \<noteq> 0" and buf: "span b (512 * unat n) \<subseteq> byte_addrs V (kern m)"
  shows "\<exists>m'. ata_write_sector lba n b m = Inr ((), m') \<and> same_but m m' \<and> kern m' = kern m
    \<and> idle (command (port_in m) (trace m')) \<and> disk_after (port_in m) d (trace m') =
        overlay (\<lambda>q. peek16 (kern m) (half b q)) (unat lba * 256) 0 (256 * unat n) (disk_after (port_in m) d (trace m))"
proof -
  let ?D = "port_in m"
  from select_run [OF dev idle lba, where n = n and c = "0x30"] obtain k where
    k: "ata_select lba n 0x30 m = Inr ((), k)" "k\<lparr>trace := trace m\<rparr> = m"
      "command ?D (trace k) = Some (transfer_at 0x30 (unat lba * 256) (unat n * 256) 0)"
      "\<forall>e. disk_after ?D e (trace k) = disk_after ?D e (trace m)" unfolding sectors_pos [OF n] by blast
  note q = same_but_of_trace [OF k(2)]
  from write_sectors_run [of A V k "kern m" d "unat lba * 256" "unat n * 256" 0 "unat n" b] obtain w where
    w: "write_sectors b 0 (unat n) k = Inr ((), w)" "same_but k w" "kern w = kern m"
      "command ?D (trace w) = Some (transfer_at 0x30 (unat lba * 256) (unat n * 256) (unat n * 256))"
      "\<forall>e. disk_after ?D e (trace w) = overlay (\<lambda>q. peek16 (kern m) (half b q)) (unat lba * 256) 0 (unat n * 256) (disk_after ?D e (trace m))"
    using vm dev k(3,4) buf by (auto simp: q mult.commute)
  let ?x = "w\<lparr>trace := Outb 0x1F7 0xE7 # trace w\<rparr>"
  have "ata_disk (port_in ?x) d" using dev same_but_port [OF w(2)] q by simp
  from ready_run [OF this] obtain m' where
    m': "ata_wait_ready ?x = Inr ((), m')" "quiet ?x m'" unfolding ata_wait_ready_def ATA_STATUS_def by blast
  have wx: "same_but w ?x" by (simp add: same_but_def)
  have "same_but k m'" by (rule same_but_trans [OF same_but_trans [OF w(2) wx] quiet_same [OF m'(2)]])
  then have "same_but m m'" using q same_but_trans by blast
  moreover have "idle (command ?D (trace m'))"
    unfolding quietD(3) [OF m'(2)] using idle_flush [of ?D "trace w"] idle_done [of "0x30"] w(4) by simp
  ultimately show ?thesis using k(1) w(1,3,5) m'(1) quietD(1,4) [OF m'(2)]
    by (simp add: ata_write_sector_def ATA_CMD_WRITE_def ATA_COMMAND_def mult.commute)
qed

section \<open>A drive\<close>

text \<open>
  A drive that satisfies \<open>ata_disk\<close>: after a command it is busy for three reads of its status and after each sector for two; while it is
  busy bit 3 of the status is set and means nothing, and the data port gives only ones when no word is requested.
\<close>

record drive =
  drv_regs :: "u16 \<Rightarrow> u8"
  drv_xfer :: "transfer option"
  drv_delay :: nat
  drv_cells :: "nat \<Rightarrow> u16"

definition asks :: "drive \<Rightarrow> bool" where
  "asks v \<longleftrightarrow> drv_delay v = 0 \<and> (outstanding 0x20 (drv_xfer v) \<or> outstanding 0x30 (drv_xfer v))"

definition next_word :: "drive \<Rightarrow> drive" where
  "next_word v = v\<lparr>drv_xfer := another_word (drv_xfer v), drv_delay := (if (moved (the (drv_xfer v)) + 1) mod 256 = 0 then 2 else 0)\<rparr>"

fun drive_step :: "io \<Rightarrow> drive \<Rightarrow> drive" where
  "drive_step (Inb p x) v = (if p = 0x1F7 then v\<lparr>drv_delay := drv_delay v - 1\<rparr> else v)"
| "drive_step (Outb p x) v =
     (if 0 < drv_delay v \<or> asks v then v
      else if p = 0x1F7 then v\<lparr>drv_xfer := Some (transfer_at x ((unat (drv_regs v 0x1F6 AND 0x0F) * 16777216 + unat (drv_regs v 0x1F5) * 65536
        + unat (drv_regs v 0x1F4) * 256 + unat (drv_regs v 0x1F3)) * 256) (sectors (drv_regs v 0x1F2) * 256) 0), drv_delay := 3\<rparr>
      else v\<lparr>drv_regs := (drv_regs v)(p := x)\<rparr>)"
| "drive_step (Inw p x) v = (if p = 0x1F0 \<and> asks v \<and> outstanding 0x20 (drv_xfer v) then next_word v else v)"
| "drive_step (Outw p x) v =
     (if p = 0x1F0 \<and> asks v \<and> outstanding 0x30 (drv_xfer v)
      then next_word (v\<lparr>drv_cells := (drv_cells v)(start (the (drv_xfer v)) + moved (the (drv_xfer v)) := x)\<rparr>) else v)"
| "drive_step _ v = v"

definition drive_after :: "(nat \<Rightarrow> u16) \<Rightarrow> io list \<Rightarrow> drive" where
  "drive_after d tr = foldr drive_step tr \<lparr>drv_regs = \<lambda>_. 0, drv_xfer = None, drv_delay = 0, drv_cells = d\<rparr>"

definition demo_drive :: "(nat \<Rightarrow> u16) \<Rightarrow> device" where
  "demo_drive d tr p = (let v = drive_after d tr in
     if p = 0x1F7 then (if 0 < drv_delay v then 0x88 else if asks v then 0x58 else 0x50)
     else if p = 0x1F0 \<and> asks v \<and> outstanding 0x20 (drv_xfer v) then drv_cells v (start (the (drv_xfer v)) + moved (the (drv_xfer v)))
     else 0xFFFF)"

lemma drive_after_simps [simp]:
  "drive_after d [] = \<lparr>drv_regs = \<lambda>_. 0, drv_xfer = None, drv_delay = 0, drv_cells = d\<rparr>"
  "drive_after d (e # tr) = drive_step e (drive_after d tr)"
  by (simp_all add: drive_after_def)

lemma demo_busy [simp]: "busy (demo_drive d) tr \<longleftrightarrow> 0 < drv_delay (drive_after d tr)"
  by (simp add: busy_def demo_drive_def Let_def)

lemma demo_requests [simp]: "requests (demo_drive d) tr \<longleftrightarrow> asks (drive_after d tr)"
  by (simp add: requests_def) (simp add: demo_drive_def Let_def asks_def)

lemma demo_registers [simp]: "task_file (demo_drive d) p tr = drv_regs (drive_after d tr) p" if "p \<noteq> 0x1F7"
  using that
proof (induction tr)
  case (Cons e tr)
  then show ?case by (cases e) (auto simp: next_word_def)
qed simp

lemma demo_command [simp]: "command (demo_drive d) tr = drv_xfer (drive_after d tr)"
proof (induction tr)
  case (Cons e tr)
  then show ?case by (cases e) (auto simp: next_word_def lba_regs_def asks_def)
qed simp

lemma demo_cells [simp]: "disk_after (demo_drive d) d tr = drv_cells (drive_after d tr)"
proof (induction tr)
  case (Cons e tr)
  then show ?case by (cases e) (auto simp: next_word_def)
qed simp

text \<open>A transfer is of whole sectors.\<close>

lemma demo_total: "drv_xfer (drive_after d tr) = Some t \<Longrightarrow> total t mod 256 = 0"
proof (induction tr arbitrary: t)
  case (Cons e tr)
  then show ?case by (cases e) (auto simp: next_word_def split: if_splits)
qed simp

lemma next_outstanding:
  assumes "outstanding c x" "(moved (the x) + 1) mod 256 \<noteq> 0" "\<And>t. x = Some t \<Longrightarrow> total t mod 256 = 0"
  shows "outstanding c (another_word x)"
proof -
  from assms(1) obtain t where t: "x = Some t" "cmd t = c" "moved t < total t" by (auto simp: outstanding_def split: option.splits)
  then have "moved t + 1 \<noteq> total t" using assms(2,3) by auto
  then show ?thesis using t by (simp add: outstanding_def)
qed

lemma demo_calm:
  assumes "calm (demo_drive d) e tr" "drv_delay (drive_after d tr) = 0"
  shows "drv_delay (drive_after d (e # tr)) = 0 \<and> (asks (drive_after d tr) \<longrightarrow> asks (drive_after d (e # tr)))"
  using assms next_outstanding [of _ "drv_xfer (drive_after d tr)", OF _ _ demo_total]
  by (cases e) (auto simp: mid_sector_def next_word_def asks_def)

lemma demo_waits:
  "drv_delay (drive_after d (trace (reads 0x1F7 n m))) = drv_delay (drive_after d (trace m)) - n
    \<and> drv_xfer (drive_after d (trace (reads 0x1F7 n m))) = drv_xfer (drive_after d (trace m))"
  by (induction n arbitrary: m) simp_all

lemma demo_drive_ok: "ata_disk (demo_drive d) d"
proof -
  have a: "\<forall>tr. requests (demo_drive d) tr \<and> outstanding 0x20 (command (demo_drive d) tr) \<longrightarrow>
      demo_drive d tr 0x1F0 = disk_after (demo_drive d) d tr (start (the (command (demo_drive d) tr)) + moved (the (command (demo_drive d) tr)))"
    by (simp add: demo_drive_def Let_def)
  have b: "\<forall>tr. idle (command (demo_drive d) tr) \<longrightarrow> \<not> requests (demo_drive d) tr"
    by (auto simp: idle_def asks_def outstanding_def split: option.splits)
  have c: "\<exists>n. drv_delay (drive_after d (trace (reads 0x1F7 n m))) = 0" for m
    using demo_waits by (metis diff_self_eq_0)
  then have e: "\<forall>m. port_in m = demo_drive d \<longrightarrow> outstanding 0x20 (command (demo_drive d) (trace m)) \<or> outstanding 0x30 (command (demo_drive d) (trace m))
      \<longrightarrow> (\<exists>n. requests (demo_drive d) (trace (reads 0x1F7 n m)))"
    by (simp add: asks_def demo_waits)
  show ?thesis unfolding ata_disk_def using a b c e demo_calm by simp
qed

text \<open>The booted kernel with this drive attached; its buffer is the first page of the 4 KB class.\<close>

definition disk_machine :: "(nat \<Rightarrow> u16) \<Rightarrow> machine" where
  "disk_machine d = demo_machine\<lparr>kern := boot_heap, port_in := demo_drive d, trace := []\<rparr>"

lemma demo_buffer:
  "\<exists>fl. heap_inv UNIV premapped fl boot_heap \<and> span 0x70000000 4096 \<subseteq> byte_addrs premapped boot_heap"
proof -
  from boot_heap_inv obtain fl where fl: "heap_inv UNIV premapped fl boot_heap" by blast
  have "0x70000 \<in> premapped" unfolding premapped_def by (rule CollectI, rule exI [of _ Heap_4k]) (simp add: region_base_def)
  have "span 0x70000000 4096 \<subseteq> byte_addrs premapped boot_heap"
  proof
    fix a :: u32 assume "a \<in> span 0x70000000 4096"
    then obtain i where i: "i < 4096" "a = 0x70000000 + of_nat i" by (auto simp: span_def)
    have "unat a = 0x70000000 + i" using i by (simp add: unat_word_ariths unat_of_nat)
    then have "frame_of a = 0x70000" using i(1) by (simp add: frame_of_def)
    then show "a \<in> byte_addrs premapped boot_heap" using \<open>0x70000 \<in> premapped\<close>
      by (simp add: byte_addrs_def ram_addrs_def data_addrs_def word_base_frame word_base_aligned)
  qed
  then show ?thesis using fl by blast
qed

lemma demo_buffer_span: "n \<le> 8 \<Longrightarrow> span 0x70000000 (512 * n) \<subseteq> byte_addrs premapped boot_heap"
  using demo_buffer span_mono [of "512 * n" 4096 "0x70000000"] by auto

lemma disk_machine_simps [simp]:
  "kern (disk_machine d) = boot_heap" "port_in (disk_machine d) = demo_drive d" "trace (disk_machine d) = []"
  by (simp_all add: disk_machine_def)

lemma span_halves:
  "c \<notin> span b (512 * n) \<Longrightarrow> q < 256 * n \<Longrightarrow> c \<noteq> half b q \<and> c \<noteq> half b q + 1"
  using half_span [of b "256 * n" "span b (512 * n)" q] by auto

text \<open>
  C11: \<^verbatim>\<open>ata_read_sector\<close> is correct for every drive that follows the protocol of \<open>ata_disk\<close>: one that gives data only while it
  requests a word, and may be busy or pause for any finite time before every sector.  With no transfer under way, a 28-bit block address, a
  count \<open>n\<close> of 1 to 255 and a buffer of \<open>512 n\<close> mapped bytes it returns with the disk's words of these
  \<open>n\<close> sectors in the buffer, in order, every other byte of memory and the disk unchanged, and the drive free for the next command.
\<close>

theorem ata_read_correct:
  assumes "vm_inv A V (kern m)" "ata_disk (port_in m) d" "idle (command (port_in m) (trace m))" "unat lba < 268435456" "n \<noteq> 0"
    "span b (512 * unat n) \<subseteq> byte_addrs V (kern m)"
  shows "\<exists>m'. ata_read_sector lba n b m = Inr ((), m')
    \<and> (\<forall>q<256 * unat n. peek16 (kern m') (b + 2 * of_nat q) = disk_after (port_in m) d (trace m) (unat lba * 256 + q))
    \<and> (\<forall>c\<in>byte_addrs V (kern m). c \<notin> span b (512 * unat n) \<longrightarrow> bpeek load32 (kern m') c = bpeek load32 (kern m) c)
    \<and> vm_inv A V (kern m') \<and> disk_after (port_in m) d (trace m') = disk_after (port_in m) d (trace m)
    \<and> idle (command (port_in m) (trace m'))"
proof -
  from read_sector_run [OF assms] obtain m' where m': "ata_read_sector lba n b m = Inr ((), m')"
    "mem_only_ok A V (kern m) (kern m')" "idle (command (port_in m) (trace m'))"
    "disk_after (port_in m) d (trace m') = disk_after (port_in m) d (trace m)"
    "filled_to V (kern m) b 0 (256 * unat n) (\<lambda>q. disk_after (port_in m) d (trace m) (unat lba * 256 + q)) (kern m) (kern m')" by blast
  then show ?thesis using span_halves [of _ b "unat n"] by (auto simp: filled_to_def half_def)
qed

theorem ata_read_correct_witness:
  "\<exists>m'. ata_read_sector 49 2 0x70000000 (disk_machine of_nat) = Inr ((), m')
    \<and> peek16 (kern m') 0x70000000 = 12544 \<and> peek16 (kern m') 0x70000006 = 12547"
proof -
  from demo_buffer obtain fl where fl: "heap_inv UNIV premapped fl boot_heap" by blast
  have "\<exists>m'. ata_read_sector 49 2 0x70000000 (disk_machine of_nat) = Inr ((), m')
    \<and> (\<forall>q<256 * unat (2 :: u8). peek16 (kern m') (0x70000000 + 2 * of_nat q) = disk_after (demo_drive of_nat) of_nat [] (unat (49 :: u32) * 256 + q))"
    using ata_read_correct [of UNIV premapped "disk_machine of_nat" of_nat 49 2 "0x70000000"]
      heap_invD(1) [OF fl] demo_drive_ok demo_buffer_span [of 2] by (auto simp: idle_def)
  then obtain m' where m': "ata_read_sector 49 2 0x70000000 (disk_machine of_nat) = Inr ((), m')"
    "\<And>q. q < 512 \<Longrightarrow> peek16 (kern m') (0x70000000 + 2 * of_nat q) = of_nat (12544 + q)" by auto
  from m'(1) m'(2) [of 0] m'(2) [of 3] show ?thesis by auto
qed

text \<open>
  C12: \<^verbatim>\<open>ata_write_sector\<close> stores exactly the buffer on every drive that follows the protocol, one that takes a word only while it requests
  it and loses all others: the words of the \<open>n\<close> sectors (1 to 255) become the buffer's, in order,
  all other words of the disk and all of the kernel's state stay as they were, and the drive is free for the next command.
\<close>

theorem ata_write_correct:
  assumes "vm_inv A V (kern m)" "ata_disk (port_in m) d" "idle (command (port_in m) (trace m))" "unat lba < 268435456" "n \<noteq> 0"
    "span b (512 * unat n) \<subseteq> byte_addrs V (kern m)"
  shows "\<exists>m'. ata_write_sector lba n b m = Inr ((), m') \<and> kern m' = kern m
    \<and> disk_after (port_in m) d (trace m') = (\<lambda>x. if unat lba * 256 \<le> x \<and> x < unat lba * 256 + 256 * unat n
         then peek16 (kern m) (b + 2 * of_nat (x - unat lba * 256)) else disk_after (port_in m) d (trace m) x)
    \<and> idle (command (port_in m) (trace m'))"
proof -
  from write_sector_run [OF assms] obtain m' where m': "ata_write_sector lba n b m = Inr ((), m')" "kern m' = kern m"
    "idle (command (port_in m) (trace m'))" "disk_after (port_in m) d (trace m') =
       overlay (\<lambda>q. peek16 (kern m) (half b q)) (unat lba * 256) 0 (256 * unat n) (disk_after (port_in m) d (trace m))" by blast
  have "disk_after (port_in m) d (trace m') = (\<lambda>x. if unat lba * 256 \<le> x \<and> x < unat lba * 256 + 256 * unat n
         then peek16 (kern m) (b + 2 * of_nat (x - unat lba * 256)) else disk_after (port_in m) d (trace m) x)"
    unfolding m'(4) by (simp add: overlay_def half_def fun_eq_iff)
  then show ?thesis using m'(1-3) by blast
qed

theorem ata_write_correct_witness:
  "\<exists>m'. ata_write_sector 7 1 0x70000000 (disk_machine (\<lambda>_. 5)) = Inr ((), m')
    \<and> disk_after (demo_drive (\<lambda>_. 5)) (\<lambda>_. 5) (trace m') 1792 = peek16 boot_heap 0x70000000
    \<and> disk_after (demo_drive (\<lambda>_. 5)) (\<lambda>_. 5) (trace m') 2048 = 5"
proof -
  let ?D = "demo_drive (\<lambda>_. 5)"
  from demo_buffer obtain fl where fl: "heap_inv UNIV premapped fl boot_heap" by blast
  have h: "vm_inv UNIV premapped (kern (disk_machine (\<lambda>_. 5)))" "ata_disk (port_in (disk_machine (\<lambda>_. 5))) (\<lambda>_. 5)"
    "idle (command (port_in (disk_machine (\<lambda>_. 5))) (trace (disk_machine (\<lambda>_. 5))))" "unat (7 :: u32) < 268435456" "(1 :: u8) \<noteq> 0"
    "span 0x70000000 (512 * unat (1 :: u8)) \<subseteq> byte_addrs premapped (kern (disk_machine (\<lambda>_. 5)))"
    using heap_invD(1) [OF fl] demo_drive_ok demo_buffer_span [of 1] by (simp_all add: idle_def)
  from ata_write_correct [OF h] obtain m' where m': "ata_write_sector 7 1 0x70000000 (disk_machine (\<lambda>_. 5)) = Inr ((), m')"
    "disk_after ?D (\<lambda>_. 5) (trace m') = (\<lambda>x. if unat (7 :: u32) * 256 \<le> x \<and> x < unat (7 :: u32) * 256 + 256 * unat (1 :: u8)
         then peek16 boot_heap (0x70000000 + 2 * of_nat (x - unat (7 :: u32) * 256)) else disk_after ?D (\<lambda>_. 5) [] x)"
    unfolding disk_machine_simps by blast
  then show ?thesis by (simp add: m'(2) del: demo_cells)
qed

text \<open>
  C13: what is written is read back: on every drive that follows the protocol, \<^verbatim>\<open>ata_write_sector\<close> from one buffer followed by
  \<^verbatim>\<open>ata_read_sector\<close> of the same sectors into another copies the first buffer into the second.
\<close>

theorem ata_roundtrip:
  assumes "vm_inv A V (kern m)" "ata_disk (port_in m) d" "idle (command (port_in m) (trace m))" "unat lba < 268435456" "n \<noteq> 0"
    "span b (512 * unat n) \<subseteq> byte_addrs V (kern m)" "span b' (512 * unat n) \<subseteq> byte_addrs V (kern m)"
  shows "\<exists>m'. bnd (ata_write_sector lba n b) (\<lambda>_. ata_read_sector lba n b') m = Inr ((), m')
    \<and> (\<forall>q<256 * unat n. peek16 (kern m') (b' + 2 * of_nat q) = peek16 (kern m) (b + 2 * of_nat q))"
proof -
  from write_sector_run [OF assms(1-6)] obtain w where w: "ata_write_sector lba n b m = Inr ((), w)" "same_but m w" "kern w = kern m"
    "idle (command (port_in m) (trace w))"
    "disk_after (port_in m) d (trace w) = overlay (\<lambda>q. peek16 (kern m) (half b q)) (unat lba * 256) 0 (256 * unat n) (disk_after (port_in m) d (trace m))"
    by blast
  from read_sector_run [of A V w d lba n b'] assms w(4) same_but_port [OF w(2)] obtain m' where m': "ata_read_sector lba n b' w = Inr ((), m')"
    "filled_to V (kern m) b' 0 (256 * unat n) (\<lambda>q. disk_after (port_in m) d (trace w) (unat lba * 256 + q)) (kern m) (kern m')"
    by (auto simp: w(3))
  then show ?thesis using w(1) by (auto simp: filled_to_def half_def w(5) overlay_def)
qed

theorem ata_roundtrip_witness:
  "\<exists>m'. bnd (ata_write_sector 100 4 0x70000000) (\<lambda>_. ata_read_sector 100 4 0x70000000) (disk_machine of_nat) = Inr ((), m')
    \<and> peek16 (kern m') 0x70000002 = peek16 boot_heap 0x70000002"
proof -
  from demo_buffer obtain fl where fl: "heap_inv UNIV premapped fl boot_heap" by blast
  have "\<exists>m'. bnd (ata_write_sector 100 4 0x70000000) (\<lambda>_. ata_read_sector 100 4 0x70000000) (disk_machine of_nat) = Inr ((), m')
    \<and> (\<forall>q<256 * unat (4 :: u8). peek16 (kern m') (0x70000000 + 2 * of_nat q) = peek16 boot_heap (0x70000000 + 2 * of_nat q))"
    using ata_roundtrip [of UNIV premapped "disk_machine of_nat" of_nat 100 4 "0x70000000" "0x70000000"]
      heap_invD(1) [OF fl] demo_drive_ok demo_buffer_span [of 4] by (simp add: idle_def)
  then obtain m' where "bnd (ata_write_sector 100 4 0x70000000) (\<lambda>_. ata_read_sector 100 4 0x70000000) (disk_machine of_nat) = Inr ((), m')"
    "\<And>q. q < 1024 \<Longrightarrow> peek16 (kern m') (0x70000000 + 2 * of_nat q) = peek16 boot_heap (0x70000000 + 2 * of_nat q)" by auto
  from this(1) this(2) [of 1] show ?thesis by auto
qed

section \<open>A count of zero\<close>

text \<open>What a read finds when the drive still requests words of an earlier read: its own command is lost.\<close>

lemma stale_read_run:
  assumes vm: "vm_inv A V (kern m)" and dev: "ata_disk (port_in m) d" and rq: "requests (port_in m) (trace m)"
    and old: "command (port_in m) (trace m) = Some (transfer_at 0x20 l n 0)" "unat c * 256 \<le> n"
    and buf: "span b (512 * unat c) \<subseteq> byte_addrs V (kern m)"
  shows "\<exists>m'. ata_read_sector lba c b m = Inr ((), m')
    \<and> filled_to V (kern m) b 0 (256 * unat c) (\<lambda>q. disk_after (port_in m) d (trace m) (l + q)) (kern m) (kern m')"
proof -
  let ?D = "port_in m"
  from select_ignored [OF dev rq, where n = c and c = "0x20"] obtain k where
    k: "ata_select lba c 0x20 m = Inr ((), k)" "k\<lparr>trace := trace m\<rparr> = m" "command ?D (trace k) = Some (transfer_at 0x20 l n 0)"
      "\<forall>e. disk_after ?D e (trace k) = disk_after ?D e (trace m)" unfolding old(1) by blast
  note q = same_but_of_trace [OF k(2)]
  have "unat c < 256" using unsigned_less [of c, where ?'a = nat] by simp
  then have lt: "(0 + unat c) * 256 < 2 ^ 31" by simp
  from read_sectors_run [of A V k "kern m" d l n 0 "unat c" b, OF _ _ _ _ _ lt] obtain m' where
    m': "read_sectors b 0 (unat c) k = Inr ((), m')"
      "filled_to V (kern m) b 0 (unat c * 256) (\<lambda>q. disk_after ?D d (trace m) (l + q)) (kern m) (kern m')"
    using vm dev k(3,4) old(2) buf by (auto simp: q mult.commute)
  then show ?thesis using k(1) by (simp add: ata_read_sector_def ATA_CMD_READ_def mult.commute)
qed

text \<open>
  C28: a count of 0.  The drive takes it as 256 sectors, as the comment at \<^verbatim>\<open>ATA_SECTOR_COUNT\<close> says, the loop of
  \<^verbatim>\<open>ata_read_sector\<close> as none: the call returns with nothing read and all 65536 words of the command outstanding.  If the drive already
  requests the first of them when the next read comes, that read's address is lost: whatever it asks for, it
  gets the sectors from the first call's address on.
\<close>

theorem ata_count_zero:
  assumes "vm_inv A V (kern m)" "ata_disk (port_in m) d" "idle (command (port_in m) (trace m))" "unat lba < 268435456"
  shows "\<exists>k. ata_read_sector lba 0 b m = Inr ((), k) \<and> kern k = kern m
    \<and> command (port_in m) (trace k) = Some \<lparr>cmd = 0x20, start = unat lba * 256, total = 65536, moved = 0\<rparr>
    \<and> \<not> busy (port_in m) (trace k)
    \<and> (requests (port_in m) (trace k) \<longrightarrow> (\<forall>lba' n b'. span b' (512 * unat n) \<subseteq> byte_addrs V (kern m) \<longrightarrow>
         (\<exists>m'. ata_read_sector lba' n b' k = Inr ((), m')
           \<and> (\<forall>q<256 * unat n. peek16 (kern m') (b' + 2 * of_nat q) = disk_after (port_in m) d (trace m) (unat lba * 256 + q)))))"
proof -
  let ?D = "port_in m"
  have sz: "sectors 0 * 256 = 65536" by (simp add: sectors_def)
  from select_run [OF assms(2-4), where n = 0 and c = "0x20"] obtain k where
    k: "ata_select lba 0 0x20 m = Inr ((), k)" "k\<lparr>trace := trace m\<rparr> = m"
      "command ?D (trace k) = Some (transfer_at 0x20 (unat lba * 256) 65536 0)"
      "\<forall>e. disk_after ?D e (trace k) = disk_after ?D e (trace m)" "\<not> busy ?D (trace k)" unfolding sz by blast
  note q = same_but_of_trace [OF k(2)]
  have "\<exists>m'. ata_read_sector lba' n b' k = Inr ((), m')
      \<and> (\<forall>q<256 * unat n. peek16 (kern m') (b' + 2 * of_nat q) = disk_after ?D d (trace m) (unat lba * 256 + q))"
    if rq: "requests ?D (trace k)" and buf: "span b' (512 * unat n) \<subseteq> byte_addrs V (kern m)" for lba' n b'
  proof -
    have "unat n * 256 \<le> 65536" using unsigned_less [of n, where ?'a = nat] by simp
    with stale_read_run [of A V k d "unat lba * 256" 65536 n b' lba'] assms(1,2) k(3,4) rq buf obtain m' where
      "ata_read_sector lba' n b' k = Inr ((), m')"
      "filled_to V (kern m) b' 0 (256 * unat n) (\<lambda>q. disk_after ?D d (trace m) (unat lba * 256 + q)) (kern m) (kern m')" by (auto simp: q)
    then show ?thesis by (auto simp: filled_to_def half_def)
  qed
  moreover have "ata_read_sector lba 0 b m = Inr ((), k)" using k(1) by (simp add: ata_read_sector_def ATA_CMD_READ_def)
  ultimately show ?thesis using k(3,5) q by blast
qed

theorem ata_count_zero_witness:
  "\<exists>k m'. ata_read_sector 3 0 0x70000000 (disk_machine of_nat) = Inr ((), k)
    \<and> ata_read_sector 49 1 0x70000000 k = Inr ((), m') \<and> peek16 (kern m') 0x70000002 = 769"
proof -
  from demo_buffer obtain fl where fl: "heap_inv UNIV premapped fl boot_heap" by blast
  let ?m = "disk_machine of_nat"
  have h: "vm_inv UNIV premapped (kern ?m)" "ata_disk (port_in ?m) of_nat" "idle (command (port_in ?m) (trace ?m))" "unat (3 :: u32) < 268435456"
    using heap_invD(1) [OF fl] demo_drive_ok by (simp_all add: idle_def)
  from ata_count_zero [OF h, of "0x70000000"] obtain k where k: "ata_read_sector 3 0 0x70000000 ?m = Inr ((), k)" "kern k = boot_heap"
    "command (demo_drive of_nat) (trace k) = Some \<lparr>cmd = 0x20, start = unat (3 :: u32) * 256, total = 65536, moved = 0\<rparr>"
    "\<not> busy (demo_drive of_nat) (trace k)" "requests (demo_drive of_nat) (trace k) \<longrightarrow> (\<forall>lba' n b'. span b' (512 * unat n) \<subseteq> byte_addrs premapped boot_heap \<longrightarrow>
         (\<exists>m'. ata_read_sector lba' n b' k = Inr ((), m')
           \<and> (\<forall>q<256 * unat n. peek16 (kern m') (b' + 2 * of_nat q) = disk_after (demo_drive of_nat) of_nat [] (unat (3 :: u32) * 256 + q))))"
    unfolding disk_machine_simps by blast
  have sp: "span 0x70000000 (512 * unat (1 :: u8)) \<subseteq> byte_addrs premapped boot_heap" using demo_buffer_span [of 1] by simp
  have "requests (demo_drive of_nat) (trace k)" using k(3,4) by (simp add: asks_def outstanding_def)
  note use = k(5) [rule_format, OF this]
  from use [OF sp, of 49] obtain m' where m': "ata_read_sector 49 1 0x70000000 k = Inr ((), m')"
    "\<And>q. q < 256 \<Longrightarrow> peek16 (kern m') (0x70000000 + 2 * of_nat q) = of_nat (768 + q)" by auto
  have "peek16 (kern m') 0x70000002 = 769" using m'(2) [of 1] by simp
  then show ?thesis using k(1) m'(1) by blast
qed

end
