(* ===== verification/Shell_Ui.thy ===== *)
theory Shell_Ui
  imports Ata_Disk
begin

unbundle bit_operations_syntax

text \<open>
  The shell's screens and boxes (\<^verbatim>\<open>lib/raxzus_shell_ui.c\<close>).  The texts that the kernel passes are string
  literals.
\<close>

section \<open>Operations\<close>

definition COLOR_MAGENTA :: u8 where "COLOR_MAGENTA = 0x05"
definition COLOR_LIGHT_GRAY :: u8 where "COLOR_LIGHT_GRAY = 0x07"
definition COLOR_YELLOW :: u8 where "COLOR_YELLOW = 0x0E"

fun string_length :: "string \<Rightarrow> int" where
  "string_length [] = 0"
| "string_length (c # text) = 1 + string_length text"

definition kset_color :: "u8 \<Rightarrow> unit kop" where
  "kset_color c = modify (\<lambda>s. s\<lparr>console := set_color c (console s)\<rparr>)"

definition nl :: string where "nl = [CHR 0x0A]"

definition cmd_help :: "unit kop" where
  "cmd_help =
     bnd (kprint (nl @ ''Welcome to raxzus shell help screen. The following commands are currently available: '' @ nl) []) (\<lambda>_.
     bnd (kprint ''1. help ('' []) (\<lambda>_.
     bnd (kprint_color COLOR_MAGENTA ''Command you called to print this list'' []) (\<lambda>_.
     bnd (kprint ('')'' @ nl) []) (\<lambda>_.
     bnd (kprint ''2. neofetch ('' []) (\<lambda>_.
     bnd (kprint_color COLOR_MAGENTA ''used for kernel special ascii art'' []) (\<lambda>_.
     bnd (kprint ('')'' @ nl) []) (\<lambda>_.
     bnd (kprint ''3. calculate ('' []) (\<lambda>_.
     bnd (kprint_color COLOR_MAGENTA ''To be implemented so you can do simple calculations'' []) (\<lambda>_.
     bnd (kprint ('')'' @ nl) []) (\<lambda>_.
     bnd (kprint ''4. time ('' []) (\<lambda>_.
     bnd (kprint_color COLOR_MAGENTA ''Shows the current time'' []) (\<lambda>_.
     kprint ('')'' @ nl) []))))))))))))"

definition RaxzusDragon :: "string list" where
  "RaxzusDragon =
    [''              /-------'' @ [CHR 0x5C] @ '' '',
     '' /-'' @ [CHR 0x5C] @ ''        /  (*)  '' @ [CHR 0x5C],
     ''| ) )-------- _         '' @ [CHR 0x5C],
     ''|        ____/_/'' @ [CHR 0x5C] @ ''_____ /'',
     '' '' @ [CHR 0x5C] @ ''/----/____/         | '',
     '' /'' @ [CHR 0x5C] @ ''/---/           ___|'',
     '' |          _______/ '',
     ''  '' @ [CHR 0x5C] @ ''_______/'']"

fun neofetch_loop :: "nat \<Rightarrow> string list \<Rightarrow> unit kop" where
  "neofetch_loop i [] = ret ()"
| "neofetch_loop i (line # rest) =
     bnd (kprint_color COLOR_GREEN ''%s'' [AStr (bytes line)]) (\<lambda>_.
     bnd (if i = 2 then kprint_color COLOR_LIGHT_GRAY ''   OS: RaxzusOS v1.0'' [] else ret ()) (\<lambda>_.
     bnd (if i = 3 then kprint_color COLOR_LIGHT_GRAY ''   Kernel: Raxzus_kernel'' [] else ret ()) (\<lambda>_.
     bnd (if i = 4 then kprint_color COLOR_LIGHT_GRAY ''   Shell: RaxShell'' [] else ret ()) (\<lambda>_.
     bnd (if i = 5 then kprint_color COLOR_LIGHT_GRAY ''   Uptime: Too powerful to measure'' [] else ret ()) (\<lambda>_.
     bnd (kprint nl []) (\<lambda>_.
     neofetch_loop (i + 1) rest))))))"

definition cmd_neofetch :: "unit kop" where
  "cmd_neofetch =
     bnd (kprint nl []) (\<lambda>_.
     bnd (neofetch_loop 0 RaxzusDragon) (\<lambda>_.
     kprint nl []))"

text \<open>The loops of the boxes: the arguments are the next index and the iterations left.\<close>

fun box_top_loop :: "int \<Rightarrow> u8 \<Rightarrow> u8 \<Rightarrow> string \<Rightarrow> int \<Rightarrow> nat \<Rightarrow> unit kop" where
  "box_top_loop width wall_color text_color title i 0 = ret ()"
| "box_top_loop width wall_color text_color title i (Suc k) =
     bnd (if i = width sdiv 2 then
            bnd (kset_color text_color) (\<lambda>_. kprint ''%s'' [AStr (bytes title)])
          else
            bnd (kset_color wall_color) (\<lambda>_. kprint ''%c'' [AInt 0xCD])) (\<lambda>_.
     box_top_loop width wall_color text_color title (i + 1) k)"

definition draw_box_top :: "int \<Rightarrow> u8 \<Rightarrow> u8 \<Rightarrow> string \<Rightarrow> unit kop" where
  "draw_box_top width wall_color text_color title =
     bnd (kprint nl []) (\<lambda>_.
     let text_size = string_length title;
         width = width - text_size
     in
     bnd (kset_color wall_color) (\<lambda>_.
     bnd (kprint ''%c'' [AInt 0xC9]) (\<lambda>_.
     bnd (box_top_loop width wall_color text_color title 0 (nat (width - 1))) (\<lambda>_.
     bnd (kset_color wall_color) (\<lambda>_.
     kprint (''%c'' @ nl) [AInt 0xBB])))))"

fun box_side_loop :: "int \<Rightarrow> u8 \<Rightarrow> int \<Rightarrow> nat \<Rightarrow> unit kop" where
  "box_side_loop width wall ii 0 = ret ()"
| "box_side_loop width wall ii (Suc k) =
     bnd (if ii = 0 \<or> ii = width - 1 then
            bnd (kset_color wall) (\<lambda>_. kprint ''%c'' [AInt 0xBA])
          else kprint '' '' []) (\<lambda>_.
     box_side_loop width wall (ii + 1) k)"

fun box_sides_loop :: "int \<Rightarrow> u8 \<Rightarrow> nat \<Rightarrow> unit kop" where
  "box_sides_loop width wall 0 = ret ()"
| "box_sides_loop width wall (Suc k) =
     bnd (box_side_loop width wall 0 (nat width)) (\<lambda>_.
     bnd (kprint nl []) (\<lambda>_.
     box_sides_loop width wall k))"

definition draw_box_sides :: "int \<Rightarrow> int \<Rightarrow> u8 \<Rightarrow> unit kop" where
  "draw_box_sides width num_lines wall = box_sides_loop width wall (nat (num_lines sdiv 3))"

fun box_bottom_loop :: "u8 \<Rightarrow> nat \<Rightarrow> unit kop" where
  "box_bottom_loop wall 0 = ret ()"
| "box_bottom_loop wall (Suc k) =
     bnd (kset_color wall) (\<lambda>_.
     bnd (kprint ''%c'' [AInt 0xCD]) (\<lambda>_.
     box_bottom_loop wall k))"

definition draw_box_bottom :: "int \<Rightarrow> u8 \<Rightarrow> unit kop" where
  "draw_box_bottom width wall =
     bnd (kset_color wall) (\<lambda>_.
     bnd (kprint ''%c'' [AInt 0xC8]) (\<lambda>_.
     bnd (box_bottom_loop wall (nat (width - 2))) (\<lambda>_.
     bnd (kset_color wall) (\<lambda>_.
     kprint (''%c'' @ nl) [AInt 0xBC]))))"

text \<open>\<open>pos\<close> is the column at which the text starts, the only difference between the three alignments.\<close>

fun text_align_loop :: "string \<Rightarrow> int \<Rightarrow> int \<Rightarrow> u8 \<Rightarrow> u8 \<Rightarrow> int \<Rightarrow> nat \<Rightarrow> unit kop" where
  "text_align_loop txt width pos wall_color text_color ii 0 = ret ()"
| "text_align_loop txt width pos wall_color text_color ii (Suc k) =
     bnd (if ii = 0 \<or> ii = width then
            bnd (kset_color wall_color) (\<lambda>_. kprint ''%c'' [AInt 0xBA])
          else if ii = pos then
            bnd (kset_color text_color) (\<lambda>_. kprint ''%s'' [AStr (bytes txt)])
          else kprint '' '' []) (\<lambda>_.
     text_align_loop txt width pos wall_color text_color (ii + 1) k)"

definition ALIGN_LEFT :: int where "ALIGN_LEFT = 1"
definition ALIGN_RIGHT :: int where "ALIGN_RIGHT = 2"
definition ALIGN_CENTER :: int where "ALIGN_CENTER = 3"

definition print_text_align :: "string \<Rightarrow> int \<Rightarrow> int \<Rightarrow> u8 \<Rightarrow> u8 \<Rightarrow> int \<Rightarrow> unit kop" where
  "print_text_align txt width align wall_color text_color text_delay_ms =
     (let text_size = string_length txt;
          width = width - text_size;
          line = (\<lambda>pos. bnd (text_align_loop txt width pos wall_color text_color 0 (nat (width + 1))) (\<lambda>_. kprint nl []))
      in if align = ALIGN_LEFT then line 3
         else if align = ALIGN_RIGHT then line (width - 2)
         else if align = ALIGN_CENTER then line (width sdiv 2)
         else ret ())"

section \<open>What they print\<close>

text \<open>
  A sequence of characters, each in its colour; \<^verbatim>\<open>kprintf\<close> leaves the colour white.  The relation
  says that an operation, called with the colour white, prints exactly these characters.
\<close>

definition print_cell :: "u8 \<times> u8 \<Rightarrow> vga \<Rightarrow> vga" where
  "print_cell cell v = (print_char (fst cell) (v\<lparr>color := snd cell\<rparr>))\<lparr>color := 0x0F\<rparr>"

definition print_cells :: "(u8 \<times> u8) list \<Rightarrow> vga \<Rightarrow> vga" where
  "print_cells cs v = fold print_cell cs v"

definition shows_cells :: "unit kop \<Rightarrow> (u8 \<times> u8) list \<Rightarrow> bool" where
  "shows_cells f cs \<longleftrightarrow>
     (\<forall>s. color (console s) = 0x0F \<longrightarrow> f s = Inr ((), s\<lparr>console := print_cells cs (console s)\<rparr>))"

definition paint :: "u8 \<Rightarrow> string \<Rightarrow> (u8 \<times> u8) list" where
  "paint col text = map (\<lambda>c. (c, col)) (bytes text)"

lemma length_paint [simp]: "length (paint col text) = length text"
  by (simp add: paint_def bytes_def)

lemma print_cells_simps [simp]:
  "print_cells [] v = v"
  "print_cells (x # xs) v = print_cells xs (print_cell x v)"
  "print_cells (xs @ ys) v = print_cells ys (print_cells xs v)"
  by (simp_all add: print_cells_def)

lemma print_cells_color [simp]: "color v = 0x0F \<Longrightarrow> color (print_cells cs v) = 0x0F"
  by (induction cs arbitrary: v) (simp_all add: print_cell_def)

lemma color_put_char [simp]: "color (put_char c v) = color v"
  by (simp add: put_char_def Let_def)

lemma color_scroll [simp]: "color (scroll v) = color v"
  by (simp add: scroll_def)

lemma color_print_char [simp]: "color (print_char c v) = color v"
  by (simp add: print_char_def)

lemma print_one_color:
  "color v = col \<Longrightarrow> (print t v)\<lparr>color := 0x0F\<rparr> = print_cells (map (\<lambda>c. (c, col)) t) (v\<lparr>color := 0x0F\<rparr>)"
proof (induction t arbitrary: v)
  case (Cons c t)
  have "v\<lparr>color := col\<rparr> = v" using Cons.prems by simp
  then have "print_cell (c, col) (v\<lparr>color := 0x0F\<rparr>) = (print_char c v)\<lparr>color := 0x0F\<rparr>"
    by (simp add: print_cell_def)
  then show ?case using Cons by (simp add: print_def)
qed (simp add: print_def)

lemma recolor_same [simp]: "color v = col \<Longrightarrow> v\<lparr>color := col\<rparr> = v"
  by simp

lemma shows_ret: "shows_cells (ret ()) []"
  by (simp add: shows_cells_def)

lemma shows_bnd: "shows_cells f xs \<Longrightarrow> shows_cells g ys \<Longrightarrow> shows_cells (bnd f (\<lambda>_. g)) (xs @ ys)"
  by (simp add: shows_cells_def)

lemma shows_nl: "shows_cells (kprint nl []) [(10, 0x0F)]"
  by (simp add: shows_cells_def nl_def kprint_def kprintf_def' print_cell_def)

lemma shows_blank: "shows_cells (kprint '' '' []) [(32, 0x0F)]"
  by (simp add: shows_cells_def kprint_def kprintf_def' print_cell_def)

lemma shows_char:
  "shows_cells (bnd (kset_color col) (\<lambda>_. kprint ''%c'' [AInt x])) [(ucast x, col)]"
  by (simp add: shows_cells_def kset_color_def set_color_def kprint_def kprintf_def' print_cell_def)

lemma shows_char_nl:
  "shows_cells (bnd (kset_color col) (\<lambda>_. kprint (''%c'' @ nl) [AInt x])) [(ucast x, col), (10, col)]"
  by (simp add: shows_cells_def kset_color_def set_color_def kprint_def kprintf_def' print_cell_def nl_def)

lemma shows_string:
  "shows_cells (bnd (kset_color col) (\<lambda>_. kprint ''%s'' [AStr (bytes t)])) (paint col t)"
  unfolding shows_cells_def
proof (intro allI impI)
  fix s :: kstate
  assume w: "color (console s) = 0x0F"
  let ?v = "(console s)\<lparr>color := col\<rparr>"
  have "(print (bytes t) ?v)\<lparr>color := 0x0F\<rparr> = print_cells (paint col t) (?v\<lparr>color := 0x0F\<rparr>)"
    unfolding paint_def by (rule print_one_color) simp
  also have "?v\<lparr>color := 0x0F\<rparr> = console s" using w by simp
  finally show "bnd (kset_color col) (\<lambda>_. kprint ''%s'' [AStr (bytes t)]) s =
      Inr ((), s\<lparr>console := print_cells (paint col t) (console s)\<rparr>)"
    by (simp add: kset_color_def set_color_def kprint_def kprintf_def')
qed

lemmas shows_intros = shows_ret shows_bnd shows_nl shows_blank shows_char shows_char_nl shows_string

section \<open>The lines of a box\<close>

definition blanks :: "int \<Rightarrow> (u8 \<times> u8) list" where
  "blanks k = replicate (nat k) (32, 0x0F)"

definition wall :: "u8 \<Rightarrow> u8 \<Rightarrow> int \<Rightarrow> (u8 \<times> u8) list" where
  "wall c col k = replicate (nat k) (c, col)"

lemma length_cells [simp]: "length (blanks k) = nat k" "length (wall c col k) = nat k"
  by (simp_all add: blanks_def wall_def)

lemma replicate_Cons_nat: "replicate (Suc k) x = [x] @ replicate k x"
  by simp

lemma string_length_eq: "string_length t = int (length t)"
  by (induction t) auto

text \<open>The loop of the top edge: only wall, or wall around the title.\<close>

lemma box_top_wall:
  assumes "width sdiv 2 < i \<or> i + int k \<le> width sdiv 2"
  shows "shows_cells (box_top_loop width wc tc t i k) (replicate k (0xCD, wc))"
  using assms
proof (induction k arbitrary: i)
  case (Suc k)
  then have "i \<noteq> width sdiv 2" by auto
  moreover have "shows_cells (box_top_loop width wc tc t (i + 1) k) (replicate k (0xCD, wc))"
    by (rule Suc.IH) (use Suc.prems in auto)
  ultimately show ?case
    unfolding replicate_Cons_nat using shows_bnd [OF shows_char [of wc "0xCD"]] by simp
qed (simp add: shows_cells_def)

lemma box_top_title:
  assumes "i + int a = width sdiv 2"
  shows "shows_cells (box_top_loop width wc tc t i (a + Suc b))
    (replicate a (0xCD, wc) @ paint tc t @ replicate b (0xCD, wc))"
  using assms
proof (induction a arbitrary: i)
  case 0
  have "shows_cells (box_top_loop width wc tc t (i + 1) b) (replicate b (0xCD, wc))"
    by (rule box_top_wall) (use 0 in auto)
  then show ?case using 0 shows_bnd [OF shows_string [of tc t]] by simp
next
  case (Suc a)
  then have "i \<noteq> width sdiv 2" by auto
  moreover have "shows_cells (box_top_loop width wc tc t (i + 1) (a + Suc b))
      (replicate a (0xCD, wc) @ paint tc t @ replicate b (0xCD, wc))"
    by (rule Suc.IH) (use Suc.prems in auto)
  ultimately show ?case
    unfolding replicate_Cons_nat using shows_bnd [OF shows_char [of wc "0xCD"]] by simp
qed

lemma sdiv_two: "0 \<le> (w :: int) \<Longrightarrow> w sdiv numeral k = w div numeral k"
  by (cases "w = 0") (simp_all add: signed_divide_int_def)

lemma shows_three:
  assumes "shows_cells (bnd f (\<lambda>_. g)) xs" "shows_cells h ys"
  shows "shows_cells (bnd f (\<lambda>_. bnd g (\<lambda>_. h))) (xs @ ys)"
proof -
  have "bnd f (\<lambda>_. bnd g (\<lambda>_. h)) = bnd (bnd f (\<lambda>_. g)) (\<lambda>_. h)"
    by (rule ext) (simp add: bnd_def split: sum.splits)
  then show ?thesis using shows_bnd [OF assms] by simp
qed

text \<open>The top edge without the newline before it.\<close>

definition box_top_frame :: "int \<Rightarrow> u8 \<Rightarrow> u8 \<Rightarrow> string \<Rightarrow> unit kop" where
  "box_top_frame width wc tc t =
     bnd (kset_color wc) (\<lambda>_.
     bnd (kprint ''%c'' [AInt 0xC9]) (\<lambda>_.
     bnd (box_top_loop (width - int (length t)) wc tc t 0 (nat (width - int (length t) - 1))) (\<lambda>_.
     bnd (kset_color wc) (\<lambda>_.
     kprint (''%c'' @ nl) [AInt 0xBB]))))"

lemma draw_box_top_frame: "draw_box_top width wc tc t = bnd (kprint nl []) (\<lambda>_. box_top_frame width wc tc t)"
  by (simp add: draw_box_top_def box_top_frame_def string_length_eq Let_def)

definition box_top_cells :: "int \<Rightarrow> u8 \<Rightarrow> u8 \<Rightarrow> string \<Rightarrow> (u8 \<times> u8) list" where
  "box_top_cells width wc tc t =
     (let w = width - int (length t)
      in [(0xC9, wc)] @ wall 0xCD wc (w div 2) @ paint tc t @ wall 0xCD wc (w - 2 - w div 2) @ [(0xBB, wc)])"

lemma box_top_frame_cells:
  assumes "int (length t) + 3 \<le> width"
  shows "shows_cells (box_top_frame width wc tc t) (box_top_cells width wc tc t @ [(10, wc)])"
proof -
  let ?w = "width - int (length t)"
  have w3: "3 \<le> ?w" using assms by simp
  have k: "nat (?w - 1) = nat (?w div 2) + Suc (nat (?w - 2 - ?w div 2))"
    using w3 by linarith
  have "shows_cells (box_top_loop ?w wc tc t 0 (nat (?w - 1)))
      (replicate (nat (?w div 2)) (0xCD, wc) @ paint tc t @ replicate (nat (?w - 2 - ?w div 2)) (0xCD, wc))"
    unfolding k by (rule box_top_title) (use w3 in \<open>simp add: sdiv_two\<close>)
  from shows_three [OF shows_char [of wc "0xC9"] shows_bnd [OF this shows_char_nl [of wc "0xBB"]]]
  show ?thesis by (simp add: box_top_frame_def box_top_cells_def Let_def wall_def)
qed

lemma draw_box_bottom_cells:
  assumes "2 \<le> width"
  shows "shows_cells (draw_box_bottom width wc)
    (([(0xC8, wc)] @ wall 0xCD wc (width - 2) @ [(0xBC, wc)]) @ [(10, wc)])"
proof -
  have loop: "shows_cells (box_bottom_loop wc k) (replicate k (0xCD, wc))" for k
  proof (induction k)
    case (Suc k)
    then show ?case unfolding replicate_Cons_nat using shows_three [OF shows_char [of wc "0xCD"] Suc] by simp
  qed (simp add: shows_cells_def)
  from shows_three [OF shows_char [of wc "0xC8"] shows_bnd [OF this [of "nat (width - 2)"] shows_char_nl [of wc "0xBC"]]]
  show ?thesis by (simp add: draw_box_bottom_def wall_def)
qed

lemma box_side_inner:
  assumes "0 < ii" "ii + int k < width"
  shows "shows_cells (box_side_loop width wc ii (k + Suc 0)) (replicate k (32, 0x0F) @
    (if ii + int k = width - 1 then [(0xBA, wc)] else [(32, 0x0F)]))"
  using assms
proof (induction k arbitrary: ii)
  case 0
  then show ?case
    using shows_bnd [OF shows_char [of wc "0xBA"] shows_ret] shows_bnd [OF shows_blank shows_ret] by (simp del: kprint_run)
next
  case (Suc k)
  have "shows_cells (box_side_loop width wc (ii + 1) (k + Suc 0)) (replicate k (32, 0x0F) @
    (if ii + 1 + int k = width - 1 then [(0xBA, wc)] else [(32, 0x0F)]))"
    by (rule Suc.IH) (use Suc.prems in auto)
  from shows_bnd [OF shows_blank this] Suc.prems show ?case
    by (auto simp: algebra_simps simp del: kprint_run)
qed

lemma draw_box_side_line:
  assumes "2 \<le> width"
  shows "shows_cells (box_side_loop width wc 0 (nat width)) ([(0xBA, wc)] @ blanks (width - 2) @ [(0xBA, wc)])"
proof -
  define k where "k = nat (width - 2)"
  have w: "nat width = Suc (k + Suc 0)" "width = int k + 2" using assms by (auto simp: k_def)
  have "shows_cells (box_side_loop width wc 1 (k + Suc 0)) (replicate k (32, 0x0F) @ [(0xBA, wc)])"
    using box_side_inner [of 1 k width wc] w(2) by simp
  from shows_bnd [OF shows_char [of wc "0xBA"] this] show ?thesis
    unfolding w(1) by (simp add: blanks_def k_def)
qed

lemma draw_box_sides_cells:
  assumes "2 \<le> width" "0 \<le> lines"
  shows "shows_cells (draw_box_sides width lines wc)
    (concat (replicate (nat (lines div 3)) (([(0xBA, wc)] @ blanks (width - 2) @ [(0xBA, wc)]) @ [(10, 0x0F)])))"
proof -
  have "shows_cells (box_sides_loop width wc k)
    (concat (replicate k (([(0xBA, wc)] @ blanks (width - 2) @ [(0xBA, wc)]) @ [(10, 0x0F)])))" for k
  proof (induction k)
    case (Suc k)
    from shows_bnd [OF draw_box_side_line [OF assms(1)] shows_bnd [OF shows_nl Suc]] show ?case by simp
  qed (simp add: shows_cells_def)
  then show ?thesis using assms(2) by (simp add: draw_box_sides_def sdiv_two)
qed

section \<open>Lines of text in a box\<close>

lemma text_align_before:
  assumes "0 < ii" "ii + int a \<le> width" "pos < ii \<or> ii + int a \<le> pos" "shows_cells (text_align_loop t width pos wc tc (ii + int a) k) xs"
  shows "shows_cells (text_align_loop t width pos wc tc ii (a + k)) (replicate a (32, 0x0F) @ xs)"
  using assms
proof (induction a arbitrary: ii)
  case (Suc a)
  have "shows_cells (text_align_loop t width pos wc tc (ii + 1) (a + k)) (replicate a (32, 0x0F) @ xs)"
    by (rule Suc.IH) (use Suc.prems in \<open>auto simp: algebra_simps\<close>)
  from shows_bnd [OF shows_blank this] Suc.prems show ?case by (auto simp del: kprint_run)
qed simp

lemma text_align_line:
  assumes "0 < pos" "pos < width"
  shows "shows_cells (text_align_loop t width pos wc tc 0 (nat (width + 1)))
    ([(0xBA, wc)] @ blanks (pos - 1) @ paint tc t @ blanks (width - pos - 1) @ [(0xBA, wc)])"
proof -
  define a b where "a = nat (pos - 1)" and "b = nat (width - pos - 1)"
  have w: "pos = 1 + int a" "width = pos + 1 + int b" using assms by (auto simp: a_def b_def)
  have n: "nat (width + 1) = Suc (a + Suc (b + Suc 0))" using w by simp
  have last: "shows_cells (text_align_loop t width pos wc tc width (Suc 0)) [(0xBA, wc)]"
    using shows_bnd [OF shows_char [of wc "0xBA"] shows_ret] by simp
  have "shows_cells (text_align_loop t width pos wc tc (pos + 1) (b + Suc 0)) (replicate b (32, 0x0F) @ [(0xBA, wc)])"
    by (rule text_align_before) (use w last assms in auto)
  from shows_bnd [OF shows_string [of tc t] this]
  have "shows_cells (text_align_loop t width pos wc tc (1 + int a) (Suc (b + Suc 0)))
      (paint tc t @ replicate b (32, 0x0F) @ [(0xBA, wc)])"
    using assms w by (simp add: algebra_simps)
  from text_align_before [OF _ _ _ this]
  have "shows_cells (text_align_loop t width pos wc tc 1 (a + Suc (b + Suc 0)))
      (replicate a (32, 0x0F) @ paint tc t @ replicate b (32, 0x0F) @ [(0xBA, wc)])"
    using w by simp
  from shows_bnd [OF shows_char [of wc "0xBA"] this] show ?thesis
    unfolding n by (simp add: blanks_def a_def b_def)
qed

text \<open>The column of the text that an alignment asks for.\<close>

definition align_column :: "int \<Rightarrow> int \<Rightarrow> int" where
  "align_column align width =
     (if align = ALIGN_LEFT then 3 else if align = ALIGN_RIGHT then width - 2 else width div 2)"

lemma print_text_align_cells:
  assumes a: "align \<in> {ALIGN_LEFT, ALIGN_RIGHT, ALIGN_CENTER}" and w: "int (length t) + 4 \<le> width"
  defines "c \<equiv> align_column align (width - int (length t))"
  shows "shows_cells (print_text_align t width align wc tc delay)
    (([(0xBA, wc)] @ blanks (c - 1) @ paint tc t @ blanks (width - int (length t) - c - 1) @ [(0xBA, wc)]) @ [(10, 0x0F)])"
    "0 < c" "c < width - int (length t)"
proof -
  show c: "0 < c" "c < width - int (length t)"
    using w by (auto simp: c_def align_column_def)
  have "(width - int (length t)) sdiv 2 = (width - int (length t)) div 2"
    using w by (simp add: sdiv_two)
  then show "shows_cells (print_text_align t width align wc tc delay)
    (([(0xBA, wc)] @ blanks (c - 1) @ paint tc t @ blanks (width - int (length t) - c - 1) @ [(0xBA, wc)]) @ [(10, 0x0F)])"
    using a shows_bnd [OF text_align_line [OF c, of t wc tc] shows_nl]
    by (auto simp: print_text_align_def string_length_eq Let_def c_def align_column_def
        ALIGN_LEFT_def ALIGN_RIGHT_def ALIGN_CENTER_def)
qed

text \<open>What a box consists of: lines of the same width, each ended by a newline.\<close>

definition shows_lines :: "unit kop \<Rightarrow> int \<Rightarrow> nat \<Rightarrow> bool" where
  "shows_lines f width k \<longleftrightarrow>
     (\<exists>ls. shows_cells f (concat ls) \<and> length ls = k \<and>
       (\<forall>l \<in> set ls. int (length l) = width + 1 \<and> fst (last l) = 10 \<and> 10 \<notin> fst ` set (butlast l)))"

lemma of_char_newline:
  assumes "(of_char c :: u8) = 10"
  shows "c = CHR 0x0A"
proof -
  have n: "(of_char c :: nat) < 256" by (rule nat_of_char_less_256)
  have "(of_nat (of_char c) :: u8) = 10" using assms by (simp only: of_nat_of_char)
  then have "unat (of_nat (of_char c) :: u8) = 10" by simp
  then have "(of_char c :: nat) = 10" using n by (simp add: unat_of_nat)
  then have "(of_char c :: nat) = of_char (CHR 0x0A)" by simp
  then show ?thesis by (simp only: of_char_eq_iff)
qed

lemma newline_free:
  "(10, b) \<notin> set (blanks k)" "c \<noteq> 10 \<Longrightarrow> (10, b) \<notin> set (wall c col k)"
  "CHR 0x0A \<notin> set t \<Longrightarrow> (10, b) \<notin> set (paint col t)"
  by (auto simp: blanks_def wall_def paint_def bytes_def dest: of_char_newline)

lemma shows_same_lines:
  assumes "shows_cells f (concat (replicate k (l @ [(10, col)])))" "int (length l) = width" "10 \<notin> fst ` set l"
  shows "shows_lines f width k"
  unfolding shows_lines_def
  by (rule exI [of _ "replicate k (l @ [(10, col)])"]) (use assms in \<open>auto simp: butlast_append\<close>)

lemma shows_one_line:
  "shows_cells f (l @ [(10, col)]) \<Longrightarrow> int (length l) = width \<Longrightarrow> 10 \<notin> fst ` set l \<Longrightarrow> shows_lines f width 1"
  using shows_same_lines [of f 1 l col width] by simp

text \<open>
  The lines of a box fit.  Called with the white colour on a box of some width, the top edge is
  one line (after a newline) of exactly that width with the title in it, the bottom edge one line of that width,
  the sides a third of the requested number of lines of that width, and each aligned text one line
  of that width, wherever it is aligned; texts without newlines that leave four columns are assumed.
\<close>

theorem box_lines_fit:
  assumes "int (length t) + 4 \<le> width" "CHR 0x0A \<notin> set t" "0 \<le> num"
    and "align \<in> {ALIGN_LEFT, ALIGN_RIGHT, ALIGN_CENTER}"
  shows "(\<exists>f. draw_box_top width wc tc t = bnd (kprint nl []) (\<lambda>_. f) \<and> shows_lines f width 1) \<and>
    shows_lines (draw_box_sides width num wc) width (nat (num div 3)) \<and>
    shows_lines (draw_box_bottom width wc) width 1 \<and>
    shows_lines (print_text_align t width align wc tc delay) width 1"
proof (intro conjI)
  let ?w = "width - int (length t)"
  have top: "shows_cells (box_top_frame width wc tc t) (box_top_cells width wc tc t @ [(10, wc)])"
    using assms(1) by (intro box_top_frame_cells) simp
  show "\<exists>f. draw_box_top width wc tc t = bnd (kprint nl []) (\<lambda>_. f) \<and> shows_lines f width 1"
    by (rule exI [of _ "box_top_frame width wc tc t"], rule conjI [OF draw_box_top_frame], rule shows_one_line [OF top])
      (use assms in \<open>auto simp: box_top_cells_def Let_def newline_free\<close>)
  show "shows_lines (draw_box_bottom width wc) width 1"
    by (rule shows_one_line [OF draw_box_bottom_cells]) (use assms in \<open>auto simp: newline_free\<close>)
  show "shows_lines (draw_box_sides width num wc) width (nat (num div 3))"
    by (rule shows_same_lines [OF draw_box_sides_cells]) (use assms in \<open>auto simp: newline_free\<close>)
  note ta = print_text_align_cells [OF assms(4,1)]
  show "shows_lines (print_text_align t width align wc tc delay) width 1"
    by (rule shows_one_line [OF ta(1)]) (use ta(2,3) assms in \<open>auto simp: newline_free\<close>)
qed

lemma box_lines_fit_witness:
  "shows_lines (draw_box_sides 40 6 COLOR_RED) 40 2 \<and>
   shows_lines (print_text_align ''RaxzusOS'' 40 ALIGN_CENTER COLOR_RED COLOR_GREEN 0) 40 1"
  using box_lines_fit [of "''RaxzusOS''" 40 6 ALIGN_CENTER COLOR_RED COLOR_GREEN 0] by simp

end
