(* ===== verification/Descriptors.thy ===== *)
theory Descriptors
  imports Shell_Ui
begin

unbundle bit_operations_syntax

text \<open>
  The descriptor tables: \<^verbatim>\<open>lib/gdt.c\<close> with the macros of \<^verbatim>\<open>include/gdt.h\<close>, and
  \<^verbatim>\<open>lib/interrupts.c\<close>.  The processor's reading of a descriptor is the specification.
\<close>

section \<open>Segments\<close>

definition BITS_0_TO_15 :: "u32 \<Rightarrow> u32" where "BITS_0_TO_15 x = x AND 0xFFFF"
definition BITS_16_TO_23 :: "u32 \<Rightarrow> u32" where "BITS_16_TO_23 x = drop_bit 16 x AND 0xFF"
definition BITS_24_TO_31 :: "u32 \<Rightarrow> u32" where "BITS_24_TO_31 x = drop_bit 24 x AND 0xFF"
definition BITS_16_TO_19 :: "u32 \<Rightarrow> u32" where "BITS_16_TO_19 x = drop_bit 16 x AND 0x0F"
definition TOP_NIBBLE :: "u32 \<Rightarrow> u32" where "TOP_NIBBLE x = x AND 0xF0"

definition gdt_set_entry :: "nat \<Rightarrow> u32 \<Rightarrow> u32 \<Rightarrow> u8 \<Rightarrow> u8 \<Rightarrow> unit mop" where
  "gdt_set_entry i b lmt acc gran = modify (\<lambda>m. m\<lparr>gdt := (gdt m)(i :=
     \<lparr>limit_low = ucast (BITS_0_TO_15 lmt),
      base_low = ucast (BITS_0_TO_15 b),
      base_mid = ucast (BITS_16_TO_23 b),
      access = acc,
      granularity = ucast (BITS_16_TO_19 lmt OR TOP_NIBBLE (ucast gran)),
      base_high = ucast (BITS_24_TO_31 b)\<rparr>)\<rparr>)"

definition sizeof_tss :: u32 where "sizeof_tss = 104"

text \<open>\<^verbatim>\<open>kmemset(&tss, 0, sizeof(tss))\<close>: every field of the static structure is zero.\<close>

definition zero_tss :: tss_entry where
  "zero_tss = \<lparr>esp0 = 0, ss0 = 0, iomap_base = 0, tss_rest = (\<lambda>_. 0)\<rparr>"

definition tss_set_entry :: "nat \<Rightarrow> u32 \<Rightarrow> unit mop" where
  "tss_set_entry i kernel_stack =
     bnd (gets tss_addr) (\<lambda>b.
     let lmt = sizeof_tss - 1 in
     bnd (gdt_set_entry i b lmt 0x89 0x00) (\<lambda>_.
     bnd (modify (\<lambda>m. m\<lparr>tss := zero_tss\<rparr>)) (\<lambda>_.
     bnd (modify (\<lambda>m. m\<lparr>tss := tss m\<lparr>ss0 := 0x10\<rparr>\<rparr>)) (\<lambda>_.
     bnd (modify (\<lambda>m. m\<lparr>tss := tss m\<lparr>esp0 := kernel_stack\<rparr>\<rparr>)) (\<lambda>_.
     modify (\<lambda>m. m\<lparr>tss := tss m\<lparr>iomap_base := ucast sizeof_tss\<rparr>\<rparr>))))))"

definition get_tss_stack :: "u32 mop" where
  "get_tss_stack = gets (\<lambda>m. esp0 (tss m))"

definition tss_set_kernel_stack :: "u32 \<Rightarrow> unit mop" where
  "tss_set_kernel_stack stack = modify (\<lambda>m. m\<lparr>tss := tss m\<lparr>esp0 := stack\<rparr>\<rparr>)"

text \<open>The far jump makes \<^verbatim>\<open>0x08\<close> the code segment; the data segment registers are not part of the state.\<close>

definition gdt_load :: "unit mop" where
  "gdt_load = modify (\<lambda>m. m\<lparr>loaded_gdt := gdtr m, code_segment := 0x08\<rparr>)"

definition tss_load :: "unit mop" where
  "tss_load = modify (\<lambda>m. m\<lparr>task_register := 0x28\<rparr>)"

definition sizeof_gdt_entry :: u16 where "sizeof_gdt_entry = 8"

definition init_gdt :: "unit mop" where
  "init_gdt =
     bnd (gdt_set_entry 0 0 0 0 0) (\<lambda>_.
     bnd (gdt_set_entry 1 0 0xFFFFF 0x9A 0xCF) (\<lambda>_.
     bnd (gdt_set_entry 2 0 0xFFFFF 0x92 0xCF) (\<lambda>_.
     bnd (gdt_set_entry 3 0 0xFFFFF 0xFA 0xCF) (\<lambda>_.
     bnd (gdt_set_entry 4 0 0xFFFFF 0xF2 0xCF) (\<lambda>_.
     bnd (gets tss_kernel_stack) (\<lambda>stack.
     bnd (tss_set_entry 5 (stack + 4096)) (\<lambda>_.
     bnd (modify (\<lambda>m. m\<lparr>gdtr := (gdtr m)\<lparr>tbl_limit := sizeof_gdt_entry * 6 - 1\<rparr>\<rparr>)) (\<lambda>_.
     bnd (modify (\<lambda>m. m\<lparr>gdtr := (gdtr m)\<lparr>tbl_base := gdt_addr m\<rparr>\<rparr>)) (\<lambda>_.
     bnd gdt_load (\<lambda>_. tss_load))))))))))"

section \<open>Interrupt gates\<close>

definition set_idt_entry :: "u8 \<Rightarrow> u32 \<Rightarrow> u16 \<Rightarrow> u8 \<Rightarrow> unit mop" where
  "set_idt_entry num handler_address sel fl = modify (\<lambda>m. m\<lparr>idt := (idt m)(unat num :=
     \<lparr>idt_base_low = ucast (handler_address AND 0xFFFF),
      selector = sel,
      always0 = 0,
      flags = fl,
      idt_base_high = ucast (drop_bit 16 handler_address AND 0xFFFF)\<rparr>)\<rparr>)"

definition zero_gate :: idt_entry where
  "zero_gate = \<lparr>idt_base_low = 0, selector = 0, always0 = 0, flags = 0, idt_base_high = 0\<rparr>"

definition sizeof_idt_entry :: u16 where "sizeof_idt_entry = 8"

definition install_idt :: "unit mop" where
  "install_idt =
     bnd (modify (\<lambda>m. m\<lparr>idtp := (idtp m)\<lparr>tbl_limit := sizeof_idt_entry * 256 - 1\<rparr>\<rparr>)) (\<lambda>_.
     bnd (modify (\<lambda>m. m\<lparr>idtp := (idtp m)\<lparr>tbl_base := idt_addr m\<rparr>\<rparr>)) (\<lambda>_.
     bnd (gets (\<lambda>m. tbl_base (idtp m))) (\<lambda>b.
     bnd (putf (''The IDTP.limit: %x'' @ [CHR 0x0A]) [AInt b]) (\<lambda>_.
     modify (\<lambda>m. fold (\<lambda>i m. m\<lparr>idt := (idt m)(i := zero_gate)\<rparr>) [0..<256] m)))))"

definition setup_time :: "u16 \<Rightarrow> unit mop" where
  "setup_time divisor =
     bnd (outb 0x43 0x36) (\<lambda>_.
     bnd (outb 0x40 (ucast (divisor AND 0x00FF))) (\<lambda>_.
     outb 0x40 (ucast (drop_bit 8 divisor AND 0x00FF))))"

definition init_interrupts :: "unit mop" where
  "init_interrupts =
     bnd (putf_color COLOR_WHITE ''[INIT] Setting up interrupts....'' []) (\<lambda>_.
     bnd (gets code_segment) (\<lambda>cs.
     bnd install_idt (\<lambda>_.
     bnd (gets isr_wrapper) (\<lambda>isr.
     bnd (set_idt_entry 129 (isr 129) cs 0xEE) (\<lambda>_.
     bnd (set_idt_entry 130 (isr 130) cs 0x8E) (\<lambda>_.
     bnd (set_idt_entry 33 (isr 33) cs 0x8E) (\<lambda>_.
     bnd (set_idt_entry 32 (isr 32) cs 0x8E) (\<lambda>_.
     bnd (set_idt_entry 0 (isr 0) cs 0x8E) (\<lambda>_.
     bnd (set_idt_entry 13 (isr 13) cs 0x8E) (\<lambda>_.
     bnd (set_idt_entry 14 (isr 14) cs 0x8E) (\<lambda>_.
     bnd (set_idt_entry 8 (isr 8) cs 0x8E) (\<lambda>_.
     bnd (modify (\<lambda>m. m\<lparr>loaded_idt := idtp m\<rparr>)) (\<lambda>_.
     bnd (setup_time 11932) (\<lambda>_.
     putf_color COLOR_GREEN (''[OK]'' @ [CHR 0x0A]) []))))))))))))))"

section \<open>What the processor reads\<close>

definition seg_base :: "gdt_entry \<Rightarrow> u32" where
  "seg_base d = ucast (base_low d) OR push_bit 16 (ucast (base_mid d)) OR push_bit 24 (ucast (base_high d))"

definition seg_limit :: "gdt_entry \<Rightarrow> u32" where
  "seg_limit d =
     (let l = ucast (limit_low d) OR push_bit 16 (ucast (granularity d AND 0x0F))
      in if bit (granularity d) 7 then push_bit 12 l OR 0xFFF else l)"

definition seg_present :: "gdt_entry \<Rightarrow> bool" where "seg_present d = bit (access d) 7"

definition seg_dpl :: "gdt_entry \<Rightarrow> u8" where "seg_dpl d = drop_bit 5 (access d) AND 3"

definition seg_type :: "gdt_entry \<Rightarrow> u8" where "seg_type d = access d AND 0x1F"

definition gate_handler :: "idt_entry \<Rightarrow> u32" where
  "gate_handler g = ucast (idt_base_low g) OR push_bit 16 (ucast (idt_base_high g))"

definition gate_present :: "idt_entry \<Rightarrow> bool" where "gate_present g = bit (flags g) 7"

definition gate_dpl :: "idt_entry \<Rightarrow> u8" where "gate_dpl g = drop_bit 5 (flags g) AND 3"

lemma field_masks:
  "(0xFFFF :: 'a :: len word) = mask 16" "(0xFF :: 'a word) = mask 8" "(0x0F :: 'a word) = mask 4"
  "(0xF0 :: 'a word) = push_bit 4 (mask 4)"
  by (simp_all add: mask_eq_exp_minus_1)

lemma ucast_low [simp]:
  "(ucast (x AND 0xFFFF) :: u16) = ucast (x :: u32)" "(ucast (x AND 0xFF) :: u8) = ucast (x :: u32)"
  unfolding field_masks by (rule bit_word_eqI; auto simp: bit_simps)+

lemma ucast_granularity: "(ucast (x AND 0x0F OR ucast g AND 0xF0) :: u8) = ucast (x :: u32) AND 0x0F OR g AND 0xF0"
  unfolding field_masks by (rule bit_word_eqI) (auto simp: bit_simps)

text \<open>The descriptor that \<^verbatim>\<open>gdt_set_entry\<close> writes, field by field.\<close>

definition descriptor :: "u32 \<Rightarrow> u32 \<Rightarrow> u8 \<Rightarrow> u8 \<Rightarrow> gdt_entry" where
  "descriptor b lmt acc gran =
     \<lparr>limit_low = ucast lmt, base_low = ucast b, base_mid = ucast (drop_bit 16 b), access = acc,
      granularity = ucast (drop_bit 16 lmt) AND 0x0F OR gran AND 0xF0, base_high = ucast (drop_bit 24 b)\<rparr>"

lemma gdt_set_entry_run [simp]:
  "gdt_set_entry i b lmt acc gran m = Inr ((), m\<lparr>gdt := (gdt m)(i := descriptor b lmt acc gran)\<rparr>)"
  by (simp add: gdt_set_entry_def descriptor_def BITS_0_TO_15_def BITS_16_TO_23_def BITS_24_TO_31_def
      BITS_16_TO_19_def TOP_NIBBLE_def ucast_granularity)

lemma descriptor_access [simp]: "access (descriptor b lmt acc gran) = acc"
  by (simp add: descriptor_def)

lemma descriptor_base [simp]: "seg_base (descriptor b lmt acc gran) = b"
proof (rule bit_word_eqI)
  fix n :: nat
  assume "n < LENGTH(32)"
  then show "bit (seg_base (descriptor b lmt acc gran)) n = bit b n"
    by (cases "n < 16"; cases "n < 24") (auto simp: seg_base_def descriptor_def bit_simps not_less)
qed

lemma descriptor_flags: "granularity (descriptor b lmt acc gran) AND 0xF0 = gran AND 0xF0"
  unfolding field_masks descriptor_def by (rule bit_word_eqI) (auto simp: bit_simps)

lemma descriptor_limit [simp]:
  "seg_limit (descriptor b lmt acc gran) =
     (if bit gran 7 then push_bit 12 (lmt AND mask 20) OR 0xFFF else lmt AND mask 20)"
proof -
  let ?d = "descriptor b lmt acc gran"
  have g7: "bit (granularity ?d) 7 = bit gran 7"
    unfolding field_masks descriptor_def by (simp add: bit_simps)
  have "ucast (limit_low ?d) OR push_bit 16 (ucast (granularity ?d AND 0x0F)) = lmt AND mask 20"
    unfolding field_masks descriptor_def by (rule bit_word_eqI) (auto simp: bit_simps)
  then show ?thesis using g7 by (simp add: seg_limit_def Let_def)
qed

text \<open>
  A segment descriptor that \<^verbatim>\<open>gdt_set_entry\<close> writes reads back as what was asked: the processor
  finds the base, the low 20 bits of the limit (scaled by pages when the granularity flag is set), and the access
  byte; the flags are the top nibble of the granularity argument; the other descriptors keep their value.
\<close>

theorem gdt_entry_roundtrip:
  "\<exists>m'. gdt_set_entry i b lmt acc gran m = Inr ((), m') \<and>
    seg_base (gdt m' i) = b \<and>
    seg_limit (gdt m' i) = (if bit gran 7 then push_bit 12 (lmt AND mask 20) OR 0xFFF else lmt AND mask 20) \<and>
    access (gdt m' i) = acc \<and> granularity (gdt m' i) AND 0xF0 = gran AND 0xF0 \<and>
    m' = m\<lparr>gdt := (gdt m)(i := gdt m' i)\<rparr>"
  by (simp add: descriptor_flags)

section \<open>The tables at boot\<close>

text \<open>A segment that spans the whole address space, of a privilege level and a type.\<close>

definition flat_segment :: "u8 \<Rightarrow> u8 \<Rightarrow> gdt_entry \<Rightarrow> bool" where
  "flat_segment dpl ty d \<longleftrightarrow>
     seg_base d = 0 \<and> seg_limit d = 0xFFFFFFFF \<and> seg_present d \<and> seg_dpl d = dpl \<and> seg_type d = ty"

definition CODE_SEGMENT :: u8 where "CODE_SEGMENT = 0x1A"
definition DATA_SEGMENT :: u8 where "DATA_SEGMENT = 0x12"
definition TSS_AVAILABLE :: u8 where "TSS_AVAILABLE = 0x09"

definition boot_gdt :: "u32 \<Rightarrow> (nat \<Rightarrow> gdt_entry) \<Rightarrow> (nat \<Rightarrow> gdt_entry)" where
  "boot_gdt tss_base g = g(0 := descriptor 0 0 0 0, 1 := descriptor 0 0xFFFFF 0x9A 0xCF, 2 := descriptor 0 0xFFFFF 0x92 0xCF,
     3 := descriptor 0 0xFFFFF 0xFA 0xCF, 4 := descriptor 0 0xFFFFF 0xF2 0xCF, 5 := descriptor tss_base 103 0x89 0)"

lemma init_gdt_run [simp]:
  "init_gdt m = Inr ((), m\<lparr>gdt := boot_gdt (tss_addr m) (gdt m),
     tss := zero_tss\<lparr>ss0 := 0x10, esp0 := tss_kernel_stack m + 4096, iomap_base := 104\<rparr>,
     gdtr := \<lparr>tbl_limit = 47, tbl_base = gdt_addr m\<rparr>, loaded_gdt := \<lparr>tbl_limit = 47, tbl_base = gdt_addr m\<rparr>,
     code_segment := 0x08, task_register := 0x28\<rparr>)"
  by (cases "gdtr m") (simp add: init_gdt_def tss_set_entry_def gdt_load_def tss_load_def boot_gdt_def sizeof_tss_def
      sizeof_gdt_entry_def Let_def)

lemma boot_gdt_flat:
  "flat_segment 0 CODE_SEGMENT (boot_gdt b g 1)" "flat_segment 0 DATA_SEGMENT (boot_gdt b g 2)"
  "flat_segment 3 CODE_SEGMENT (boot_gdt b g 3)" "flat_segment 3 DATA_SEGMENT (boot_gdt b g 4)"
  by (simp_all add: mask_eq_exp_minus_1 boot_gdt_def flat_segment_def seg_present_def seg_dpl_def seg_type_def CODE_SEGMENT_def
      DATA_SEGMENT_def)

text \<open>
  \<^verbatim>\<open>init_gdt\<close> builds the tables that protected mode needs: the null descriptor is absent; descriptors
  1 to 4 are flat kernel code, kernel data, user code and user data segments; descriptor 5, which the
  task register selects, is the task state segment at the address of \<^verbatim>\<open>tss\<close>, whose ring-0 stack is the top
  of the static kernel stack in the kernel data segment and which has no I/O map; the code segment register selects descriptor 1; the
  loaded table has exactly these six descriptors; the kernel's memory is not touched.
\<close>

theorem init_gdt_tables:
  "\<exists>m'. init_gdt m = Inr ((), m') \<and>
    \<not> seg_present (gdt m' 0) \<and>
    flat_segment 0 CODE_SEGMENT (gdt m' 1) \<and> flat_segment 0 DATA_SEGMENT (gdt m' 2) \<and>
    flat_segment 3 CODE_SEGMENT (gdt m' 3) \<and> flat_segment 3 DATA_SEGMENT (gdt m' 4) \<and>
    seg_present (gdt m' 5) \<and> seg_type (gdt m' 5) = TSS_AVAILABLE \<and> seg_base (gdt m' 5) = tss_addr m \<and>
    task_register m' = 8 * 5 \<and> code_segment m' = 8 * 1 \<and> ss0 (tss m') = 8 * 2 \<and>
    esp0 (tss m') = tss_kernel_stack m + 4096 \<and> iomap_base (tss m') > ucast (seg_limit (gdt m' 5)) \<and>
    tbl_base (loaded_gdt m') = gdt_addr m \<and> unat (tbl_limit (loaded_gdt m')) + 1 = 6 * 8 \<and>
    kern m' = kern m"
  using boot_gdt_flat [of "tss_addr m" "gdt m"]
  by (simp add: mask_eq_exp_minus_1 boot_gdt_def seg_present_def seg_type_def TSS_AVAILABLE_def)

text \<open>The gate that \<^verbatim>\<open>set_idt_entry\<close> writes.\<close>

definition gate :: "u32 \<Rightarrow> u16 \<Rightarrow> u8 \<Rightarrow> idt_entry" where
  "gate h sel fl = \<lparr>idt_base_low = ucast h, selector = sel, always0 = 0, flags = fl, idt_base_high = ucast (drop_bit 16 h)\<rparr>"

lemma set_idt_entry_run [simp]:
  "set_idt_entry num h sel fl m = Inr ((), m\<lparr>idt := (idt m)(unat num := gate h sel fl)\<rparr>)"
  by (simp add: set_idt_entry_def gate_def)

lemma gate_reads [simp]:
  "gate_handler (gate h sel fl) = h" "selector (gate h sel fl) = sel" "flags (gate h sel fl) = fl"
proof -
  show "gate_handler (gate h sel fl) = h"
  proof (rule bit_word_eqI)
    fix n :: nat
    assume "n < LENGTH(32)"
    then show "bit (gate_handler (gate h sel fl)) n = bit h n"
      by (cases "n < 16") (auto simp: gate_handler_def gate_def bit_simps not_less)
  qed
qed (simp_all add: gate_def)

definition cleared :: "(nat \<Rightarrow> idt_entry) \<Rightarrow> (nat \<Rightarrow> idt_entry)" where
  "cleared g = (\<lambda>v. if v < 256 then zero_gate else g v)"

lemma clear_gates: "fold (\<lambda>i m. m\<lparr>idt := (idt m)(i := zero_gate)\<rparr>) [0..<256] m = m\<lparr>idt := cleared (idt m)\<rparr>"
proof -
  have "fold (\<lambda>i m. m\<lparr>idt := (idt m)(i := zero_gate)\<rparr>) [0..<k] m =
    m\<lparr>idt := (\<lambda>v. if v < k then zero_gate else idt m v)\<rparr>" for k
    by (induction k) (auto simp: fun_eq_iff)
  then show ?thesis by (simp add: cleared_def)
qed

lemma install_idt_run [simp]:
  "install_idt m = Inr ((), m\<lparr>idtp := \<lparr>tbl_limit = 2047, tbl_base = idt_addr m\<rparr>,
     kern := kern m\<lparr>console := console_after (''The IDTP.limit: %x'' @ [CHR 0x0A]) [AInt (idt_addr m)] (console (kern m))\<rparr>,
     idt := cleared (idt m)\<rparr>)"
  by (cases "idtp m") (simp add: install_idt_def clear_gates sizeof_idt_entry_def)

definition boot_idt :: "(nat \<Rightarrow> u32) \<Rightarrow> u16 \<Rightarrow> (nat \<Rightarrow> idt_entry) \<Rightarrow> (nat \<Rightarrow> idt_entry)" where
  "boot_idt isr cs old = (\<lambda>v.
     if v \<in> {0, 8, 13, 14, 32, 33, 130} then gate (isr v) cs 0x8E
     else if v = 129 then gate (isr v) cs 0xEE
     else if v < 256 then zero_gate else old v)"

definition console_boot :: "u32 \<Rightarrow> vga \<Rightarrow> vga" where
  "console_boot b v = console_after (''[OK]'' @ [CHR 0x0A]) [] (set_color COLOR_GREEN
     (console_after (''The IDTP.limit: %x'' @ [CHR 0x0A]) [AInt b]
       (console_after ''[INIT] Setting up interrupts....'' [] (set_color COLOR_WHITE v))))"

lemma init_interrupts_run [simp]:
  "init_interrupts m = Inr ((), m\<lparr>kern := kern m\<lparr>console := console_boot (idt_addr m) (console (kern m))\<rparr>,
     idt := boot_idt (isr_wrapper m) (code_segment m) (idt m),
     idtp := \<lparr>tbl_limit = 2047, tbl_base = idt_addr m\<rparr>, loaded_idt := \<lparr>tbl_limit = 2047, tbl_base = idt_addr m\<rparr>,
     trace := [Outb 0x40 0x2E, Outb 0x40 0x9C, Outb 0x43 0x36] @ trace m\<rparr>)"
proof -
  have "(cleared (idt m))(129 := gate (isr_wrapper m 129) cs 238, 130 := gate (isr_wrapper m 130) cs 142,
      33 := gate (isr_wrapper m 33) cs 142, 32 := gate (isr_wrapper m 32) cs 142, 0 := gate (isr_wrapper m 0) cs 142,
      13 := gate (isr_wrapper m 13) cs 142, 14 := gate (isr_wrapper m 14) cs 142, 8 := gate (isr_wrapper m 8) cs 142) =
     boot_idt (isr_wrapper m) cs (idt m)" for cs
    by (rule ext) (simp add: boot_idt_def cleared_def)
  then show ?thesis
    by (simp add: init_interrupts_def setup_time_def console_boot_def)
qed

text \<open>
  C22: The order of the boot matters, and it is right.  After \<^verbatim>\<open>init_gdt\<close> and then
  \<^verbatim>\<open>init_interrupts\<close>, exactly the eight vectors with a handler have a present gate; each leads to its
  own assembly wrapper through a selector of the loaded table whose descriptor is the flat ring-0 code
  segment; only the system call gate is open to user code; the timer's reload value is 11932.
\<close>

theorem boot_vectors:
  "\<exists>m'. bnd init_gdt (\<lambda>_. init_interrupts) m = Inr ((), m') \<and>
    (\<forall>v < 256. gate_present (idt m' v) = (v \<in> {0, 8, 13, 14, 32, 33, 129, 130})) \<and>
    (\<forall>v \<in> {0, 8, 13, 14, 32, 33, 129, 130}.
       gate_handler (idt m' v) = isr_wrapper m v \<and>
       selector (idt m' v) < tbl_limit (loaded_gdt m') \<and>
       flat_segment 0 CODE_SEGMENT (gdt m' (unat (selector (idt m' v)) div 8)) \<and>
       gate_dpl (idt m' v) = (if v = 129 then 3 else 0)) \<and>
    tbl_base (loaded_idt m') = idt_addr m \<and> unat (tbl_limit (loaded_idt m')) + 1 = 256 * 8 \<and>
    trace m' = [Outb 0x40 (ucast (drop_bit 8 (11932 :: u16))), Outb 0x40 (ucast (11932 :: u16)), Outb 0x43 0x36] @ trace m"
  using boot_gdt_flat [of "tss_addr m" "gdt m"]
  by (simp add: boot_idt_def gate_present_def gate_dpl_def zero_gate_def)

lemma boot_vectors_witness:
  "\<exists>m'. bnd init_gdt (\<lambda>_. init_interrupts) demo_machine = Inr ((), m') \<and>
    gate_handler (idt m' 33) = isr_wrapper demo_machine 33 \<and> \<not> gate_present (idt m' 46)"
proof -
  obtain m' where "bnd init_gdt (\<lambda>_. init_interrupts) demo_machine = Inr ((), m')"
    "\<forall>v < 256. gate_present (idt m' v) = (v \<in> {0, 8, 13, 14, 32, 33, 129, 130})"
    "\<forall>v \<in> {0, 8, 13, 14, 32, 33, 129, 130}. gate_handler (idt m' v) = isr_wrapper demo_machine v"
    using boot_vectors [of demo_machine] by blast
  then show ?thesis by (intro exI [of _ m']) simp
qed

end
