(* ===== verification/Process_Manager.thy ===== *)
theory Process_Manager
  imports Descriptors
begin

unbundle bit_operations_syntax

text \<open>
  Processes: \<^verbatim>\<open>lib/process_manager.c\<close> with the layout of \<^verbatim>\<open>include/process_manager.h\<close>.  A process
  control block is a block of the heap, reached through its address; the fields are at the offsets
  that the compiler gives them.  The scheduler's static variables are in the machine.
\<close>

section \<open>Process control blocks\<close>

definition PROC_STACK_VIRT :: u32 where "PROC_STACK_VIRT = 0xBFFFF000"
definition PROC_STACK_SIZE :: u32 where "PROC_STACK_SIZE = 4096"
definition PROC_CODE_VIRT :: u32 where "PROC_CODE_VIRT = 0x10000000"

definition PCB_saved_esp :: u32 where "PCB_saved_esp = 0"
definition PCB_page_dir :: u32 where "PCB_page_dir = 4"
definition PCB_stack_top :: u32 where "PCB_stack_top = 16"
definition PCB_PID :: u32 where "PCB_PID = 80"
definition PCB_sleep_time :: u32 where "PCB_sleep_time = 84"
definition PCB_kernel_stack_top :: u32 where "PCB_kernel_stack_top = 88"
definition PCB_next :: u32 where "PCB_next = 92"
definition PCB_prev :: u32 where "PCB_prev = 96"
definition sizeof_PCB :: u32 where "sizeof_PCB = 100"

definition mload :: "u32 \<Rightarrow> u32 mop" where "mload a = kern_op (load32 a)"
definition mstore :: "u32 \<Rightarrow> u32 \<Rightarrow> unit mop" where "mstore a w = kern_op (store32 a w)"

section \<open>The scheduler\<close>

text \<open>One round of the loop: step to the next process in the ring and count its sleep down.\<close>

definition schedule_step :: "u32 \<Rightarrow> u32 mop" where
  "schedule_step sim_current =
     bnd (mload (sim_current + PCB_next)) (\<lambda>nxt.
     bnd (if nxt \<noteq> 0 then
            bnd (modify (\<lambda>m. m\<lparr>next_process := nxt\<rparr>)) (\<lambda>_. gets next_process)
          else
            bnd (modify (\<lambda>m. m\<lparr>next_process := process_lists m\<rparr>)) (\<lambda>_. gets next_process)) (\<lambda>sim_current.
     bnd (mload (sim_current + PCB_sleep_time)) (\<lambda>sleep_time.
     bnd (if sint sleep_time > 0 then mstore (sim_current + PCB_sleep_time) (sleep_time - 1) else ret ()) (\<lambda>_.
     ret sim_current))))"

definition still_sleeping :: "u32 \<Rightarrow> bool mop" where
  "still_sleeping sim_current = bnd (mload (sim_current + PCB_sleep_time)) (\<lambda>sleep_time. ret (sint sleep_time > 0))"

definition schedule :: "unit mop" where
  "schedule =
     bnd (gets current_process) (\<lambda>sim_current.
     bnd (schedule_step sim_current) (\<lambda>sim_current.
     bnd (loop still_sleeping schedule_step sim_current) (\<lambda>sim_current.
     bnd (mload (sim_current + PCB_kernel_stack_top)) (\<lambda>stack.
     tss_set_kernel_stack stack))))"

definition timer_interrupt_handler :: "unit mop" where
  "timer_interrupt_handler =
     bnd (modify (\<lambda>m. m\<lparr>blink_counter := blink_counter m + 1\<rparr>)) (\<lambda>_.
     bnd (gets blink_counter) (\<lambda>count.
     bnd (if count \<ge> 50 then
            bnd (kern_op (modify (\<lambda>s. s\<lparr>console := cursor_blinker (console s)\<rparr>))) (\<lambda>_.
            modify (\<lambda>m. m\<lparr>blink_counter := 0\<rparr>))
          else ret ()) (\<lambda>_.
     bnd schedule (\<lambda>_. pic_send_eoi 0))))"

section \<open>Creating a process\<close>

text \<open>\<^verbatim>\<open>*(--sp) = w\<close>.\<close>

definition push_word :: "u32 \<Rightarrow> u32 \<Rightarrow> u32 kop" where
  "push_word w sp = bnd (store32 (sp - 4) w) (\<lambda>_. ret (sp - 4))"

fun copy_bytes :: "u32 \<Rightarrow> u32 \<Rightarrow> nat \<Rightarrow> nat \<Rightarrow> unit kop" where
  "copy_bytes dst src i 0 = ret ()"
| "copy_bytes dst src i (Suc k) =
     bnd (load8 (src + of_nat i)) (\<lambda>b.
     bnd (store8 (dst + of_nat i) b) (\<lambda>_. copy_bytes dst src (i + 1) k))"

definition user_frame :: "u32 \<Rightarrow> u32 \<Rightarrow> u32 \<Rightarrow> u32 kop" where
  "user_frame proc_dir stack_phys func =
     bnd (map_page proc_dir PROC_STACK_VIRT stack_phys PAGE_USER) (\<lambda>_.
     let sp = stack_phys + 0xC0000000 + PROC_STACK_SIZE in
     bnd get_next_free_process_frame (\<lambda>code_phys.
     bnd (map_page proc_dir PROC_CODE_VIRT code_phys PAGE_USER) (\<lambda>_.
     bnd (copy_bytes (code_phys + 0xC0000000) func 0 4096) (\<lambda>_.
     bnd (push_word 0x23 sp) (\<lambda>sp.
     bnd (push_word (PROC_STACK_VIRT + PROC_STACK_SIZE) sp) (\<lambda>sp.
     bnd (push_word 0x202 sp) (\<lambda>sp.
     bnd (push_word 0x1B sp) (\<lambda>sp.
     push_word PROC_CODE_VIRT sp))))))))"

definition kernel_frame :: "u32 \<Rightarrow> u32 \<Rightarrow> u32 \<Rightarrow> u32 kop" where
  "kernel_frame proc_dir stack_phys func =
     bnd (map_page proc_dir PROC_STACK_VIRT stack_phys PAGE_KERNEL) (\<lambda>_.
     let sp = stack_phys + 0xC0000000 + PROC_STACK_SIZE in
     bnd (push_word 0x202 sp) (\<lambda>sp.
     bnd (push_word 0x08 sp) (\<lambda>sp.
     push_word func sp)))"

text \<open>The eight registers that \<^verbatim>\<open>popa\<close> restores.\<close>

fun popa_frame :: "nat \<Rightarrow> u32 \<Rightarrow> u32 kop" where
  "popa_frame 0 sp = ret sp"
| "popa_frame (Suc k) sp = bnd (push_word 0 sp) (popa_frame k)"

text \<open>The loop that finds the last process of the list.\<close>

definition last_process :: "u32 \<Rightarrow> u32 mop" where
  "last_process = loop (\<lambda>current. bnd (mload (current + PCB_next)) (\<lambda>nxt. ret (nxt \<noteq> 0)))
     (\<lambda>current. mload (current + PCB_next))"

definition add_to_list :: "u32 \<Rightarrow> unit mop" where
  "add_to_list new_process =
     bnd (gets current_index) (\<lambda>i.
     if i = 0 then
       bnd (modify (\<lambda>m. m\<lparr>process_lists := new_process\<rparr>)) (\<lambda>_.
       modify (\<lambda>m. m\<lparr>current_index := current_index m + 1\<rparr>))
     else
       bnd (modify (\<lambda>m. m\<lparr>current_index := current_index m + 1\<rparr>)) (\<lambda>_.
       bnd (gets process_lists) (\<lambda>current.
       bnd (last_process current) (\<lambda>current.
       bnd (mstore (current + PCB_next) new_process) (\<lambda>_.
       mstore (new_process + PCB_prev) current)))))"

definition create_process :: "u32 \<Rightarrow> bool \<Rightarrow> unit mop" where
  "create_process func is_user =
     bnd (kern_op (kmalloc sizeof_PCB)) (\<lambda>new_process.
     if new_process = 0 then ret ()
     else
       bnd (gets current_index) (\<lambda>i.
       bnd (mstore (new_process + PCB_PID) (ucast i)) (\<lambda>_.
       bnd (mstore (new_process + PCB_sleep_time) 0) (\<lambda>_.
       bnd (mstore (new_process + PCB_next) 0) (\<lambda>_.
       bnd (mstore (new_process + PCB_prev) 0) (\<lambda>_.
       bnd (kern_op create_process_page_directory) (\<lambda>proc_dir.
       bnd (mstore (new_process + PCB_page_dir) proc_dir) (\<lambda>_.
       bnd (kern_op get_next_free_process_frame) (\<lambda>stack_phys.
       bnd (kern_op (if is_user then user_frame proc_dir stack_phys func else kernel_frame proc_dir stack_phys func)) (\<lambda>sp.
       bnd (kern_op (popa_frame 8 sp)) (\<lambda>sp.
       let sp_offset = sp - (stack_phys + 0xC0000000) in
       bnd (mstore (new_process + PCB_saved_esp) (PROC_STACK_VIRT + sp_offset)) (\<lambda>_.
       bnd (mstore (new_process + PCB_stack_top) (PROC_STACK_VIRT + PROC_STACK_SIZE)) (\<lambda>_.
       bnd (kern_op (kmalloc 4096)) (\<lambda>kstack.
       if kstack = 0 then
         bnd (putf_color COLOR_RED (''Failed to allocate kernel stack'' @ [CHR 0x0A]) []) (\<lambda>_. raise Hang)
       else
         bnd (mstore (new_process + PCB_kernel_stack_top) (kstack + 4096)) (\<lambda>_.
         add_to_list new_process)))))))))))))))"

section \<open>Starting the first process\<close>

text \<open>What \<^verbatim>\<open>popa\<close> and \<^verbatim>\<open>iret\<close> take from the stack: the eight registers from \<^verbatim>\<open>edi\<close> up, then the return frame.\<close>

record cpu_context =
  gprs :: "u32 list"
  ctx_eip :: u32
  ctx_cs :: u32
  ctx_eflags :: u32

fun pop_words :: "nat \<Rightarrow> u32 \<Rightarrow> u32 list kop" where
  "pop_words 0 esp = ret []"
| "pop_words (Suc k) esp = bnd (load32 esp) (\<lambda>w. bnd (pop_words k (esp + 4)) (\<lambda>ws. ret (w # ws)))"

definition popa_iret :: "u32 \<Rightarrow> cpu_context kop" where
  "popa_iret esp =
     bnd (pop_words 8 esp) (\<lambda>regs.
     bnd (load32 (esp + 32)) (\<lambda>eip.
     bnd (load32 (esp + 36)) (\<lambda>cs.
     bnd (load32 (esp + 40)) (\<lambda>eflags.
     ret \<lparr>gprs = regs, ctx_eip = eip, ctx_cs = cs, ctx_eflags = eflags\<rparr>))))"

text \<open>
  \<^verbatim>\<open>init_process_scheduler\<close> does not return: its result is the context in which the processor
  continues.
\<close>

definition init_process_scheduler :: "u32 \<Rightarrow> cpu_context mop" where
  "init_process_scheduler func =
     bnd (modify (\<lambda>m. m\<lparr>current_index := 0\<rparr>)) (\<lambda>_.
     bnd (create_process func False) (\<lambda>_.
     bnd (modify (\<lambda>m. m\<lparr>current_process := process_lists m\<rparr>)) (\<lambda>_.
     bnd (modify (\<lambda>m. m\<lparr>next_process := process_lists m\<rparr>)) (\<lambda>_.
     bnd (gets current_process) (\<lambda>current.
     bnd (mload (current + PCB_page_dir)) (\<lambda>page_dir.
     let phys_dir = page_dir - 0xC0000000 in
     bnd (mload (current + PCB_saved_esp)) (\<lambda>first_esp.
     bnd (kern_op (modify (\<lambda>s. s\<lparr>cr3 := phys_dir\<rparr>))) (\<lambda>_.
     kern_op (popa_iret first_esp)))))))))"

section \<open>Round robin on the ring of processes\<close>

text \<open>
  The abstract scheduler: the sleep times of the processes in the order of the list.  From
  process \<open>i\<close> it goes round the ring, counts every sleeper it meets down and stops at the first that
  is awake then.
\<close>

definition counted :: "int \<Rightarrow> int" where
  "counted t = (if t > 0 then t - 1 else t)"

function pick :: "nat \<Rightarrow> int list \<Rightarrow> nat \<times> int list" where
  "pick i ts =
     (let j = Suc i mod length ts; ts' = ts[j := counted (ts ! j)]
      in if ts \<noteq> [] \<and> counted (ts ! j) > 0 then pick j ts' else (j, ts'))"
  by pat_completeness auto
termination
proof (relation "measure (\<lambda>(i, ts). sum_list (map nat ts))")
  fix i j and ts ts' :: "int list"
  assume a: "j = Suc i mod length ts" "ts' = ts[j := counted (ts ! j)]" "ts \<noteq> [] \<and> counted (ts ! j) > 0"
  then have j: "j < length ts" "ts ! j > 0" by (auto simp: counted_def split: if_splits)
  have "map nat ts' = (map nat ts)[j := nat (ts ! j) - 1]"
    using a(2) j by (simp add: map_update counted_def nat_diff_distrib)
  moreover have "nat (ts ! j) \<le> sum_list (map nat ts)" using j by (intro member_le_sum_list) auto
  ultimately show "((j, ts'), i, ts) \<in> measure (\<lambda>(i, ts). sum_list (map nat ts))"
    using j by (simp add: sum_list_update)
qed simp

declare pick.simps [simp del]

lemma pick_step:
  "ts \<noteq> [] \<Longrightarrow> pick i ts = (let j = Suc i mod length ts in
     if counted (ts ! j) > 0 then pick j (ts[j := counted (ts ! j)]) else (j, ts[j := counted (ts ! j)]))"
  by (subst pick.simps) (simp add: Let_def)

lemma pick_bounds: "ts \<noteq> [] \<Longrightarrow> pick i ts = (k, us) \<Longrightarrow> k < length ts \<and> length us = length ts \<and> us ! k \<le> 0"
proof (induction i ts arbitrary: k us rule: pick.induct)
  case (1 i ts)
  let ?j = "Suc i mod length ts"
  have j: "?j < length ts" using 1(2) by simp
  show ?case
  proof (cases "counted (ts ! ?j) > 0")
    case True
    then have "pick ?j (ts[?j := counted (ts ! ?j)]) = (k, us)" using 1(2,3) pick_step [of ts i] by (simp add: Let_def)
    from 1(1) [OF refl refl _ _ this] 1(2) True show ?thesis by simp
  next
    case False
    then show ?thesis using 1(2,3) pick_step [of ts i] j by (auto simp: Let_def)
  qed
qed

text \<open>How many steps round a ring of \<open>n\<close> lead from \<open>i\<close> to \<open>k\<close>, at least one.\<close>

definition ring_dist :: "nat \<Rightarrow> nat \<Rightarrow> nat \<Rightarrow> nat" where
  "ring_dist n i k = (if i < k then k - i else k + n - i)"

lemma pick_fair:
  assumes "ts \<noteq> []" "i < length ts" "p < length ts" "ts ! p \<le> 0" "pick i ts = (k, us)"
  shows "ring_dist (length ts) i k \<le> ring_dist (length ts) i p"
  using assms
proof (induction i ts arbitrary: k us rule: pick.induct)
  case (1 i ts)
  let ?j = "Suc i mod length ts"
  have j: "?j < length ts" "?j = (if Suc i < length ts then Suc i else 0)"
    using 1(2,3) by (auto simp: Suc_lessI mod_Suc)
  show ?case
  proof (cases "counted (ts ! ?j) > 0")
    case True
    then have r: "pick ?j (ts[?j := counted (ts ! ?j)]) = (k, us)" using 1(2,6) pick_step [of ts i] by (simp add: Let_def)
    have jp: "?j \<noteq> p" using True 1(5) by (auto simp: counted_def split: if_splits)
    have IH: "ring_dist (length ts) ?j k \<le> ring_dist (length ts) ?j p"
      using 1(1) [OF refl refl _ _ _ _ _ r] 1(2,4,5) True j(1) jp by simp
    have k: "k < length ts" using pick_bounds [OF _ r] 1(2) by simp
    show ?thesis using IH jp 1(3,4) k j(2) by (auto simp: ring_dist_def split: if_splits)
  next
    case False
    then have "k = ?j" using 1(2,6) pick_step [of ts i] by (simp add: Let_def)
    then show ?thesis using j(2) 1(3,4) by (auto simp: ring_dist_def split: if_splits)
  qed
qed

lemma pick_next_awake: "ts \<noteq> [] \<Longrightarrow> ts ! (Suc i mod length ts) \<le> 0 \<Longrightarrow> pick i ts = (Suc i mod length ts, ts)"
  by (subst pick_step) (auto simp: counted_def)

section \<open>The ring in memory\<close>

text \<open>
  The process list of the kernel: distinct live blocks of the 128-byte class, chained by their
  \<^verbatim>\<open>next\<close> fields from \<^verbatim>\<open>process_lists\<close> on, with their sleep times.
\<close>

definition process_ring :: "nat set \<Rightarrow> (heap_id \<Rightarrow> u32 list) \<Rightarrow> u32 list \<Rightarrow> int list \<Rightarrow> machine \<Rightarrow> bool" where
  "process_ring V fl ps ts m \<longleftrightarrow> heap_inv UNIV V fl (kern m) \<and> ps \<noteq> [] \<and> distinct ps
     \<and> set ps \<subseteq> allocated V fl Heap_128 \<and> length ts = length ps \<and> process_lists m = hd ps
     \<and> (\<forall>i<length ps. peek load32 (kern m) (ps ! i + PCB_next) = (if Suc i < length ps then ps ! Suc i else 0)
          \<and> sint (peek load32 (kern m) (ps ! i + PCB_sleep_time)) = ts ! i)"

text \<open>A run of the scheduler changes sleep times only.\<close>

definition scheduled :: "nat set \<Rightarrow> u32 list \<Rightarrow> machine \<Rightarrow> machine \<Rightarrow> bool" where
  "scheduled V ps m m' \<longleftrightarrow> m' = m\<lparr>kern := kern m', next_process := next_process m'\<rparr>
     \<and> (kern m')\<lparr>mem := mem (kern m)\<rparr> = kern m
     \<and> (\<forall>a\<in>data_addrs V. a \<notin> (\<lambda>p. p + PCB_sleep_time) ` set ps \<longrightarrow> peek load32 (kern m') a = peek load32 (kern m) a)"

lemma scheduled_refl: "scheduled V ps m m"
  by (simp add: scheduled_def)

lemma scheduled_trans:
  assumes "scheduled V ps m m'" "scheduled V ps m' m''"
  shows "scheduled V ps m m''"
proof -
  have e1: "m' = m\<lparr>kern := kern m', next_process := next_process m'\<rparr>" using assms(1) by (simp only: scheduled_def)
  have e2: "m'' = m'\<lparr>kern := kern m'', next_process := next_process m''\<rparr>" using assms(2) by (simp only: scheduled_def)
  have upd: "m\<lparr>kern := a, next_process := b, kern := c, next_process := d\<rparr> = m\<lparr>kern := c, next_process := d\<rparr>" for a b c d
    by simp
  have 1: "m'' = m\<lparr>kern := kern m'', next_process := next_process m''\<rparr>"
    by (rule e2 [THEN trans]) (subst e1, rule upd)
  have "(kern m'')\<lparr>mem := mem (kern m)\<rparr> = ((kern m'')\<lparr>mem := mem (kern m')\<rparr>)\<lparr>mem := mem (kern m)\<rparr>" by simp
  also have "\<dots> = kern m" using assms by (simp add: scheduled_def)
  finally show ?thesis using 1 assms unfolding scheduled_def by auto
qed

lemma pcb_word:
  assumes p: "p \<in> blocks V Heap_128" and k: "k < 32"
  shows "p + 4 * of_nat k \<in> block_words Heap_128 p" "unat (p + 4 * of_nat k) = unat p + 4 * k"
proof -
  have b: "unat (bsize Heap_128) = 128" by (simp add: bsize_def)
  have "128 dvd unat p" using p b by (auto simp: blocks_def)
  then obtain q where q: "unat p = 128 * q" by auto
  then have "q < 33554432" using u32_bound [of p] by simp
  then have "unat p + 4 * k < 4294967296" using q k by simp
  moreover have "unat (4 * of_nat k :: u32) = 4 * k" using k by (simp add: unat_word_ariths unat_of_nat)
  ultimately show u: "unat (p + 4 * of_nat k) = unat p + 4 * k" by (simp add: unat_word_ariths)
  show "p + 4 * of_nat k \<in> block_words Heap_128 p"
    using k q by (auto simp: block_words_def u b word_aligned_iff)
qed

lemma pcb_offsets:
  "PCB_saved_esp = 4 * of_nat 0" "PCB_page_dir = 4 * of_nat 1" "PCB_sleep_time = 4 * of_nat 21"
  "PCB_kernel_stack_top = 4 * of_nat 22" "PCB_next = 4 * of_nat 23"
  by (simp_all add: PCB_saved_esp_def PCB_page_dir_def PCB_sleep_time_def PCB_kernel_stack_top_def PCB_next_def)

lemma pcb_apart:
  assumes "p \<in> blocks V Heap_128" "q \<in> blocks V Heap_128" "j < 32" "k < 32"
  shows "p + 4 * of_nat j = q + 4 * of_nat k \<longleftrightarrow> p = q \<and> j = k"
proof
  assume e: "p + 4 * of_nat j = q + 4 * of_nat k"
  then have "p = q" using block_words_disjoint [OF assms(1,2) _ pcb_word(1) [OF assms(1,3)] pcb_word(1) [OF assms(2,4)]] by blast
  moreover from this e have "unat p + 4 * j = unat p + 4 * k" using pcb_word(2) [OF assms(1,3)] pcb_word(2) [OF assms(2,4)] by metis
  ultimately show "p = q \<and> j = k" by simp
qed simp

lemma ringD:
  assumes "process_ring V fl ps ts m"
  shows "heap_inv UNIV V fl (kern m)" "mem_only_ok UNIV V (kern m) (kern m)" "ps \<noteq> []" "distinct ps" "length ts = length ps" "process_lists m = hd ps"
    and "i < length ps \<Longrightarrow> ps ! i \<in> allocated V fl Heap_128" "i < length ps \<Longrightarrow> ps ! i \<in> blocks V Heap_128"
    and "i < length ps \<Longrightarrow> ps ! i \<noteq> 0"
    and "i < length ps \<Longrightarrow> peek load32 (kern m) (ps ! i + PCB_next) = (if Suc i < length ps then ps ! Suc i else 0)"
    and "i < length ps \<Longrightarrow> sint (peek load32 (kern m) (ps ! i + PCB_sleep_time)) = ts ! i"
proof -
  note r = assms [unfolded process_ring_def]
  show inv: "heap_inv UNIV V fl (kern m)" using r by simp
  show "mem_only_ok UNIV V (kern m) (kern m)" using heap_invD(1) [OF inv] by simp
  show al: "i < length ps \<Longrightarrow> ps ! i \<in> allocated V fl Heap_128" for i using r nth_mem by blast
  then show b: "i < length ps \<Longrightarrow> ps ! i \<in> blocks V Heap_128" for i by (auto simp: allocated_def)
  then show "i < length ps \<Longrightarrow> ps ! i \<noteq> 0" for i using blocks_nonzero by blast
qed (use assms in \<open>auto simp: process_ring_def\<close>)

lemma pcb_load:
  assumes "process_ring V fl ps ts m" "i < length ps" "k < 32"
  shows "mload (ps ! i + 4 * of_nat k) m = Inr (peek load32 (kern m) (ps ! i + 4 * of_nat k), m)"
    "ps ! i + 4 * of_nat k \<in> data_addrs V"
proof -
  note b = ringD(8) [OF assms(1,2)]
  show a: "ps ! i + 4 * of_nat k \<in> data_addrs V" by (rule block_words_addr [OF b pcb_word(1) [OF b assms(3)]])
  from data.rd_peek [OF ringD(2) [OF assms(1)] a]
  show "mload (ps ! i + 4 * of_nat k) m = Inr (peek load32 (kern m) (ps ! i + 4 * of_nat k), m)"
    by (simp add: mload_def)
qed

lemma sint_pred: "0 < sint (w :: u32) \<Longrightarrow> sint (w - 1) = sint w - 1"
  using sint_lt [of w] by (simp add: sint_word_ariths signed_take_bit_int_eq_self)

lemma ring_next [simp]:
  "process_ring V fl ps ts (m\<lparr>next_process := x\<rparr>) = process_ring V fl ps ts m"
  by (simp add: process_ring_def)

text \<open>A store to the sleep time of a process of the ring.\<close>

lemma ring_store_sleep:
  assumes r: "process_ring V fl ps ts m" and j: "j < length ps"
  shows "\<exists>m'. mstore (ps ! j + PCB_sleep_time) w m = Inr ((), m') \<and> process_ring V fl ps (ts[j := sint w]) m'
    \<and> scheduled V ps m m' \<and> next_process m' = next_process m"
proof -
  note D = ringD [OF r]
  let ?a = "ps ! j + PCB_sleep_time"
  have al: "ps ! j \<in> allocated V fl Heap_128" and b: "ps ! j \<in> blocks V Heap_128" using D(7,8) j by blast+
  have aw: "?a \<in> block_words Heap_128 (ps ! j)" unfolding pcb_offsets by (rule pcb_word(1) [OF b]) simp
  have ad: "?a \<in> data_addrs V" by (rule block_words_addr [OF b aw])
  from data.wr_peek [OF D(2) ad, of w] obtain t where t: "store32 ?a w (kern m) = Inr ((), t)" "mem_only_ok UNIV V (kern m) t"
    "\<And>b. b \<in> data_addrs V \<Longrightarrow> peek load32 t b = (if b = ?a then w else peek load32 (kern m) b)" by blast
  let ?m = "m\<lparr>kern := t\<rparr>"
  have run: "mstore ?a w m = Inr ((), ?m)" using t(1) by (simp add: mstore_def)
  have inv: "heap_inv UNIV V fl t" by (rule client_write_inv [OF D(1) al aw t(1)])
  have pk: "peek load32 t (ps ! i + 4 * of_nat k) = (if i = j \<and> k = 21 then w else peek load32 (kern m) (ps ! i + 4 * of_nat k))"
    if "i < length ps" "k < 32" for i k
  proof -
    have "ps ! i + 4 * of_nat k = ?a \<longleftrightarrow> i = j \<and> k = 21"
      unfolding pcb_offsets using pcb_apart [OF D(8) [OF that(1)] b that(2), of 21] nth_eq_iff_index_eq [OF D(4) that(1) j] by simp
    then show ?thesis using t(3) [OF pcb_load(2) [OF r that]] by simp
  qed
  have "process_ring V fl ps (ts[j := sint w]) ?m"
    unfolding process_ring_def
  proof (intro conjI allI impI)
    fix i assume i: "i < length ps"
    show "peek load32 (kern ?m) (ps ! i + PCB_next) = (if Suc i < length ps then ps ! Suc i else 0)"
      using pk [OF i, of 23] D(10) [OF i] unfolding pcb_offsets by simp
    show "sint (peek load32 (kern ?m) (ps ! i + PCB_sleep_time)) = ts[j := sint w] ! i"
      using pk [OF i, of 21] D(11) [OF i] D(5) i j unfolding pcb_offsets by (simp add: nth_list_update)
  qed (use r inv in \<open>auto simp: process_ring_def\<close>)
  moreover have "scheduled V ps m ?m"
    using t(2,3) j by (auto simp: scheduled_def)
  ultimately show ?thesis using run by auto
qed

lemma schedule_step_run:
  assumes r: "process_ring V fl ps ts m" and i: "i < length ps"
  defines "j \<equiv> Suc i mod length ps"
  shows "\<exists>m'. schedule_step (ps ! i) m = Inr (ps ! j, m') \<and> process_ring V fl ps (ts[j := counted (ts ! j)]) m'
    \<and> scheduled V ps m m' \<and> next_process m' = ps ! j"
proof -
  note D = ringD [OF r]
  have j: "j < length ps" using D(3) by (simp add: j_def)
  have jv: "ps ! j = (if Suc i < length ps then ps ! Suc i else process_lists m)"
    using i D(3,6) by (auto simp: j_def Suc_lessI mod_Suc hd_conv_nth)
  let ?m = "m\<lparr>next_process := ps ! j\<rparr>"
  have r1: "process_ring V fl ps ts ?m" using r by simp
  have nx: "mload (ps ! i + PCB_next) m = Inr (if Suc i < length ps then ps ! Suc i else 0, m)"
    using pcb_load(1) [OF r i, of 23] D(10) [OF i] unfolding pcb_offsets by simp
  have sl: "mload (ps ! j + PCB_sleep_time) ?m = Inr (peek load32 (kern m) (ps ! j + PCB_sleep_time), ?m)"
    using pcb_load(1) [OF r1 j, of 21] unfolding pcb_offsets by simp
  let ?w = "peek load32 (kern m) (ps ! j + PCB_sleep_time)"
  have w: "sint ?w = ts ! j" by (rule D(11) [OF j])
  have nz: "Suc i < length ps \<Longrightarrow> ps ! Suc i \<noteq> 0" using D(9) by blast
  have run: "schedule_step (ps ! i) m =
      bnd (if sint ?w > 0 then mstore (ps ! j + PCB_sleep_time) (?w - 1) else ret ()) (\<lambda>_. ret (ps ! j)) ?m"
  proof (cases "Suc i < length ps")
    case True
    then have "mload (ps ! i + PCB_next) m = Inr (ps ! j, m)" "ps ! j \<noteq> 0" using nx nz jv by simp_all
    then show ?thesis using sl by (simp add: schedule_step_def)
  next
    case False
    then have "mload (ps ! i + PCB_next) m = Inr (0, m)" "process_lists m = ps ! j" using nx jv by simp_all
    then show ?thesis using sl by (simp add: schedule_step_def)
  qed
  have s1: "scheduled V ps m ?m" by (simp add: scheduled_def)
  show ?thesis
  proof (cases "ts ! j > 0")
    case True
    from ring_store_sleep [OF r1 j, of "?w - 1"] obtain m' where
      m': "mstore (ps ! j + PCB_sleep_time) (?w - 1) ?m = Inr ((), m')" "process_ring V fl ps (ts[j := sint (?w - 1)]) m'"
        "scheduled V ps ?m m'" "next_process m' = ps ! j" by auto
    have "sint (?w - 1) = counted (ts ! j)" using sint_pred [of ?w] w True by (simp add: counted_def)
    then show ?thesis using run m' w True scheduled_trans [OF s1 m'(3)] by auto
  next
    case False
    then show ?thesis using run w r1 s1 by (auto simp: counted_def)
  qed
qed

lemma still_sleeping_run:
  assumes r: "process_ring V fl ps ts m" and i: "i < length ps"
  shows "still_sleeping (ps ! i) m = Inr (ts ! i > 0, m)"
  using pcb_load(1) [OF r i, of 21] ringD(11) [OF r i] by (simp add: still_sleeping_def pcb_offsets)

text \<open>The loop of the scheduler is the abstract scheduler.\<close>

lemma schedule_loop:
  assumes "process_ring V fl ps ts m" "i < length ps" "pick i ts = (k, us)"
  shows "\<exists>m'. bnd (schedule_step (ps ! i)) (loop still_sleeping schedule_step) m = Inr (ps ! k, m')
    \<and> process_ring V fl ps us m' \<and> scheduled V ps m m' \<and> next_process m' = ps ! k"
  using assms
proof (induction i ts arbitrary: m rule: pick.induct)
  case (1 i ts)
  note D = ringD [OF 1(2)]
  let ?j = "Suc i mod length ps" and ?ts = "ts[Suc i mod length ps := counted (ts ! (Suc i mod length ps))]"
  have len: "length ts = length ps" "ts \<noteq> []" using D(3,5) by auto
  have j: "?j < length ps" using D(3) by simp
  from schedule_step_run [OF 1(2,3)] obtain m1 where
    m1: "schedule_step (ps ! i) m = Inr (ps ! ?j, m1)" "process_ring V fl ps ?ts m1" "scheduled V ps m m1" "next_process m1 = ps ! ?j" by blast
  have test: "still_sleeping (ps ! ?j) m1 = Inr (counted (ts ! ?j) > 0, m1)"
    using still_sleeping_run [OF m1(2) j] j len by simp
  show ?case
  proof (cases "counted (ts ! ?j) > 0")
    case True
    then have pk: "pick ?j ?ts = (k, us)" using 1(4) pick_step [OF len(2), of i] len by (simp add: Let_def)
    from 1(1) [OF refl refl _ _ _, unfolded len, OF _ m1(2) j pk] True len obtain m' where
      m': "bnd (schedule_step (ps ! ?j)) (loop still_sleeping schedule_step) m1 = Inr (ps ! k, m')"
        "process_ring V fl ps us m'" "scheduled V ps m1 m'" "next_process m' = ps ! k" by blast
    have "loop still_sleeping schedule_step (ps ! ?j) m1 = bnd (schedule_step (ps ! ?j)) (loop still_sleeping schedule_step) m1"
      using test True by (subst loop_bnd) simp
    then show ?thesis using m' m1 scheduled_trans [OF m1(3) m'(3)] by auto
  next
    case False
    then have "k = ?j" "us = ?ts" using 1(4) pick_step [OF len(2), of i] len by (auto simp: Let_def)
    moreover have "loop still_sleeping schedule_step (ps ! ?j) m1 = Inr (ps ! ?j, m1)"
      using test False by (intro loop_done) simp
    ultimately show ?thesis using m1 by auto
  qed
qed

lemma schedule_run:
  assumes r: "process_ring V fl ps ts m" and i: "i < length ps" "current_process m = ps ! i" and p: "pick i ts = (k, us)"
  shows "\<exists>m'. schedule m = Inr ((), m') \<and> k < length ps \<and> process_ring V fl ps us m' \<and> next_process m' = ps ! k
    \<and> scheduled V ps (m\<lparr>tss := (tss m)\<lparr>esp0 := peek load32 (kern m) (ps ! k + PCB_kernel_stack_top)\<rparr>\<rparr>) m'"
proof -
  from schedule_loop [OF r i(1) p] obtain m1 where
    m1: "bnd (schedule_step (ps ! i)) (loop still_sleeping schedule_step) m = Inr (ps ! k, m1)"
      "process_ring V fl ps us m1" "scheduled V ps m m1" "next_process m1 = ps ! k" by blast
  note D = ringD [OF r]
  have k: "k < length ps" using pick_bounds [OF _ p] D(3,5) by fastforce
  let ?st = "peek load32 (kern m) (ps ! k + PCB_kernel_stack_top)"
  have "ps ! k + 4 * of_nat 22 \<notin> (\<lambda>p. p + PCB_sleep_time) ` set ps"
  proof
    assume "ps ! k + 4 * of_nat 22 \<in> (\<lambda>p. p + PCB_sleep_time) ` set ps"
    then obtain i where "i < length ps" "ps ! k + 4 * of_nat 22 = ps ! i + 4 * of_nat 21"
      unfolding pcb_offsets by (auto simp: in_set_conv_nth)
    then show False using pcb_apart [OF D(8) [OF k] D(8), of i 22 21] by simp
  qed
  then have "peek load32 (kern m1) (ps ! k + PCB_kernel_stack_top) = ?st"
    using m1(3) pcb_load(2) [OF r k, of 22] unfolding scheduled_def pcb_offsets by simp
  then have ld: "mload (ps ! k + PCB_kernel_stack_top) m1 = Inr (?st, m1)"
    using pcb_load(1) [OF m1(2) k, of 22] unfolding pcb_offsets by simp
  have e: "m1 = m\<lparr>kern := kern m1, next_process := next_process m1\<rparr>" using m1(3) by (simp only: scheduled_def)
  have tm: "tss m1 = tss m" by (subst e) simp
  have "schedule m = bnd (bnd (schedule_step (ps ! i)) (loop still_sleeping schedule_step))
      (\<lambda>sim. bnd (mload (sim + PCB_kernel_stack_top)) tss_set_kernel_stack) m"
    using i(2) by (simp add: schedule_def bnd_assoc)
  also have "\<dots> = Inr ((), m1\<lparr>tss := (tss m)\<lparr>esp0 := ?st\<rparr>\<rparr>)"
    using m1(1) ld by (simp add: tss_set_kernel_stack_def tm)
  finally have run: "schedule m = Inr ((), m1\<lparr>tss := (tss m)\<lparr>esp0 := ?st\<rparr>\<rparr>)" .
  have "m1\<lparr>tss := (tss m)\<lparr>esp0 := ?st\<rparr>\<rparr> =
      m\<lparr>tss := (tss m)\<lparr>esp0 := ?st\<rparr>, kern := kern m1, next_process := next_process m1\<rparr>"
    by (subst e) simp
  then have "scheduled V ps (m\<lparr>tss := (tss m)\<lparr>esp0 := ?st\<rparr>\<rparr>) (m1\<lparr>tss := (tss m)\<lparr>esp0 := ?st\<rparr>\<rparr>)"
    using m1(3) unfolding scheduled_def by simp
  moreover have "process_ring V fl ps us (m1\<lparr>tss := (tss m)\<lparr>esp0 := ?st\<rparr>\<rparr>)"
    using m1(2) by (simp add: process_ring_def)
  ultimately show ?thesis using run k m1(4) by auto
qed

section \<open>Two processes to try the scheduler on\<close>

lemma two_pcbs:
  "\<exists>fl s p q. heap_inv UNIV premapped fl s \<and> p \<noteq> q \<and> {p, q} \<subseteq> allocated premapped fl Heap_128 \<and> free_low s \<noteq> {}"
proof -
  from boot_heap_inv obtain fl where fl: "heap_inv UNIV premapped fl boot_heap" "set (fl Heap_128) = blocks premapped Heap_128"
    "255736 \<le> card (free_low boot_heap)" by blast
  have "0x20000 \<in> premapped" unfolding premapped_def by (rule CollectI, rule exI [of _ Heap_128]) (simp add: region_base_def)
  then have two: "{0x20000000, 0x20000080} \<subseteq> set (fl Heap_128)"
    unfolding fl(2) by (simp add: blocks_def in_region_def region_base_def bsize_def frame_of_def)
  have "card {0x20000000, 0x20000080 :: u32} = 2" by simp
  then have "2 \<le> length (fl Heap_128)" using card_mono [OF _ two] card_length [of "fl Heap_128"] by simp
  then obtain x y zs where x: "fl Heap_128 = x # y # zs" by (auto simp: Suc_le_length_iff numeral_2_eq_2)
  note a1 = alloc_fast_spec [OF fl(1) x]
  let ?s1 = "pop_block Heap_128 (peek load32 boot_heap x) boot_heap" and ?fl1 = "fl(Heap_128 := y # zs)"
  have i1: "heap_inv UNIV premapped ?fl1 ?s1" using a1 by (simp add: alloc_spec_def)
  have "?fl1 Heap_128 = y # zs" by simp
  note a2 = alloc_fast_spec [OF i1 this]
  let ?s2 = "pop_block Heap_128 (peek load32 ?s1 y) ?s1" and ?fl2 = "?fl1(Heap_128 := zs)"
  have x1: "x \<in> allocated premapped ?fl1 Heap_128" using a1 by (simp add: alloc_spec_def)
  have y2: "heap_inv UNIV premapped ?fl2 ?s2" "y \<notin> allocated premapped ?fl1 Heap_128"
    "allocated premapped ?fl2 Heap_128 = insert y (allocated premapped ?fl1 Heap_128)"
    using a2 unfolding alloc_spec_def by blast+
  have "x \<noteq> y" "{x, y} \<subseteq> allocated premapped ?fl2 Heap_128" using x1 y2(2,3) by auto
  moreover have "free_low ?s2 = free_low boot_heap"
    by (simp add: pop_block_def free_low_def safe_frame_def heap_start_def kernel_page_tables_base_def kernel_page_table_def)
  then have "free_low ?s2 \<noteq> {}" using fl(3) by auto
  ultimately show ?thesis using y2(1) by blast
qed

lemma write_word:
  assumes "heap_inv UNIV V fl s" "p \<in> allocated V fl Heap_128" "k < 32"
  shows "\<exists>t. heap_inv UNIV V fl t \<and> (\<forall>b\<in>data_addrs V. peek load32 t b = (if b = p + 4 * of_nat k then w else peek load32 s b))"
proof -
  have b: "p \<in> blocks V Heap_128" using assms(2) by (simp add: allocated_def)
  note aw = pcb_word(1) [OF b assms(3)]
  have ok: "mem_only_ok UNIV V s s" using heap_invD(1) [OF assms(1)] by simp
  from data.wr_peek [OF ok block_words_addr [OF b aw], of w] obtain t where
    t: "store32 (p + 4 * of_nat k) w s = Inr ((), t)"
      "\<And>c. c \<in> data_addrs V \<Longrightarrow> peek load32 t c = (if c = p + 4 * of_nat k then w else peek load32 s c)" by blast
  show ?thesis using client_write_inv [OF assms(1,2) aw t(1)] t(2) by blast
qed

text \<open>A ring of two processes, the second asleep for two ticks.\<close>

lemma demo_ring:
  "\<exists>fl p q m. process_ring premapped fl [p, q] [0, 2] m \<and> current_process m = p \<and> p \<noteq> q \<and> blink_counter m = 0 \<and> trace m = []"
proof -
  from two_pcbs obtain fl s p q where
    i0: "heap_inv UNIV premapped fl s" and pq: "p \<noteq> q" and al: "p \<in> allocated premapped fl Heap_128" "q \<in> allocated premapped fl Heap_128"
    by auto
  have b: "p \<in> blocks premapped Heap_128" "q \<in> blocks premapped Heap_128" using al by (auto simp: allocated_def)
  have ad: "x + 4 * of_nat k \<in> data_addrs premapped" if "x \<in> {p, q}" "k < 32" for x k
    using that b block_words_addr [OF _ pcb_word(1) [OF _ that(2)]] by blast
  have k: "23 < (32::nat)" "21 < (32::nat)" by simp_all
  from write_word [OF i0 al(1) k(1), of q] obtain s1 where s1: "heap_inv UNIV premapped fl s1"
    "\<And>c. c \<in> data_addrs premapped \<Longrightarrow> peek load32 s1 c = (if c = p + 4 * of_nat 23 then q else peek load32 s c)" by blast
  from write_word [OF s1(1) al(2) k(1), of 0] obtain s2 where s2: "heap_inv UNIV premapped fl s2"
    "\<And>c. c \<in> data_addrs premapped \<Longrightarrow> peek load32 s2 c = (if c = q + 4 * of_nat 23 then 0 else peek load32 s1 c)" by blast
  from write_word [OF s2(1) al(1) k(2), of 0] obtain s3 where s3: "heap_inv UNIV premapped fl s3"
    "\<And>c. c \<in> data_addrs premapped \<Longrightarrow> peek load32 s3 c = (if c = p + 4 * of_nat 21 then 0 else peek load32 s2 c)" by blast
  from write_word [OF s3(1) al(2) k(2), of 2] obtain s4 where s4: "heap_inv UNIV premapped fl s4"
    "\<And>c. c \<in> data_addrs premapped \<Longrightarrow> peek load32 s4 c = (if c = q + 4 * of_nat 21 then 2 else peek load32 s3 c)" by blast
  have ne: "x + 4 * of_nat i = y + 4 * of_nat j \<longleftrightarrow> x = y \<and> i = j" if "x \<in> {p, q}" "y \<in> {p, q}" "i < 32" "j < 32" for x y i j
    using that b pcb_apart by blast
  have n: "p + 4 * of_nat i = q + 4 * of_nat j \<longleftrightarrow> False" "q + 4 * of_nat i = p + 4 * of_nat j \<longleftrightarrow> False"
    "p + 4 * of_nat i = p + 4 * of_nat j \<longleftrightarrow> i = j" "q + 4 * of_nat i = q + 4 * of_nat j \<longleftrightarrow> i = j"
    if "i < 32" "j < 32" for i j
    using ne [of p q i j] ne [of q p i j] ne [of p p i j] ne [of q q i j] that pq by simp_all
  have v: "peek load32 s4 (p + 4 * of_nat 23) = q" "peek load32 s4 (q + 4 * of_nat 23) = 0"
    "peek load32 s4 (p + 4 * of_nat 21) = 0" "peek load32 s4 (q + 4 * of_nat 21) = 2"
    using n [of 23 21] n [of 21 23] n [of 23 23] n [of 21 21] ad [of p 23] ad [of p 21] ad [of q 23] ad [of q 21]
    by (simp_all only: s1(2) s2(2) s3(2) s4(2) k if_True if_False insert_iff simp_thms) simp_all
  let ?m = "demo_machine\<lparr>kern := s4, process_lists := p, current_process := p, trace := []\<rparr>"
  have "process_ring premapped fl [p, q] [0, 2] ?m"
    unfolding process_ring_def
  proof (intro conjI allI impI)
    fix i assume "i < length [p, q]"
    then have i: "i = 0 \<or> i = 1" by auto
    show "peek load32 (kern ?m) ([p, q] ! i + PCB_next) = (if Suc i < length [p, q] then [p, q] ! Suc i else 0)"
      using i v(1,2) unfolding pcb_offsets by auto
    show "sint (peek load32 (kern ?m) ([p, q] ! i + PCB_sleep_time)) = [0, 2] ! i"
      using i v(3,4) unfolding pcb_offsets by auto
  qed (use s4(1) pq al in auto)
  then show ?thesis using pq by (intro exI [of _ fl] exI [of _ p] exI [of _ q] exI [of _ ?m]) (simp add: demo_machine_def)
qed

section \<open>Properties\<close>

text \<open>
  C16: \<^verbatim>\<open>schedule\<close> ends, and it is the abstract round robin: on a process list in live blocks of
  the heap it makes the process that \<open>pick\<close> chooses the next one, with the sleep times \<open>pick\<close>
  computes and that process's kernel stack in the task state segment, and changes nothing else.
\<close>

theorem schedule_refines:
  assumes "process_ring V fl ps ts m" "i < length ps" "current_process m = ps ! i" "pick i ts = (k, us)"
  shows "\<exists>m'. schedule m = Inr ((), m') \<and> process_ring V fl ps us m' \<and> next_process m' = ps ! k
    \<and> esp0 (tss m') = peek load32 (kern m) (ps ! k + PCB_kernel_stack_top)
    \<and> current_process m' = current_process m \<and> process_lists m' = process_lists m \<and> trace m' = trace m
    \<and> (kern m')\<lparr>mem := mem (kern m)\<rparr> = kern m
    \<and> (\<forall>a\<in>data_addrs V. a \<notin> (\<lambda>p. p + PCB_sleep_time) ` set ps \<longrightarrow> peek load32 (kern m') a = peek load32 (kern m) a)"
proof -
  from schedule_run [OF assms] obtain m' where m': "schedule m = Inr ((), m')" "process_ring V fl ps us m'" "next_process m' = ps ! k"
    "scheduled V ps (m\<lparr>tss := (tss m)\<lparr>esp0 := peek load32 (kern m) (ps ! k + PCB_kernel_stack_top)\<rparr>\<rparr>) m'" by blast
  have e: "m' = m\<lparr>tss := (tss m)\<lparr>esp0 := peek load32 (kern m) (ps ! k + PCB_kernel_stack_top)\<rparr>,
      kern := kern m', next_process := next_process m'\<rparr>" using m'(4) by (simp only: scheduled_def)
  have "esp0 (tss m') = peek load32 (kern m) (ps ! k + PCB_kernel_stack_top)" "current_process m' = current_process m"
    "process_lists m' = process_lists m" "trace m' = trace m" by (subst e, simp)+
  then show ?thesis using m' by (simp add: scheduled_def)
qed


text \<open>
  C23: The scheduler is fair: the process it chooses is awake, and it never passes over a process that was
  awake before; if all are awake, each gets its turn in the order of the list.
\<close>

theorem schedule_fair:
  assumes "process_ring V fl ps ts m" "i < length ps" "current_process m = ps ! i"
  shows "\<exists>m' k us. schedule m = Inr ((), m') \<and> k < length ps \<and> next_process m' = ps ! k \<and> process_ring V fl ps us m' \<and> us ! k \<le> 0
    \<and> (\<forall>p<length ps. ts ! p \<le> 0 \<longrightarrow> ring_dist (length ps) i k \<le> ring_dist (length ps) i p)
    \<and> (ts ! (Suc i mod length ps) \<le> 0 \<longrightarrow> k = Suc i mod length ps \<and> us = ts)"
proof -
  obtain k us where p: "pick i ts = (k, us)" by fastforce
  note D = ringD [OF assms(1)]
  have ne: "ts \<noteq> []" using D(3,5) by auto
  note b = pick_bounds [OF ne p]
  from schedule_run [OF assms p] obtain m' where
    m': "schedule m = Inr ((), m')" "process_ring V fl ps us m'" "next_process m' = ps ! k" by blast
  have "ring_dist (length ps) i k \<le> ring_dist (length ps) i p'" if "p' < length ps" "ts ! p' \<le> 0" for p'
    using pick_fair [OF ne _ _ that(2) p] that(1) assms(2) D(5) by simp
  moreover have "k = Suc i mod length ps \<and> us = ts" if "ts ! (Suc i mod length ps) \<le> 0"
    using pick_next_awake [OF ne, of i] that p D(5) by simp
  ultimately show ?thesis using m' b D(5) by (intro exI [of _ m'] exI [of _ k] exI [of _ us]) simp
qed

theorem schedule_refines_witness:
  "\<exists>fl p q m m'. p \<noteq> q \<and> current_process m = p \<and> process_ring premapped fl [p, q] [0, 2] m
    \<and> schedule m = Inr ((), m') \<and> next_process m' = p \<and> process_ring premapped fl [p, q] [0, 1] m'"
proof -
  from demo_ring obtain fl p q m where
    d: "process_ring premapped fl [p, q] [0, 2] m" "current_process m = p" "p \<noteq> q" by blast
  have "pick 0 [0, 2] = (0, [0, 1])" by (simp add: pick_step counted_def)
  from schedule_refines [OF d(1) _ _ this] d show ?thesis by fastforce
qed

theorem schedule_fair_witness:
  "\<exists>fl p q m m'. p \<noteq> q \<and> current_process m = p \<and> process_ring premapped fl [p, q] [0, 2] m
    \<and> schedule m = Inr ((), m') \<and> next_process m' \<in> {p, q}"
proof -
  from demo_ring obtain fl p q m where
    d: "process_ring premapped fl [p, q] [0, 2] m" "current_process m = p" "p \<noteq> q" by blast
  from schedule_fair [OF d(1), of 0] d(2) obtain m' k where
    "schedule m = Inr ((), m')" "k < length [p, q]" "next_process m' = [p, q] ! k" by auto
  moreover have "[p, q] ! k \<in> {p, q}" using \<open>k < length [p, q]\<close> by (cases k) auto
  ultimately show ?thesis using d by metis
qed

text \<open>
  C24: One timer interrupt: the blink counter stays below 50 (every fiftieth tick toggles the cursor's
  cell), the scheduler picks the next process, and the interrupt is acknowledged at the master
  controller, exactly once and last.
\<close>

theorem timer_tick:
  assumes "process_ring V fl ps ts m" "i < length ps" "current_process m = ps ! i" "pick i ts = (k, us)" "blink_counter m < 50"
  shows "\<exists>m'. timer_interrupt_handler m = Inr ((), m') \<and> process_ring V fl ps us m' \<and> next_process m' = ps ! k
    \<and> trace m' = Outb 0x20 0x20 # trace m \<and> blink_counter m' < 50
    \<and> (blink_counter m' = 0 \<longleftrightarrow> blink_counter m = 49)
    \<and> console (kern m') = (if blink_counter m = 49 then cursor_blinker (console (kern m)) else console (kern m))"
proof -
  let ?b = "blink_counter m"
  have c: "?b + 1 \<ge> 50 \<longleftrightarrow> ?b = 49" "?b \<noteq> 49 \<Longrightarrow> ?b + 1 < 50 \<and> ?b + 1 \<noteq> 0"
  proof -
    have u: "unat ?b < 50" using assms(5) by (simp add: word_less_nat_alt)
    then have v: "unat (?b + 1) = unat ?b + 1" by (simp add: unat_word_ariths)
    have e: "?b = 49 \<longleftrightarrow> unat ?b = 49" using u32_eqI [of ?b 49] by auto
    show "?b + 1 \<ge> 50 \<longleftrightarrow> ?b = 49" using u v e by (auto simp: word_le_nat_alt)
    show "?b \<noteq> 49 \<Longrightarrow> ?b + 1 < 50 \<and> ?b + 1 \<noteq> 0" using u v e by (auto simp: word_less_nat_alt)
  qed
  define m1 where "m1 = (if ?b = 49 then m\<lparr>kern := (kern m)\<lparr>console := cursor_blinker (console (kern m))\<rparr>, blink_counter := 0\<rparr>
    else m\<lparr>blink_counter := ?b + 1\<rparr>)"
  have pk: "peek load32 (kern m1) = peek load32 (kern m)" by (rule peek_cong) (simp_all add: m1_def)
  have r1: "process_ring V fl ps ts m1" using assms(1) pk by (simp add: process_ring_def m1_def)
  have c1: "current_process m1 = ps ! i" using assms(3) by (simp add: m1_def)
  from schedule_run [OF r1 assms(2) c1 assms(4)] obtain m2 where m2: "schedule m1 = Inr ((), m2)" "process_ring V fl ps us m2"
    "next_process m2 = ps ! k"
    "scheduled V ps (m1\<lparr>tss := (tss m1)\<lparr>esp0 := peek load32 (kern m1) (ps ! k + PCB_kernel_stack_top)\<rparr>\<rparr>) m2" by blast
  have e: "m2 = m1\<lparr>tss := (tss m1)\<lparr>esp0 := peek load32 (kern m1) (ps ! k + PCB_kernel_stack_top)\<rparr>,
      kern := kern m2, next_process := next_process m2\<rparr>" using m2(4) by (simp only: scheduled_def)
  have f2: "trace m2 = trace m" "blink_counter m2 = (if ?b = 49 then 0 else ?b + 1)" by (subst e, simp add: m1_def)+
  have "(kern m2)\<lparr>mem := mem (kern m1)\<rparr> = kern m1" using m2(4) by (simp add: scheduled_def)
  then have "console (kern m2) = console (kern m1)" by (metis kstate.update_convs(2) kstate.select_convs(1) kstate.surjective)
  then have cons: "console (kern m2) = (if ?b = 49 then cursor_blinker (console (kern m)) else console (kern m))" by (simp add: m1_def)
  have "timer_interrupt_handler m = bnd schedule (\<lambda>_. pic_send_eoi 0) m1"
    using c(1) by (simp add: timer_interrupt_handler_def m1_def)
  also have "\<dots> = Inr ((), m2\<lparr>trace := Outb 0x20 0x20 # trace m\<rparr>)"
    using m2(1) f2(1) by (simp add: pic_send_eoi_ports_def)
  finally have run: "timer_interrupt_handler m = Inr ((), m2\<lparr>trace := Outb 0x20 0x20 # trace m\<rparr>)" .
  have "process_ring V fl ps us (m2\<lparr>trace := Outb 0x20 0x20 # trace m\<rparr>)" using m2(2) by (simp add: process_ring_def)
  then show ?thesis using run m2(3) f2(2) cons c(2) by auto
qed

theorem timer_tick_witness:
  "\<exists>fl p q m m'. p \<noteq> q \<and> process_ring premapped fl [p, q] [0, 2] m \<and> timer_interrupt_handler m = Inr ((), m')
    \<and> next_process m' = p \<and> trace m' = [Outb 0x20 0x20] \<and> blink_counter m' < 50"
proof -
  from demo_ring obtain fl p q m where
    d: "process_ring premapped fl [p, q] [0, 2] m" "current_process m = p" "p \<noteq> q" "blink_counter m = 0" "trace m = []" by blast
  have "pick 0 [0, 2] = (0, [0, 1])" by (simp add: pick_step counted_def)
  from timer_tick [OF d(1) _ _ this] d show ?thesis by fastforce
qed

section \<open>Switching to a process\<close>

text \<open>
  The assembly of the timer interrupt (\<^verbatim>\<open>interrupt_stubs.s\<close>, \<^verbatim>\<open>isr_wrapper_32\<close>) between \<^verbatim>\<open>pusha\<close> and
  \<^verbatim>\<open>popa\<close>; the argument and the result are the stack pointer.
\<close>

definition switch_to :: "u32 \<Rightarrow> u32 mop" where
  "switch_to nxt =
     bnd (mload (nxt + PCB_page_dir)) (\<lambda>page_dir.
     bnd (kern_op (modify (\<lambda>s. s\<lparr>cr3 := page_dir - 0xC0000000\<rparr>))) (\<lambda>_.
     bnd (modify (\<lambda>m. m\<lparr>current_process := nxt\<rparr>)) (\<lambda>_.
     mload (nxt + PCB_saved_esp))))"

definition isr_wrapper_32 :: "u32 \<Rightarrow> u32 mop" where
  "isr_wrapper_32 esp =
     bnd timer_interrupt_handler (\<lambda>_.
     bnd (gets current_process) (\<lambda>current.
     bnd (gets next_process) (\<lambda>nxt.
     if current = nxt then ret esp
     else bnd (mstore (current + PCB_saved_esp) esp) (\<lambda>_. switch_to nxt))))"

lemma translate_entry:
  assumes "page_aligned pd"
  shows "translate m pd va =
     (let pde = entry m pd (frame_of va div 1024) in
      if pde AND 1 = 0 then None
      else if pde AND 0x80 \<noteq> 0 then Some ((pde AND 0xFFC00000) OR (va AND 0x3FFFFF))
      else let pte = m (page_of pde + 4 * (drop_bit 12 va AND 0x3FF)) in
        if pte AND 1 = 0 then None else Some (page_of pte OR (va AND 0xFFF)))"
  using assms by (simp add: translate_def entry_def slot_def dir_index_nat page_of_page_aligned)

lemma process_directory_run:
  assumes inv: "heap_inv UNIV V fl s" and ne: "free_low s \<noteq> {}"
  shows "\<exists>n u. n \<in> free_low s \<and> create_process_page_directory s = Inr (addr_of_frame n + 0xC0000000, u)
    \<and> dir_work UNIV V n (take_frame n s) u
    \<and> (\<forall>j<768. entry (mem u) (addr_of_frame n) j = 0)
    \<and> (\<forall>j. 768 \<le> j \<and> j < 1024 \<longrightarrow> entry (mem u) (addr_of_frame n) j = entry (mem u) (dir_of s KDir) j)"
proof -
  note vm = heap_invD(1) [OF inv]
  obtain n where n: "get_next_free_kernel_frame s = Inr (addr_of_frame n, take_frame n s)" "n \<in> free_low s"
    by (rule kernel_frames.alloc_frame [OF vm_invD(1) [OF vm] ne])
  let ?s1 = "take_frame n s" and ?dir = "addr_of_frame n + 0xC0000000"
  have v1: "vm_inv UNIV V ?s1" by (rule vm_inv_take [OF vm free_lowD(5) [OF n(2)]])
  have d1: "dir_of ?s1 = dir_of s" "kernel_page_dir ?s1 = kernel_page_dir s"
    using vm_frame_simps(1) [OF vm_frame_take, of n s] by (simp_all add: take_frame_def)
  from new_directory_run [OF v1 fresh_take [OF vm n(2)]] obtain t where
    t: "zero_entries ?dir 0 1024 ?s1 = Inr ((), t)" "dir_work UNIV V n ?s1 t"
      "\<forall>v. \<exists>u. copy_entries (kernel_page_dir ?s1) ?dir 768 256 (t\<lparr>console := v\<rparr>) = Inr ((), u)
      \<and> dir_work UNIV V n (?s1\<lparr>console := v\<rparr>) u \<and> (\<forall>j<768. entry (mem u) (addr_of_frame n) j = 0)
      \<and> (\<forall>j. 768 \<le> j \<and> j < 1024 \<longrightarrow> entry (mem u) (addr_of_frame n) j = entry (mem u) (dir_of ?s1 KDir) j)"
    by blast
  have mt: "t\<lparr>mem := mem ?s1\<rparr> = ?s1" using t(2) by (simp add: dir_work_def)
  have ct: "console t = console ?s1" "kernel_page_dir t = kernel_page_dir s"
    using vm_frame_simps(5,8) [OF vm_frame_mem_only [OF mt]] d1 by auto
  from t(3) [rule_format, of "console t"] obtain u where
    u: "copy_entries (kernel_page_dir s) ?dir 768 256 t = Inr ((), u)" "dir_work UNIV V n (?s1\<lparr>console := console t\<rparr>) u"
      "\<forall>j<768. entry (mem u) (addr_of_frame n) j = 0"
      "\<forall>j. 768 \<le> j \<and> j < 1024 \<longrightarrow> entry (mem u) (addr_of_frame n) j = entry (mem u) (dir_of s KDir) j"
    unfolding d1 by auto
  have "dir_work UNIV V n ?s1 u" using u(2) ct(1) by simp
  moreover have "create_process_page_directory s = Inr (?dir, u)"
    using n(1) t(1) ct(2) u(1) by (simp add: create_process_page_directory_def Let_def)
  ultimately show ?thesis using n(2) u(3,4) by (intro exI [of _ n] exI [of _ u]) simp
qed

text \<open>
  A process's own page directory shares the kernel's upper gigabyte and nothing else: the new directory lies in
  a frame that was free, every address from 3 GB up translates as the kernel's directory translates it, and every
  address below, hence every block of the heap, is unmapped.
\<close>

theorem process_directory:
  assumes inv: "heap_inv UNIV V fl s" and ne: "free_low s \<noteq> {}"
  shows "\<exists>dir s'. create_process_page_directory s = Inr (dir, s') \<and> frame_of (dir - 0xC0000000) \<in> free_low s
    \<and> (\<forall>va. frame_of va < 0xC0000 \<longrightarrow> translate (mem s') (dir - 0xC0000000) va = None)
    \<and> (\<forall>va. frame_of va \<ge> 0xC0000 \<longrightarrow>
         translate (mem s') (dir - 0xC0000000) va = translate (mem s') (kernel_page_dir s - 0xC0000000) va)
    \<and> vm_inv UNIV V s' \<and> used s' = insert (frame_of (dir - 0xC0000000)) (used s)"
proof -
  from process_directory_run [OF assms] obtain n u where
    u: "n \<in> free_low s" "create_process_page_directory s = Inr (addr_of_frame n + 0xC0000000, u)"
      "dir_work UNIV V n (take_frame n s) u" "\<And>j. j < 768 \<Longrightarrow> entry (mem u) (addr_of_frame n) j = 0"
      "\<And>j. 768 \<le> j \<Longrightarrow> j < 1024 \<Longrightarrow> entry (mem u) (addr_of_frame n) j = entry (mem u) (dir_of s KDir) j" by blast
  have n: "frame_of (addr_of_frame n) = n" by (rule frame_of_addr_of_frame [OF free_lowD(5) [OF u(1)]])
  note pa = page_aligned_addr_of_frame [of n]
  have kd: "dir_of s KDir = kernel_page_dir s - 0xC0000000" by (simp add: dir_of_def)
  have ka: "page_aligned (dir_of s KDir)" using vm_invD(8) [OF heap_invD(1) [OF inv]] by simp
  have lo: "translate (mem u) (addr_of_frame n) va = None" if "frame_of va < 0xC0000" for va
  proof -
    have "frame_of va div 1024 < 768" using that by simp
    then show ?thesis using u(4) by (simp add: translate_entry [OF pa])
  qed
  have hi: "translate (mem u) (addr_of_frame n) va = translate (mem u) (dir_of s KDir) va" if "0xC0000 \<le> frame_of va" for va
  proof -
    have "768 \<le> frame_of va div 1024" "frame_of va div 1024 < 1024" using that frame_of_lt [of va] by simp_all
    then show ?thesis using u(5) by (simp only: translate_entry [OF pa] translate_entry [OF ka])
  qed
  have "u\<lparr>mem := mem (take_frame n s)\<rparr> = take_frame n s" "vm_inv UNIV V u" using u(3) by (auto simp: dir_work_def)
  moreover from this have "used u = insert n (used s)"
    by (metis mem_only(1) used_take free_lowD(5) u(1))
  ultimately show ?thesis using u(1,2) n lo hi by (auto simp: kd)
qed

text \<open>A store to a data page leaves a frame that no data page uses alone.\<close>

lemma store_keeps_fresh:
  assumes vm: "vm_inv UNIV V s" and fr: "fresh_frame UNIV V s n" and a: "frame_of a \<in> V"
    and st: "store32 a w s = Inr ((), t)" and b: "frame_of b = n"
  shows "mem t b = mem s b"
proof -
  from data_addr [OF vm a] obtain f where f: "ptrans (mem s) (dir_of s KDir) (frame_of a) = Some f"
    "translate (mem s) (cr3 s) a = Some (addr_of_frame f OR (a AND 0xFFF))" "f < 0x40000" by blast
  have "f \<noteq> n" using fr f(1) a by (auto simp: fresh_frame_def)
  then have "addr_of_frame f OR (a AND 0xFFF) \<noteq> b" using b f(3) frame_of_data [of f a] by auto
  moreover have "t = s\<lparr>mem := (mem s)(addr_of_frame f OR (a AND 0xFFF) := w)\<rparr>"
    using st f(2) by (simp add: store32_def split: if_splits)
  ultimately show ?thesis by simp
qed

text \<open>
  A switch to a process faults.  Give a control block in the heap a page directory from
  \<^verbatim>\<open>create_process_page_directory\<close>, as \<^verbatim>\<open>create_process\<close> does: the timer interrupt's assembly loads that
  directory and then reads \<^verbatim>\<open>saved_esp\<close> from the block, whose page the directory does not map.
\<close>

theorem switch_page_fault:
  assumes inv: "heap_inv UNIV V fl (kern m)" and ne: "free_low (kern m) \<noteq> {}" and nx: "nxt \<in> allocated V fl Heap_128"
  shows "\<exists>m'. bnd (kern_op create_process_page_directory) (\<lambda>dir. mstore (nxt + PCB_page_dir) dir) m = Inr ((), m')
    \<and> switch_to nxt m' = Inl (PageFault nxt)"
proof -
  let ?s = "kern m"
  from process_directory_run [OF inv ne] obtain n u where
    u: "n \<in> free_low ?s" "create_process_page_directory ?s = Inr (addr_of_frame n + 0xC0000000, u)"
      "dir_work UNIV V n (take_frame n ?s) u" "\<And>j. j < 768 \<Longrightarrow> entry (mem u) (addr_of_frame n) j = 0" by blast
  have vu: "vm_inv UNIV V u" and fu: "fresh_frame UNIV V u n" using u(3) by (auto simp: dir_work_def)
  have b: "nxt \<in> blocks V Heap_128" using nx by (simp add: allocated_def)
  have low: "frame_of nxt div 1024 < 768" "frame_of nxt \<in> V" "word_aligned nxt"
    using b region_bounds [of Heap_128 "frame_of nxt"] blocks_addr [OF b] by (auto simp: blocks_def data_addrs_def)
  have wd: "nxt + 4 * of_nat 1 \<in> data_addrs V" by (rule block_words_addr [OF b pcb_word(1) [OF b]]) simp
  then have wV: "frame_of (nxt + 4 * of_nat 1) \<in> V" by (simp add: data_addrs_def)
  have ok: "mem_only_ok UNIV V u u" using vu by simp
  let ?dir = "addr_of_frame n + 0xC0000000"
  from data.wr_peek [OF ok wd, of ?dir] obtain t where t: "store32 (nxt + 4 * of_nat 1) ?dir u = Inr ((), t)" "mem_only_ok UNIV V u t"
    "peek load32 t (nxt + 4 * of_nat 1) = ?dir" using wd by auto
  let ?m = "m\<lparr>kern := t\<rparr>"
  have run: "bnd (kern_op create_process_page_directory) (\<lambda>dir. mstore (nxt + PCB_page_dir) dir) m = Inr ((), ?m)"
    using u(2) t(1) unfolding pcb_offsets by (simp add: mstore_def)
  have "load32 (nxt + 4 * of_nat 1) t = Inr (?dir, t)"
    using data.rd_peek [OF t(2) wd] t(3) by simp
  then have ld: "mload (nxt + PCB_page_dir) ?m = Inr (?dir, ?m)" unfolding pcb_offsets by (simp add: mload_def)
  have pa: "page_aligned (addr_of_frame n)" by (rule page_aligned_addr_of_frame)
  have "entry (mem t) (addr_of_frame n) (frame_of nxt div 1024) = entry (mem u) (addr_of_frame n) (frame_of nxt div 1024)"
    unfolding entry_def
    by (rule store_keeps_fresh [OF vu fu wV t(1)])
      (use slot_frame [OF pa, of "frame_of nxt div 1024"] low(1) frame_of_addr_of_frame [OF free_lowD(5) [OF u(1)]] in simp)
  then have "translate (mem t) (addr_of_frame n) nxt = None"
    using u(4) [OF low(1)] by (simp add: translate_entry [OF pa])
  then have "load32 nxt (t\<lparr>cr3 := addr_of_frame n\<rparr>) = Inl (PageFault nxt)"
    using low(3) by (simp add: load32_def)
  then have "switch_to nxt ?m = Inl (PageFault nxt)"
    using ld by (simp add: switch_to_def PCB_saved_esp_def mload_def [of nxt])
  with run show ?thesis by blast
qed

theorem process_directory_witness:
  "\<exists>dir s'. create_process_page_directory boot_heap = Inr (dir, s') \<and> translate (mem s') (dir - 0xC0000000) 0x20000000 = None"
proof -
  from boot_heap_inv obtain fl where fl: "heap_inv UNIV premapped fl boot_heap" "free_low boot_heap \<noteq> {}" by fastforce
  have "frame_of 0x20000000 < 0xC0000" by (simp add: frame_of_def)
  with process_directory [OF fl] show ?thesis by blast
qed

theorem switch_page_fault_witness:
  "\<exists>fl m nxt m'. heap_inv UNIV premapped fl (kern m) \<and> nxt \<in> allocated premapped fl Heap_128
    \<and> bnd (kern_op create_process_page_directory) (\<lambda>dir. mstore (nxt + PCB_page_dir) dir) m = Inr ((), m')
    \<and> switch_to nxt m' = Inl (PageFault nxt)"
proof -
  from two_pcbs obtain fl s p where s: "heap_inv UNIV premapped fl s" "p \<in> allocated premapped fl Heap_128" "free_low s \<noteq> {}" by auto
  let ?m = "demo_machine\<lparr>kern := s\<rparr>"
  have "heap_inv UNIV premapped fl (kern ?m)" "free_low (kern ?m) \<noteq> {}" using s by simp_all
  from switch_page_fault [OF this s(2)] this(1) s(2) show ?thesis by blast
qed

end
