(* ===== verification/Memtest.thy ===== *)
theory Memtest
  imports Process_Manager
begin

unbundle bit_operations_syntax

text \<open>
  The heap's self tests (\<^verbatim>\<open>lib/memtest.c\<close>, the code outside its closing comment): the integer square
  root, the fragmentation test \<^verbatim>\<open>cmd_memtest_v1\<close> and the large allocation test \<^verbatim>\<open>cmd_memtest_v2\<close>.
  The time stamp counter is a parameter of the machine.
\<close>

section \<open>Helpers\<close>

definition rdtsc_start :: "u32 mop" where
  "rdtsc_start = bnd (gets (\<lambda>m. tsc m (trace m))) (\<lambda>lo. bnd (event (Rdtsc lo)) (\<lambda>_. ret lo))"

definition rdtsc_end :: "u32 mop" where
  "rdtsc_end = bnd (gets (\<lambda>m. tsc m (trace m))) (\<lambda>lo. bnd (event (Rdtsc lo)) (\<lambda>_. ret lo))"

definition FRAG_N :: nat where "FRAG_N = 40000"

function isqrt_loop :: "u32 \<Rightarrow> u32 \<Rightarrow> u32 \<Rightarrow> fault + u32" where
  "isqrt_loop n x y =
     (if y < x then
        let x = y in if x = 0 then Inl DivideByZero else isqrt_loop n x ((x + n div x) div 2)
      else Inr x)"
  by pat_completeness auto
termination
  by (relation "measure (\<lambda>(n, x, y). unat x)") (auto simp: word_less_nat_alt)

declare isqrt_loop.simps [simp del]

definition isqrt :: "u32 \<Rightarrow> fault + u32" where
  "isqrt n = (if n = 0 then Inr 0 else isqrt_loop n n (n div 2 + 1))"

definition isqrt_op :: "u32 \<Rightarrow> u32 mop" where
  "isqrt_op n = (case isqrt n of Inl e \<Rightarrow> raise e | Inr r \<Rightarrow> ret r)"

text \<open>A \<^verbatim>\<open>for\<close> loop over an index, and one whose body may return from the function (\<open>False\<close>).\<close>

fun for_loop :: "(nat \<Rightarrow> ('s, unit) op) \<Rightarrow> nat \<Rightarrow> nat \<Rightarrow> ('s, unit) op" where
  "for_loop body i 0 = ret ()"
| "for_loop body i (Suc k) = bnd (body i) (\<lambda>_. for_loop body (i + 1) k)"

fun for_while :: "(nat \<Rightarrow> ('s, bool) op) \<Rightarrow> nat \<Rightarrow> nat \<Rightarrow> ('s, bool) op" where
  "for_while body i 0 = ret True"
| "for_while body i (Suc k) = bnd (body i) (\<lambda>go. if go then for_while body (i + 1) k else ret False)"

definition and_then :: "('s, bool) op \<Rightarrow> ('s, bool) op \<Rightarrow> ('s, bool) op" where
  "and_then f g = bnd f (\<lambda>go. if go then g else ret False)"

section \<open>The fragmentation test\<close>

text \<open>The pointer arrays are blocks of the large domain; their slots hold the blocks under test.\<close>

definition slot_of :: "u32 \<Rightarrow> nat \<Rightarrow> u32" where
  "slot_of arr i = arr + 4 * of_nat i"

definition alloc_slot :: "u32 \<Rightarrow> u32 \<Rightarrow> nat \<Rightarrow> nat \<Rightarrow> unit mop" where
  "alloc_slot arr sz mul i =
     bnd (kern_op (kmalloc sz)) (\<lambda>p.
     bnd (mstore (slot_of arr i) p) (\<lambda>_.
     bnd (mload (slot_of arr i)) (\<lambda>p.
     mstore p (of_nat ((i + 1) * mul)))))"

definition check_slot :: "u32 \<Rightarrow> nat \<Rightarrow> nat \<Rightarrow> bool mop" where
  "check_slot arr mul i =
     bnd (mload (slot_of arr i)) (\<lambda>p.
     bnd (mload p) (\<lambda>v.
     if v \<noteq> of_nat ((i + 1) * mul) then
       bnd (putf_color COLOR_RED ''One of the blocks has been corrupted, PANIC!!'' []) (\<lambda>_. ret False)
     else ret True))"

definition free_slot :: "u32 \<Rightarrow> nat \<Rightarrow> unit mop" where
  "free_slot arr i =
     bnd (mload (slot_of arr i)) (\<lambda>p.
     bnd (kern_op (kfree p)) (\<lambda>p.
     mstore (slot_of arr i) p))"

definition free_array :: "u32 \<Rightarrow> unit mop" where
  "free_array arr = bnd (kern_op (kfree arr)) (\<lambda>_. ret ())"

text \<open>One timed allocation; the 32 samples with their minimum, maximum and sum.\<close>

definition timed_kmalloc :: "u32 mop" where
  "timed_kmalloc =
     bnd rdtsc_start (\<lambda>t1.
     bnd (kern_op (kmalloc 1024)) (\<lambda>p.
     bnd (mstore p 42) (\<lambda>_.
     bnd (kern_op (kfree p)) (\<lambda>_.
     bnd rdtsc_end (\<lambda>t2.
     ret (t2 - t1))))))"

fun take_samples :: "nat \<Rightarrow> u32 list \<Rightarrow> u32 \<Rightarrow> u32 \<Rightarrow> u32 \<Rightarrow> (u32 list \<times> u32 \<times> u32 \<times> u32) mop" where
  "take_samples 0 samples lo hi acc = ret (samples, lo, hi, acc)"
| "take_samples (Suc k) samples lo hi acc =
     bnd timed_kmalloc (\<lambda>d.
     take_samples k (samples @ [d]) (if d < lo then d else lo) (if d > hi then d else hi) (acc + d))"

text \<open>The differences and their squares are signed: leaving the range of \<^verbatim>\<open>int\<close> is a fault.\<close>

definition signed_int :: "int \<Rightarrow> ('s, int) op" where
  "signed_int v = (if int_ok v then ret v else raise SignedOverflow)"

fun variance_loop :: "u32 list \<Rightarrow> u32 \<Rightarrow> u32 \<Rightarrow> u32 mop" where
  "variance_loop [] avg var = ret var"
| "variance_loop (d # samples) avg var =
     bnd (signed_int (sint d - sint avg)) (\<lambda>diff.
     bnd (signed_int (diff * diff)) (\<lambda>square.
     variance_loop samples avg (var + word_of_int square)))"

definition v1_alloc :: "u32 \<Rightarrow> u32 \<Rightarrow> u32 \<Rightarrow> u32 \<Rightarrow> u32 \<Rightarrow> nat \<Rightarrow> unit mop" where
  "v1_alloc s64 s128 s256 s512 s1024 i =
     bnd (alloc_slot s64 50 3 i) (\<lambda>_.
     bnd (alloc_slot s128 100 7 i) (\<lambda>_.
     bnd (alloc_slot s256 200 11 i) (\<lambda>_.
     bnd (alloc_slot s512 500 13 i) (\<lambda>_.
     alloc_slot s1024 1000 17 i))))"

definition v1_check :: "u32 \<Rightarrow> u32 \<Rightarrow> u32 \<Rightarrow> u32 \<Rightarrow> u32 \<Rightarrow> nat \<Rightarrow> bool mop" where
  "v1_check s64 s128 s256 s512 s1024 i =
     and_then (check_slot s64 3 i) (and_then (check_slot s128 7 i) (and_then (check_slot s256 11 i)
       (and_then (check_slot s512 13 i) (check_slot s1024 17 i))))"

definition v1_check_holes :: "u32 \<Rightarrow> u32 \<Rightarrow> u32 \<Rightarrow> u32 \<Rightarrow> u32 \<Rightarrow> nat \<Rightarrow> bool mop" where
  "v1_check_holes s64 s128 s256 s512 s1024 i =
     and_then (if i mod 2 \<noteq> 0 then and_then (check_slot s64 3 i) (check_slot s256 11 i) else ret True)
       (and_then (check_slot s128 7 i) (and_then (check_slot s512 13 i) (check_slot s1024 17 i)))"

definition v1_free :: "u32 \<Rightarrow> u32 \<Rightarrow> u32 \<Rightarrow> u32 \<Rightarrow> u32 \<Rightarrow> nat \<Rightarrow> unit mop" where
  "v1_free s64 s128 s256 s512 s1024 i =
     bnd (free_slot s64 i) (\<lambda>_.
     bnd (free_slot s128 i) (\<lambda>_.
     bnd (free_slot s256 i) (\<lambda>_.
     bnd (free_slot s512 i) (\<lambda>_.
     free_slot s1024 i))))"

definition v1_timing :: "(u32 \<times> u32 \<times> u32 \<times> u32) mop" where
  "v1_timing =
     bnd (take_samples 32 [] 0xFFFFFFFF 0 0) (\<lambda>(samples, lo, hi, acc).
     let avg = acc div 32 in
     bnd (variance_loop samples avg 0) (\<lambda>var.
     ret (lo, hi, avg, var)))"

definition cmd_memtest_v1 :: "unit mop" where
  "cmd_memtest_v1 =
     bnd (kern_op (kmalloc (of_nat FRAG_N * 4))) (\<lambda>s64.
     bnd (kern_op (kmalloc (of_nat FRAG_N * 4))) (\<lambda>s128.
     bnd (kern_op (kmalloc (of_nat FRAG_N * 4))) (\<lambda>s256.
     bnd (kern_op (kmalloc (of_nat FRAG_N * 4))) (\<lambda>s512.
     bnd (kern_op (kmalloc (of_nat FRAG_N * 4))) (\<lambda>s1024.
     bnd (putf_color COLOR_YELLOW (nl @ ''Now allocating %d different types of blocks'' @ nl) [AInt (of_nat FRAG_N)]) (\<lambda>_.
     bnd (for_loop (v1_alloc s64 s128 s256 s512 s1024) 0 FRAG_N) (\<lambda>_.
     bnd (putf_color COLOR_YELLOW (''Testing if the newly allocated blocks keep the correct values or if they are corrupted'' @ nl) []) (\<lambda>_.
     bnd (for_while (v1_check s64 s128 s256 s512 s1024) 0 FRAG_N) (\<lambda>go.
     if \<not> go then ret () else
     bnd (putf_color COLOR_GREEN (''Allocation of all blocks finished successfully with no corruption, now comensing swish cheese'' @ nl) []) (\<lambda>_.
     bnd (putf_color COLOR_YELLOW (''Freeing every other 64 block:'' @ nl) []) (\<lambda>_.
     bnd (for_loop (\<lambda>k. if k mod 2 = 0 then free_slot s64 k else ret ()) 0 FRAG_N) (\<lambda>_.
     bnd (for_loop (\<lambda>j. if j mod 2 = 0 then free_slot s256 j else ret ()) 0 FRAG_N) (\<lambda>_.
     bnd (putf_color COLOR_GREEN (''The swiss cheese has been done successfully, Now checking heap data corruption'' @ nl) []) (\<lambda>_.
     bnd (for_while (v1_check_holes s64 s128 s256 s512 s1024) 0 FRAG_N) (\<lambda>go.
     if \<not> go then ret () else
     bnd v1_timing (\<lambda>(frag_min, frag_max, frag_avg, frag_var).
     bnd (isqrt_op (frag_var div 31)) (\<lambda>frag_dev.
     bnd (putf (''FRAGMENTED  min=%d max=%d avg=%d stddev=%d cycles'' @ nl)
            [AInt frag_min, AInt frag_max, AInt frag_avg, AInt frag_dev]) (\<lambda>_.
     bnd (for_loop (v1_free s64 s128 s256 s512 s1024) 0 FRAG_N) (\<lambda>_.
     bnd (free_array s64) (\<lambda>_.
     bnd (free_array s256) (\<lambda>_.
     bnd (free_array s512) (\<lambda>_.
     bnd (free_array s128) (\<lambda>_.
     bnd (free_array s1024) (\<lambda>_.
     bnd v1_timing (\<lambda>(clean_min, clean_max, clean_avg, clean_var).
     bnd rdtsc_start (\<lambda>tid1.
     bnd rdtsc_end (\<lambda>tid2.
     bnd (putf (''The empty call is %d'' @ nl) [AInt (tid2 - tid1)]) (\<lambda>_.
     bnd (isqrt_op (clean_var div 31)) (\<lambda>clean_dev.
     bnd (putf (''CLEAN       min=%d max=%d avg=%d stddev=%d cycles'' @ nl)
            [AInt clean_min, AInt clean_max, AInt clean_avg, AInt clean_dev]) (\<lambda>_.
     bnd (signed_int (sint frag_avg - sint clean_avg)) (\<lambda>delta.
     putf (''O(1) delta (avg): %d cycles'' @ nl) [AInt (word_of_int delta)])))))))))))))))))))))))))))))))"

section \<open>The large allocation test\<close>

definition fill_bytes :: "u32 \<Rightarrow> (u32 \<Rightarrow> u8) \<Rightarrow> nat \<Rightarrow> nat \<Rightarrow> unit mop" where
  "fill_bytes buf pattern = for_loop (\<lambda>i. kern_op (store8 (buf + of_nat i) (pattern (of_nat i))))"

fun count_bad :: "u32 \<Rightarrow> (u32 \<Rightarrow> u8) \<Rightarrow> nat \<Rightarrow> nat \<Rightarrow> u32 \<Rightarrow> u32 mop" where
  "count_bad buf pattern i 0 bad = ret bad"
| "count_bad buf pattern i (Suc k) bad =
     bnd (kern_op (load8 (buf + of_nat i))) (\<lambda>b.
     count_bad buf pattern (i + 1) k (if b \<noteq> pattern (of_nat i) then bad + 1 else bad))"

definition pattern_64k :: "u32 \<Rightarrow> u8" where "pattern_64k i = ucast (i AND 0xFF)"
definition pattern_1m :: "u32 \<Rightarrow> u8" where "pattern_1m i = ucast ((i XOR drop_bit 8 i) AND 0xFF)"

text \<open>The test of one region: the size, the pattern and the three messages differ.\<close>

definition test_region :: "u32 \<Rightarrow> nat \<Rightarrow> (u32 \<Rightarrow> u8) \<Rightarrow> string \<Rightarrow> string \<Rightarrow> string \<Rightarrow> unit mop" where
  "test_region buf len pattern null_text pass_text fail_text =
     (if buf = 0 then putf_color COLOR_RED null_text []
      else
        bnd (putf (''  Got pointer: 0x%x'' @ nl) [AInt buf]) (\<lambda>_.
        bnd (fill_bytes buf pattern 0 len) (\<lambda>_.
        bnd (count_bad buf pattern 0 len 0) (\<lambda>bad.
        if bad = 0 then putf_color COLOR_GREEN pass_text []
        else putf_color COLOR_RED fail_text [AInt bad]))))"

definition timed_large :: "u32 \<Rightarrow> (u32 \<times> u32) mop" where
  "timed_large sz =
     bnd (event Cli) (\<lambda>_.
     bnd rdtsc_start (\<lambda>t0.
     bnd (kern_op (kmalloc sz)) (\<lambda>buf.
     bnd rdtsc_end (\<lambda>t1.
     bnd (event Sti) (\<lambda>_.
     ret (buf, t1 - t0))))))"

definition bar :: string where "bar = ''========================================'' @ nl"

definition cmd_memtest_v2 :: "unit mop" where
  "cmd_memtest_v2 =
     bnd (putf_color COLOR_WHITE (nl @ bar) []) (\<lambda>_.
     bnd (putf_color COLOR_WHITE (''   RAXZUS HEAP - MEMTEST 2 (LARGE ALLOC)'' @ nl) []) (\<lambda>_.
     bnd (putf_color COLOR_WHITE (bar @ nl) []) (\<lambda>_.
     bnd (putf_color COLOR_YELLOW (''[PHASE 3] Large Allocation Test (kmalloc)'' @ nl) []) (\<lambda>_.
     bnd (putf (''  Allocates N contiguous 4KB pages as a single region.'' @ nl) []) (\<lambda>_.
     bnd (putf (''  Verifies virtual contiguity and write/read correctness.'' @ nl @ nl) []) (\<lambda>_.
     bnd (putf (''  Allocating 64 KB (16 pages)...'' @ nl) []) (\<lambda>_.
     bnd (kern_op (kmalloc (64 * 1024))) (\<lambda>buf64k.
     bnd (test_region buf64k (64 * 1024) pattern_64k
            (''  FAIL: kmalloc(64K) returned NULL'' @ nl)
            (''  PASS: 64 KB written and verified (65536 bytes, zero errors)'' @ nl)
            (''  FAIL: %d bytes corrupted in 64 KB region'' @ nl)) (\<lambda>_.
     bnd (putf (nl @ ''  Allocating 1 MB (256 pages)...'' @ nl) []) (\<lambda>_.
     bnd (kern_op (kmalloc (1024 * 1024))) (\<lambda>buf1m.
     bnd (test_region buf1m (1024 * 1024) pattern_1m
            (''  FAIL: kmalloc(1MB) returned NULL'' @ nl)
            (''  PASS: 1 MB written and verified (1048576 bytes, zero errors)'' @ nl)
            (''  FAIL: %d bytes corrupted in 1 MB region'' @ nl)) (\<lambda>_.
     bnd (if buf64k \<noteq> 0 \<and> buf1m \<noteq> 0 then
            bnd (putf (nl @ ''  Address gap between 64K and 1MB regions: %d bytes'' @ nl) [AInt (buf1m - buf64k)]) (\<lambda>_.
            if buf1m > buf64k then
              putf_color COLOR_GREEN (''  PASS: Regions are non-overlapping and virtually contiguous'' @ nl) []
            else putf_color COLOR_RED (''  FAIL: Region addresses overlap!'' @ nl) [])
          else ret ()) (\<lambda>_.
     bnd (putf_color COLOR_YELLOW (nl @ ''  Timing: kmalloc cost per page'' @ nl) []) (\<lambda>_.
     bnd (timed_large 4096) (\<lambda>(tbuf, d).
     bnd (putf (''    1 page  (4 KB) : %d cycles'' @ nl) [AInt d]) (\<lambda>_.
     bnd (timed_large (8 * 4096)) (\<lambda>(tbuf8, d).
     bnd (putf (''    8 pages (32 KB): %d cycles  (per-page: %d)'' @ nl) [AInt d, AInt (d div 8)]) (\<lambda>_.
     bnd (timed_large (1024 * 1024)) (\<lambda>(tbig, d).
     bnd (putf (''    256 pages (1MB): %d cycles  (per-page: %d)'' @ nl) [AInt d, AInt (d div 256)]) (\<lambda>_.
     bnd (free_array tbig) (\<lambda>_.
     bnd (free_array tbuf) (\<lambda>_.
     bnd (free_array tbuf8) (\<lambda>_.
     bnd (if buf64k \<noteq> 0 then free_array buf64k else ret ()) (\<lambda>_.
     bnd (if buf1m \<noteq> 0 then free_array buf1m else ret ()) (\<lambda>_.
     bnd (putf_color COLOR_WHITE (nl @ bar) []) (\<lambda>_.
     bnd (putf_color COLOR_WHITE (''   MEMTEST 2 COMPLETE'' @ nl) []) (\<lambda>_.
     putf_color COLOR_WHITE (bar @ nl) [])))))))))))))))))))))))))))"

section \<open>The integer square root\<close>

lemma newton_bound:
  assumes "0 < (x :: nat)"
  shows "n < ((x + n div x) div 2 + 1) * ((x + n div x) div 2 + 1)"
proof -
  define q where "q = n div x"
  define k where "k = (x + q) div 2"
  have n: "n < x * (q + 1)" using assms unfolding q_def by (simp add: dividend_less_times_div)
  have k: "x + q + 1 \<le> 2 * (k + 1)" unfolding k_def by simp
  have "int n + 1 \<le> int x * (int q + 1)" using n by (metis Suc_eq_plus1 Suc_leI of_nat_1 of_nat_add of_nat_le_iff of_nat_mult)
  then have "4 * int n + 4 \<le> 4 * (int x * (int q + 1))" by simp
  also have "\<dots> \<le> (int x + int q + 1) * (int x + int q + 1)"
  proof -
    have "0 \<le> (int x - int q - 1) * (int x - int q - 1)" by simp
    then show ?thesis by (simp add: algebra_simps)
  qed
  also have "\<dots> \<le> (2 * (int k + 1)) * (2 * (int k + 1))"
    using k by (intro mult_mono) auto
  finally have "int n < (int k + 1) * (int k + 1)" by (simp add: algebra_simps)
  then have "int n < int ((k + 1) * (k + 1))" by (simp add: algebra_simps)
  then show ?thesis by (simp only: q_def k_def of_nat_less_iff)
qed

lemma newton_stop:
  assumes "0 < (x :: nat)" "x \<le> (x + n div x) div 2"
  shows "x * x \<le> n"
proof -
  have "x \<le> n div x" using assms(2) by linarith
  then have "x * x \<le> x * (n div x)" by simp
  then show ?thesis by (rule order_trans) simp
qed

lemma newton_word:
  fixes x n :: u32
  assumes "0 < unat x" "unat x \<le> 0x80000000" "unat n < (unat x + 1) * (unat x + 1)"
  shows "unat ((x + n div x) div 2) = (unat x + unat n div unat x) div 2" "unat ((x + n div x) div 2) \<le> 0x80000000"
proof -
  have q: "unat (n div x) = unat n div unat x" by (rule unat_div)
  have "unat n div unat x \<le> unat x + 2"
  proof -
    have "unat n \<le> unat x * unat x + 2 * unat x" using assms(3) by simp
    then have "unat n div unat x \<le> (unat x * (unat x + 2)) div unat x" by (intro div_le_mono) (simp add: algebra_simps)
    then show ?thesis using assms(1) by simp
  qed
  then have b: "unat x + unat n div unat x < 4294967296 \<and> (unat x + unat n div unat x) div 2 \<le> 0x80000000" if "unat x \<le> 0x7FFFFFFE"
    using that by simp
  have b2: "unat n div unat x \<le> 2" if "0x7FFFFFFF \<le> unat x"
  proof -
    have "unat n < 3 * unat x" using that u32_bound [of n] by simp
    then have "unat n div unat x < 3" using assms(1) by (simp add: less_mult_imp_div_less)
    then show ?thesis by simp
  qed
  have s: "unat x + unat n div unat x < 4294967296 \<and> (unat x + unat n div unat x) div 2 \<le> 0x80000000"
    using b b2 assms(2) by (cases "unat x \<le> 0x7FFFFFFE") auto
  then have a: "unat (x + n div x) = unat x + unat n div unat x" by (simp add: unat_word_ariths q)
  show "unat ((x + n div x) div 2) = (unat x + unat n div unat x) div 2" by (simp add: unat_div a)
  then show "unat ((x + n div x) div 2) \<le> 0x80000000" using s by simp
qed

text \<open>From an \<open>x\<close> that is at least the root, the loop reaches the root.\<close>

lemma isqrt_loop_correct:
  assumes "0 < unat x" "unat x \<le> 0x80000000" "unat n < (unat x + 1) * (unat x + 1)" "0 < n" "y = (x + n div x) div 2"
  shows "\<exists>r. isqrt_loop n x y = Inr r \<and> unat r * unat r \<le> unat n \<and> unat n < (unat r + 1) * (unat r + 1)"
  using assms
proof (induction n x y rule: isqrt_loop.induct)
  case (1 n x y)
  note w = newton_word [OF 1(2-4)]
  have uy: "unat y = (unat x + unat n div unat x) div 2" "unat y \<le> 0x80000000" using w 1(6) by simp_all
  have ny: "unat n < (unat y + 1) * (unat y + 1)" using newton_bound [OF 1(2), of "unat n"] uy(1) by simp
  have y0: "0 < unat y"
  proof (rule ccontr)
    assume "\<not> 0 < unat y"
    then have "unat n < 1" using ny by simp
    then show False using 1(5) by (simp add: word_less_nat_alt)
  qed
  show ?case
  proof (cases "y < x")
    case True
    have "isqrt_loop n x y = isqrt_loop n y ((y + n div y) div 2)"
      using True y0 by (subst isqrt_loop.simps) auto
    moreover have "y \<noteq> 0" using y0 by auto
    ultimately show ?thesis using 1(1) [OF True refl _ y0 uy(2) ny 1(5) refl] by simp
  next
    case False
    then have "unat x \<le> (unat x + unat n div unat x) div 2" using uy(1) by (simp add: word_le_nat_alt not_less)
    from newton_stop [OF 1(2) this] False 1(4) show ?thesis by (subst isqrt_loop.simps) simp
  qed
qed

text \<open>
  \<^verbatim>\<open>isqrt\<close> ends without a division by zero and returns the integer square root of every argument but one: the root
  of 2 comes out as 2.
\<close>

theorem isqrt_correct:
  "(\<forall>n. n \<noteq> 2 \<longrightarrow> (\<exists>r. isqrt n = Inr r \<and> unat r * unat r \<le> unat n \<and> unat n < (unat r + 1) * (unat r + 1))) \<and> isqrt 2 = Inr 2"
proof (intro conjI allI impI)
  show "isqrt 2 = Inr 2" by (simp add: isqrt_def isqrt_loop.simps)
  fix n :: u32
  assume n2: "n \<noteq> 2"
  show "\<exists>r. isqrt n = Inr r \<and> unat r * unat r \<le> unat n \<and> unat n < (unat r + 1) * (unat r + 1)"
  proof (cases "n = 0 \<or> n = 1")
    case True
    then show ?thesis by (auto simp: isqrt_def isqrt_loop.simps)
  next
    case False
    have n3: "3 \<le> unat n"
    proof -
      have "unat n \<noteq> unat (0 :: u32)" "unat n \<noteq> unat (1 :: u32)" "unat n \<noteq> unat (2 :: u32)" using False n2 u32_eqI by blast+
      then show ?thesis by simp
    qed
    let ?y = "n div 2 + 1"
    have uy: "unat ?y = unat n div 2 + 1" using u32_bound [of n] by (simp add: unat_word_ariths unat_div)
    have yx: "?y < n" using n3 uy by (simp add: word_less_nat_alt)
    have b: "unat ?y \<le> 0x80000000" using uy u32_bound [of n] by simp
    have sq: "unat n < (unat ?y + 1) * (unat ?y + 1)"
    proof -
      have "unat n < 2 * (unat ?y + 1)" unfolding uy by simp
      also have "\<dots> \<le> (unat ?y + 1) * (unat ?y + 1)" unfolding uy by simp
      finally show ?thesis .
    qed
    have "isqrt n = isqrt_loop n ?y ((?y + n div ?y) div 2)"
    proof -
      have "?y \<noteq> 0" using uy by auto
      then show ?thesis using yx False by (simp add: isqrt_def isqrt_loop.simps [of n n] Let_def)
    qed
    with isqrt_loop_correct [OF _ b sq _ refl] uy n3 show ?thesis by (simp add: word_less_nat_alt)
  qed
qed

theorem isqrt_correct_witness: "\<exists>r. isqrt 1000000 = Inr r \<and> unat r * unat r \<le> 1000000 \<and> 1000000 < (unat r + 1) * (unat r + 1)"
proof -
  have "(1000000 :: u32) \<noteq> 2" by simp
  with isqrt_correct obtain r where "isqrt 1000000 = Inr r" "unat r * unat r \<le> unat (1000000 :: u32)"
    "unat (1000000 :: u32) < (unat r + 1) * (unat r + 1)" by blast
  then show ?thesis by simp
qed

section \<open>Writing and verifying a region\<close>

lemma fill_bytes_run:
  assumes "mem_only_ok A V s0 (kern m)" "span p (i + k) \<subseteq> byte_addrs V s0" "i + k \<le> 2 ^ 32"
  shows "\<exists>t. fill_bytes p pat i k m = Inr ((), m\<lparr>kern := t\<rparr>) \<and> mem_only_ok A V s0 t
    \<and> (\<forall>j<i + k. bpeek load32 t (p + of_nat j) = (if i \<le> j then pat (of_nat j) else bpeek load32 (kern m) (p + of_nat j)))"
  using assms
proof (induction k arbitrary: i m)
  case 0
  then show ?case by (intro exI [of _ "kern m"]) (simp add: fill_bytes_def)
next
  case (Suc k)
  have in_span: "p + of_nat j \<in> byte_addrs V s0" if "j < i + Suc k" for j
    using Suc.prems(2) that unfolding span_def by blast
  have "p + of_nat i \<in> byte_addrs V s0" by (rule in_span) simp
  from store8_run [OF Suc.prems(1) this, of "pat (of_nat i)"] obtain u where
    u: "store8 (p + of_nat i) (pat (of_nat i)) (kern m) = Inr ((), u)" "mem_only_ok A V s0 u"
      "\<And>a. a \<in> byte_addrs V s0 \<Longrightarrow> bpeek load32 u a = (if a = p + of_nat i then pat (of_nat i) else bpeek load32 (kern m) a)" by blast
  have u2: "mem_only_ok A V s0 (kern (m\<lparr>kern := u\<rparr>))" using u(2) by simp
  from Suc.IH [OF u2, of "i + 1"] Suc.prems(2,3) obtain t where
    t: "fill_bytes p pat (i + 1) k (m\<lparr>kern := u\<rparr>) = Inr ((), m\<lparr>kern := t\<rparr>)" "mem_only_ok A V s0 t"
      "\<And>j. j < i + 1 + k \<Longrightarrow> bpeek load32 t (p + of_nat j) = (if i + 1 \<le> j then pat (of_nat j) else bpeek load32 u (p + of_nat j))"
    by auto
  have run: "fill_bytes p pat i (Suc k) m = Inr ((), m\<lparr>kern := t\<rparr>)"
    using u(1) t(1) by (simp add: fill_bytes_def)
  have "bpeek load32 t (p + of_nat j) = (if i \<le> j then pat (of_nat j) else bpeek load32 (kern m) (p + of_nat j))" if j: "j < i + Suc k" for j
  proof -
    have "unat (of_nat j :: u32) = j" "unat (of_nat i :: u32) = i" using Suc.prems(3) j by (simp_all add: unat_of_nat)
    then have "p + of_nat j = p + of_nat i \<longleftrightarrow> j = i" by (metis add_left_cancel)
    then have ub: "bpeek load32 u (p + of_nat j) = (if j = i then pat (of_nat i) else bpeek load32 (kern m) (p + of_nat j))"
      using u(3) [OF in_span [OF j]] by simp
    consider "j < i" | "j = i" | "i < j" by arith
    then show ?thesis using t(3) [of j] j ub by cases auto
  qed
  then show ?case using run t(2) by blast
qed

lemma count_bad_run:
  assumes "mem_only_ok A V s0 (kern m)" "span p (i + k) \<subseteq> byte_addrs V s0"
    "\<And>j. j < i + k \<Longrightarrow> bpeek load32 (kern m) (p + of_nat j) = pat (of_nat j)"
  shows "count_bad p pat i k bad m = Inr (bad, m)"
  using assms(2,3)
proof (induction k arbitrary: i)
  case (Suc k)
  have "p + of_nat i \<in> byte_addrs V s0" using Suc.prems(1) unfolding span_def by force
  then have "load8 (p + of_nat i) (kern m) = Inr (bpeek load32 (kern m) (p + of_nat i), kern m)"
    by (rule load8_run [OF assms(1)])
  moreover have "count_bad p pat (i + 1) k bad m = Inr (bad, m)"
    by (rule Suc.IH) (use Suc.prems in auto)
  ultimately show ?case using Suc.prems(2) [of i] by simp
qed simp

lemma region_steps:
  assumes "count_bad buf pat 0 len 0 m2 = Inr (0, m3)"
    and "putf (''  Got pointer: 0x%x'' @ nl) [AInt buf] m = Inr ((), m1)" and "buf \<noteq> 0" and "fill_bytes buf pat 0 len m1 = Inr ((), m2)"
  shows "test_region buf len pat null_text pass_text fail_text m = putf_color COLOR_GREEN pass_text [] m3"
  by (simp only: test_region_def if_not_P [OF assms(3)] bnd_run assms(1,2,4) sum.case prod.case if_True simp_thms)

text \<open>
  The verification of \<^verbatim>\<open>cmd_memtest_v2\<close> reports what it should: on a region of working memory the write loop
  followed by the counting loop finds no corrupted byte, and the test of that region prints its success
  message.
\<close>

theorem memtest_region_passes:
  assumes inv: "vm_inv A V (kern m)" and reg: "span buf len \<subseteq> byte_addrs V (kern m)" "len \<le> 2 ^ 32" "buf \<noteq> 0"
    and fmt: "fmt_ok pass_text []"
  shows "\<exists>m'. test_region buf len pat null_text pass_text fail_text m = Inr ((), m')
    \<and> (\<forall>j<len. bpeek load32 (kern m') (buf + of_nat j) = pat (of_nat j))
    \<and> console (kern m') = console_after pass_text [] (set_color COLOR_GREEN
        (console_after (''  Got pointer: 0x%x'' @ nl) [AInt buf] (console (kern m))))"
proof -
  define c where "c = console_after (''  Got pointer: 0x%x'' @ nl) [AInt buf] (console (kern m))"
  let ?m1 = "m\<lparr>kern := (kern m)\<lparr>console := c\<rparr>\<rparr>"
  have fm: "fmt_ok (''  Got pointer: 0x%x'' @ nl) [AInt buf]" by (simp add: nl_def)
  have v1: "vm_inv A V (kern ?m1)" using inv by simp
  have ok: "mem_only_ok A V (kern ?m1) (kern ?m1)" using v1 by simp
  have im: "image_addrs (kern ?m1) = image_addrs (kern m)" by (simp add: image_addrs_def)
  have sb: "span buf (0 + len) \<subseteq> byte_addrs V (kern ?m1)" using reg(1) im by (auto simp: byte_addrs_def ram_addrs_def)
  from fill_bytes_run [OF ok sb, of pat] reg(2) obtain t where
    t: "fill_bytes buf pat 0 len ?m1 = Inr ((), ?m1\<lparr>kern := t\<rparr>)" "mem_only_ok A V (kern ?m1) t"
      "\<And>j. j < len \<Longrightarrow> bpeek load32 t (buf + of_nat j) = pat (of_nat j)" by auto
  let ?m2 = "?m1\<lparr>kern := t\<rparr>"
  have cb: "count_bad buf pat 0 len 0 ?m2 = Inr (0, ?m2)"
    by (rule count_bad_run [where A = A, OF _ sb]) (use t(2,3) in simp_all)
  have "putf (''  Got pointer: 0x%x'' @ nl) [AInt buf] m = Inr ((), ?m1)" unfolding c_def by (rule putf_run [OF fm])
  note run = region_steps [OF cb this reg(3) t(1)]
  have "t\<lparr>mem := mem (kern ?m1)\<rparr> = kern ?m1" using t(2) by simp
  from vm_frame_simps(8) [OF vm_frame_mem_only [OF this]] have ct: "console t = c" by simp
  let ?k = "t\<lparr>console := console_after pass_text [] (set_color COLOR_GREEN c)\<rparr>"
  have pk: "peek load32 ?k = peek load32 t" by (rule peek_cong) simp_all
  have bk: "bpeek load32 ?k a = bpeek load32 t a" for a by (simp add: bpeek_def pk)
  have k2: "kern ?m2 = t" by simp
  have "putf_color COLOR_GREEN pass_text [] ?m2 = Inr ((), ?m2\<lparr>kern := ?k\<rparr>)"
    unfolding putf_color_run [OF fmt] k2 ct by (rule refl)
  then show ?thesis
    unfolding run c_def [symmetric] by (intro exI [of _ "?m2\<lparr>kern := ?k\<rparr>"] conjI) (simp_all add: bk t(3) ct)
qed

theorem memtest_region_passes_witness:
  "\<exists>m'. test_region 0xC0001000 8 pattern_64k [] ''PASS'' [] (demo_machine\<lparr>kern := boot_heap\<rparr>) = Inr ((), m')
    \<and> bpeek load32 (kern m') (0xC0001000 + of_nat 3) = 3"
proof -
  let ?m = "demo_machine\<lparr>kern := boot_heap\<rparr>"
  from boot_heap_inv obtain fl where fl: "heap_inv UNIV premapped fl boot_heap" by blast
  have vm: "vm_inv UNIV premapped (kern ?m)" using heap_invD(1) [OF fl] by simp
  have "span 0xC0001000 8 \<subseteq> byte_addrs premapped (kern ?m)" using image_span [of 7] by (auto simp: byte_addrs_def ram_addrs_def)
  from memtest_region_passes [OF vm this, of "''PASS''" pattern_64k "[]" "[]"] obtain m' where
    m': "test_region 0xC0001000 8 pattern_64k [] ''PASS'' [] ?m = Inr ((), m')"
      "\<forall>j<8. bpeek load32 (kern m') (0xC0001000 + of_nat j) = pattern_64k (of_nat j)" by auto
  moreover have "pattern_64k (of_nat 3) = 3" by (simp add: pattern_64k_def)
  moreover have "(3 :: nat) < 8" by simp
  ultimately have "bpeek load32 (kern m') (0xC0001000 + of_nat 3) = 3" by metis
  then show ?thesis using m'(1) by blast
qed

end
