(* ===== verification/Shell.thy ===== *)
theory Shell
  imports Memtest
begin

unbundle bit_operations_syntax

text \<open>
  The shell (\<^verbatim>\<open>lib/raxzus_shell.c\<close>): splitting the command line, the commands and their checks of
  the arguments.
\<close>

section \<open>Operations\<close>

definition argument :: "u32 \<Rightarrow> nat \<Rightarrow> u32 mop" where
  "argument argv i = kern_op (load32 (argv + 4 * of_nat i))"

text \<open>\<^verbatim>\<open>checkString(argv[i], "...")\<close>.\<close>

definition argument_is :: "u32 \<Rightarrow> nat \<Rightarrow> string \<Rightarrow> bool mop" where
  "argument_is argv i text = bnd (argument argv i) (\<lambda>p. kern_op (checkString p (bytes text)))"

definition argument_number :: "u32 \<Rightarrow> nat \<Rightarrow> bool mop" where
  "argument_number argv i = bnd (argument argv i) (\<lambda>p. kern_op (is_valid_number p))"

definition argument_int :: "u32 \<Rightarrow> nat \<Rightarrow> int mop" where
  "argument_int argv i = bnd (argument argv i) (\<lambda>p. kern_op (string_to_int p))"

text \<open>\<^verbatim>\<open>a || b\<close> of the source: the second operand runs only if the first is false.\<close>

definition or_else :: "('s, bool) op \<Rightarrow> ('s, bool) op \<Rightarrow> ('s, bool) op" where
  "or_else f g = bnd f (\<lambda>b. if b then ret True else g)"

definition usage_error :: "string \<Rightarrow> unit mop" where
  "usage_error text = putf_color COLOR_RED (nl @ text @ nl) []"

text \<open>The characters that \<^verbatim>\<open>kprintf\<close> reads for \<^verbatim>\<open>%s\<close>.\<close>

definition read_cstr :: "u32 \<Rightarrow> u8 list kop" where
  "read_cstr p =
     bnd (loop (\<lambda>(q, cs). bnd (load8 q) (\<lambda>c. ret (c \<noteq> 0)))
       (\<lambda>(q, cs). bnd (load8 q) (\<lambda>c. ret (q + 1, cs @ [c]))) (p, []))
       (\<lambda>(_, cs). ret cs)"

text \<open>
  The checks that \<^verbatim>\<open>diskW\<close> and \<^verbatim>\<open>diskR\<close> share; \<open>False\<close> once the function has returned.
\<close>

definition disk_arguments_ok :: "u32 \<Rightarrow> bool mop" where
  "disk_arguments_ok argv =
     bnd (or_else (bnd (argument_number argv 1) (\<lambda>v. ret (\<not> v))) (bnd (argument_number argv 2) (\<lambda>v. ret (\<not> v)))) (\<lambda>bad.
     if bad then
       bnd (usage_error ''This commande requires the first inputs to be integers and the last to be a pointer'') (\<lambda>_. ret False)
     else
       bnd (or_else (bnd (argument_int argv 1) (\<lambda>v. ret (v > 2000))) (bnd (argument_int argv 1) (\<lambda>v. ret (v < 0)))) (\<lambda>bad.
       if bad then
         bnd (usage_error ''This commande requires the first input to be in disk size'') (\<lambda>_. ret False)
       else
         bnd (or_else (bnd (argument_int argv 2) (\<lambda>v. ret (v < 0))) (bnd (argument_int argv 2) (\<lambda>v. ret (v > 255)))) (\<lambda>bad.
         if bad then
           bnd (usage_error ''This commande requires the first input to '') (\<lambda>_. ret False)
         else ret True)))"

definition cmd_diskW :: "u32 \<Rightarrow> u32 \<Rightarrow> bool mop" where
  "cmd_diskW argv parser_count =
     (if parser_count \<noteq> 4 then
        bnd (usage_error ''This commande requires 3 flag inputs (LBA, Segment, what to save)'') (\<lambda>_. ret False)
      else
        bnd (disk_arguments_ok argv) (\<lambda>go.
        if \<not> go then ret False
        else
          bnd (argument_int argv 2) (\<lambda>param2.
          bnd (argument_int argv 1) (\<lambda>param1.
          bnd (argument argv 3) (\<lambda>buffer.
          bnd (ata_write_sector (word_of_int param1) (word_of_int param2) buffer) (\<lambda>_.
          bnd (kern_op (read_cstr buffer)) (\<lambda>text.
          bnd (putf_color COLOR_GREEN
                 (nl @ ''Successfully wrote to disk at '' @ nl @ ''LBA: %d, '' @ nl @ ''sector size: %d, '' @ nl @ ''the data: %s '' @ nl)
                 [AInt (word_of_int param1), AInt (word_of_int param2), AStr text]) (\<lambda>_.
          ret True))))))))"

text \<open>The loop that prints the printable ones of the first 1024 bytes; \<^verbatim>\<open>char\<close> is signed.\<close>

definition print_byte :: "u32 \<Rightarrow> nat \<Rightarrow> unit mop" where
  "print_byte buffer i =
     bnd (kern_op (load8 (buffer + of_nat i))) (\<lambda>c.
     if sint c \<ge> 32 \<and> sint c \<le> 126 then
       bnd (kern_op (load8 (buffer + of_nat i))) (\<lambda>b. putf ''%c'' [AInt (scast b)])
     else ret ())"

definition cmd_diskR :: "u32 \<Rightarrow> u32 \<Rightarrow> bool mop" where
  "cmd_diskR argv parser_count =
     (if parser_count \<noteq> 3 then
        bnd (usage_error ''This commande requires 2 flag inputs (LBA, Segment)'') (\<lambda>_. ret False)
      else
        bnd (disk_arguments_ok argv) (\<lambda>go.
        if \<not> go then ret False
        else
          bnd (argument_int argv 2) (\<lambda>param2.
          bnd (argument_int argv 1) (\<lambda>param1.
          bnd (kern_op (kmalloc (word_of_int (param2 * 512)))) (\<lambda>buffer.
          bnd (ata_read_sector 49 10 buffer) (\<lambda>_.
          bnd (for_loop (print_byte buffer) 0 1024) (\<lambda>_.
          ret True)))))))"

definition cmd_memtest :: "u32 \<Rightarrow> u32 \<Rightarrow> unit mop" where
  "cmd_memtest argv parser_count =
     (if sint parser_count < 2 then
        bnd (putf (''Usage: memtest 1  (fragmentation + WCET O(1) timing)'' @ nl) []) (\<lambda>_.
        putf (''       memtest 2  (large allocation test)'' @ nl) [])
      else
        bnd (argument_is argv 1 ''1'') (\<lambda>b. if b then cmd_memtest_v1 else
        bnd (argument_is argv 1 ''2'') (\<lambda>b. if b then cmd_memtest_v2 else
        putf (''Unknown test. Use memtest 1 or memtest 2'' @ nl) [])))"

text \<open>\<open>finish\<close> is the end of the function, which the early returns of the disk commands skip.\<close>

definition process_input :: "u32 \<Rightarrow> unit mop" where
  "process_input inp =
     bnd (kern_op (tokinize_words inp)) (\<lambda>(argv, parser_count).
     let finish = (\<lambda>_. free_array argv);
         finish_if = (\<lambda>go. if go then free_array argv else ret ())
     in
     bnd (argument_is argv 0 ''help'') (\<lambda>b. if b then bnd (kern_op cmd_help) finish else
     bnd (argument_is argv 0 ''neofetch'') (\<lambda>b. if b then bnd (kern_op cmd_neofetch) finish else
     bnd (argument_is argv 0 ''mem'') (\<lambda>b. if b then bnd (ret ()) finish else
     bnd (argument_is argv 0 ''memtest'') (\<lambda>b. if b then bnd (cmd_memtest argv parser_count) finish else
     bnd (argument_is argv 0 ''time'') (\<lambda>b. if b then bnd print_rtc_time finish else
     bnd (argument_is argv 0 ''clear'') (\<lambda>b.
       if b then bnd (kern_op (modify (\<lambda>s. s\<lparr>console := clearScreen (console s)\<rparr>))) finish else
     bnd (argument_is argv 0 ''diskW'') (\<lambda>b. if b then bnd (cmd_diskW argv parser_count) finish_if else
     bnd (argument_is argv 0 ''diskR'') (\<lambda>b. if b then bnd (cmd_diskR argv parser_count) finish_if else
     bnd (putf (nl @ ''%eCommand not found'' @ nl) []) finish)))))))))"

section \<open>The line in memory\<close>

text \<open>A command line in the kernel's static data, short enough for the array of words.\<close>

definition line_ok :: "nat set \<Rightarrow> (heap_id \<Rightarrow> u32 list) \<Rightarrow> machine \<Rightarrow> u32 \<Rightarrow> u8 list \<Rightarrow> bool" where
  "line_ok V fl m inp cs \<longleftrightarrow> heap_inv UNIV V fl (kern m) \<and> next_free_block (heaps (kern m) Heap_256) \<noteq> 0
     \<and> cstr (bpeek load32 (kern m)) inp cs \<and> (\<forall>a\<in>span inp (Suc (length cs)). word_base a \<in> image_addrs (kern m))
     \<and> length (split_words False cs) \<le> 64 \<and> length cs < 2 ^ 32 - 1"

text \<open>The state after the line has been split.\<close>

definition parsed :: "nat set \<Rightarrow> (heap_id \<Rightarrow> u32 list) \<Rightarrow> machine \<Rightarrow> u8 list list \<Rightarrow> u32 \<Rightarrow> kstate \<Rightarrow> bool" where
  "parsed V fl m ws argv t \<longleftrightarrow> argv \<in> blocks V Heap_256 \<and> argv \<notin> allocated V fl Heap_256
     \<and> heap_inv UNIV V (fl(Heap_256 := tl (fl Heap_256))) t
     \<and> allocated V (fl(Heap_256 := tl (fl Heap_256))) Heap_256 = insert argv (allocated V fl Heap_256)
     \<and> (\<forall>i<length ws. \<exists>p. load32 (argv + 4 * of_nat i) t = Inr (p, t) \<and> readable V t p (ws ! i))
     \<and> (\<exists>mm hh. t = (kern m)\<lparr>heaps := hh, mem := mm\<rparr>)"

lemma parse_run:
  assumes "line_ok V fl m inp cs"
  shows "\<exists>argv t. kern_op (tokinize_words inp) m = Inr ((argv, of_nat (length (split_words False cs))), m\<lparr>kern := t\<rparr>)
    \<and> parsed V fl m (split_words False cs) argv t"
proof -
  note l = assms [unfolded line_ok_def]
  from tokinize_words_run [of V fl "kern m" inp cs] l obtain argv t where
    "tokinize_words inp (kern m) = Inr ((argv, of_nat (length (split_words False cs))), t)"
    "argv \<in> blocks V Heap_256" "argv \<notin> allocated V fl Heap_256" "heap_inv UNIV V (fl(Heap_256 := tl (fl Heap_256))) t"
    "allocated V (fl(Heap_256 := tl (fl Heap_256))) Heap_256 = insert argv (allocated V fl Heap_256)"
    "\<forall>i<length (split_words False cs). load32 (argv + 4 * of_nat i) t = Inr (peek load32 t (argv + 4 * of_nat i), t)
       \<and> readable V t (peek load32 t (argv + 4 * of_nat i)) (split_words False cs ! i)"
    "\<exists>mm hh. t = (kern m)\<lparr>heaps := hh, mem := mm\<rparr>" by blast
  then show ?thesis unfolding parsed_def by (intro exI [of _ argv] exI [of _ t]) auto
qed

lemma bytes_nonzero: "CHR 0x00 \<notin> set text \<Longrightarrow> 0 \<notin> set (bytes text)"
proof -
  have "c = CHR 0x00" if "(of_char c :: u8) = 0" for c
  proof -
    have n: "(of_char c :: nat) < 256" by (rule nat_of_char_less_256)
    have "(of_nat (of_char c) :: u8) = 0" using that by (simp only: of_nat_of_char)
    then have "unat (of_nat (of_char c) :: u8) = 0" by simp
    then have "(of_char c :: nat) = 0" using n by (simp add: unat_of_nat)
    then have "(of_char c :: nat) = of_char (CHR 0x00)" by simp
    then show ?thesis by (simp only: of_char_eq_iff)
  qed
  then show "CHR 0x00 \<notin> set text \<Longrightarrow> 0 \<notin> set (bytes text)" by (auto simp: bytes_def)
qed

lemma argument_is_run:
  assumes "parsed V fl m ws argv t" "i < length ws" "CHR 0x00 \<notin> set text"
  shows "argument_is argv i text (m\<lparr>kern := t\<rparr>) = Inr (ws ! i = bytes text, m\<lparr>kern := t\<rparr>)"
proof -
  from assms(1,2) obtain p where p: "load32 (argv + 4 * of_nat i) t = Inr (p, t)" "readable V t p (ws ! i)"
    and inv: "heap_inv UNIV V (fl(Heap_256 := tl (fl Heap_256))) t" by (auto simp: parsed_def)
  have "checkString p (bytes text) t = Inr (ws ! i = bytes text, t)"
    by (rule checkString_run [OF heap_invD(1) [OF inv] p(2) bytes_nonzero [OF assms(3)]])
  then show ?thesis using p(1) by (simp add: argument_is_def argument_def)
qed

lemma argument_number_run:
  assumes "parsed V fl m ws argv t" "i < length ws"
  shows "argument_number argv i (m\<lparr>kern := t\<rparr>) = Inr (\<forall>c\<in>set (ws ! i). digit c, m\<lparr>kern := t\<rparr>)"
proof -
  from assms obtain p where p: "load32 (argv + 4 * of_nat i) t = Inr (p, t)" "readable V t p (ws ! i)"
    and inv: "heap_inv UNIV V (fl(Heap_256 := tl (fl Heap_256))) t" by (auto simp: parsed_def)
  from is_valid_number_run [OF heap_invD(1) [OF inv] p(2)] p(1) show ?thesis
    by (simp add: argument_number_def argument_def)
qed

lemma argument_int_run:
  assumes "parsed V fl m ws argv t" "i < length ws" "\<forall>c\<in>set (ws ! i). digit c" "dec_value 0 (ws ! i) \<le> 2147483647"
  shows "argument_int argv i (m\<lparr>kern := t\<rparr>) = Inr (dec_value 0 (ws ! i), m\<lparr>kern := t\<rparr>)"
proof -
  from assms(1,2) obtain p where p: "load32 (argv + 4 * of_nat i) t = Inr (p, t)" "readable V t p (ws ! i)"
    and inv: "heap_inv UNIV V (fl(Heap_256 := tl (fl Heap_256))) t" by (auto simp: parsed_def)
  from string_to_int_run [OF heap_invD(1) [OF inv] p(2) assms(3)] p(1) assms(4) show ?thesis
    by (simp add: argument_int_def argument_def)
qed

text \<open>A command that has only printed, and the release of the array after it.\<close>

lemma release_array:
  assumes p: "parsed V fl m ws argv t"
  shows "\<exists>t'. free_array argv (m\<lparr>kern := t\<lparr>console := v\<rparr>\<rparr>) = Inr ((), m\<lparr>kern := t'\<rparr>)
    \<and> (\<exists>mm hh. t' = (kern m)\<lparr>heaps := hh, mem := mm, console := v\<rparr>)
    \<and> (\<exists>fl'. heap_inv UNIV V fl' t' \<and> (\<forall>g. allocated V fl' g = allocated V fl g))"
proof -
  let ?fl = "fl(Heap_256 := tl (fl Heap_256))" and ?t = "t\<lparr>console := v\<rparr>"
  have inv: "heap_inv UNIV V ?fl ?t" using p by (simp add: parsed_def)
  have b: "argv \<in> blocks V Heap_256" "argv \<notin> set (?fl Heap_256)" using p by (auto simp: parsed_def allocated_def)
  have reg: "in_region Heap_256 (frame_of argv)" using b(1) by (simp add: blocks_def)
  from heap_domain_free_run [OF inv UNIV_I b] obtain t' where t': "heap_domain_free Heap_256 argv ?t = Inr ((), t')"
      "heap_inv UNIV V (?fl(Heap_256 := argv # ?fl Heap_256)) t'"
    and e: "t' = ?t\<lparr>mem := mem t', heaps := (heaps ?t)(Heap_256 := (heaps ?t Heap_256)\<lparr>next_free_block := argv\<rparr>)\<rparr>" by blast
  have c: "\<exists>mm hh. t' = (kern m)\<lparr>heaps := hh, mem := mm, console := v\<rparr>"
  proof -
    from e obtain mm' hh' where "t' = ?t\<lparr>mem := mm', heaps := hh'\<rparr>" by blast
    moreover from p obtain mm hh where "t = (kern m)\<lparr>heaps := hh, mem := mm\<rparr>" by (auto simp: parsed_def)
    ultimately show ?thesis by (intro exI [of _ mm'] exI [of _ hh']) (rule kstate.equality; simp)
  qed
  have "kfree argv ?t = Inr (0, t')" using t'(1) by (simp add: kfree_def block_region [OF reg])
  then have run: "free_array argv (m\<lparr>kern := ?t\<rparr>) = Inr ((), m\<lparr>kern := t'\<rparr>)" by (simp add: free_array_def)
  have al: "allocated V (?fl(Heap_256 := argv # ?fl Heap_256)) g = allocated V fl g" for g
    using p by (cases "g = Heap_256") (auto simp: parsed_def allocated_def)
  show ?thesis using run t'(2) c al by (intro exI [of _ t']) blast
qed

section \<open>What the text commands show\<close>

text \<open>The lines of a command, each in its colour.\<close>

definition painted :: "(u8 \<times> string) list \<Rightarrow> (u8 \<times> u8) list" where
  "painted lines = concat (map (\<lambda>(col, text). paint col text) lines)"

definition help_text :: "(u8 \<times> string) list" where
  "help_text =
    [(0x0F, nl @ ''Welcome to raxzus shell help screen. The following commands are currently available: '' @ nl),
     (0x0F, ''1. help (''), (0x05, ''Command you called to print this list''), (0x0F, '')'' @ nl),
     (0x0F, ''2. neofetch (''), (0x05, ''used for kernel special ascii art''), (0x0F, '')'' @ nl),
     (0x0F, ''3. calculate (''), (0x05, ''To be implemented so you can do simple calculations''), (0x0F, '')'' @ nl),
     (0x0F, ''4. time (''), (0x05, ''Shows the current time''), (0x0F, '')'' @ nl)]"

definition neofetch_text :: "(u8 \<times> string) list" where
  "neofetch_text =
    [(0x0F, nl),
     (0x02, RaxzusDragon ! 0), (0x0F, nl),
     (0x02, RaxzusDragon ! 1), (0x0F, nl),
     (0x02, RaxzusDragon ! 2), (0x07, ''   OS: RaxzusOS v1.0''), (0x0F, nl),
     (0x02, RaxzusDragon ! 3), (0x07, ''   Kernel: Raxzus_kernel''), (0x0F, nl),
     (0x02, RaxzusDragon ! 4), (0x07, ''   Shell: RaxShell''), (0x0F, nl),
     (0x02, RaxzusDragon ! 5), (0x07, ''   Uptime: Too powerful to measure''), (0x0F, nl),
     (0x02, RaxzusDragon ! 6), (0x0F, nl),
     (0x02, RaxzusDragon ! 7), (0x0F, nl),
     (0x0F, nl)]"

text \<open>The effect on the screen of the commands that only print; \<open>None\<close> for the others.\<close>

definition text_command :: "u8 list \<Rightarrow> (vga \<Rightarrow> vga) option" where
  "text_command w =
     (if w = bytes ''help'' then Some (print_cells (painted help_text))
      else if w = bytes ''neofetch'' then Some (print_cells (painted neofetch_text))
      else if w = bytes ''mem'' then Some (\<lambda>v. v)
      else if w = bytes ''clear'' then Some clearScreen
      else if w \<in> bytes ` {''memtest'', ''time'', ''diskW'', ''diskR''} then None
      else Some (print_cells (painted [(0x0F, nl @ ''Command not found'' @ nl)])))"

lemma kprintf_literal: "CHR ''%'' \<notin> set cs \<Longrightarrow> kprintf_loop rnd cs [] v = Inr (print (bytes cs) v)"
  by (induction cs arbitrary: v) (auto simp: bytes_def print_def)

lemma shows_colored:
  assumes "CHR ''%'' \<notin> set text"
  shows "shows_cells (kprint_color col text []) (paint col text)"
  unfolding shows_cells_def
proof (intro allI impI)
  fix s :: kstate
  assume w: "color (console s) = 0x0F"
  let ?v = "(console s)\<lparr>color := col\<rparr>"
  have "(print (bytes text) ?v)\<lparr>color := 0x0F\<rparr> = print_cells (paint col text) (?v\<lparr>color := 0x0F\<rparr>)"
    unfolding paint_def by (rule print_one_color) simp
  also have "?v\<lparr>color := 0x0F\<rparr> = console s" using w by simp
  finally show "kprint_color col text [] s = Inr ((), s\<lparr>console := print_cells (paint col text) (console s)\<rparr>)"
    using kprintf_literal [OF assms] by (simp add: kprint_color_def set_color_def kprint_def kprintf_def')
qed

lemma shows_literal:
  assumes "CHR ''%'' \<notin> set text"
  shows "shows_cells (kprint text []) (paint 0x0F text)"
  unfolding shows_cells_def
proof (intro allI impI)
  fix s :: kstate
  assume w: "color (console s) = 0x0F"
  have "(print (bytes text) (console s))\<lparr>color := 0x0F\<rparr> = print_cells (paint 0x0F text) ((console s)\<lparr>color := 0x0F\<rparr>)"
    unfolding paint_def by (rule print_one_color [OF w])
  then show "kprint text [] s = Inr ((), s\<lparr>console := print_cells (paint 0x0F text) (console s)\<rparr>)"
    using kprintf_literal [OF assms] w by (simp add: kprint_def kprintf_def')
qed

lemma shows_formatted: "shows_cells (kprint_color col ''%s'' [AStr (bytes t)]) (paint col t)"
  using shows_string [of col t] by (simp add: kprint_color_def kset_color_def)

lemma shows_Cons:
  "shows_cells f (paint col text) \<Longrightarrow> shows_cells g (painted ls) \<Longrightarrow> shows_cells (bnd f (\<lambda>_. g)) (painted ((col, text) # ls))"
  using shows_bnd [of f "paint col text" g "painted ls"] by (simp add: painted_def)

lemma shows_last: "shows_cells f (paint col text) \<Longrightarrow> shows_cells f (painted [(col, text)])"
  by (simp add: painted_def)

lemma shows_help: "shows_cells cmd_help (painted help_text)"
  unfolding cmd_help_def help_text_def COLOR_MAGENTA_def
  by (intro shows_Cons shows_last shows_colored shows_literal) (simp_all add: nl_def)

lemma bnd_ret [simp]: "bnd (ret a) f = f a"
  by (rule ext) (simp add: bnd_def)

text \<open>The text to the right of the dragon.\<close>

definition on_line :: "nat \<Rightarrow> nat \<Rightarrow> string \<Rightarrow> (u8 \<times> string) list" where
  "on_line k i t = (if i = k then [(0x07, t)] else [])"

lemma painted_append: "painted (xs @ ys) = painted xs @ painted ys"
  by (simp add: painted_def)

lemma shows_on_line:
  "CHR ''%'' \<notin> set t \<Longrightarrow>
    shows_cells (if i = k then kprint_color COLOR_LIGHT_GRAY t [] else ret ()) (painted (on_line k i t))"
  using shows_colored [of t "0x07"] by (simp add: on_line_def painted_def shows_ret COLOR_LIGHT_GRAY_def)

fun neofetch_lines :: "nat \<Rightarrow> string list \<Rightarrow> (u8 \<times> string) list" where
  "neofetch_lines i [] = []"
| "neofetch_lines i (line # rest) = (0x02, line) #
    on_line 2 i ''   OS: RaxzusOS v1.0'' @ on_line 3 i ''   Kernel: Raxzus_kernel'' @
    on_line 4 i ''   Shell: RaxShell'' @ on_line 5 i ''   Uptime: Too powerful to measure'' @ (0x0F, nl) # neofetch_lines (i + 1) rest"

lemma shows_neofetch_lines: "shows_cells (neofetch_loop i ls) (painted (neofetch_lines i ls))"
proof (induction i ls rule: neofetch_lines.induct)
  case (2 i line rest)
  have n: "CHR ''%'' \<notin> set nl" by (simp add: nl_def)
  have p: "CHR ''%'' \<notin> set ''   OS: RaxzusOS v1.0''" "CHR ''%'' \<notin> set ''   Kernel: Raxzus_kernel''"
    "CHR ''%'' \<notin> set ''   Shell: RaxShell''" "CHR ''%'' \<notin> set ''   Uptime: Too powerful to measure''"
    by simp_all
  have step: "shows_cells f (painted xs) \<Longrightarrow> shows_cells g (painted ys) \<Longrightarrow> shows_cells (bnd f (\<lambda>_. g)) (painted (xs @ ys))"
    for f g xs ys unfolding painted_append by (rule shows_bnd)
  show ?case
    unfolding neofetch_loop.simps neofetch_lines.simps COLOR_GREEN_def
    by (rule shows_Cons [OF shows_formatted], rule step [OF shows_on_line [OF p(1)]], rule step [OF shows_on_line [OF p(2)]],
        rule step [OF shows_on_line [OF p(3)]], rule step [OF shows_on_line [OF p(4)]], rule shows_Cons [OF shows_literal [OF n] 2])
qed (simp add: painted_def shows_cells_def)

lemma shows_neofetch: "shows_cells cmd_neofetch (painted neofetch_text)"
proof -
  have n: "CHR ''%'' \<notin> set nl" by (simp add: nl_def)
  obtain r0 r1 r2 r3 r4 r5 r6 r7 where R: "RaxzusDragon = [r0, r1, r2, r3, r4, r5, r6, r7]" by (auto simp: RaxzusDragon_def)
  have t: "neofetch_text = (0x0F, nl) # neofetch_lines 0 RaxzusDragon @ [(0x0F, nl)]"
    by (simp add: neofetch_text_def R on_line_def)
  have "shows_cells cmd_neofetch (paint 0x0F nl @ painted (neofetch_lines 0 RaxzusDragon) @ paint 0x0F nl)"
    unfolding cmd_neofetch_def by (intro shows_bnd shows_neofetch_lines shows_literal [OF n])
  then show ?thesis by (simp only: t) (simp add: painted_def)
qed

section \<open>The commands\<close>

lemma of_char_u8_eq: "(of_char c :: u8) = of_char d \<longleftrightarrow> c = d"
proof
  assume "(of_char c :: u8) = of_char d"
  then have "(of_nat (of_char c) :: u8) = of_nat (of_char d)" by (simp only: of_nat_of_char)
  then have "unat (of_nat (of_char c) :: u8) = unat (of_nat (of_char d) :: u8)" by (rule arg_cong)
  moreover have "unat (of_nat (of_char c) :: u8) = of_char c" for c :: char
    using nat_of_char_less_256 [of c] by (simp add: unat_of_nat)
  ultimately have "(of_char c :: nat) = of_char d" by metis
  then show "c = d" by (simp only: of_char_eq_iff)
qed simp

lemma bytes_eq [simp]: "bytes a = bytes b \<longleftrightarrow> a = b"
  using inj_map_eq_map [of "of_char :: char \<Rightarrow> u8" a b] by (auto simp: bytes_def inj_def of_char_u8_eq)

text \<open>The conclusion of the properties of the shell: the screen afterwards and the blocks in use.\<close>

definition shell_done :: "nat set \<Rightarrow> (heap_id \<Rightarrow> u32 list) \<Rightarrow> machine \<Rightarrow> vga \<Rightarrow> u32 set \<Rightarrow> fault + unit \<times> machine \<Rightarrow> bool" where
  "shell_done V fl m v leak r \<longleftrightarrow>
     (\<exists>t fl'. r = Inr ((), m\<lparr>kern := t\<rparr>) \<and> (\<exists>mm hh. t = (kern m)\<lparr>heaps := hh, mem := mm, console := v\<rparr>) \<and> heap_inv UNIV V fl' t
        \<and> allocated V fl' Heap_256 = allocated V fl Heap_256 \<union> leak \<and> leak \<inter> allocated V fl Heap_256 = {}
        \<and> (\<forall>h. h \<noteq> Heap_256 \<longrightarrow> allocated V fl' h = allocated V fl h))"

lemma finish_run:
  assumes p: "parsed V fl m ws argv t"
    and f: "f (m\<lparr>kern := t\<rparr>) = Inr ((), m\<lparr>kern := t\<lparr>console := v\<rparr>\<rparr>)"
  shows "shell_done V fl m v {} (bnd f (\<lambda>_. free_array argv) (m\<lparr>kern := t\<rparr>))"
proof -
  from release_array [OF p, of v] obtain t' fl' where
    "free_array argv (m\<lparr>kern := t\<lparr>console := v\<rparr>\<rparr>) = Inr ((), m\<lparr>kern := t'\<rparr>)"
    "\<exists>mm hh. t' = (kern m)\<lparr>heaps := hh, mem := mm, console := v\<rparr>"
    "heap_inv UNIV V fl' t'" "\<forall>g. allocated V fl' g = allocated V fl g" by blast
  then show ?thesis unfolding shell_done_def using f by (intro exI [of _ t'] exI [of _ fl']) simp
qed

lemma shows_run:
  assumes "shows_cells f cells" "parsed V fl m ws argv t" "color (console (kern m)) = 0x0F"
  shows "kern_op f (m\<lparr>kern := t\<rparr>) = Inr ((), m\<lparr>kern := t\<lparr>console := print_cells cells (console (kern m))\<rparr>\<rparr>)"
proof -
  have "console t = console (kern m)" using assms(2) by (auto simp: parsed_def)
  then show ?thesis using assms(1,3) by (simp add: shows_cells_def)
qed

lemma shows_not_found: "shows_cells (kprint (nl @ ''%eCommand not found'' @ nl) []) (painted [(0x0F, nl @ ''Command not found'' @ nl)])"
proof -
  have "kprint (nl @ ''%eCommand not found'' @ nl) [] = kprint (nl @ ''Command not found'' @ nl) []"
    by (rule ext) (simp add: kprint_def kprintf_def' nl_def)
  then show ?thesis by (simp add: shows_last shows_literal nl_def)
qed

text \<open>The chain of comparisons, for a line whose words are in the array.\<close>

definition dispatch :: "u32 \<Rightarrow> u32 \<Rightarrow> u8 list \<Rightarrow> unit mop" where
  "dispatch argv n w =
     (let finish = (\<lambda>_. free_array argv); finish_if = (\<lambda>go. if go then free_array argv else ret ())
      in if w = bytes ''help'' then bnd (kern_op cmd_help) finish
         else if w = bytes ''neofetch'' then bnd (kern_op cmd_neofetch) finish
         else if w = bytes ''mem'' then bnd (ret ()) finish
         else if w = bytes ''memtest'' then bnd (cmd_memtest argv n) finish
         else if w = bytes ''time'' then bnd print_rtc_time finish
         else if w = bytes ''clear'' then bnd (kern_op (modify (\<lambda>s. s\<lparr>console := clearScreen (console s)\<rparr>))) finish
         else if w = bytes ''diskW'' then bnd (cmd_diskW argv n) finish_if
         else if w = bytes ''diskR'' then bnd (cmd_diskR argv n) finish_if
         else bnd (putf (nl @ ''%eCommand not found'' @ nl) []) finish)"

lemma process_input_parsed:
  assumes line: "line_ok V fl m inp cs"
  shows "\<exists>argv t. parsed V fl m (split_words False cs) argv t \<and>
    kern_op (tokinize_words inp) m = Inr ((argv, of_nat (length (split_words False cs))), m\<lparr>kern := t\<rparr>) \<and>
    process_input inp m =
      dispatch argv (of_nat (length (split_words False cs))) (hd (split_words False cs)) (m\<lparr>kern := t\<rparr>)"
proof -
  let ?ws = "split_words False cs"
  from parse_run [OF line] obtain argv t where
    t: "kern_op (tokinize_words inp) m = Inr ((argv, of_nat (length ?ws)), m\<lparr>kern := t\<rparr>)" and p: "parsed V fl m ?ws argv t" by blast
  have "0 < length ?ws" by simp
  note arg = argument_is_run [OF p this]
  have hd: "?ws ! 0 = hd ?ws" by (simp add: hd_conv_nth)
  have z: "CHR 0x00 \<notin> set ''help''" "CHR 0x00 \<notin> set ''neofetch''" "CHR 0x00 \<notin> set ''mem''" "CHR 0x00 \<notin> set ''memtest''"
    "CHR 0x00 \<notin> set ''time''" "CHR 0x00 \<notin> set ''clear''" "CHR 0x00 \<notin> set ''diskW''" "CHR 0x00 \<notin> set ''diskR''" by simp_all
  have test: "bnd (argument_is argv 0 c) (\<lambda>b. if b then x else y) (m\<lparr>kern := t\<rparr>)
      = (if hd ?ws = bytes c then x (m\<lparr>kern := t\<rparr>) else y (m\<lparr>kern := t\<rparr>))"
    if "CHR 0x00 \<notin> set c" for c and x y :: "unit mop"
    using arg [OF that] hd by simp
  have app: "(if b then x else y) m' = (if b then x m' else y m')" for b m' and x y :: "unit mop" by simp
  show ?thesis
    by (rule exI [of _ argv], rule exI [of _ t], rule conjI [OF p], rule conjI [OF t],
        simp only: dispatch_def, subst process_input_def, subst bnd_run, simp only: t sum.case prod.case Let_def, simp only: z [THEN test] app)
qed

text \<open>
  C21: The commands that only print.  For a command line in the kernel's data of at most 64 words whose first word is
  \<^verbatim>\<open>help\<close>, \<^verbatim>\<open>neofetch\<close>, \<^verbatim>\<open>mem\<close>, \<^verbatim>\<open>clear\<close> or no command, \<^verbatim>\<open>process_input\<close> returns without a fault,
  the screen shows exactly the text of the command (and "Command not found" for no command), nothing else of the machine changes but the kernel's memory, and the heap
  is left as it was: its invariant holds and exactly the same blocks are in use, so the array of the words has been released.
\<close>

theorem shell_text_commands:
  assumes line: "line_ok V fl m inp cs" and white: "color (console (kern m)) = 0x0F"
    and cmd: "text_command (hd (split_words False cs)) = Some screen"
  shows "shell_done V fl m (screen (console (kern m))) {} (process_input inp m)"
proof -
  let ?w = "hd (split_words False cs)"
  from process_input_parsed [OF line] obtain argv t where
    p: "parsed V fl m (split_words False cs) argv t"
    and run: "process_input inp m = dispatch argv (of_nat (length (split_words False cs))) ?w (m\<lparr>kern := t\<rparr>)" by blast
  have con: "console t = console (kern m)" using p by (auto simp: parsed_def)
  then have same: "t\<lparr>console := console (kern m)\<rparr> = t" by (metis kstate.surjective kstate.update_convs(1))
  have fin: "shell_done V fl m (print_cells cells (console (kern m))) {} (bnd (kern_op f) (\<lambda>_. free_array argv) (m\<lparr>kern := t\<rparr>))"
    if "shows_cells f cells" for f cells by (rule finish_run [OF p], rule shows_run [OF that p white])
  consider "?w = bytes ''help''" | "?w = bytes ''neofetch''" | "?w = bytes ''mem''" | "?w = bytes ''clear''"
    | "?w \<notin> bytes ` {''help'', ''neofetch'', ''mem'', ''clear'', ''memtest'', ''time'', ''diskW'', ''diskR''}"
    using cmd by (auto simp: text_command_def split: if_splits)
  then show ?thesis
  proof cases
    case 1
    then show ?thesis using cmd fin [OF shows_help] run by (simp add: dispatch_def Let_def text_command_def)
  next
    case 2
    then show ?thesis using cmd fin [OF shows_neofetch] run by (simp add: dispatch_def Let_def text_command_def)
  next
    case 3
    then show ?thesis using cmd finish_run [OF p, of "ret ()" "console (kern m)"] run by (auto simp: dispatch_def Let_def text_command_def same)
  next
    case 4
    then show ?thesis using cmd finish_run [OF p, of "kern_op (modify (\<lambda>s. s\<lparr>console := clearScreen (console s)\<rparr>))" "clearScreen (console (kern m))"] run con
      by (simp add: dispatch_def Let_def text_command_def)
  next
    case 5
    then show ?thesis using cmd fin [OF shows_not_found] run by (simp add: dispatch_def Let_def text_command_def putf_def)
  qed
qed

text \<open>A machine on the booted kernel with the command line \<open>cs\<close> at \<^verbatim>\<open>0xC0001000\<close>.\<close>

lemma line_state_image:
  assumes "0 \<notin> set cs" "length cs < 4096" "length (split_words False cs) \<le> 64"
  shows "\<exists>fl m. line_ok premapped fl m 0xC0001000 cs \<and> color (console (kern m)) = 0x0F \<and> image_addrs (kern m) = image_addrs boot_heap
    \<and> (\<exists>mm v. kern m = boot_heap\<lparr>mem := mm, console := v\<rparr>)"
proof -
  from string_state_image [OF assms(1,2)] obtain fl s where
    s: "heap_inv UNIV premapped fl s" "\<forall>h. next_free_block (heaps s h) \<noteq> 0" "cstr (bpeek load32 s) 0xC0001000 cs"
      "\<forall>a\<in>span 0xC0001000 (Suc (length cs)). word_base a \<in> image_addrs s" "image_addrs s = image_addrs boot_heap" "s\<lparr>mem := mem boot_heap\<rparr> = boot_heap" by blast
  let ?s = "s\<lparr>console := blank_console\<rparr>" and ?m = "undefined :: machine"
  have sb: "s = boot_heap\<lparr>mem := mem s\<rparr>" by (rule mem_only_frame [OF s(6)])
  then have bh: "\<exists>mm v. ?s = boot_heap\<lparr>mem := mm, console := v\<rparr>" by (metis (no_types))
  have pk: "peek load32 ?s = peek load32 s" by (rule peek_cong) simp_all
  then have "bpeek load32 ?s = bpeek load32 s" by (intro ext) (simp add: bpeek_def)
  moreover have "image_addrs ?s = image_addrs s" by (simp add: image_addrs_def dir_of_def)
  ultimately have "line_ok premapped fl (?m\<lparr>kern := ?s\<rparr>) 0xC0001000 cs"
    using s assms by (simp add: line_ok_def)
  then show ?thesis by (intro exI [of _ fl] exI [of _ "?m\<lparr>kern := ?s\<rparr>"]) (use bh s(5) \<open>image_addrs ?s = image_addrs s\<close> in \<open>simp add: blank_console_def\<close>)
qed

lemma line_state:
  assumes "0 \<notin> set cs" "length cs < 4096" "length (split_words False cs) \<le> 64"
  shows "\<exists>fl m. line_ok premapped fl m 0xC0001000 cs \<and> color (console (kern m)) = 0x0F"
  using line_state_image [OF assms] by blast

theorem shell_text_commands_witness:
  "\<exists>fl m. shell_done premapped fl m (print_cells (painted neofetch_text) (console (kern m))) {} (process_input 0xC0001000 m)"
proof -
  let ?cs = "bytes ''neofetch now''"
  have sw: "split_words False ?cs = [bytes ''neofetch'', bytes ''now'']" by (simp add: bytes_def)
  from line_state [of ?cs] obtain fl m where m: "line_ok premapped fl m 0xC0001000 ?cs" "color (console (kern m)) = 0x0F"
    unfolding sw by (auto simp: bytes_def)
  have "text_command (hd (split_words False ?cs)) = Some (print_cells (painted neofetch_text))"
    unfolding sw by (simp add: text_command_def)
  from shell_text_commands [OF m this] show ?thesis by blast
qed

text \<open>
  C38: The early returns of the disk commands skip the release of the array.  A \<^verbatim>\<open>diskW\<close> without exactly three arguments,
  or a \<^verbatim>\<open>diskR\<close> without exactly two, prints its message and returns with one more block of \<^verbatim>\<open>Heap_256\<close> in use than before,
  the array of the words, which no pointer of the kernel reaches any more.
\<close>

theorem shell_usage_error_leaks:
  assumes line: "line_ok V fl m inp cs"
    and w: "hd (split_words False cs) = bytes ''diskW'' \<and> length (split_words False cs) \<noteq> 4
      \<or> hd (split_words False cs) = bytes ''diskR'' \<and> length (split_words False cs) \<noteq> 3"
  shows "\<exists>v argv. shell_done V fl m v {argv} (process_input inp m)"
proof -
  let ?ws = "split_words False cs" and ?n = "of_nat (length (split_words False cs)) :: u32"
  from process_input_parsed [OF line] obtain argv t where
    p: "parsed V fl m ?ws argv t" and run: "process_input inp m = dispatch argv ?n (hd ?ws) (m\<lparr>kern := t\<rparr>)" by blast
  have small: "length ?ws < 2 ^ 32" using line by (simp add: line_ok_def)
  have n: "?n \<noteq> of_nat k" if "length ?ws \<noteq> k" "k < 2 ^ 32" for k
  proof
    assume "?n = of_nat k"
    then have "unat ?n = unat (of_nat k :: u32)" by (rule arg_cong)
    then show False using that small by (simp add: unat_of_nat)
  qed
  have usage: "\<exists>v. usage_error msg (m\<lparr>kern := t\<rparr>) = Inr ((), m\<lparr>kern := t\<lparr>console := v\<rparr>\<rparr>)" if "fmt_ok (nl @ msg @ nl) []" for msg
    using that by (auto simp: usage_error_def)
  have f: "fmt_ok (nl @ ''This commande requires 3 flag inputs (LBA, Segment, what to save)'' @ nl) []"
    "fmt_ok (nl @ ''This commande requires 2 flag inputs (LBA, Segment)'' @ nl) []" by (simp_all add: nl_def)
  from w have "\<exists>v. process_input inp m = Inr ((), m\<lparr>kern := t\<lparr>console := v\<rparr>\<rparr>)"
  proof (elim disjE conjE)
    assume c: "hd ?ws = bytes ''diskW''" "length ?ws \<noteq> 4"
    then have "?n \<noteq> 4" using n [OF c(2)] by simp
    then have "process_input inp m = bnd (bnd (usage_error ''This commande requires 3 flag inputs (LBA, Segment, what to save)'') (\<lambda>_. ret False))
        (\<lambda>go. if go then free_array argv else ret ()) (m\<lparr>kern := t\<rparr>)"
      unfolding run c(1) dispatch_def cmd_diskW_def Let_def by simp
    then show ?thesis using usage [OF f(1)] by (auto simp only: bnd_run sum.case prod.case ret_run if_False)
  next
    assume c: "hd ?ws = bytes ''diskR''" "length ?ws \<noteq> 3"
    then have "?n \<noteq> 3" using n [OF c(2)] by simp
    then have "process_input inp m = bnd (bnd (usage_error ''This commande requires 2 flag inputs (LBA, Segment)'') (\<lambda>_. ret False))
        (\<lambda>go. if go then free_array argv else ret ()) (m\<lparr>kern := t\<rparr>)"
      unfolding run c(1) dispatch_def cmd_diskR_def Let_def by simp
    then show ?thesis using usage [OF f(2)] by (auto simp only: bnd_run sum.case prod.case ret_run if_False)
  qed
  then obtain v where v: "process_input inp m = Inr ((), m\<lparr>kern := t\<lparr>console := v\<rparr>\<rparr>)" by blast
  show ?thesis unfolding shell_done_def v using p
    by (intro exI [of _ v] exI [of _ argv] exI [of _ "t\<lparr>console := v\<rparr>"] exI [of _ "fl(Heap_256 := tl (fl Heap_256))"])
      (auto simp: parsed_def allocated_def)
qed

theorem shell_usage_error_leaks_witness:
  "\<exists>fl m v argv. shell_done premapped fl m v {argv} (process_input 0xC0001000 m)"
proof -
  let ?cs = "bytes ''diskR 49''"
  have sw: "split_words False ?cs = [bytes ''diskR'', bytes ''49'']" by (simp add: bytes_def)
  from line_state [of ?cs] obtain fl m where m: "line_ok premapped fl m 0xC0001000 ?cs" "color (console (kern m)) = 0x0F"
    unfolding sw by (auto simp: bytes_def)
  from shell_usage_error_leaks [OF m(1)] show ?thesis unfolding sw by auto
qed

text \<open>The checks of the disk commands on arguments in range.\<close>

lemma disk_arguments_run:
  assumes p: "parsed V fl m ws argv t" and n: "2 < length ws"
    and d: "\<forall>c\<in>set (ws ! 1). digit c" "\<forall>c\<in>set (ws ! 2). digit c" "dec_value 0 (ws ! 1) \<le> 2000" "dec_value 0 (ws ! 2) \<le> 255"
  shows "disk_arguments_ok argv (m\<lparr>kern := t\<rparr>) = Inr (True, m\<lparr>kern := t\<rparr>)"
    "argument_int argv 1 (m\<lparr>kern := t\<rparr>) = Inr (dec_value 0 (ws ! 1), m\<lparr>kern := t\<rparr>)"
    "argument_int argv 2 (m\<lparr>kern := t\<rparr>) = Inr (dec_value 0 (ws ! 2), m\<lparr>kern := t\<rparr>)"
    "0 \<le> dec_value 0 (ws ! 1)" "0 \<le> dec_value 0 (ws ! 2)"
proof -
  have l: "1 < length ws" "2 < length ws" using n by simp_all
  show v: "argument_int argv 1 (m\<lparr>kern := t\<rparr>) = Inr (dec_value 0 (ws ! 1), m\<lparr>kern := t\<rparr>)"
    "argument_int argv 2 (m\<lparr>kern := t\<rparr>) = Inr (dec_value 0 (ws ! 2), m\<lparr>kern := t\<rparr>)"
    using argument_int_run [OF p l(1) d(1)] argument_int_run [OF p l(2) d(2)] d(3,4) by simp_all
  have nn: "0 \<le> dec_value 0 cs" if "\<forall>c\<in>set cs. digit c" for cs
    by (rule dec_value_mono [OF order.refl that])
  then show nn': "0 \<le> dec_value 0 (ws ! 1)" "0 \<le> dec_value 0 (ws ! 2)" using d(1,2) by blast+
  have b: "argument_number argv 1 (m\<lparr>kern := t\<rparr>) = Inr (True, m\<lparr>kern := t\<rparr>)"
    "argument_number argv 2 (m\<lparr>kern := t\<rparr>) = Inr (True, m\<lparr>kern := t\<rparr>)"
    using argument_number_run [OF p l(1)] argument_number_run [OF p l(2)] d(1,2) by simp_all
  show "disk_arguments_ok argv (m\<lparr>kern := t\<rparr>) = Inr (True, m\<lparr>kern := t\<rparr>)"
    using v b d(3,4) nn' by (simp add: disk_arguments_ok_def or_else_def bnd_run)
qed

text \<open>\<^verbatim>\<open>diskR\<close> checks its arguments and then reads ten sectors at 49 into a buffer of \<open>512 * Segment\<close> bytes.\<close>

lemma diskR_ignores_arguments:
  assumes p: "parsed V fl m ws argv t" and n: "length ws = 3"
    and d: "\<forall>c\<in>set (ws ! 1). digit c" "\<forall>c\<in>set (ws ! 2). digit c" "dec_value 0 (ws ! 1) \<le> 2000" "dec_value 0 (ws ! 2) \<le> 255"
  shows "cmd_diskR argv 3 (m\<lparr>kern := t\<rparr>) =
    bnd (kern_op (kmalloc (word_of_int (dec_value 0 (ws ! 2) * 512)))) (\<lambda>buffer.
    bnd (ata_read_sector 49 10 buffer) (\<lambda>_.
    bnd (for_loop (print_byte buffer) 0 1024) (\<lambda>_. ret True))) (m\<lparr>kern := t\<rparr>)"
  using disk_arguments_run [OF p _ d] n by (simp add: cmd_diskR_def)

end
