(* ===== verification/Keyboard.thy ===== *)
theory Keyboard
  imports Shell
begin

unbundle bit_operations_syntax

text \<open>
  The keyboard driver (\<^verbatim>\<open>lib/keyboard.c\<close>) with its key maps (\<^verbatim>\<open>lib/keymap.c\<close>): the state of the shift
  keys, the command buffer and the hand-over of a line to the shell.
\<close>

section \<open>Key maps\<close>

text \<open>The first 58 entries of each table of 128; the rest is zero.  \<^verbatim>\<open>char\<close> is a byte, signed where it is promoted.\<close>

definition keymap_lower :: "u8 list" where
  "keymap_lower =
     [0, 27] @ bytes ''1234567890+'' @ [0xB4, 8, 9] @
     bytes ''qwertyuiop'' @ [0xE5, 0xA8, 10, 0] @
     bytes ''asdfghjkl'' @ [0xF6, 0xE4, 0xA7, 0, 39] @
     bytes ''zxcvbnm,.-'' @ [0, 42, 0, 32] @ replicate 70 0"

definition keymap_upper :: "u8 list" where
  "keymap_upper =
     [0, 27] @ bytes ''!\"#'' @ [0xA4] @ bytes ''%&/()=?'' @ [96, 8, 9] @
     bytes ''QWERTYUIOP'' @ [0xC5, 94, 10, 0] @
     bytes ''ASDFGHJKL'' @ [0xD6, 0xC4, 0xBD, 0, 42] @
     bytes ''ZXCVBNM;:_'' @ [0, 42, 0, 32] @ replicate 70 0"

definition scancode_to_ascii :: "u8 \<Rightarrow> bool \<Rightarrow> u8" where
  "scancode_to_ascii scancode shift_pressed =
     (if scancode \<ge> 128 then 0
      else if shift_pressed then keymap_upper ! unat scancode
      else keymap_lower ! unat scancode)"

section \<open>The interrupt handler\<close>

definition KEYBOARD_DATA_PORT :: u16 where "KEYBOARD_DATA_PORT = 0x60"
definition LEFT_SHIFT_PRESS :: u8 where "LEFT_SHIFT_PRESS = 0x2A"
definition LEFT_SHIFT_RELEASE :: u8 where "LEFT_SHIFT_RELEASE = 0xAA"
definition RIGHT_SHIFT_PRESS :: u8 where "RIGHT_SHIFT_PRESS = 0x36"
definition RIGHT_SHIFT_RELEASE :: u8 where "RIGHT_SHIFT_RELEASE = 0xB6"

definition get_buffer_position :: "int mop" where
  "get_buffer_position = gets buffer_pos"

text \<open>\<^verbatim>\<open>command_buffer[buffer_pos] = c\<close>.\<close>

definition store_command :: "u8 \<Rightarrow> unit mop" where
  "store_command c = bnd (gets (\<lambda>m. command_buffer m + word_of_int (buffer_pos m))) (\<lambda>a. kern_op (store8 a c))"

definition set_buffer_pos :: "int \<Rightarrow> unit mop" where
  "set_buffer_pos n = modify (\<lambda>m. m\<lparr>buffer_pos := n\<rparr>)"

definition enter_key :: "unit mop" where
  "enter_key =
     bnd (store_command 0) (\<lambda>_.
     bnd (gets command_buffer) (\<lambda>line.
     bnd (process_input line) (\<lambda>_.
     bnd (set_buffer_pos 0) (\<lambda>_.
     putf_color COLOR_CYAN ''RaxzusOS > '' []))))"

definition backspace_key :: "unit mop" where
  "backspace_key =
     bnd get_buffer_position (\<lambda>n.
     bnd (kern_op (modify (\<lambda>s. s\<lparr>console := backspace n (console s)\<rparr>))) (\<lambda>_.
     bnd (gets buffer_pos) (\<lambda>pos.
     if pos > 0 then set_buffer_pos (pos - 1) else ret ())))"

definition character_key :: "u8 \<Rightarrow> unit mop" where
  "character_key ascii =
     bnd (gets buffer_pos) (\<lambda>pos.
     if pos < 256 then
       bnd (store_command ascii) (\<lambda>_.
       bnd (putf ''%c'' [AInt (scast ascii)]) (\<lambda>_.
       set_buffer_pos (pos + 1)))
     else set_buffer_pos 256)"

definition regular_key :: "u8 \<Rightarrow> unit mop" where
  "regular_key scancode =
     (if scancode AND 0x80 = 0 then
        bnd (gets (\<lambda>m. left_shift_pressed m \<or> right_shift_pressed m)) (\<lambda>shift_active.
        let ascii = scancode_to_ascii scancode shift_active in
        if ascii \<noteq> 0 then
          if ascii = 10 then enter_key
          else if ascii = 8 then backspace_key
          else character_key ascii
        else ret ())
      else ret ())"

definition keyboard_interrupt_handler :: "unit mop" where
  "keyboard_interrupt_handler =
     bnd (inb KEYBOARD_DATA_PORT) (\<lambda>scancode.
     bnd (if scancode = LEFT_SHIFT_PRESS then modify (\<lambda>m. m\<lparr>left_shift_pressed := True\<rparr>)
          else if scancode = LEFT_SHIFT_RELEASE then modify (\<lambda>m. m\<lparr>left_shift_pressed := False\<rparr>)
          else if scancode = RIGHT_SHIFT_PRESS then modify (\<lambda>m. m\<lparr>right_shift_pressed := True\<rparr>)
          else if scancode = RIGHT_SHIFT_RELEASE then modify (\<lambda>m. m\<lparr>right_shift_pressed := False\<rparr>)
          else regular_key scancode) (\<lambda>_.
     pic_send_eoi 1))"

definition init_keyboard :: "unit mop" where
  "init_keyboard =
     bnd (putf_color COLOR_WHITE ''[INIT] Keyboard driver initialized........'' []) (\<lambda>_.
     putf_color COLOR_GREEN (''[OK]'' @ nl) [])"

lemma length_keymaps: "length keymap_lower = 128" "length keymap_upper = 128"
  by (simp_all add: keymap_lower_def keymap_upper_def bytes_def)

section \<open>An abstract line editor\<close>

record editor =
  ed_left :: bool
  ed_right :: bool
  ed_line :: "u8 list"
  ed_screen :: vga

definition prompt :: "(u8 \<times> u8) list" where
  "prompt = paint 0x03 ''RaxzusOS > ''"

text \<open>\<open>None\<close>: a line that the buffer or the array of words cannot hold, or a command that does more than print.\<close>

definition edit_enter :: "editor \<Rightarrow> editor option" where
  "edit_enter e =
     (if length (ed_line e) < 256 \<and> length (split_words False (ed_line e)) \<le> 64 then
        case text_command (hd (split_words False (ed_line e))) of
          None \<Rightarrow> None
        | Some screen \<Rightarrow> Some (e\<lparr>ed_line := [], ed_screen := print_cells prompt (screen (ed_screen e))\<rparr>)
      else None)"

definition edit_key :: "u8 \<Rightarrow> editor \<Rightarrow> editor option" where
  "edit_key c e =
     (if c = 0x2A then Some (e\<lparr>ed_left := True\<rparr>)
      else if c = 0xAA then Some (e\<lparr>ed_left := False\<rparr>)
      else if c = 0x36 then Some (e\<lparr>ed_right := True\<rparr>)
      else if c = 0xB6 then Some (e\<lparr>ed_right := False\<rparr>)
      else
        let a = scancode_to_ascii c (ed_left e \<or> ed_right e) in
        if a = 0 then Some e
        else if a = 10 then edit_enter e
        else if a = 8 then Some (e\<lparr>ed_line := butlast (ed_line e), ed_screen := backspace (int (length (ed_line e))) (ed_screen e)\<rparr>)
        else if length (ed_line e) < 256 then Some (e\<lparr>ed_line := ed_line e @ [a], ed_screen := print_cell (a, 0x0F) (ed_screen e)\<rparr>)
        else Some e)"

text \<open>The driver's state that stands for a state of the editor.\<close>

definition keyboard_state :: "nat set \<Rightarrow> editor \<Rightarrow> machine \<Rightarrow> bool" where
  "keyboard_state V e m \<longleftrightarrow> left_shift_pressed m = ed_left e \<and> right_shift_pressed m = ed_right e
     \<and> buffer_pos m = int (length (ed_line e)) \<and> length (ed_line e) \<le> 256 \<and> 0 \<notin> set (ed_line e)
     \<and> (\<forall>i<length (ed_line e). bpeek load32 (kern m) (command_buffer m + of_nat i) = ed_line e ! i)
     \<and> (\<forall>a\<in>span (command_buffer m) 256. word_base a \<in> image_addrs (kern m))
     \<and> (\<exists>fl. heap_inv UNIV V fl (kern m)) \<and> next_free_block (heaps (kern m) Heap_256) \<noteq> 0
     \<and> console (kern m) = ed_screen e \<and> color (ed_screen e) = 0x0F"

section \<open>Storing into the buffer\<close>

lemma store_image:
  assumes inv: "heap_inv UNIV V fl s" and a: "word_base a \<in> image_addrs s"
  shows "\<exists>t. store8 a c s = Inr ((), t) \<and> heap_inv UNIV V fl t \<and> (\<exists>mm. t = s\<lparr>mem := mm\<rparr>)
    \<and> (\<forall>b. word_base b \<in> image_addrs s \<longrightarrow> bpeek load32 t b = (if b = a then c else bpeek load32 s b))"
proof -
  note vm = heap_invD(1) [OF inv]
  have ok: "mem_only_ok UNIV V s s" using vm by simp
  have ab: "a \<in> byte_addrs V s" using a by (simp add: byte_addrs_def ram_addrs_def)
  from store8_run [OF ok ab, of c] obtain t where
    t: "store8 a c s = Inr ((), t)" "mem_only_ok UNIV V s t"
      "\<And>b. b \<in> byte_addrs V s \<Longrightarrow> bpeek load32 t b = (if b = a then c else bpeek load32 s b)"
      "\<And>w. w \<in> ram_addrs V s \<Longrightarrow> w \<noteq> word_base a \<Longrightarrow> peek load32 t w = peek load32 s w" by blast
  have "heap_inv UNIV V fl t"
  proof (rule heap_inv_writes [OF inv t(2)])
    fix g b assume "b \<in> set (fl g)"
    then have "b \<in> blocks V g" using domain_okD(8) [OF heap_invD(2) [OF inv UNIV_I]] by blast
    note bd = blocks_addr [OF this]
    show "peek load32 t b = peek load32 s b"
      by (rule t(4)) (use bd a data_below_image [OF vm bd] in \<open>auto simp: ram_addrs_def\<close>)
  qed
  moreover have "\<exists>mm. t = s\<lparr>mem := mm\<rparr>"
  proof (rule exI [of _ "mem t"])
    from t(2) have "t\<lparr>mem := mem s\<rparr> = s" by blast
    then have "(t\<lparr>mem := mem s\<rparr>)\<lparr>mem := mem t\<rparr> = s\<lparr>mem := mem t\<rparr>" by (rule arg_cong)
    then show "t = s\<lparr>mem := mem t\<rparr>" by simp
  qed
  ultimately show ?thesis using t(1,3) by (intro exI [of _ t]) (auto simp: byte_addrs_def ram_addrs_def)
qed

lemma keyboard_stateD:
  assumes "keyboard_state V e m"
  shows "left_shift_pressed m = ed_left e" "right_shift_pressed m = ed_right e"
    "buffer_pos m = int (length (ed_line e))" "length (ed_line e) \<le> 256" "0 \<notin> set (ed_line e)"
    "i < length (ed_line e) \<Longrightarrow> bpeek load32 (kern m) (command_buffer m + of_nat i) = ed_line e ! i"
    "a \<in> span (command_buffer m) 256 \<Longrightarrow> word_base a \<in> image_addrs (kern m)"
    "\<exists>fl. heap_inv UNIV V fl (kern m)" "next_free_block (heaps (kern m) Heap_256) \<noteq> 0"
    "console (kern m) = ed_screen e" "color (ed_screen e) = 0x0F"
  using assms by (auto simp: keyboard_state_def)

lemma buffer_span: "i < 256 \<Longrightarrow> p + of_nat i \<in> span p 256"
  by (auto simp: span_def)

lemma store_command_run:
  assumes ks: "keyboard_state V e m" and room: "length (ed_line e) < 256"
  shows "\<exists>t mm. store_command c m = Inr ((), m\<lparr>kern := t\<rparr>) \<and> t = (kern m)\<lparr>mem := mm\<rparr> \<and> (\<exists>fl. heap_inv UNIV V fl t)
    \<and> (\<forall>i<Suc (length (ed_line e)). bpeek load32 t (command_buffer m + of_nat i) = (ed_line e @ [c]) ! i)"
proof -
  note k = keyboard_stateD [OF ks]
  let ?n = "length (ed_line e)" and ?p = "command_buffer m"
  from k(8) obtain fl where fl: "heap_inv UNIV V fl (kern m)" by blast
  from store_image [OF fl k(7) [OF buffer_span [OF room]], of c] obtain t mm where
    t: "store8 (?p + of_nat ?n) c (kern m) = Inr ((), t)" "heap_inv UNIV V fl t" "t = (kern m)\<lparr>mem := mm\<rparr>"
      "\<And>b. word_base b \<in> image_addrs (kern m) \<Longrightarrow> bpeek load32 t b = (if b = ?p + of_nat ?n then c else bpeek load32 (kern m) b)" by blast
  have "bpeek load32 t (?p + of_nat i) = (ed_line e @ [c]) ! i" if "i < Suc ?n" for i
  proof -
    have i: "i < 256" using that room by simp
    have "of_nat i = (of_nat ?n :: u32) \<longleftrightarrow> i = ?n"
      using i room by (auto dest!: arg_cong [where f = unat] simp: unat_of_nat)
    then show ?thesis using t(4) [OF k(7) [OF buffer_span [OF i]]] k(6) [of i] that
      by (auto simp: nth_append less_Suc_eq)
  qed
  moreover have "store_command c m = Inr ((), m\<lparr>kern := t\<rparr>)" using t(1) k(3) by (simp add: store_command_def)
  ultimately show ?thesis using t(2,3) by blast
qed

section \<open>One key\<close>

definition key_done :: "nat set \<Rightarrow> editor \<Rightarrow> machine \<Rightarrow> unit mop \<Rightarrow> bool" where
  "key_done V e' m f \<longleftrightarrow> (\<exists>m'. f m = Inr ((), m') \<and> keyboard_state V e' m' \<and> trace m' = trace m \<and> port_in m' = port_in m
     \<and> command_buffer m' = command_buffer m)"

lemma keyboard_state_io [simp]:
  "keyboard_state V e (m\<lparr>trace := tr\<rparr>) = keyboard_state V e m"
  "keyboard_state V e (m\<lparr>port_in := ports\<rparr>) = keyboard_state V e m"
  by (simp_all add: keyboard_state_def)

lemma bpeek_console [simp]: "bpeek load32 (s\<lparr>console := v\<rparr>) = bpeek load32 s"
proof -
  have "peek load32 (s\<lparr>console := v\<rparr>) = peek load32 s" by (rule peek_cong) simp_all
  then show ?thesis by (intro ext) (simp add: bpeek_def)
qed

lemma image_addrs_record [simp]:
  "image_addrs (s\<lparr>console := v\<rparr>) = image_addrs s" "image_addrs (s\<lparr>mem := mm\<rparr>) = image_addrs s"
  "image_addrs (s\<lparr>heaps := hh\<rparr>) = image_addrs s"
  by (simp_all add: image_addrs_def dir_of_def)

lemma color_backspace [simp]: "color (backspace n v) = color v"
  by (simp add: backspace_def Let_def)

lemma ucast_scast_u8 [simp]: "ucast (scast (c :: u8) :: u32) = c"
  by (rule bit_word_eqI) (auto simp: bit_simps)

lemma character_key_run:
  assumes ks: "keyboard_state V e m" and a: "a \<noteq> 0"
  shows "key_done V (if length (ed_line e) < 256 then e\<lparr>ed_line := ed_line e @ [a], ed_screen := print_cell (a, 0x0F) (ed_screen e)\<rparr> else e)
    m (character_key a)"
proof (cases "length (ed_line e) < 256")
  case True
  note k = keyboard_stateD [OF ks]
  from store_command_run [OF ks True, of a] obtain t mm where
    t: "store_command a m = Inr ((), m\<lparr>kern := t\<rparr>)" "t = (kern m)\<lparr>mem := mm\<rparr>" "\<exists>fl. heap_inv UNIV V fl t"
      "\<And>i. i < Suc (length (ed_line e)) \<Longrightarrow> bpeek load32 t (command_buffer m + of_nat i) = (ed_line e @ [a]) ! i" by blast
  let ?v = "print_cell (a, 0x0F) (ed_screen e)"
  have v: "console_after ''%c'' [AInt (scast a)] (console t) = ?v"
    using k(10,11) t(2) by (simp add: console_after_def kprintf_def' print_cell_def)
  have run: "character_key a m = Inr ((), m\<lparr>kern := t\<lparr>console := ?v\<rparr>, buffer_pos := buffer_pos m + 1\<rparr>)"
    using True k(3) t(1) by (simp add: character_key_def set_buffer_pos_def v)
  have "keyboard_state V (e\<lparr>ed_line := ed_line e @ [a], ed_screen := ?v\<rparr>) (m\<lparr>kern := t\<lparr>console := ?v\<rparr>, buffer_pos := buffer_pos m + 1\<rparr>)"
    using k t(2-4) True a by (simp add: keyboard_state_def print_cell_def)
  then show ?thesis using run True unfolding key_done_def by simp
next
  case False
  note k = keyboard_stateD [OF ks]
  have "length (ed_line e) = 256" using k(4) False by simp
  then have b: "buffer_pos m = 256" using k(3) by simp
  then have "character_key a m = Inr ((), m\<lparr>buffer_pos := buffer_pos m\<rparr>)" by (simp add: character_key_def set_buffer_pos_def)
  then have "character_key a m = Inr ((), m)" by simp
  then show ?thesis using False ks unfolding key_done_def by simp
qed

lemma backspace_key_run:
  assumes ks: "keyboard_state V e m"
  shows "key_done V (e\<lparr>ed_line := butlast (ed_line e), ed_screen := backspace (int (length (ed_line e))) (ed_screen e)\<rparr>) m backspace_key"
proof -
  note k = keyboard_stateD [OF ks]
  let ?v = "backspace (int (length (ed_line e))) (ed_screen e)"
  let ?m = "m\<lparr>kern := (kern m)\<lparr>console := ?v\<rparr>\<rparr>"
  have run: "backspace_key m = (if 0 < buffer_pos m then set_buffer_pos (buffer_pos m - 1) else ret ()) ?m"
    using k(3,10) by (simp add: backspace_key_def get_buffer_position_def)
  have z: "0 \<notin> set (butlast (ed_line e))" using k(5) by (auto dest: in_set_butlastD)
  have l: "bpeek load32 (kern m) (command_buffer m + of_nat i) = butlast (ed_line e) ! i" if "i < length (butlast (ed_line e))" for i
    using that k(6) [of i] by (simp add: nth_butlast)
  show ?thesis
  proof (cases "ed_line e = []")
    case True
    then have "backspace_key m = Inr ((), ?m)" using run k(3) by simp
    moreover have "keyboard_state V (e\<lparr>ed_line := [], ed_screen := ?v\<rparr>) ?m" using k True by (simp add: keyboard_state_def)
    ultimately show ?thesis using True unfolding key_done_def by simp
  next
    case False
    then have "backspace_key m = Inr ((), ?m\<lparr>buffer_pos := buffer_pos m - 1\<rparr>)" using run k(3) by (simp add: set_buffer_pos_def)
    moreover have "keyboard_state V (e\<lparr>ed_line := butlast (ed_line e), ed_screen := ?v\<rparr>) (?m\<lparr>buffer_pos := buffer_pos m - 1\<rparr>)"
      using k False z l by (auto simp: keyboard_state_def of_nat_diff Suc_le_eq)
    ultimately show ?thesis unfolding key_done_def by simp
  qed
qed

lemma cstr_bytes:
  assumes "\<forall>i<Suc (length cs). f (p + of_nat i) = (cs @ [0]) ! i" "0 \<notin> set cs"
  shows "cstr f p cs"
  using assms
proof (induction cs arbitrary: p)
  case (Cons c cs)
  have "cstr f (p + 1) cs"
  proof (rule Cons.IH)
    show "\<forall>i<Suc (length cs). f (p + 1 + of_nat i) = (cs @ [0]) ! i"
    proof (intro allI impI)
      fix i assume "i < Suc (length cs)"
      then show "f (p + 1 + of_nat i) = (cs @ [0]) ! i" using Cons.prems(1) [rule_format, of "Suc i"] by (simp add: add.assoc)
    qed
  qed (use Cons.prems in simp)
  then show ?case using Cons.prems(1) [rule_format, of 0] Cons.prems(2) by simp
qed simp

section \<open>Enter\<close>

lemma text_command_color:
  assumes "text_command w = Some screen" "color v = 0x0F" shows "color (screen v) = 0x0F"
  using assms by (auto simp: text_command_def clearScreen_def split: if_splits)

lemma prompt_shown:
  assumes "color (console (kern m)) = 0x0F"
  shows "putf_color COLOR_CYAN ''RaxzusOS > '' [] m = Inr ((), m\<lparr>kern := kern m\<lparr>console := print_cells prompt (console (kern m))\<rparr>\<rparr>)"
proof -
  have "shows_cells (kprint_color 0x03 ''RaxzusOS > '' []) prompt" unfolding prompt_def by (rule shows_colored) simp
  then have "kprint_color 0x03 ''RaxzusOS > '' [] (kern m) = Inr ((), kern m\<lparr>console := print_cells prompt (console (kern m))\<rparr>)"
    using assms unfolding shows_cells_def by blast
  then show ?thesis unfolding putf_color_def COLOR_CYAN_def by (rule kern_op_Inr)
qed

lemma free_blocks_left:
  assumes "heap_inv UNIV V fl s" "next_free_block (heaps s h) \<noteq> 0" "heap_inv UNIV V fl' t" "allocated V fl' h = allocated V fl h"
  shows "next_free_block (heaps t h) \<noteq> 0"
proof -
  have "set (fl h) \<subseteq> blocks V h" "set (fl' h) \<subseteq> blocks V h"
    using domain_okD(8) [OF heap_invD(2) [OF assms(1) UNIV_I, of h]] domain_okD(8) [OF heap_invD(2) [OF assms(3) UNIV_I, of h]] by auto
  then have "set (fl' h) = set (fl h)" using assms(4) unfolding allocated_def by blast
  then show ?thesis using domain_head(2) [OF assms(1)] domain_head(2) [OF assms(3)] assms(2) by (metis set_empty)
qed

lemma enter_key_run:
  assumes ks: "keyboard_state V e m" and e': "edit_enter e = Some e'"
  shows "key_done V e' m enter_key"
proof -
  note k = keyboard_stateD [OF ks]
  let ?line = "ed_line e" and ?p = "command_buffer m"
  from e' obtain screen where room: "length ?line < 256" "length (split_words False ?line) \<le> 64"
    and cmd: "text_command (hd (split_words False ?line)) = Some screen"
    and e'_eq: "e' = e\<lparr>ed_line := [], ed_screen := print_cells prompt (screen (ed_screen e))\<rparr>"
    by (auto simp: edit_enter_def split: if_splits option.splits)
  from store_command_run [OF ks room(1), of 0] obtain t mm fl where
    t: "store_command 0 m = Inr ((), m\<lparr>kern := t\<rparr>)" "t = (kern m)\<lparr>mem := mm\<rparr>" "heap_inv UNIV V fl t"
      "\<forall>i<Suc (length ?line). bpeek load32 t (?p + of_nat i) = (?line @ [0]) ! i" by blast
  let ?m = "m\<lparr>kern := t\<rparr>"
  have im: "\<forall>a\<in>span ?p (Suc (length ?line)). word_base a \<in> image_addrs t"
  proof
    fix a assume "a \<in> span ?p (Suc (length ?line))"
    then have "a \<in> span ?p 256" using room(1) by (auto simp: span_def)
    then show "word_base a \<in> image_addrs t" using k(7) t(2) by simp
  qed
  have ok: "line_ok V fl ?m ?p ?line"
    using t(2,3) im room k(9) cstr_bytes [OF t(4) k(5)] by (simp add: line_ok_def)
  have white: "color (console (kern ?m)) = 0x0F" using k(10,11) t(2) by simp
  from shell_text_commands [OF ok white cmd] obtain u fl' mm' hh' where
    u: "process_input ?p ?m = Inr ((), ?m\<lparr>kern := u\<rparr>)" "u = t\<lparr>heaps := hh', mem := mm', console := screen (console t)\<rparr>"
      "heap_inv UNIV V fl' u" "allocated V fl' Heap_256 = allocated V fl Heap_256"
    unfolding shell_done_def by auto
  have nf: "next_free_block (heaps u Heap_256) \<noteq> 0"
    by (rule free_blocks_left [OF t(3) _ u(3,4)]) (use k(9) t(2) in simp)
  have scr: "console u = screen (ed_screen e)" "color (console u) = 0x0F"
    using u(2) t(2) k(10) text_command_color [OF cmd k(11)] by simp_all
  let ?v = "print_cells prompt (console u)" and ?m' = "m\<lparr>kern := u, buffer_pos := 0\<rparr>"
  have run: "enter_key m = Inr ((), ?m'\<lparr>kern := u\<lparr>console := ?v\<rparr>\<rparr>)"
    using t(1) u(1) prompt_shown [of ?m'] scr(2) by (simp add: enter_key_def set_buffer_pos_def)
  have "keyboard_state V e' (?m'\<lparr>kern := u\<lparr>console := ?v\<rparr>\<rparr>)"
    using k(1,2,7) u(2,3) t(2) nf scr e'_eq by (auto simp: keyboard_state_def)
  then show ?thesis using run unfolding key_done_def by simp
qed

section \<open>The handler\<close>

lemma regular_key_run:
  assumes ks: "keyboard_state V e m" and e': "edit_key c e = Some e'"
    and c: "c \<noteq> 0x2A" "c \<noteq> 0xAA" "c \<noteq> 0x36" "c \<noteq> 0xB6"
  shows "key_done V e' m (regular_key c)"
proof -
  let ?a = "scancode_to_ascii c (ed_left e \<or> ed_right e)"
  have up: "c AND 0x80 \<noteq> 0 \<Longrightarrow> ?a = 0"
  proof -
    assume b: "c AND 0x80 \<noteq> 0"
    have "0x80 \<le> c"
    proof (rule ccontr)
      assume "\<not> 0x80 \<le> c"
      then have "unat c < 2 ^ 7" by (simp add: word_le_nat_alt)
      then have "unat (take_bit 7 c) = unat c" by (simp only: unsigned_take_bit_eq take_bit_nat_eq_self)
      then have "take_bit 7 c = c" by (simp only: unsigned_word_eqI)
      then have "\<not> bit c 7" by (metis bit_take_bit_iff less_irrefl)
      then show False using b by (simp add: and_exp_eq_0_iff_not_bit [of c 7, simplified])
    qed
    then show ?thesis by (simp add: scancode_to_ascii_def)
  qed
  have sh: "left_shift_pressed m = ed_left e" "right_shift_pressed m = ed_right e" using keyboard_stateD [OF ks] by auto
  have reg: "regular_key c m = (if ?a = 0 then Inr ((), m) else if ?a = 10 then enter_key m else if ?a = 8 then backspace_key m else character_key ?a m)"
    using up by (simp add: regular_key_def sh Let_def)
  have ed: "edit_key c e = (if ?a = 0 then Some e else if ?a = 10 then edit_enter e
      else if ?a = 8 then Some (e\<lparr>ed_line := butlast (ed_line e), ed_screen := backspace (int (length (ed_line e))) (ed_screen e)\<rparr>)
      else if length (ed_line e) < 256 then Some (e\<lparr>ed_line := ed_line e @ [?a], ed_screen := print_cell (?a, 0x0F) (ed_screen e)\<rparr>)
      else Some e)"
    using c by (simp add: edit_key_def Let_def)
  consider "?a = 0" | "?a = 10" | "?a = 8" | "?a \<noteq> 0" "?a \<noteq> 10" "?a \<noteq> 8" by blast
  then show ?thesis
  proof cases
    case 1
    then show ?thesis using reg ed e' ks by (simp add: key_done_def)
  next
    case 2
    then show ?thesis using reg ed e' enter_key_run [OF ks] by (simp add: key_done_def)
  next
    case 3
    then show ?thesis using reg ed e' backspace_key_run [OF ks] by (auto simp: key_done_def)
  next
    case 4
    then show ?thesis using reg ed e' character_key_run [OF ks 4(1)] by (auto simp: key_done_def split: if_splits)
  qed
qed

lemma keyboard_state_shift:
  assumes "keyboard_state V e m"
  shows "keyboard_state V (e\<lparr>ed_left := b\<rparr>) (m\<lparr>left_shift_pressed := b\<rparr>)"
    "keyboard_state V (e\<lparr>ed_right := b\<rparr>) (m\<lparr>right_shift_pressed := b\<rparr>)"
  using assms by (simp_all add: keyboard_state_def)

text \<open>
  One keyboard interrupt is one step of the line editor.  In a state that stands for the editor's state \<open>e\<close>, with the
  scancode \<open>c\<close> at the data port, the handler returns, the state afterwards stands for the editor's next state (the shift
  keys, the line in the command buffer and its length, the screen; on Enter the shell has run the line and printed the
  prompt), the heap invariant holds, and the handler has read the data port once and acknowledged the interrupt once, last.
\<close>

lemma keyboard_step:
  assumes ks: "keyboard_state V e m" and e': "edit_key (ucast (port_in m (trace m) 0x60)) e = Some e'"
  shows "\<exists>m'. keyboard_interrupt_handler m = Inr ((), m') \<and> keyboard_state V e' m'
    \<and> trace m' = Outb 0x20 0x20 # Inb 0x60 (ucast (port_in m (trace m) 0x60)) # trace m
    \<and> port_in m' = port_in m \<and> command_buffer m' = command_buffer m"
proof -
  let ?c = "ucast (port_in m (trace m) 0x60) :: u8" and ?m = "m\<lparr>trace := Inb 0x60 (ucast (port_in m (trace m) 0x60)) # trace m\<rparr>"
  note defs = LEFT_SHIFT_PRESS_def LEFT_SHIFT_RELEASE_def RIGHT_SHIFT_PRESS_def RIGHT_SHIFT_RELEASE_def KEYBOARD_DATA_PORT_def
  let ?step = "if ?c = 0x2A then modify (\<lambda>m. m\<lparr>left_shift_pressed := True\<rparr>)
    else if ?c = 0xAA then modify (\<lambda>m. m\<lparr>left_shift_pressed := False\<rparr>)
    else if ?c = 0x36 then modify (\<lambda>m. m\<lparr>right_shift_pressed := True\<rparr>)
    else if ?c = 0xB6 then modify (\<lambda>m. m\<lparr>right_shift_pressed := False\<rparr>) else regular_key ?c"
  have run: "keyboard_interrupt_handler m = bnd ?step (\<lambda>_. pic_send_eoi 1) ?m"
    unfolding keyboard_interrupt_handler_def defs by simp
  have ks': "keyboard_state V e ?m" using ks by simp
  have "key_done V e' ?m ?step"
  proof (cases "?c \<in> {0x2A, 0xAA, 0x36, 0xB6}")
    case True
    from True consider "?c = 0x2A" | "?c = 0xAA" | "?c = 0x36" | "?c = 0xB6" by blast
    then show ?thesis
      by cases (use e' keyboard_state_shift [OF ks'] in \<open>auto simp: edit_key_def key_done_def\<close>)
  next
    case False
    then show ?thesis using regular_key_run [OF ks' e'] by simp
  qed
  then obtain m' where m': "?step ?m = Inr ((), m')" "keyboard_state V e' m'" "trace m' = trace ?m" "port_in m' = port_in ?m"
    "command_buffer m' = command_buffer ?m" unfolding key_done_def by blast
  show ?thesis
    by (rule exI [of _ "m'\<lparr>trace := pic_send_eoi_ports 1 @ trace m'\<rparr>"], subst run, subst bnd_run)
      (use m' in \<open>simp add: pic_send_eoi_ports_def word_le_nat_alt\<close>)
qed

section \<open>A session at the keyboard\<close>

text \<open>An interrupt with the scancode \<open>c\<close> at the data port, and a sequence of them.\<close>

definition key_interrupt :: "u8 \<Rightarrow> unit mop" where
  "key_interrupt c =
     bnd (modify (\<lambda>m. m\<lparr>port_in := (\<lambda>tr p. if p = 0x60 then ucast c else port_in m tr p)\<rparr>)) (\<lambda>_. keyboard_interrupt_handler)"

fun key_interrupts :: "u8 list \<Rightarrow> unit mop" where
  "key_interrupts [] = ret ()"
| "key_interrupts (c # cs) = bnd (key_interrupt c) (\<lambda>_. key_interrupts cs)"

fun edit_keys :: "u8 list \<Rightarrow> editor \<Rightarrow> editor option" where
  "edit_keys [] e = Some e"
| "edit_keys (c # cs) e = (case edit_key c e of None \<Rightarrow> None | Some e' \<Rightarrow> edit_keys cs e')"

lemma keys_run:
  assumes "keyboard_state V e m" "edit_keys cs e = Some e'"
  shows "\<exists>m'. key_interrupts cs m = Inr ((), m') \<and> keyboard_state V e' m'
    \<and> trace m' = rev (concat (map (\<lambda>c. [Inb 0x60 c, Outb 0x20 0x20]) cs)) @ trace m"
  using assms
proof (induction cs arbitrary: e m)
  case (Cons c cs)
  let ?m = "m\<lparr>port_in := (\<lambda>tr p. if p = 0x60 then ucast c else port_in m tr p)\<rparr>"
  from Cons.prems(2) obtain e1 where e1: "edit_key c e = Some e1" "edit_keys cs e1 = Some e'" by (auto split: option.splits)
  have p: "ucast (port_in ?m (trace ?m) 0x60) = c" by (rule bit_word_eqI) (simp add: bit_simps)
  have "keyboard_state V e ?m" using Cons.prems(1) by simp
  from keyboard_step [OF this, unfolded p, OF e1(1)] obtain m1 where
    m1: "keyboard_interrupt_handler ?m = Inr ((), m1)" "keyboard_state V e1 m1"
      "trace m1 = Outb 0x20 0x20 # Inb 0x60 c # trace m" by auto
  then have "key_interrupt c m = Inr ((), m1)" by (simp add: key_interrupt_def)
  then show ?case using Cons.IH [OF m1(2) e1(2)] m1(3) by (auto simp: bnd_run)
qed simp

text \<open>
  C7: A session.  Any sequence of key presses that the line editor accepts, however many lines it enters, is handled
  without a fault, each interrupt acknowledged, and leaves the machine in the state of the editor after the same keys.
\<close>

theorem keyboard_session:
  assumes "keyboard_state V e m" "edit_keys cs e = Some e'"
  shows "\<exists>m'. key_interrupts cs m = Inr ((), m') \<and> keyboard_state V e' m'
    \<and> trace m' = rev (concat (map (\<lambda>c. [Inb 0x60 c, Outb 0x20 0x20]) cs)) @ trace m"
  by (rule keys_run [OF assms])

text \<open>A machine on the booted kernel with an empty command buffer at \<^verbatim>\<open>0xC0001000\<close>.\<close>

lemma keyboard_start:
  "\<exists>m. keyboard_state premapped \<lparr>ed_left = False, ed_right = False, ed_line = [], ed_screen = blank_console\<rparr> m"
proof -
  have "0 \<notin> set (replicate 255 (97 :: u8))" "length (replicate 255 (97 :: u8)) < 4096" by simp_all
  from string_state [OF this] obtain fl s where
    s: "heap_inv UNIV premapped fl s" "\<forall>h. next_free_block (heaps s h) \<noteq> 0"
      "\<forall>a\<in>span 0xC0001000 (Suc (length (replicate 255 (97 :: u8)))). word_base a \<in> image_addrs s" by blast
  let ?m = "(undefined :: machine)\<lparr>kern := s\<lparr>console := blank_console\<rparr>, left_shift_pressed := False,
    right_shift_pressed := False, buffer_pos := 0, command_buffer := 0xC0001000\<rparr>"
  have "keyboard_state premapped \<lparr>ed_left = False, ed_right = False, ed_line = [], ed_screen = blank_console\<rparr> ?m"
    using s by (auto simp: keyboard_state_def blank_console_def)
  then show ?thesis by blast
qed

text \<open>The keys of \<^verbatim>\<open>hepl\<close>, two backspaces, \<^verbatim>\<open>lp\<close> with a shift key pressed and released before it, and Enter.\<close>

theorem keyboard_session_witness:
  "\<exists>m m'. key_interrupts [0x23, 0x12, 0x19, 0x26, 0x0E, 0x0E, 0x2A, 0xAA, 0x26, 0x19, 0x1C] m = Inr ((), m')
    \<and> buffer_pos m' = 0
    \<and> console (kern m') = print_cells prompt (print_cells (painted help_text) (print_cells (paint 0x0F ''lp'')
        (backspace 3 (backspace 4 (print_cells (paint 0x0F ''hepl'') blank_console)))))"
proof -
  from keyboard_start obtain m where
    m: "keyboard_state premapped \<lparr>ed_left = False, ed_right = False, ed_line = [], ed_screen = blank_console\<rparr> m" (is "keyboard_state _ ?e m") by blast
  let ?cs = "[0x23, 0x12, 0x19, 0x26, 0x0E, 0x0E, 0x2A, 0xAA, 0x26, 0x19, 0x1C] :: u8 list"
  have a: "map (\<lambda>c. scancode_to_ascii c False) [0x23, 0x12, 0x19, 0x26, 0x0E, 0x1C] = bytes ''hepl'' @ [8, 10]"
    by code_simp
  have w: "split_words False [104, 101, 108, 112] = [bytes ''help'']" by (simp add: bytes_def)
  have t: "text_command [104, 101, 108, 112] = Some (print_cells (painted help_text))"
  proof -
    have "[104, 101, 108, 112] = bytes ''help''" by (simp add: bytes_def)
    then show ?thesis by (simp only:) (simp add: text_command_def)
  qed
  let ?scr = "print_cells prompt (print_cells (painted help_text) (print_cells (paint 0x0F ''lp'')
        (backspace 3 (backspace 4 (print_cells (paint 0x0F ''hepl'') blank_console)))))"
  have "edit_keys ?cs ?e = Some \<lparr>ed_left = False, ed_right = False, ed_line = [], ed_screen = ?scr\<rparr>"
    using a w t by (simp add: edit_key_def bytes_def edit_enter_def paint_def)
  from keyboard_session [OF m this] show ?thesis by (auto simp: keyboard_state_def)
qed

section \<open>A full buffer\<close>

text \<open>
  C39: The terminator of a full buffer.  When 256 characters have been typed, Enter stores the terminating zero at
  \<^verbatim>\<open>command_buffer + 256\<close>, one byte behind the buffer, and changes no other byte of the kernel's data, before the line is handed to the shell.
\<close>

theorem keyboard_buffer_overrun:
  assumes ks: "keyboard_state V e m" and full: "length (ed_line e) = 256"
    and behind: "word_base (command_buffer m + 256) \<in> image_addrs (kern m)"
  shows "\<exists>t. enter_key m = bnd (process_input (command_buffer m)) (\<lambda>_. bnd (set_buffer_pos 0) (\<lambda>_.
      putf_color COLOR_CYAN ''RaxzusOS > '' [])) (m\<lparr>kern := t\<rparr>)
    \<and> command_buffer m + 256 \<notin> span (command_buffer m) 256
    \<and> (\<forall>a. word_base a \<in> image_addrs (kern m) \<longrightarrow>
        bpeek load32 t a = (if a = command_buffer m + 256 then 0 else bpeek load32 (kern m) a))"
proof -
  note k = keyboard_stateD [OF ks]
  from k(8) obtain fl where fl: "heap_inv UNIV V fl (kern m)" by blast
  from store_image [OF fl behind, of 0] obtain t where
    t: "store8 (command_buffer m + 256) 0 (kern m) = Inr ((), t)"
      "\<forall>b. word_base b \<in> image_addrs (kern m) \<longrightarrow> bpeek load32 t b = (if b = command_buffer m + 256 then 0 else bpeek load32 (kern m) b)" by blast
  have "store_command 0 m = Inr ((), m\<lparr>kern := t\<rparr>)" using t(1) k(3) full by (simp add: store_command_def)
  moreover have "command_buffer m + 256 \<notin> span (command_buffer m) 256"
    by (auto simp: span_def unat_of_nat dest!: arg_cong [where f = unat])
  ultimately show ?thesis using t(2) by (intro exI [of _ t]) (simp add: enter_key_def)
qed

lemma cstr_nth: "cstr f p cs \<Longrightarrow> i < length cs \<Longrightarrow> f (p + of_nat i) = cs ! i"
proof (induction cs arbitrary: p i)
  case (Cons c cs)
  then show ?case using Cons.IH [of "p + 1" "i - 1"] by (cases i) (auto simp: add.assoc)
qed simp

theorem keyboard_buffer_overrun_witness:
  "\<exists>e m t. keyboard_state premapped e m \<and> ed_line e = replicate 256 97
    \<and> enter_key m = bnd (process_input (command_buffer m)) (\<lambda>_. bnd (set_buffer_pos 0) (\<lambda>_.
      putf_color COLOR_CYAN ''RaxzusOS > '' [])) (m\<lparr>kern := t\<rparr>)
    \<and> bpeek load32 t (command_buffer m + 256) = 0"
proof -
  let ?cs = "replicate 256 (97 :: u8)"
  have "0 \<notin> set ?cs" "length ?cs < 4096" by simp_all
  from string_state [OF this] obtain fl s where
    s: "heap_inv UNIV premapped fl s" "\<forall>h. next_free_block (heaps s h) \<noteq> 0" "cstr (bpeek load32 s) 0xC0001000 ?cs"
      "\<And>a. a \<in> span 0xC0001000 (Suc (length ?cs)) \<Longrightarrow> word_base a \<in> image_addrs s" by blast
  let ?e = "\<lparr>ed_left = False, ed_right = False, ed_line = ?cs, ed_screen = blank_console\<rparr>"
  let ?m = "(undefined :: machine)\<lparr>kern := s\<lparr>console := blank_console\<rparr>, left_shift_pressed := False,
    right_shift_pressed := False, buffer_pos := 256, command_buffer := 0xC0001000\<rparr>"
  have sp: "a \<in> span 0xC0001000 256 \<Longrightarrow> a \<in> span 0xC0001000 (Suc (length ?cs))" for a
    by (auto simp: span_def)
  have ks: "keyboard_state premapped ?e ?m"
    unfolding keyboard_state_def using s(1,2) s(4) [OF sp] cstr_nth [OF s(3)] by (auto simp: blank_console_def)
  have "(0xC0001100 :: u32) \<in> span 0xC0001000 (Suc (length ?cs))" unfolding span_def by (intro CollectI exI [of _ 256]) simp
  from s(4) [OF this] have b: "word_base (command_buffer ?m + 256) \<in> image_addrs (kern ?m)" by simp
  from keyboard_buffer_overrun [OF ks _ b] obtain t where
    "enter_key ?m = bnd (process_input (command_buffer ?m)) (\<lambda>_. bnd (set_buffer_pos 0) (\<lambda>_.
      putf_color COLOR_CYAN ''RaxzusOS > '' [])) (?m\<lparr>kern := t\<rparr>)"
    "bpeek load32 t (command_buffer ?m + 256) = 0" using b by auto
  then show ?thesis using ks by (intro exI [of _ ?e] exI [of _ ?m] exI [of _ t]) simp
qed

end
