(* ===== verification/System.thy ===== *)
theory System
  imports Keyboard
begin

unbundle bit_operations_syntax

text \<open>
  The rest of the kernel: the exception handlers (\<^verbatim>\<open>lib/exceptions.c\<close>), the system calls
  (\<^verbatim>\<open>lib/forgeproc.c\<close>), the corner clock of \<^verbatim>\<open>lib/vga.c\<close>, and \<^verbatim>\<open>kernel_main\<close> with the processes of
  \<^verbatim>\<open>kernel.c\<close>.
\<close>

section \<open>Halting\<close>

text \<open>
  \<^verbatim>\<open>hlt\<close> is an event; that the processor continues behind it means that an interrupt has arrived.
\<close>

definition hlt :: "unit mop" where
  "hlt = event Hlt"

definition halt_forever :: "unit mop" where
  "halt_forever = loop (\<lambda>_. ret True) (\<lambda>_. hlt) ()"

text \<open>The loops \<^verbatim>\<open>while(1);\<close> of the processes.\<close>

definition spin :: "unit mop" where
  "spin = loop (\<lambda>_. ret True) (\<lambda>_. ret ()) ()"

section \<open>Exceptions\<close>

definition divide_by_zero_handler :: "unit mop" where
  "divide_by_zero_handler =
     bnd (putf (''%e Divide by zero exception occurred!'' @ nl) []) (\<lambda>_.
     bnd (putf (''%e ehm..... no? That is not allowed in math or in the kernel. Like do you know how uppset the cpu is? You have him constantly trying to solve this equation.'' @ nl) []) (\<lambda>_.
     bnd (putf ''%e a/b = c => cb = a => 0 = cb - a (a can not be 0 since 0/0 is a whole other torture.) When in 0 = cb - a where a can't be 0 can it become true?'' []) (\<lambda>_.
     bnd (putf (''%e Never think about it doing 0 = cb - a would be infinite and the cpu would be stuck in a loop.'' @ nl) []) (\<lambda>_.
     bnd (putf (''%e and you just like... divide by zero? That is not nice.'' @ nl) []) (\<lambda>_.
     hlt)))))"

text \<open>
  A field of \<^verbatim>\<open>struct registers\<close> on the stack, by its index.  The page fault address register is an
  argument of the handler.
\<close>

definition reg_at :: "u32 \<Rightarrow> nat \<Rightarrow> u32 mop" where
  "reg_at stack i = kern_op (load32 (stack + 4 * of_nat i))"

definition REG_EAX :: nat where "REG_EAX = 7"
definition REG_ERR_CODE :: nat where "REG_ERR_CODE = 8"
definition REG_EIP :: nat where "REG_EIP = 9"
definition REG_CS :: nat where "REG_CS = 10"
definition REG_EFLAGS :: nat where "REG_EFLAGS = 11"

definition page_fault_handler :: "u32 \<Rightarrow> u32 \<Rightarrow> unit mop" where
  "page_fault_handler faulting_address stack =
     bnd (reg_at stack REG_ERR_CODE) (\<lambda>error_code.
     bnd (putf (''%e Page fault exception occurred!'' @ nl) []) (\<lambda>_.
     bnd (putf (''-> Faulting address: 0x%x'' @ nl) [AInt faulting_address]) (\<lambda>_.
     bnd (if error_code AND 0x1 = 0 then
            bnd (putf (''-> Page not present'' @ nl) []) (\<lambda>_.
            putf (''-> %eYou tried to access memory that doesn't exist'' @ nl) [])
          else ret ()) (\<lambda>_.
     bnd (if error_code AND 0x2 \<noteq> 0 then
            bnd (putf (''-> Write violation'' @ nl) []) (\<lambda>_.
            putf (''-> %eYou tried to write to read-only memory. Naughty.'' @ nl) [])
          else ret ()) (\<lambda>_.
     bnd (if error_code AND 0x4 \<noteq> 0 then
            bnd (putf (''-> User mode violation'' @ nl) []) (\<lambda>_.
            putf (''-> %eUser code tried to access kernel memory. Nice try buddy.'' @ nl) [])
          else ret ()) (\<lambda>_.
     hlt))))))"

definition general_protection_fault_handler :: "u32 \<Rightarrow> unit mop" where
  "general_protection_fault_handler stack =
     bnd (reg_at stack REG_ERR_CODE) (\<lambda>error_code.
     bnd (putf (nl @ ''The ESP was pointing at: %x'' @ nl) [AInt stack]) (\<lambda>_.
     bnd (reg_at stack REG_EIP) (\<lambda>eip.
     bnd (putf (''The EIP was pointing at: %x'' @ nl) [AInt eip]) (\<lambda>_.
     bnd (reg_at stack REG_CS) (\<lambda>cs.
     bnd (putf (''The CS was pointing at: %x'' @ nl) [AInt cs]) (\<lambda>_.
     bnd (reg_at stack REG_EFLAGS) (\<lambda>eflags.
     bnd (putf (''The EFLAG was pointing at: %x'' @ nl) [AInt eflags]) (\<lambda>_.
     bnd (putf (''%e General protection fault exception occurred!'' @ nl) []) (\<lambda>_.
     bnd (putf (''The error code was: %d'' @ nl) [AInt error_code]) (\<lambda>_.
     bnd hlt (\<lambda>_.
     bnd (if error_code = 0 then
            bnd (putf (''-> %eBad instruction or memory access'' @ nl) []) (\<lambda>_.
            bnd (putf (''-> %eCheck: Stack pointer, EIP, memory addresses'' @ nl) []) (\<lambda>_.
            bnd (putf (''-> %ePro tip: Pointers should point to ACTUAL mamoery (Chocking I know)'' @ nl) []) (\<lambda>_.
            putf (''-> %e So can you like not do that? Thanks.'' @ nl) [])))
          else
            let external = error_code AND 0x1;
                tbl = drop_bit 1 error_code AND 0x3;
                selector_index = drop_bit 3 error_code AND 0x1FFF
            in
            bnd (putf (''-> Error code: 0x%x'' @ nl) [AInt error_code]) (\<lambda>_.
            bnd (putf (''-> Selector index: %d'' @ nl) [AInt selector_index]) (\<lambda>_.
            bnd (putf (''-> Table: %s'' @ nl)
                  [AStr (bytes (if tbl = 0 then ''GDT'' else if tbl = 1 then ''IDT'' else if tbl = 2 then ''LDT'' else ''IDT''))]) (\<lambda>_.
            bnd (putf (''-> External: %s'' @ nl) [AStr (bytes (if external \<noteq> 0 then ''Yes'' else ''No''))]) (\<lambda>_.
            bnd (if tbl = 0 then
                   bnd (putf (''-> %eProblem with GDT entry %d'' @ nl) [AInt selector_index]) (\<lambda>_.
                   putf (''-> %eYour code/data segment is sus'' @ nl) [])
                 else if tbl = 1 then
                   bnd (putf (''-> %eProblem with IDT entry %d'' @ nl) [AInt selector_index]) (\<lambda>_.
                   putf (''-> %eYour interrupt handler messed up'' @ nl) [])
                 else ret ()) (\<lambda>_.
            bnd (putf (''-> %e What have I told you about assuming segments? Stop it get some help.'' @ nl) []) (\<lambda>_.
            bnd (putf (''-> %eWeird error code, good luck!'' @ nl) []) (\<lambda>_.
            putf (''-> %e Congrats you found a legendary error, but like this is not pokemon... good luck debging you need it.'' @ nl) [])))))))) (\<lambda>_.
     bnd (putf (nl @ ''Halting the system...'' @ nl) []) (\<lambda>_.
     hlt)))))))))))))"

definition double_fault_handler :: "u32 \<Rightarrow> unit mop" where
  "double_fault_handler error_code =
     bnd (kern_op (kset_color (make_color COLOR_WHITE COLOR_RED))) (\<lambda>_.
     bnd (kern_op (modify (\<lambda>s. s\<lparr>console := clearScreen (console s)\<rparr>))) (\<lambda>_.
     bnd (putf (''!!!!!!!!!!!!!!!!!!!!!!!!!!!!!!!!!!!!!!!!!!!!!!!!'' @ nl) []) (\<lambda>_.
     bnd (putf (''!!!          CRITICAL: DOUBLE FAULT          !!!'' @ nl) []) (\<lambda>_.
     bnd (putf (''!!!!!!!!!!!!!!!!!!!!!!!!!!!!!!!!!!!!!!!!!!!!!!!!'' @ nl) []) (\<lambda>_.
     bnd (putf (nl @ ''Error Code: %x'' @ nl) [AInt error_code]) (\<lambda>_.
     bnd (putf (''The CPU encountered a fault while trying to'' @ nl) []) (\<lambda>_.
     bnd (putf (''handle a previous fault. Likely causes:'' @ nl) []) (\<lambda>_.
     bnd (putf (''1. Kernel Stack Overflow'' @ nl) []) (\<lambda>_.
     bnd (putf (''2. IDT/GDT pointing to unmapped memory'' @ nl) []) (\<lambda>_.
     bnd (putf (''3. Recursive Page Faults'' @ nl) []) (\<lambda>_.
     halt_forever)))))))))))"

section \<open>System calls\<close>

text \<open>The instruction \<^verbatim>\<open>int $0x81\<close> with the values of \<^verbatim>\<open>eax\<close> and \<^verbatim>\<open>ebx\<close>.\<close>

definition sleep :: "u32 \<Rightarrow> unit mop" where
  "sleep time =
     (if sint time \<le> 0 then
        (if sint time * 10 < - (2 ^ 31) then raise SignedOverflow
         else putf ''%e you can not make a process sleep: %d ms'' [AInt (word_of_int (sint time * 10))])
      else event (SoftInt 0x81 1 time))"

text \<open>\<^verbatim>\<open>fork\<close> leaves \<^verbatim>\<open>ebx\<close> as it is, an argument here, and returns no value.\<close>

definition fork :: "u32 \<Rightarrow> unit mop" where
  "fork ebx = event (SoftInt 0x81 2 ebx)"

definition system_call_interrupt_handler :: "u32 \<Rightarrow> unit mop" where
  "system_call_interrupt_handler regs =
     bnd (putf (''The adress is: %x'' @ nl) [AInt regs]) (\<lambda>_.
     bnd (reg_at regs REG_EAX) (\<lambda>eax.
     bnd (putf (''The adress eax is: %x'' @ nl) [AInt eax]) (\<lambda>_.
     bnd hlt (\<lambda>_.
     bnd (reg_at regs REG_EAX) (\<lambda>eax.
     if eax = 3 then bnd (putf (''fgsdffdfsds'' @ nl) []) (\<lambda>_. hlt)
     else ret ())))))"

section \<open>The corner clock\<close>

definition update_print_corner_time :: "unit mop" where
  "update_print_corner_time =
     bnd (gets (\<lambda>m. cursor_row (console (kern m)))) (\<lambda>saved_row.
     bnd (gets (\<lambda>m. cursor_col (console (kern m)))) (\<lambda>saved_col.
     bnd (kern_op (modify (\<lambda>s. s\<lparr>console := (console s)\<lparr>cursor_row := 0, cursor_col := 45\<rparr>\<rparr>))) (\<lambda>_.
     bnd print_rtc_time (\<lambda>_.
     kern_op (modify (\<lambda>s. s\<lparr>console := (console s)\<lparr>cursor_row := saved_row, cursor_col := saved_col\<rparr>\<rparr>))))))"

definition dump_stack_before_iret :: "u32 \<Rightarrow> unit mop" where
  "dump_stack_before_iret sp =
     bnd (reg_at sp 0) (\<lambda>a. bnd (reg_at sp 1) (\<lambda>b. bnd (reg_at sp 2) (\<lambda>c. bnd (reg_at sp 3) (\<lambda>d.
     putf (''PRE-IRET sp[0]=%x sp[1]=%x sp[2]=%x sp[3]=%x'' @ nl) [AInt a, AInt b, AInt c, AInt d]))))"

section \<open>The kernel\<close>

definition timer_process_worker :: "unit mop" where
  "timer_process_worker = loop (\<lambda>_. ret True) (\<lambda>_. update_print_corner_time) ()"

definition worker_process :: "unit mop" where "worker_process = spin"

definition user_process :: "unit mop" where "user_process = spin"

definition idle_process :: "unit mop" where
  "idle_process =
     bnd (event Sti) (\<lambda>_.
     bnd (pic_enable_irq 0) (\<lambda>_.
     bnd (putf_color COLOR_CYAN ''RaxzusOS > '' []) (\<lambda>_.
     halt_forever)))"

definition COLOR_BLACK :: u8 where "COLOR_BLACK = 0x00"

text \<open>\<^verbatim>\<open>kernel_main\<close> up to the remapping of the interrupt controllers.\<close>

definition boot_banner :: "unit mop" where
  "boot_banner =
     bnd (kern_op (draw_box_top 70 COLOR_WHITE COLOR_MAGENTA [])) (\<lambda>_.
     bnd (kern_op (print_text_align ''RaxzusOS Kernel v1.0 - Boot Sequence'' 70 ALIGN_CENTER COLOR_BLACK COLOR_WHITE 2)) (\<lambda>_.
     bnd (kern_op (draw_box_bottom 70 COLOR_WHITE)) (\<lambda>_.
     bnd (kern_op (print_text_align ''Inizializing system programs.....'' 70 ALIGN_LEFT COLOR_BLACK COLOR_YELLOW 2)) (\<lambda>_.
     pic_remap 32 40))))"

definition boot_menu :: "unit kop" where
  "boot_menu =
     bnd (draw_box_top 30 COLOR_CYAN COLOR_LIGHT_GRAY ''[ RaxzusOS Boot Menu ]'') (\<lambda>_.
     bnd (draw_box_sides 30 2 COLOR_CYAN) (\<lambda>_.
     bnd (print_text_align ''[1] Normal Boot'' 30 ALIGN_LEFT COLOR_CYAN COLOR_GREEN 2) (\<lambda>_.
     bnd (print_text_align ''[2] Safe Mode'' 30 ALIGN_LEFT COLOR_CYAN COLOR_YELLOW 2) (\<lambda>_.
     bnd (print_text_align ''[3] Recovery'' 30 ALIGN_LEFT COLOR_CYAN COLOR_RED 2) (\<lambda>_.
     bnd (draw_box_sides 30 2 COLOR_CYAN) (\<lambda>_.
     draw_box_bottom 30 COLOR_CYAN))))))"

text \<open>\<^verbatim>\<open>kernel_main\<close> from \<^verbatim>\<open>pic_disable_irq(0)\<close> to the prompt.\<close>

definition kernel_init :: "unit mop" where
  "kernel_init =
     bnd (pic_disable_irq 0) (\<lambda>_.
     bnd (pic_enable_irq 1) (\<lambda>_.
     bnd init_keyboard (\<lambda>_.
     bnd (kern_op init_paging) (\<lambda>_.
     bnd (kern_op init_pmm) (\<lambda>_.
     bnd (kern_op init_all_heaps) (\<lambda>_.
     bnd init_gdt (\<lambda>_.
     bnd init_interrupts (\<lambda>_.
     bnd (putf nl []) (\<lambda>_.
     bnd (kern_op boot_menu) (\<lambda>_.
     bnd (putf (''Jumping to IDLE.... '' @ nl) []) (\<lambda>_.
     bnd (putf (''dfsfsdf'' @ nl) []) (\<lambda>_.
     bnd (event Sti) (\<lambda>_.
     putf_color COLOR_CYAN ''RaxzusOS > '' [])))))))))))))"

text \<open>
  All of \<^verbatim>\<open>kernel_main\<close>, with what the undefined shift in \<^verbatim>\<open>pic_disable_irq(46)\<close> gives as an argument: \<open>irq_bit\<close>, where it is a fault, in
  \<open>kernel_main\<close>, and \<open>some_bit w\<close> for a compiled program.
\<close>

definition boot_with :: "(u8 \<Rightarrow> u8 mop) \<Rightarrow> unit mop" where
  "boot_with shift =
     bnd boot_banner (\<lambda>_.
     bnd (pic_disable_with shift 46) (\<lambda>_.
     kernel_init))"

definition kernel_main_with :: "(u8 \<Rightarrow> u8 mop) \<Rightarrow> unit mop" where
  "kernel_main_with shift = bnd (boot_with shift) (\<lambda>_. halt_forever)"

definition kernel_main :: "unit mop" where
  "kernel_main = kernel_main_with irq_bit"

section \<open>What initialisation leaves alone\<close>

text \<open>An operation that keeps a projection of the state whenever it returns.\<close>

definition keeps :: "('s \<Rightarrow> 'b) \<Rightarrow> ('s, 'a) op \<Rightarrow> bool" where
  "keeps g f \<longleftrightarrow> (\<forall>s a t. f s = Inr (a, t) \<longrightarrow> g t = g s)"

named_theorems keeps_rules

lemma keepsD: "keeps g f \<Longrightarrow> f s = Inr (a, t) \<Longrightarrow> g t = g s"
  by (simp add: keeps_def)

lemma keeps_basic [keeps_rules]:
  "keeps g (ret a)" "keeps g (raise e)" "keeps g (gets h)"
  by (simp_all add: keeps_def)

lemma keeps_bnd [keeps_rules]: "keeps g f \<Longrightarrow> (\<And>a. keeps g (k a)) \<Longrightarrow> keeps g (bnd f k)"
  by (force simp: keeps_def bnd_def split: sum.splits)

lemma keeps_if [keeps_rules]: "keeps g f \<Longrightarrow> keeps g f' \<Longrightarrow> keeps g (if b then f else f')"
  by simp

lemma keeps_modify: "(\<And>s. g (h s) = g s) \<Longrightarrow> keeps g (modify h)"
  by (simp add: keeps_def)

lemma keeps_memory [keeps_rules]:
  "keeps kernel_page_dir (load32 a)" "keeps kernel_page_dir (store32 a w)"
  by (auto simp: keeps_def load32_def store32_def split: if_splits option.splits)

lemma keeps_printing [keeps_rules]:
  "keeps kernel_page_dir (kprint t args)" "keeps kernel_page_dir (kprint_color c t args)"
  "keeps kernel_page_dir (kset_color c)"
  by (auto simp: keeps_def kprint_def kprint_color_def kset_color_def bnd_def split: sum.splits)

lemma keeps_records [keeps_rules]:
  "keeps kernel_page_dir (set_domain h d)" "keeps kernel_page_dir (domain h p)" "keeps kernel_page_dir (set_large l)"
  by (auto simp: keeps_def set_domain_def domain_def set_large_def)

lemma keeps_frames [keeps_rules]:
  "keeps kernel_page_dir (set_frame f)" "keeps kernel_page_dir increment_used_frames"
  "keeps kernel_page_dir get_next_free_kernel_frame" "keeps kernel_page_dir get_next_free_process_frame"
  unfolding set_frame_def set_bit_def assert_failed_def increment_used_frames_def get_next_free_kernel_frame_def
    get_next_free_process_frame_def Let_def
  by (auto intro!: keeps_rules keeps_modify split: option.split sum.split)

lemma keeps_map_page [keeps_rules]: "keeps kernel_page_dir (map_page d v p f)"
  unfolding map_page_def assert_failed_def Let_def by (intro keeps_rules)

lemma keeps_loops [keeps_rules]:
  "keeps kernel_page_dir (zero_entries d i k)" "keeps kernel_page_dir (copy_entries e d i k)"
  "keeps kernel_page_dir (link_blocks v sz i k)"
  by (induction k arbitrary: i; (simp only: zero_entries.simps copy_entries.simps link_blocks.simps)?; intro keeps_rules; assumption?)+

lemma keeps_premap [keeps_rules]: "keeps kernel_page_dir (premap_pages h k)"
  by (induction k; (simp only: premap_pages.simps)?; intro keeps_rules; assumption?)

lemma keeps_init_all_heaps: "keeps kernel_page_dir init_all_heaps"
  unfolding init_all_heaps_def init_heap_domain_def init_large_domain_def Let_def by (intro keeps_rules)

section \<open>From the loader to the prompt\<close>

lemma console_after_white: "fmt_ok cs args \<Longrightarrow> color (console_after cs args v) = 0x0F"
  using kprintf_ok [of cs args v] by (auto simp: kprintf_def' split: sum.splits dest: sym)

lemma init_memory_run:
  assumes b: "boot_ok s"
  shows "\<exists>t u s' fl. init_paging s = Inr ((), t) \<and> init_pmm t = Inr ((), u) \<and> init_all_heaps u = Inr ((), s')
    \<and> heap_inv UNIV premapped fl s' \<and> next_free_block (heaps s' Heap_256) \<noteq> 0 \<and> image_addrs s' = image_addrs s"
proof -
  from boot_vm_inv [OF b] obtain t u where
    u: "init_paging s = Inr ((), t)" "init_pmm t = Inr ((), u)" "vm_inv {KDir} {} u" "261120 \<le> card (free_low u)"
      "kernel_page_dir u = kernel_page_dir s" by blast
  have "5384 \<le> card (free_low u)" using u(4) by simp
  from init_all_heaps_run [OF u(3) this] obtain s' fl where
    r: "init_all_heaps u = Inr ((), s')" "heap_inv UNIV premapped fl s'" "all_free UNIV premapped fl" by blast
  have "kernel_page_dir s' = kernel_page_dir s" using keepsD [OF keeps_init_all_heaps r(1)] u(5) by simp
  then have im: "image_addrs s' = image_addrs s" by (simp add: image_addrs_def dir_of_def)
  have "region_base Heap_256 \<in> premapped" unfolding premapped_def by (intro CollectI exI [of _ Heap_256]) simp
  moreover have "unat (bsize Heap_256) dvd unat (addr_of_frame (region_base Heap_256))" by (simp add: heap_class_args)
  ultimately have "addr_of_frame (region_base Heap_256) \<in> blocks premapped Heap_256"
    by (simp add: blocks_def region_base_frame in_region_def)
  then have "fl Heap_256 \<noteq> []" using r(3) by (auto simp: all_free_def dest!: spec [of _ Heap_256])
  then have "next_free_block (heaps s' Heap_256) \<noteq> 0" using domain_head(2) [OF r(2)] by simp
  then show ?thesis using u(1,2) r(1,2) im by blast
qed

lemma shows_boot_menu: "\<exists>cells. shows_cells boot_menu cells"
proof -
  have top: "\<exists>cells. shows_cells (draw_box_top 30 COLOR_CYAN COLOR_LIGHT_GRAY ''[ RaxzusOS Boot Menu ]'') cells"
    unfolding draw_box_top_frame by (rule exI, rule shows_bnd [OF shows_nl box_top_frame_cells]) simp
  have sides: "\<exists>cells. shows_cells (draw_box_sides 30 2 COLOR_CYAN) cells" by (rule exI, rule draw_box_sides_cells) simp_all
  have line: "\<exists>cells. shows_cells (print_text_align t 30 ALIGN_LEFT COLOR_CYAN c 2) cells" if "length t \<le> 26" for t c
    by (rule exI, rule print_text_align_cells(1)) (use that in simp_all)
  have bottom: "\<exists>cells. shows_cells (draw_box_bottom 30 COLOR_CYAN) cells" by (rule exI, rule draw_box_bottom_cells) simp
  have step: "\<exists>cells. shows_cells f cells \<Longrightarrow> \<exists>cells. shows_cells g cells \<Longrightarrow> \<exists>cells. shows_cells (bnd f (\<lambda>_. g)) cells" for f g
    using shows_bnd by blast
  show ?thesis unfolding boot_menu_def by (intro step top sides line bottom) simp_all
qed

text \<open>The input buffer and shift keys as the loader leaves them, and interrupt controllers that are ready.\<close>

definition power_on :: "machine \<Rightarrow> bool" where
  "power_on m \<longleftrightarrow> boot_ok (kern m) \<and> \<not> left_shift_pressed m \<and> \<not> right_shift_pressed m \<and> buffer_pos m = 0
     \<and> (\<forall>a\<in>span (command_buffer m) 256. word_base a \<in> image_addrs (kern m))
     \<and> imr_readable (port_in m) \<and> expecting (master (trace m)) = Ready \<and> expecting (slave (trace m)) = Ready"

definition empty_line :: "vga \<Rightarrow> editor" where
  "empty_line v = \<lparr>ed_left = False, ed_right = False, ed_line = [], ed_screen = v\<rparr>"

lemma init_keyboard_run: "\<exists>v. init_keyboard m = Inr ((), m\<lparr>kern := (kern m)\<lparr>console := v\<rparr>\<rparr>)"
proof -
  have "fmt_ok (''[OK]'' @ nl) []" by (simp add: nl_def)
  then show ?thesis by (auto simp: init_keyboard_def)
qed

lemma boot_menu_run:
  assumes "color (console (kern m)) = 0x0F"
  shows "\<exists>v. kern_op boot_menu m = Inr ((), m\<lparr>kern := (kern m)\<lparr>console := v\<rparr>\<rparr>) \<and> color v = 0x0F"
proof -
  from shows_boot_menu obtain cells where "shows_cells boot_menu cells" by blast
  then have "boot_menu (kern m) = Inr ((), (kern m)\<lparr>console := print_cells cells (console (kern m))\<rparr>)"
    using assms by (simp add: shows_cells_def)
  then show ?thesis using assms by (intro exI [of _ "print_cells cells (console (kern m))"]) (simp add: kern_op_def)
qed

lemma masked_timer [simp]:
  "irq_masked (Outb 0x40 a # tr) j = irq_masked tr j" "irq_masked (Outb 0x43 a # tr) j = irq_masked tr j"
  "irq_masked (Sti # tr) j = irq_masked tr j"
  by (simp_all add: irq_masked_def)

lemma kernel_init_run:
  assumes "power_on m"
  shows "\<exists>m' v. kernel_init m = Inr ((), m') \<and> keyboard_state premapped (empty_line v) m'
    \<and> (\<forall>j<16. irq_masked (trace m') j \<longleftrightarrow> j \<noteq> 1 \<and> (j = 0 \<or> irq_masked (trace m) j))
    \<and> wiring (master (trace m')) = wiring (master (trace m)) \<and> wiring (slave (trace m')) = wiring (slave (trace m))
    \<and> hd (trace m') = Sti \<and> idt m' = boot_idt (isr_wrapper m) 0x08 (idt m) \<and> gdt m' = boot_gdt (tss_addr m) (gdt m)"
proof -
  note p = assms [unfolded power_on_def]
  have "(0 :: u8) < 16" by simp
  from pic_mask_run [OF this, of m] p obtain d where
    d: "pic_disable_irq 0 m = Inr ((), m\<lparr>trace := d\<rparr>)" "expecting (master d) = Ready" "expecting (slave d) = Ready"
      "\<And>j. j < 16 \<Longrightarrow> irq_masked d j \<longleftrightarrow> j = 0 \<or> irq_masked (trace m) j"
      "wiring (master d) = wiring (master (trace m))" "wiring (slave d) = wiring (slave (trace m))" by auto
  have "(1 :: u8) < 16" by simp
  from pic_mask_run [OF this, of "m\<lparr>trace := d\<rparr>"] p d(2,3) obtain e where
    e: "pic_enable_irq 1 (m\<lparr>trace := d\<rparr>) = Inr ((), m\<lparr>trace := e\<rparr>)"
      "\<And>j. j < 16 \<Longrightarrow> irq_masked e j \<longleftrightarrow> j \<noteq> 1 \<and> irq_masked d j"
      "wiring (master e) = wiring (master d)" "wiring (slave e) = wiring (slave d)" by auto
  from init_keyboard_run [of "m\<lparr>trace := e\<rparr>"] obtain v where v: "init_keyboard (m\<lparr>trace := e\<rparr>) = Inr ((), m\<lparr>trace := e, kern := (kern m)\<lparr>console := v\<rparr>\<rparr>)" by auto
  let ?s = "(kern m)\<lparr>console := v\<rparr>"
  have "boot_ok ?s" using p by simp
  from init_memory_run [OF this] obtain t u s' fl where
    s': "init_paging ?s = Inr ((), t)" "init_pmm t = Inr ((), u)" "init_all_heaps u = Inr ((), s')"
      "heap_inv UNIV premapped fl s'" "next_free_block (heaps s' Heap_256) \<noteq> 0" "image_addrs s' = image_addrs (kern m)" by auto
  let ?b = "console_boot (idt_addr m) (console s')"
  let ?c = "console_after nl [] ?b"
  let ?tables = "m\<lparr>gdt := boot_gdt (tss_addr m) (gdt m), tss := zero_tss\<lparr>ss0 := 0x10, esp0 := tss_kernel_stack m + 4096, iomap_base := 104\<rparr>,
     gdtr := \<lparr>tbl_limit = 47, tbl_base = gdt_addr m\<rparr>, loaded_gdt := \<lparr>tbl_limit = 47, tbl_base = gdt_addr m\<rparr>,
     code_segment := 0x08, task_register := 0x28, idt := boot_idt (isr_wrapper m) 0x08 (idt m),
     idtp := \<lparr>tbl_limit = 2047, tbl_base = idt_addr m\<rparr>, loaded_idt := \<lparr>tbl_limit = 2047, tbl_base = idt_addr m\<rparr>\<rparr>"
  let ?m5 = "?tables\<lparr>trace := [Outb 0x40 0x2E, Outb 0x40 0x9C, Outb 0x43 0x36] @ e, kern := s'\<lparr>console := ?c\<rparr>\<rparr>"
  have fmt: "fmt_ok nl []" "fmt_ok (''Jumping to IDLE.... '' @ nl) []" "fmt_ok (''dfsfsdf'' @ nl) []" "fmt_ok ''RaxzusOS > '' []"
    by (simp_all add: nl_def)
  have "color (console (kern ?m5)) = 0x0F" using console_after_white [OF fmt(1)] by simp
  from boot_menu_run [OF this] obtain w where w: "kern_op boot_menu ?m5 = Inr ((), ?m5\<lparr>kern := (kern ?m5)\<lparr>console := w\<rparr>\<rparr>)" "color w = 0x0F" by blast
  let ?w = "console_after ''RaxzusOS > '' [] (set_color COLOR_CYAN
    (console_after (''dfsfsdf'' @ nl) [] (console_after (''Jumping to IDLE.... '' @ nl) [] w)))"
  let ?m' = "?tables\<lparr>trace := Sti # trace ?m5, kern := s'\<lparr>console := ?w\<rparr>\<rparr>"
  have run: "kernel_init m = Inr ((), ?m')"
    using d(1) e(1) v s'(1-3) w(1) fmt by (simp add: kernel_init_def)
  have "color ?w = 0x0F" by (rule console_after_white [OF fmt(4)])
  then have "keyboard_state premapped (empty_line ?w) ?m'"
    using p s'(4-6) by (auto simp: keyboard_state_def empty_line_def)
  moreover have "\<forall>j<16. irq_masked (trace ?m') j \<longleftrightarrow> j \<noteq> 1 \<and> (j = 0 \<or> irq_masked (trace m) j)"
    using d(4) e(2) by auto
  moreover have "wiring (master (trace ?m')) = wiring (master (trace m))" "wiring (slave (trace ?m')) = wiring (slave (trace m))"
    using d(5,6) e(3,4) by simp_all
  ultimately show ?thesis using run by (intro exI [of _ ?m'] exI [of _ ?w]) simp
qed

lemma shows_banner: "\<exists>cells. shows_cells (bnd (draw_box_top 70 COLOR_WHITE COLOR_MAGENTA []) (\<lambda>_.
     bnd (print_text_align ''RaxzusOS Kernel v1.0 - Boot Sequence'' 70 ALIGN_CENTER COLOR_BLACK COLOR_WHITE 2) (\<lambda>_.
     bnd (draw_box_bottom 70 COLOR_WHITE) (\<lambda>_.
     print_text_align ''Inizializing system programs.....'' 70 ALIGN_LEFT COLOR_BLACK COLOR_YELLOW 2)))) cells"
proof -
  have top: "\<exists>cells. shows_cells (draw_box_top 70 COLOR_WHITE COLOR_MAGENTA []) cells"
    unfolding draw_box_top_frame by (rule exI, rule shows_bnd [OF shows_nl box_top_frame_cells]) simp
  have line: "\<exists>cells. shows_cells (print_text_align t 70 a COLOR_BLACK c 2) cells" if "length t \<le> 66" "a \<in> {ALIGN_LEFT, ALIGN_RIGHT, ALIGN_CENTER}" for t c a
    by (rule exI, rule print_text_align_cells(1)) (use that in simp_all)
  have bottom: "\<exists>cells. shows_cells (draw_box_bottom 70 COLOR_WHITE) cells" by (rule exI, rule draw_box_bottom_cells) simp
  have step: "\<exists>cells. shows_cells f cells \<Longrightarrow> \<exists>cells. shows_cells g cells \<Longrightarrow> \<exists>cells. shows_cells (bnd f (\<lambda>_. g)) cells" for f g
    using shows_bnd by blast
  show ?thesis by (intro step top line bottom) simp_all
qed

lemma kern_op_bnd: "bnd (kern_op f) (\<lambda>_. bnd (kern_op g) k) = bnd (kern_op (bnd f (\<lambda>_. g))) k"
  by (rule ext) (simp add: bnd_def kern_op_def split: sum.splits)

text \<open>The first part of \<^verbatim>\<open>kernel_main\<close>: the banner, and the controllers on the vectors 32 to 47.\<close>

lemma boot_banner_run:
  assumes white: "color (console (kern m)) = 0x0F"
  shows "\<exists>c. boot_banner m = pic_remap 32 40 (m\<lparr>kern := (kern m)\<lparr>console := c\<rparr>\<rparr>)"
proof -
  from shows_banner obtain cells where c: "shows_cells (bnd (draw_box_top 70 COLOR_WHITE COLOR_MAGENTA []) (\<lambda>_.
     bnd (print_text_align ''RaxzusOS Kernel v1.0 - Boot Sequence'' 70 ALIGN_CENTER COLOR_BLACK COLOR_WHITE 2) (\<lambda>_.
     bnd (draw_box_bottom 70 COLOR_WHITE) (\<lambda>_.
     print_text_align ''Inizializing system programs.....'' 70 ALIGN_LEFT COLOR_BLACK COLOR_YELLOW 2)))) cells" (is "shows_cells ?f cells") by blast
  have run: "boot_banner = bnd (kern_op ?f) (\<lambda>_. pic_remap 32 40)"
    unfolding boot_banner_def by (simp only: kern_op_bnd bnd_assoc)
  have "kern_op ?f m = Inr ((), m\<lparr>kern := (kern m)\<lparr>console := print_cells cells (console (kern m))\<rparr>\<rparr>)"
    using c white by (intro kern_op_Inr) (simp add: shows_cells_def)
  then show ?thesis unfolding run by (auto simp: bnd_run)
qed

text \<open>Up to the second call of \<^verbatim>\<open>pic_disable_irq\<close>: both controllers programmed, and \<open>w\<close> added to the mask of the second.\<close>

lemma boot_start_run:
  assumes on: "power_on m" and white: "color (console (kern m)) = 0x0F"
  shows "\<exists>k. bnd boot_banner (\<lambda>_. pic_disable_with (some_bit w) 46) m = Inr ((), k) \<and> power_on k
    \<and> wiring (master (trace k)) = (32, 4, 1, Ready) \<and> wiring (slave (trace k)) = (40, 2, 1, Ready)
    \<and> (\<forall>j<16. irq_masked (trace k) j \<longleftrightarrow> irq_masked (trace m) j \<or> 8 \<le> j \<and> bit w (j - 8))
    \<and> isr_wrapper k = isr_wrapper m \<and> idt k = idt m \<and> gdt k = gdt m \<and> tss_addr k = tss_addr m"
proof -
  note p = on [unfolded power_on_def]
  from boot_banner_run [OF white] obtain c0 where b: "boot_banner m = pic_remap 32 40 (m\<lparr>kern := (kern m)\<lparr>console := c0\<rparr>\<rparr>)" by blast
  from pic_remap_run [of "m\<lparr>kern := (kern m)\<lparr>console := c0\<rparr>\<rparr>" 32 40] p obtain t c where
    r: "boot_banner m = Inr ((), m\<lparr>trace := t, kern := (kern m)\<lparr>console := c\<rparr>\<rparr>)"
      "master t = \<lparr>vector_base = 32, cascade = 4, mode = 1, imr = imr (master (trace m)), expecting = Ready\<rparr>"
      "slave t = \<lparr>vector_base = 40, cascade = 2, mode = 1, imr = imr (slave (trace m)), expecting = Ready\<rparr>" unfolding b by auto
  let ?old = "imr (slave (trace m))"
  let ?t = "Outb 0xA1 (?old OR w) # Inb 0xA1 ?old # t" and ?k = "m\<lparr>trace := t, kern := (kern m)\<lparr>console := c\<rparr>\<rparr>"
  have port: "ucast (port_in m t 0xA1) = ?old" using p r(3) by (simp add: imr_readable_def)
  have "pic_disable_with (some_bit w) 46 ?k = Inr ((), ?k\<lparr>trace := ?t\<rparr>)"
    using port by (simp add: pic_disable_with_def some_bit_def pic_ports)
  then have run: "bnd boot_banner (\<lambda>_. pic_disable_with (some_bit w) 46) m = Inr ((), ?k\<lparr>trace := ?t\<rparr>)" using r(1) by simp
  have chips: "master ?t = master t" "slave ?t = (slave t)\<lparr>imr := ?old OR w\<rparr>" using r(3) by simp_all
  have "irq_masked ?t j \<longleftrightarrow> irq_masked (trace m) j \<or> 8 \<le> j \<and> bit w (j - 8)" if "j < 16" for j
  proof (cases "j < 8")
    case False
    then have "j mod 8 = j - 8" using that le_mod_geq [of 8 j] by simp
    then show ?thesis using False unfolding irq_masked_def chips by (simp add: r(3) bit_or_iff)
  qed (unfold irq_masked_def chips, simp add: r(2))
  moreover have "power_on (?k\<lparr>trace := ?t\<rparr>)" using p chips r(2,3) by (simp add: power_on_def del: chip_after.simps)
  ultimately show ?thesis using run chips r(2,3)
    by (intro exI [of _ "?k\<lparr>trace := ?t\<rparr>"]) (simp add: wiring_def del: chip_after.simps)
qed

text \<open>
  C8: The whole of \<^verbatim>\<open>kernel_main\<close>, from the banner to the halt loop.  From a machine as \<^verbatim>\<open>boot.s\<close> leaves it and with any byte \<open>w\<close> for the
  undefined shift in \<^verbatim>\<open>pic_disable_irq(46)\<close>, every step returns, and where the halt loop begins the components are composed: the
  heap invariant holds and the keyboard driver stands for an empty line; the controllers are ready on the vectors 32 and 40, the second one wired to
  line 2 of the first; line 1 (the keyboard) is unmasked, line 0 (the timer) masked, the lines of \<open>w\<close> added on the second
  controller and no other line changed; the keyboard's vector leads to its stub in the flat kernel code segment; interrupts
  are enabled last.
\<close>

theorem kernel_main_ready:
  assumes "power_on m" "color (console (kern m)) = 0x0F"
  shows "\<exists>m' v. boot_with (some_bit w) m = Inr ((), m') \<and> kernel_main_with (some_bit w) m = halt_forever m'
    \<and> keyboard_state premapped (empty_line v) m'
    \<and> master (trace m') = \<lparr>vector_base = 32, cascade = 4, mode = 1, imr = imr (master (trace m')), expecting = Ready\<rparr>
    \<and> slave (trace m') = \<lparr>vector_base = 40, cascade = 2, mode = 1, imr = imr (slave (trace m')), expecting = Ready\<rparr>
    \<and> (\<forall>j<16. irq_masked (trace m') j \<longleftrightarrow> j \<noteq> 1 \<and> (j = 0 \<or> irq_masked (trace m) j \<or> 8 \<le> j \<and> bit w (j - 8)))
    \<and> hd (trace m') = Sti
    \<and> (let gate = idt m' (unat (vector_base (master (trace m'))) + 1) in
         gate_present gate \<and> gate_handler gate = isr_wrapper m 33 \<and> flat_segment 0 CODE_SEGMENT (gdt m' (unat (selector gate) div 8)))"
proof -
  from boot_start_run [OF assms, of w] obtain k where
    k: "bnd boot_banner (\<lambda>_. pic_disable_with (some_bit w) 46) m = Inr ((), k)" "power_on k"
      "wiring (master (trace k)) = (32, 4, 1, Ready)" "wiring (slave (trace k)) = (40, 2, 1, Ready)"
      "\<forall>j<16. irq_masked (trace k) j \<longleftrightarrow> irq_masked (trace m) j \<or> 8 \<le> j \<and> bit w (j - 8)" "isr_wrapper k = isr_wrapper m" by blast
  from kernel_init_run [OF k(2)] obtain m' v where
    r: "kernel_init k = Inr ((), m')" "keyboard_state premapped (empty_line v) m'"
      "\<forall>j<16. irq_masked (trace m') j \<longleftrightarrow> j \<noteq> 1 \<and> (j = 0 \<or> irq_masked (trace k) j)"
      "wiring (master (trace m')) = (32, 4, 1, Ready)" "wiring (slave (trace m')) = (40, 2, 1, Ready)" "hd (trace m') = Sti"
    and t: "idt m' = boot_idt (isr_wrapper k) 0x08 (idt k)" "gdt m' = boot_gdt (tss_addr k) (gdt k)" unfolding k(3,4) by blast
  have run: "boot_with (some_bit w) m = Inr ((), m')"
  proof -
    have "boot_with (some_bit w) m = bnd (bnd boot_banner (\<lambda>_. pic_disable_with (some_bit w) 46)) (\<lambda>_. kernel_init) m"
      by (simp only: boot_with_def bnd_assoc)
    then show ?thesis using k(1) r(1) by simp
  qed
  have chips: "master (trace m') = \<lparr>vector_base = 32, cascade = 4, mode = 1, imr = imr (master (trace m')), expecting = Ready\<rparr>"
    "slave (trace m') = \<lparr>vector_base = 40, cascade = 2, mode = 1, imr = imr (slave (trace m')), expecting = Ready\<rparr>"
    using r(4,5) by (cases "master (trace m')", simp add: wiring_def, cases "slave (trace m')", simp add: wiring_def)
  have vec: "unat (vector_base (master (trace m'))) + 1 = 33" using r(4) by (simp add: wiring_def)
  have gate: "let gate = idt m' (unat (vector_base (master (trace m'))) + 1) in
      gate_present gate \<and> gate_handler gate = isr_wrapper m 33 \<and> flat_segment 0 CODE_SEGMENT (gdt m' (unat (selector gate) div 8))"
    unfolding Let_def vec using boot_gdt_flat(1) by (simp add: t k(6) boot_idt_def gate_present_def)
  have "kernel_main_with (some_bit w) m = halt_forever m'" using run by (simp add: kernel_main_with_def)
  moreover have "\<forall>j<16. irq_masked (trace m') j \<longleftrightarrow> j \<noteq> 1 \<and> (j = 0 \<or> irq_masked (trace m) j \<or> 8 \<le> j \<and> bit w (j - 8))"
    using r(3) k(5) by blast
  ultimately show ?thesis using run r(2,6) chips gate by blast
qed

lemma demo_power_on: "power_on (demo_machine\<lparr>kern := boot_state\<rparr>)"
proof -
  have "layout_ok boot_state" using boot_state_ok by (simp add: boot_ok_def)
  then have "word_base a \<in> image_addrs boot_state" if "a \<in> span 0xC0001000 256" for a
    using image_span_layout [of 255 a] that by simp
  then show ?thesis using boot_state_ok demo_ports_imr demo_machine_pic
    by (simp add: power_on_def) (simp add: demo_machine_def)
qed

theorem kernel_main_ready_witness:
  "\<exists>m' v. boot_with (some_bit 0x40) (demo_machine\<lparr>kern := boot_state\<rparr>) = Inr ((), m') \<and> keyboard_state premapped (empty_line v) m'
    \<and> \<not> irq_masked (trace m') 1 \<and> irq_masked (trace m') 0 \<and> irq_masked (trace m') 14 \<and> vector_base (slave (trace m')) = 40"
proof -
  have white: "color (console (kern (demo_machine\<lparr>kern := boot_state\<rparr>))) = 0x0F" by (simp add: boot_state_def demo_state_def)
  have "bit (0x40 :: u8) 6" by simp
  with kernel_main_ready [OF demo_power_on white, of "0x40"] obtain m' v where
    r: "boot_with (some_bit 0x40) (demo_machine\<lparr>kern := boot_state\<rparr>) = Inr ((), m')" "keyboard_state premapped (empty_line v) m'"
      "slave (trace m') = \<lparr>vector_base = 40, cascade = 2, mode = 1, imr = imr (slave (trace m')), expecting = Ready\<rparr>"
      "\<And>j. j < 16 \<Longrightarrow> irq_masked (trace m') j \<longleftrightarrow> j \<noteq> 1 \<and> (j = 0 \<or> irq_masked (trace (demo_machine\<lparr>kern := boot_state\<rparr>)) j \<or> 8 \<le> j \<and> bit (0x40 :: u8) (j - 8))"
    by blast
  have "vector_base (slave (trace m')) = 40" by (subst r(3)) simp
  moreover have "\<not> irq_masked (trace m') 1" "irq_masked (trace m') 0" "irq_masked (trace m') 14" using r(4) [of 1] r(4) [of 0] r(4) [of 14] by simp_all
  ultimately show ?thesis using r(1,2) by blast
qed

text \<open>
  C9: The booted system answers its keyboard.  After the boot, every sequence of key presses that the line editor accepts,
  lines of \<^verbatim>\<open>help\<close>, \<^verbatim>\<open>neofetch\<close>, \<^verbatim>\<open>mem\<close>, \<^verbatim>\<open>clear\<close> and mistyped commands in any order and number, is handled to the end,
  and the screen shows what the editor and the commands are meant to show.
\<close>

theorem booted_system_answers:
  assumes "power_on m"
  shows "\<exists>m' v. kernel_init m = Inr ((), m') \<and>
    (\<forall>keys e. edit_keys keys (empty_line v) = Some e \<longrightarrow>
      (\<exists>m''. key_interrupts keys m' = Inr ((), m'') \<and> console (kern m'') = ed_screen e
         \<and> buffer_pos m'' = int (length (ed_line e)) \<and> (\<exists>fl. heap_inv UNIV premapped fl (kern m''))))"
proof -
  from kernel_init_run [OF assms] obtain m' v where
    r: "kernel_init m = Inr ((), m')" "keyboard_state premapped (empty_line v) m'" by blast
  have "\<exists>m''. key_interrupts keys m' = Inr ((), m'') \<and> console (kern m'') = ed_screen e
      \<and> buffer_pos m'' = int (length (ed_line e)) \<and> (\<exists>fl. heap_inv UNIV premapped fl (kern m''))"
    if e: "edit_keys keys (empty_line v) = Some e" for keys e
  proof -
    from keys_run [OF r(2) e] obtain m'' where m'': "key_interrupts keys m' = Inr ((), m'')" "keyboard_state premapped e m''" by blast
    then show ?thesis using keyboard_stateD(3,8,10) [OF m''(2)] by blast
  qed
  then show ?thesis using r(1) by blast
qed

theorem booted_system_answers_witness:
  "\<exists>m' m'' v. kernel_init (demo_machine\<lparr>kern := boot_state\<rparr>) = Inr ((), m')
    \<and> key_interrupts [0x1E, 0x30] m' = Inr ((), m'') \<and> buffer_pos m'' = 2
    \<and> console (kern m'') = print_cells (paint 0x0F ''ab'') v"
proof -
  from booted_system_answers [OF demo_power_on] obtain m' v where r: "kernel_init (demo_machine\<lparr>kern := boot_state\<rparr>) = Inr ((), m')"
    "\<And>keys e. edit_keys keys (empty_line v) = Some e \<Longrightarrow>
      \<exists>m''. key_interrupts keys m' = Inr ((), m'') \<and> console (kern m'') = ed_screen e \<and> buffer_pos m'' = int (length (ed_line e))" by blast
  have "map (\<lambda>c. scancode_to_ascii c False) [0x1E, 0x30] = bytes ''ab''" by code_simp
  then have "edit_keys [0x1E, 0x30] (empty_line v) = Some \<lparr>ed_left = False, ed_right = False, ed_line = bytes ''ab'',
      ed_screen = print_cells (paint 0x0F ''ab'') v\<rparr>"
    by (simp add: edit_key_def empty_line_def bytes_def paint_def)
  from r(2) [OF this] obtain m'' where "key_interrupts [0x1E, 0x30] m' = Inr ((), m'')"
    "console (kern m'') = print_cells (paint 0x0F ''ab'') v" "buffer_pos m'' = 2" by (auto simp: bytes_def)
  then show ?thesis using r(1) by blast
qed

section \<open>Undefined behaviour on the way\<close>

text \<open>
  C40: By the C standard \<^verbatim>\<open>kernel_main\<close> is undefined: after the banner and the remapping it calls \<^verbatim>\<open>pic_disable_irq(46)\<close>,
  a vector number where a line number is expected, and the shift \<^verbatim>\<open>1 << 38\<close> has no defined value.  (An x86
  shift masks the count to 6, which is line 14 of the sixteen, the disk's.)
\<close>

theorem kernel_main_undefined:
  assumes white: "color (console (kern m)) = 0x0F"
  shows "kernel_main m = Inl (BadShift 38)"
proof -
  from boot_banner_run [OF white] obtain c where "boot_banner m = pic_remap 32 40 (m\<lparr>kern := (kern m)\<lparr>console := c\<rparr>\<rparr>)" by blast
  moreover have "fmt_ok (''.........[OK]'' @ [CHR 0x0A]) []" by simp
  ultimately have "\<exists>m'. boot_banner m = Inr ((), m')" by (simp add: pic_remap_def)
  then obtain m' where b: "boot_banner m = Inr ((), m')" by blast
  have "pic_disable_irq 46 m' = Inl (BadShift 38)"
    by (simp add: pic_disable_irq_def pic_disable_with_def irq_bit_def)
  then show ?thesis using b by (simp add: kernel_main_def kernel_main_with_def boot_with_def pic_disable_irq_def)
qed

theorem kernel_main_undefined_witness: "kernel_main demo_machine = Inl (BadShift 38)"
  by (rule kernel_main_undefined) (simp add: demo_machine_def demo_state_def)

section \<open>Fault reports\<close>

lemma kprintf_skip_e:
  "CHR ''%'' \<notin> set xs \<Longrightarrow> kprintf_loop rnd (xs @ ''%e'' @ ys) [] v = kprintf_loop rnd (xs @ ys) [] v"
  by (induction xs arbitrary: v) auto

lemma shows_skip_e:
  assumes "CHR ''%'' \<notin> set xs" "CHR ''%'' \<notin> set ys"
  shows "shows_cells (kprint (xs @ ''%e'' @ ys) []) (paint 0x0F (xs @ ys))"
proof -
  have "kprint (xs @ ''%e'' @ ys) [] = kprint (xs @ ys) []"
    by (rule ext) (simp only: kprint_def kprintf_def' kprintf_skip_e [OF assms(1)])
  then show ?thesis using shows_literal [of "xs @ ys"] assms by simp
qed

text \<open>What the error code of a page fault means, as the handler words it.\<close>

definition fault_text :: "u32 \<Rightarrow> string list" where
  "fault_text err =
     (if bit err 0 then [] else [''-> Page not present'' @ nl, ''-> You tried to access memory that doesn't exist'' @ nl]) @
     (if bit err 1 then [''-> Write violation'' @ nl, ''-> You tried to write to read-only memory. Naughty.'' @ nl] else []) @
     (if bit err 2 then [''-> User mode violation'' @ nl, ''-> User code tried to access kernel memory. Nice try buddy.'' @ nl] else [])"

lemma shows_two_lines:
  assumes "CHR ''%'' \<notin> set a" "CHR ''%'' \<notin> set b"
  shows "shows_cells (bnd (kprint (a @ nl) []) (\<lambda>_. kprint (''-> '' @ ''%e'' @ b @ nl) []))
    (paint 0x0F (a @ nl) @ paint 0x0F (''-> '' @ b @ nl))"
  by (intro shows_bnd shows_literal shows_skip_e) (use assms in \<open>simp_all add: nl_def\<close>)

lemma shows_if:
  "shows_cells f xs \<Longrightarrow> shows_cells (if b then f else ret ()) (if b then xs else [])"
  by (simp add: shows_ret)

text \<open>The part of the report behind the address.\<close>

definition fault_report :: "u32 \<Rightarrow> unit kop" where
  "fault_report err =
     bnd (if \<not> bit err 0 then
            bnd (kprint (''-> Page not present'' @ nl) []) (\<lambda>_. kprint (''-> '' @ ''%e'' @ ''You tried to access memory that doesn't exist'' @ nl) [])
          else ret ()) (\<lambda>_.
     bnd (if bit err 1 then
            bnd (kprint (''-> Write violation'' @ nl) []) (\<lambda>_. kprint (''-> '' @ ''%e'' @ ''You tried to write to read-only memory. Naughty.'' @ nl) [])
          else ret ()) (\<lambda>_.
     if bit err 2 then
       bnd (kprint (''-> User mode violation'' @ nl) []) (\<lambda>_. kprint (''-> '' @ ''%e'' @ ''User code tried to access kernel memory. Nice try buddy.'' @ nl) [])
     else ret ()))"

lemma shows_fault_report: "shows_cells (fault_report err) (concat (map (paint 0x0F) (fault_text err)))"
proof -
  have "shows_cells (fault_report err)
    ((if \<not> bit err 0 then paint 0x0F (''-> Page not present'' @ nl) @ paint 0x0F (''-> '' @ ''You tried to access memory that doesn't exist'' @ nl) else []) @
     (if bit err 1 then paint 0x0F (''-> Write violation'' @ nl) @ paint 0x0F (''-> '' @ ''You tried to write to read-only memory. Naughty.'' @ nl) else []) @
     (if bit err 2 then paint 0x0F (''-> User mode violation'' @ nl) @ paint 0x0F (''-> '' @ ''User code tried to access kernel memory. Nice try buddy.'' @ nl) else []))"
    unfolding fault_report_def by (intro shows_bnd shows_if shows_two_lines) simp_all
  then show ?thesis by (cases "bit err 0"; cases "bit err 1"; cases "bit err 2") (simp_all add: fault_text_def)
qed

lemma and_bits:
  "(err :: u32) AND 0x1 = 0 \<longleftrightarrow> \<not> bit err 0" "err AND 0x2 = 0 \<longleftrightarrow> \<not> bit err 1" "err AND 0x4 = 0 \<longleftrightarrow> \<not> bit err 2"
  using and_exp_eq_0_iff_not_bit [of err 0] and_exp_eq_0_iff_not_bit [of err 1] and_exp_eq_0_iff_not_bit [of err 2]
  by simp_all

text \<open>
  C26: The page fault handler decodes the error code on the stack: after the heading and the faulting address it prints
  exactly the explanations of the bits of the code (not present, write, user), halts once, and leaves the rest
  of the machine as it is.
\<close>

theorem page_fault_report:
  assumes err: "load32 (stack + 32) (kern m) = Inr (err, kern m)" and white: "color (console (kern m)) = 0x0F"
  defines "heading \<equiv> print_cells (paint 0x0F ('' Page fault exception occurred!'' @ nl)) (console (kern m))"
  shows "page_fault_handler addr stack m = Inr ((), m\<lparr>trace := Hlt # trace m, kern := (kern m)\<lparr>console :=
    print_cells (concat (map (paint 0x0F) (fault_text err)))
      (console_after (''-> Faulting address: 0x%x'' @ nl) [AInt addr] heading)\<rparr>\<rparr>)"
proof -
  let ?v = "console_after (''-> Faulting address: 0x%x'' @ nl) [AInt addr] heading"
  have lift: "(if c then bnd (putf a x) (\<lambda>_. putf b y) else ret ()) = kern_op (if c then bnd (kprint a x) (\<lambda>_. kprint b y) else ret ())" for c a x b y
    by (rule ext) (simp add: putf_def kern_op_def bnd_def split: sum.splits)
  have kb: "bnd (kern_op f) (\<lambda>_. bnd (kern_op g) (\<lambda>_. bnd (kern_op h) k)) = bnd (kern_op (bnd f (\<lambda>_. bnd g (\<lambda>_. h)))) k" for f g h :: "unit kop" and k :: "unit \<Rightarrow> unit mop"
    by (rule ext) (simp add: bnd_def kern_op_def split: sum.splits)
  have tail: "bnd (if err AND 0x1 = 0 then
            bnd (putf (''-> Page not present'' @ nl) []) (\<lambda>_.
            putf (''-> %eYou tried to access memory that doesn't exist'' @ nl) [])
          else ret ()) (\<lambda>_.
     bnd (if err AND 0x2 \<noteq> 0 then
            bnd (putf (''-> Write violation'' @ nl) []) (\<lambda>_.
            putf (''-> %eYou tried to write to read-only memory. Naughty.'' @ nl) [])
          else ret ()) (\<lambda>_.
     bnd (if err AND 0x4 \<noteq> 0 then
            bnd (putf (''-> User mode violation'' @ nl) []) (\<lambda>_.
            putf (''-> %eUser code tried to access kernel memory. Nice try buddy.'' @ nl) [])
          else ret ()) (\<lambda>_. hlt))) = bnd (kern_op (fault_report err)) (\<lambda>_. hlt)"
    unfolding lift kb fault_report_def and_bits not_not by (simp only: append_Cons append_Nil)
  have f: "fmt_ok (''-> Faulting address: 0x%x'' @ nl) [AInt addr]" by (simp add: nl_def)
  have "shows_cells (kprint ([] @ ''%e'' @ '' Page fault exception occurred!'' @ nl) []) (paint 0x0F ([] @ '' Page fault exception occurred!'' @ nl))"
    by (rule shows_skip_e) (simp_all add: nl_def)
  then have h: "putf (''%e Page fault exception occurred!'' @ nl) [] m = Inr ((), m\<lparr>kern := (kern m)\<lparr>console := heading\<rparr>\<rparr>)"
    using white unfolding shows_cells_def putf_def by (intro kern_op_Inr) (simp add: heading_def)
  have "color ?v = 0x0F" by (rule console_after_white [OF f])
  then have r: "kern_op (fault_report err) (m\<lparr>kern := (kern m)\<lparr>console := ?v\<rparr>\<rparr>) =
      Inr ((), m\<lparr>kern := (kern m)\<lparr>console := print_cells (concat (map (paint 0x0F) (fault_text err))) ?v\<rparr>\<rparr>)"
    using shows_fault_report [of err] by (simp add: shows_cells_def)
  have e: "reg_at stack REG_ERR_CODE m = Inr (err, m)" using err by (simp add: reg_at_def REG_ERR_CODE_def)
  have run: "page_fault_handler addr stack m = bnd (kern_op (fault_report err)) (\<lambda>_. hlt) (m\<lparr>kern := (kern m)\<lparr>console := ?v\<rparr>\<rparr>)"
    unfolding page_fault_handler_def bnd_run [of "reg_at stack REG_ERR_CODE"] e sum.case prod.case tail
    using h f by simp
  show ?thesis unfolding run bnd_run [of "kern_op (fault_report err)"] r by (simp add: hlt_def)
qed

text \<open>The booted kernel with the word \<open>w\<close> at \<^verbatim>\<open>0xC0001020\<close>.\<close>

lemma word_state: "\<exists>s. load32 0xC0001020 s = Inr (w, s) \<and> color (console s) = 0x0F"
proof -
  from string_state [of "replicate 40 1"] obtain fl s where
    s: "heap_inv UNIV premapped fl s"
      "\<And>a. a \<in> span 0xC0001000 (Suc (length (replicate 40 (1 :: u8)))) \<Longrightarrow> word_base a \<in> image_addrs s" by auto
  have "(0xC0001020 :: u32) \<in> span 0xC0001000 (Suc (length (replicate 40 (1 :: u8))))" unfolding span_def by (intro CollectI exI [of _ 32]) simp
  then have im: "(0xC0001020 :: u32) \<in> ram_addrs premapped s" using s(2) [of "0xC0001020"] by (simp add: word_base_def ram_addrs_def)
  have ok: "mem_only_ok UNIV premapped s s" using heap_invD(1) [OF s(1)] by simp
  from ram.wr_peek [OF ok im, of w] obtain t where t: "mem_only_ok UNIV premapped s t" "peek load32 t 0xC0001020 = w" using im by auto
  from ram.rd_peek [OF t(1) im] have "load32 0xC0001020 t = Inr (w, t)" using t(2) by simp
  then have "load32 0xC0001020 (t\<lparr>console := blank_console\<rparr>) = Inr (w, t\<lparr>console := blank_console\<rparr>)"
    by (auto simp: load32_def split: if_splits option.splits)
  then show ?thesis by (intro exI [of _ "t\<lparr>console := blank_console\<rparr>"]) (simp add: blank_console_def)
qed

theorem page_fault_report_witness:
  "\<exists>m v. page_fault_handler 0x10000000 0xC0001000 m = Inr ((), m\<lparr>trace := Hlt # trace m, kern := (kern m)\<lparr>console :=
    print_cells (paint 0x0F (''-> Write violation'' @ nl) @ paint 0x0F (''-> '' @ ''You tried to write to read-only memory. Naughty.'' @ nl)) v\<rparr>\<rparr>)"
proof -
  from word_state obtain s where s: "load32 0xC0001020 s = Inr (3, s)" "color (console s) = 0x0F" by blast
  let ?m = "demo_machine\<lparr>kern := s\<rparr>"
  have t: "concat (map (paint 0x0F) (fault_text 3)) = paint 0x0F (''-> Write violation'' @ nl) @ paint 0x0F (''-> '' @ ''You tried to write to read-only memory. Naughty.'' @ nl)"
    by (simp add: fault_text_def bit_numeral_rec)
  have "load32 (0xC0001000 + 32) (kern ?m) = Inr (3, kern ?m)" using s(1) by simp
  moreover have "color (console (kern ?m)) = 0x0F" using s(2) by simp
  ultimately show ?thesis using page_fault_report [of "0xC0001000" ?m 3 "0x10000000", unfolded t] by blast
qed

text \<open>
  The system calls do nothing.  Whatever number but 3 a process passes in \<^verbatim>\<open>eax\<close>, \<^verbatim>\<open>sleep\<close> and \<^verbatim>\<open>fork\<close> included,
  the handler prints the registers, halts the processor, and returns with the control blocks, the scheduler's variables and
  all memory unchanged.
\<close>

theorem system_calls_ignored:
  assumes eax: "load32 (regs + 28) (kern m) = Inr (n, kern m)" "n \<noteq> 3"
  shows "\<exists>v. system_call_interrupt_handler regs m = Inr ((), m\<lparr>kern := (kern m)\<lparr>console := v\<rparr>, trace := Hlt # trace m\<rparr>)"
proof -
  have f: "fmt_ok (''The adress is: %x'' @ nl) [AInt regs]" "fmt_ok (''The adress eax is: %x'' @ nl) [AInt n]" by (simp_all add: nl_def)
  have r: "reg_at regs REG_EAX (m\<lparr>kern := (kern m)\<lparr>console := v\<rparr>\<rparr>) = Inr (n, m\<lparr>kern := (kern m)\<lparr>console := v\<rparr>\<rparr>)"
    "reg_at regs REG_EAX (m\<lparr>kern := (kern m)\<lparr>console := v\<rparr>, trace := tr\<rparr>) = Inr (n, m\<lparr>kern := (kern m)\<lparr>console := v\<rparr>, trace := tr\<rparr>)" for v tr
    using eax(1) by (auto simp: reg_at_def REG_EAX_def load32_def split: if_splits option.splits)
  show ?thesis using r f eax(2) by (auto simp: system_call_interrupt_handler_def hlt_def)
qed

theorem system_calls_ignored_witness:
  "\<exists>m v. load32 0xC0001020 (kern m) = Inr (1, kern m) \<and>
    system_call_interrupt_handler 0xC0001004 m = Inr ((), m\<lparr>kern := (kern m)\<lparr>console := v\<rparr>, trace := Hlt # trace m\<rparr>)"
proof -
  from word_state obtain s where s: "load32 0xC0001020 s = Inr (1, s)" by blast
  have "load32 (0xC0001004 + 28) (kern (demo_machine\<lparr>kern := s\<rparr>)) = Inr (1, kern (demo_machine\<lparr>kern := s\<rparr>))" using s by simp
  from system_calls_ignored [OF this] s show ?thesis by (intro exI [of _ "demo_machine\<lparr>kern := s\<rparr>"]) auto
qed

lemma halt_forever_hangs: "halt_forever m = Inl Hang"
  unfolding halt_forever_def by (rule loop_Hang [where I = "\<lambda>_ _. True"]) (simp_all add: hlt_def)

lemma double_fault_never_returns: "double_fault_handler e m = Inl Hang"
  by (simp add: double_fault_handler_def kset_color_def nl_def halt_forever_hangs)

end
