(* ===== verification/Process_Space.thy ===== *)
theory Process_Space
  imports System
begin

unbundle bit_operations_syntax

text \<open>
  The address space of a process on a working heap, as \<^verbatim>\<open>create_process\<close> of \<^verbatim>\<open>lib/process_manager.c\<close> builds it; the models are
  in \<^verbatim>\<open>Process_Manager\<close>.  The directory, the tables, the stack and the code page of the new process are frames outside the
  kernel's address spaces, written through the direct map (\<open>reserved\<close>).  \<open>process_space\<close> and \<open>user_space\<close> say what they hold
  in the end for a kernel and for a user process, and \<open>user_stack_run\<close> that the model puts it there.
\<close>

section \<open>Frames that only the kernel code at work knows\<close>

text \<open>
  \<open>reserved V fl N s\<close>: the heap is in order and the frames of \<open>N\<close> are in use, but neither a data page nor a table
  of the kernel's address spaces.
\<close>

definition reserved :: "nat set \<Rightarrow> (heap_id \<Rightarrow> u32 list) \<Rightarrow> nat set \<Rightarrow> kstate \<Rightarrow> bool" where
  "reserved V fl N s \<longleftrightarrow> heap_inv UNIV V fl s \<and> (\<forall>n\<in>N. fresh_frame UNIV V s n)"

lemma reservedD:
  assumes "reserved V fl N s"
  shows "heap_inv UNIV V fl s" "vm_inv UNIV V s" "n \<in> N \<Longrightarrow> fresh_frame UNIV V s n" "n \<in> N \<Longrightarrow> n < 0x40000"
    "n \<in> N \<Longrightarrow> frame_of (addr_of_frame n) = n"
proof -
  show i: "heap_inv UNIV V fl s" and f: "n \<in> N \<Longrightarrow> fresh_frame UNIV V s n" for n using assms by (auto simp: reserved_def)
  show "vm_inv UNIV V s" by (rule heap_invD(1) [OF i])
  show "n \<in> N \<Longrightarrow> n < 0x40000" by (rule fresh_frame_lt [OF f])
  then show "n \<in> N \<Longrightarrow> frame_of (addr_of_frame n) = n" by (intro frame_of_addr_of_frame) simp
qed

lemma reserved_subset: "reserved V fl N s \<Longrightarrow> M \<subseteq> N \<Longrightarrow> reserved V fl M s"
  by (auto simp: reserved_def)

lemma reserved_take:
  assumes p: "reserved V fl N s" and n: "n \<in> free_low s"
  shows "reserved V fl (insert n N) (take_frame n s)" "n \<notin> N"
proof -
  note vm = reservedD(2) [OF p]
  have d: "dir_of (take_frame n s) = dir_of s" by (rule vm_frame_simps(1) [OF vm_frame_take])
  show "n \<notin> N" using reservedD(3) [OF p] free_low_not_used [OF n] by (auto simp: fresh_frame_def)
  have "fresh_frame UNIV V (take_frame n s) k" if "k \<in> N" for k
    using reservedD(3) [OF p that] used_take [OF free_lowD(5) [OF n], of s] by (simp add: fresh_frame_def d)
  then show "reserved V fl (insert n N) (take_frame n s)"
    using heap_inv_take [OF reservedD(1) [OF p] free_lowD(5) [OF n]] fresh_take [OF vm n] by (simp add: reserved_def)
qed

text \<open>The frames below \<^const>\<open>safe_frame\<close>, the kernel image with its code, are as before.\<close>

definition image_same :: "kstate \<Rightarrow> kstate \<Rightarrow> bool" where
  "image_same s t \<longleftrightarrow> safe_frame t = safe_frame s \<and> (\<forall>a. frame_of a < safe_frame s \<longrightarrow> mem t a = mem s a)"

lemma image_same_trans [trans]: "image_same s t \<Longrightarrow> image_same t u \<Longrightarrow> image_same s u"
  by (simp add: image_same_def)

lemma image_same_take: "image_same s (take_frame n s)"
  by (simp add: image_same_def)

lemma image_same_work:
  assumes "dir_work UNIV V n s t"
  shows "image_same s t"
proof -
  have "safe_frame t = safe_frame s" using assms mem_only(3) unfolding dir_work_def by metis
  then show ?thesis using assms by (auto simp: dir_work_def image_same_def fresh_frame_def)
qed

text \<open>Work on one private frame leaves the heap's words and the other private frames alone.\<close>

lemma dir_work_inv:
  assumes inv: "heap_inv UNIV V fl s" and w: "dir_work UNIV V n s t"
  shows "heap_inv UNIV V fl t"
proof -
  note vm = heap_invD(1) [OF inv]
  have t: "vm_inv UNIV V t" "t\<lparr>mem := mem s\<rparr> = s" using w by (auto simp: dir_work_def)
  have h: "heaps t = heaps s" using vm_frame_simps(3) [OF vm_frame_mem_only [OF t(2)]] .
  have "domain_ok V t g (fl g)" for g
  proof (rule domain_ok_other [OF heap_invD(2) [OF inv UNIV_I]])
    fix b assume "b \<in> set (fl g)"
    then have "b \<in> blocks V g" using domain_okD(8) [OF heap_invD(2) [OF inv UNIV_I]] by blast
    then have "frame_of b \<in> V" by (simp add: blocks_def)
    then show "peek load32 t b = peek load32 s b" by (rule dir_work_peek [OF w vm])
  qed (simp_all add: h)
  then show ?thesis using t(1) by (simp add: heap_inv_def)
qed

lemma reserved_work:
  assumes p: "reserved V fl N s" and w: "dir_work UNIV V n s t"
  shows "reserved V fl (insert n N) t"
proof -
  note vm = reservedD(2) [OF p]
  have mo: "t\<lparr>mem := mem s\<rparr> = s" and fr: "fresh_frame UNIV V t n" and vt: "vm_inv UNIV V t"
    and pt: "\<forall>q<1048576. ptrans (mem t) (dir_of t KDir) q = ptrans (mem s) (dir_of t KDir) q"
    using w by (auto simp: dir_work_def)
  have d: "dir_of t = dir_of s" by (rule vm_frame_simps(1) [OF vm_frame_mem_only [OF mo]])
  have ow: "own (mem t) (dir_of s g) = own (mem s) (dir_of s g)" for g
  proof -
    have e: "entry (mem t) (dir_of s g) i = entry (mem s) (dir_of s g) i" if "i < 768" for i
      using that by (intro dir_work_entry(1) [OF w UNIV_I]) simp
    have "utabs (mem t) (dir_of s g) = utabs (mem s) (dir_of s g)"
      unfolding tabs_def by (intro Collect_cong bex_cong refl) (simp add: e)
    then show ?thesis by (simp add: own_def)
  qed
  have Vs: "q < 1048576" if "q \<in> V" for q
    using vm_okD(7) [OF vm_invD(4) [OF vm] that] by (auto simp: page_ok_def)
  have us: "used t = used s" "safe_frame t = safe_frame s" using mo mem_only(1,3) by metis+
  have "fresh_frame UNIV V t k" if "k \<in> N" for k
    using reservedD(3) [OF p that] pt Vs ow by (simp add: fresh_frame_def d us)
  then show ?thesis using dir_work_inv [OF reservedD(1) [OF p] w] fr by (simp add: reserved_def)
qed

lemma reserved_write:
  assumes p: "reserved V fl N s" and n: "n \<in> N" and i: "i < 1024"
  shows "store32 (addr_of_frame n + 0xC0000000 + 4 * of_nat i) w s = Inr ((), s\<lparr>mem := (mem s)(slot (addr_of_frame n) i := w)\<rparr>)"
    "reserved V fl N (s\<lparr>mem := (mem s)(slot (addr_of_frame n) i := w)\<rparr>)"
    "dir_work UNIV V n s (s\<lparr>mem := (mem s)(slot (addr_of_frame n) i := w)\<rparr>)"
proof -
  note w = dir_work_write [OF dir_work_start [OF reservedD(2) [OF p] reservedD(3) [OF p n]] i, of w]
  show "store32 (addr_of_frame n + 0xC0000000 + 4 * of_nat i) w s = Inr ((), s\<lparr>mem := (mem s)(slot (addr_of_frame n) i := w)\<rparr>)"
    by (rule w(1))
  show "dir_work UNIV V n s (s\<lparr>mem := (mem s)(slot (addr_of_frame n) i := w)\<rparr>)" by (rule w(2))
  then show "reserved V fl N (s\<lparr>mem := (mem s)(slot (addr_of_frame n) i := w)\<rparr>)"
    using reserved_work [OF p, of n] n by (simp add: insert_absorb)
qed

text \<open>A store to a live block leaves the reserved frames alone.\<close>

lemma reserved_store:
  assumes p: "reserved V fl N s" and al: "x \<in> allocated V fl h" and a: "a \<in> block_words h x"
  shows "\<exists>t. store32 a w s = Inr ((), t) \<and> reserved V fl N t \<and> t\<lparr>mem := mem s\<rparr> = s
    \<and> (\<forall>b\<in>data_addrs V. peek load32 t b = (if b = a then w else peek load32 s b))
    \<and> (\<forall>b. frame_of b \<in> N \<longrightarrow> mem t b = mem s b) \<and> image_same s t"
proof -
  note inv = reservedD(1) [OF p] and vm = reservedD(2) [OF p]
  have ad: "a \<in> data_addrs V" using al a by (intro block_words_addr) (auto simp: allocated_def)
  then have aV: "frame_of a \<in> V" "word_aligned a" by (simp_all add: data_addrs_def)
  have ok: "mem_only_ok UNIV V s s" using vm by simp
  from data.wr_peek [OF ok ad, of w] obtain t where t: "store32 a w s = Inr ((), t)" "t\<lparr>mem := mem s\<rparr> = s"
    "\<forall>b\<in>data_addrs V. peek load32 t b = (if b = a then w else peek load32 s b)" by blast
  from data_addr [OF vm aV(1)] obtain f where f:
    "translate (mem s) (cr3 s) a = Some (addr_of_frame f OR (a AND 0xFFF))" "safe_frame s \<le> f" "f < 0x40000"
    "\<And>d. f \<notin> own (mem s) (dir_of s d)" by blast
  let ?pa = "addr_of_frame f OR (a AND 0xFFF)"
  have te: "t = s\<lparr>mem := (mem s)(?pa := w)\<rparr>" using t(1) f(1) aV by (simp add: store32_def)
  have fr: "frame_of ?pa = f" using f(3) by (simp add: frame_of_data)
  have pa: "safe_frame s \<le> frame_of ?pa" "\<And>d. d \<in> UNIV \<Longrightarrow> frame_of ?pa \<notin> own (mem s) (dir_of s d)"
    using f(2,4) by (simp_all add: fr)
  note dw = vm_ok_data_write(2,3) [OF vm_invD(4) [OF vm] pa(1) pa(2) UNIV_I, where w = w]
  have d: "dir_of (s\<lparr>mem := X\<rparr>) = dir_of s" for X by (rule vm_frame_simps(1) [OF vm_frame_mem])
  have Vs: "q < 1048576" if "q \<in> V" for q
    using vm_okD(7) [OF vm_invD(4) [OF vm] that] by (auto simp: page_ok_def)
  have "fresh_frame UNIV V t n" if "n \<in> N" for n
    using reservedD(3) [OF p that] dw Vs unfolding fresh_frame_def te by (simp add: d)
  then have "reserved V fl N t" using client_write_inv [OF inv al a t(1)] by (simp add: reserved_def)
  moreover have "mem t b = mem s b" if "frame_of b \<in> N" for b
    by (rule store_keeps_fresh [OF vm reservedD(3) [OF p that] aV(1) t(1) refl])
  moreover have "image_same s t" using pa(1) by (auto simp: image_same_def te)
  ultimately show ?thesis using t by blast
qed

text \<open>The head of a free list.\<close>

lemma reserved_pop:
  assumes p: "reserved V fl N s" and x: "fl h = x # xs"
  defines "t \<equiv> pop_block h (peek load32 s x) s"
  shows "heap_domain_alloc h s = Inr (x, t)" "reserved V (fl(h := xs)) N t" "x \<in> allocated V (fl(h := xs)) h"
    "g \<noteq> h \<Longrightarrow> allocated V (fl(h := xs)) g = allocated V fl g" "x \<noteq> 0" "free_low t = free_low s" "mem t = mem s"
    "peek load32 t = peek load32 s" "cr3 t = cr3 s" "kernel_page_dir t = kernel_page_dir s"
    "image_same s t"
proof -
  note inv = reservedD(1) [OF p] and vm = reservedD(2) [OF p]
  show "heap_domain_alloc h s = Inr (x, t)" unfolding t_def by (rule heap_domain_alloc_fast [OF inv UNIV_I x])
  note sp = alloc_fast_spec [OF inv x, folded t_def]
  then show "x \<in> allocated V (fl(h := xs)) h" "x \<noteq> 0" "g \<noteq> h \<Longrightarrow> allocated V (fl(h := xs)) g = allocated V fl g"
    unfolding alloc_spec_def by auto
  show f: "mem t = mem s" "cr3 t = cr3 s" "kernel_page_dir t = kernel_page_dir s" by (simp_all add: t_def pop_block_def)
  then show "peek load32 t = peek load32 s" by (intro peek_cong)
  show "free_low t = free_low s"
    by (simp add: t_def pop_block_def free_low_def safe_frame_def heap_start_def kernel_page_tables_base_def kernel_page_table_def)
  have d: "dir_of t = dir_of s" by (auto simp: t_def pop_block_def dir_of_def fun_eq_iff split: dir_id.split)
  have u: "used t = used s" "safe_frame t = safe_frame s"
    by (simp_all add: t_def pop_block_def used_def safe_frame_def heap_start_def kernel_page_tables_base_def kernel_page_table_def)
  show "image_same s t" using u(2) f(1) by (simp add: image_same_def)
  show "reserved V (fl(h := xs)) N t"
    using reservedD(3) [OF p] sp by (simp add: reserved_def alloc_spec_def fresh_frame_def d u f(1))
qed

section \<open>A page directory of a process\<close>

lemma frame_word_upd:
  assumes "n < 1048576" "k < 1048576" "i < 1024" "j < 1024"
  shows "entry (m(slot (addr_of_frame k) i := w)) (addr_of_frame n) j =
    (if n = k \<and> j = i then w else entry m (addr_of_frame n) j)"
proof -
  have "addr_of_frame k = addr_of_frame n \<longleftrightarrow> k = n"
    using frame_of_addr_of_frame [OF assms(1)] frame_of_addr_of_frame [OF assms(2)] by auto
  then show ?thesis using assms(3,4) by (auto simp: entry_def slot_eq_iff page_aligned_addr_of_frame)
qed

lemma frame_is_physical: "x < 0x40000 \<Longrightarrow> is_physical (addr_of_frame x)"
  by (simp add: is_physical_def word_less_nat_alt unat_addr_of_frame)

lemma frame_is_virtual: "n < 0x40000 \<Longrightarrow> is_virtual (addr_of_frame n + 0xC0000000)"
  using high_half(1) [of "addr_of_frame n"] by (simp add: is_virtual_def word_le_nat_alt unat_addr_of_frame)

lemma map_page_reserved:
  assumes p: "reserved V fl N s" and n: "n \<in> N" and x: "x < 0x40000"
    and i: "0 < frame_of va div 1024" and e: "entry (mem s) (addr_of_frame n) (frame_of va div 1024) = 0" and ne: "free_low s \<noteq> {}"
  shows "\<exists>t u. t \<in> free_low s \<and> map_page (addr_of_frame n + 0xC0000000) va (addr_of_frame x) pf s = Inr ((), u)
    \<and> mem u = (mem s)(slot (addr_of_frame n) (frame_of va div 1024) := addr_of_frame t OR pf,
        slot (addr_of_frame t) (frame_of va mod 1024) := addr_of_frame x OR pf)
    \<and> reserved V fl (insert t N) u \<and> free_low u = free_low s - {t}
    \<and> (\<forall>b\<in>data_addrs V. peek load32 u b = peek load32 s b) \<and> image_same s u"
proof -
  let ?i = "frame_of va div 1024" and ?j = "frame_of va mod 1024"
  have ij: "?i < 1024" "?j < 1024" using frame_of_lt [of va] by simp_all
  have nl: "n < 0x40000" by (rule reservedD(4) [OF p n])
  obtain t where t: "get_next_free_kernel_frame s = Inr (addr_of_frame t, take_frame t s)" "t \<in> free_low s"
    by (rule kernel_frames.alloc_frame [OF vm_invD(1) [OF reservedD(2) [OF p]] ne])
  let ?s1 = "take_frame t s"
  note p1 = reserved_take(1) [OF p t(2)]
  have n1: "n \<in> insert t N" using n by simp
  note w1 = reserved_write [OF p1 n1 ij(1), of "addr_of_frame t OR pf"]
  let ?s2 = "?s1\<lparr>mem := (mem ?s1)(slot (addr_of_frame n) ?i := addr_of_frame t OR pf)\<rparr>"
  note w2 = reserved_write [OF w1(2) insertI1 ij(2), of "addr_of_frame x OR pf"]
  let ?u = "?s2\<lparr>mem := (mem ?s2)(slot (addr_of_frame t) ?j := addr_of_frame x OR pf)\<rparr>"
  have ld: "load32 (addr_of_frame n + 0xC0000000 + 4 * of_nat ?i) s = Inr (0, s)"
    unfolding high_slot
    using load_direct [OF vm_invD(6,7) [OF reservedD(2) [OF p]], of "slot (addr_of_frame n) ?i"] e ij(1) nl
    by (simp add: entry_def slot_aligned slot_frame page_aligned_addr_of_frame frame_low_unat frame_of_addr_of_frame)
  have i0: "of_nat ?i \<noteq> (0 :: u32)"
  proof
    assume "of_nat ?i = (0 :: u32)"
    then show False using i ij(1) unat_of_nat [where 'a = 32, of ?i] by simp
  qed
  have run: "map_page (addr_of_frame n + 0xC0000000) va (addr_of_frame x) pf s = Inr ((), ?u)"
    using frame_is_virtual [OF nl] frame_is_physical [OF x] ld i0 t(1) w1(1) w2(1)
    by (simp add: map_page_def Let_def dir_index_nat table_index_nat bnd_assoc)
  have "peek load32 ?u b = peek load32 s b" if "b \<in> data_addrs V" for b
  proof -
    have b: "frame_of b \<in> V" using that by (simp add: data_addrs_def)
    have "peek load32 ?s1 = peek load32 s" by (rule peek_cong) (simp_all add: take_frame_def)
    then show ?thesis
      using dir_work_peek [OF w2(3) reservedD(2) [OF w1(2)] b] dir_work_peek [OF w1(3) reservedD(2) [OF p1] b] by metis
  qed
  moreover have "image_same s ?u"
    using image_same_trans [OF image_same_take image_same_trans [OF image_same_work [OF w1(3)] image_same_work [OF w2(3)]]] .
  moreover have "free_low ?u = free_low s - {t}" by (simp add: free_low_take)
  ultimately show ?thesis using t(2) run w2(2)
    by (intro exI [of _ t] exI [of _ ?u]) (simp add: insert_absorb)
qed

text \<open>Pushes through the direct map.\<close>

lemma push_word_run:
  assumes p: "reserved V fl N s" and n: "f \<in> N" and i: "i < 1024"
  shows "push_word w (addr_of_frame f + 0xC0000000 + 4 * of_nat (Suc i)) s =
    Inr (addr_of_frame f + 0xC0000000 + 4 * of_nat i, s\<lparr>mem := (mem s)(slot (addr_of_frame f) i := w)\<rparr>)"
proof -
  have "addr_of_frame f + 0xC0000000 + 4 * of_nat (Suc i) - 4 = addr_of_frame f + 0xC0000000 + 4 * of_nat i"
    by (simp add: algebra_simps)
  then have "push_word w (addr_of_frame f + 0xC0000000 + 4 * of_nat (Suc i)) s =
      bnd (store32 (addr_of_frame f + 0xC0000000 + 4 * of_nat i) w) (\<lambda>_. ret (addr_of_frame f + 0xC0000000 + 4 * of_nat i)) s"
    by (simp only: push_word_def)
  then show ?thesis using reserved_write(1) [OF p n i, of w] by simp
qed

lemma popa_frame_run:
  assumes "reserved V fl N s" "f \<in> N" "i + k \<le> 1024"
  shows "\<exists>t. popa_frame k (addr_of_frame f + 0xC0000000 + 4 * of_nat (i + k)) s = Inr (addr_of_frame f + 0xC0000000 + 4 * of_nat i, t)
    \<and> reserved V fl N t \<and> (\<forall>b\<in>data_addrs V. peek load32 t b = peek load32 s b) \<and> free_low t = free_low s
    \<and> (\<forall>j<1024. entry (mem t) (addr_of_frame f) j = (if i \<le> j \<and> j < i + k then 0 else entry (mem s) (addr_of_frame f) j))
    \<and> (\<forall>a. frame_of a \<noteq> f \<longrightarrow> mem t a = mem s a) \<and> image_same s t"
  using assms
proof (induction k arbitrary: s)
  case 0
  then show ?case by (auto simp: image_same_def)
next
  case (Suc k)
  let ?s = "s\<lparr>mem := (mem s)(slot (addr_of_frame f) (i + k) := 0)\<rparr>"
  have i: "i + k < 1024" using Suc.prems(3) by simp
  note w = reserved_write [OF Suc.prems(1,2) i, of 0]
  have pw: "push_word 0 (addr_of_frame f + 0xC0000000 + 4 * of_nat (i + Suc k)) s =
      Inr (addr_of_frame f + 0xC0000000 + 4 * of_nat (i + k), ?s)"
    using push_word_run [OF Suc.prems(1,2) i, of 0] by simp
  from Suc.IH [OF w(2) Suc.prems(2)] i obtain t where
    t: "popa_frame k (addr_of_frame f + 0xC0000000 + 4 * of_nat (i + k)) ?s = Inr (addr_of_frame f + 0xC0000000 + 4 * of_nat i, t)"
      "reserved V fl N t" "\<And>b. b \<in> data_addrs V \<Longrightarrow> peek load32 t b = peek load32 ?s b" "free_low t = free_low ?s"
      "\<And>j. j < 1024 \<Longrightarrow> entry (mem t) (addr_of_frame f) j = (if i \<le> j \<and> j < i + k then 0 else entry (mem ?s) (addr_of_frame f) j)"
      "\<And>a. frame_of a \<noteq> f \<Longrightarrow> mem t a = mem ?s a" "image_same ?s t" by auto
  have "popa_frame (Suc k) (addr_of_frame f + 0xC0000000 + 4 * of_nat (i + Suc k)) s = Inr (addr_of_frame f + 0xC0000000 + 4 * of_nat i, t)"
    using pw t(1) by simp
  moreover have "peek load32 t b = peek load32 s b" if "b \<in> data_addrs V" for b
    using t(3) [OF that] dir_work_peek [OF w(3) reservedD(2) [OF Suc.prems(1)], of b] that by (simp add: data_addrs_def)
  moreover have "entry (mem t) (addr_of_frame f) j =
      (if i \<le> j \<and> j < i + Suc k then 0 else entry (mem s) (addr_of_frame f) j)" if "j < 1024" for j
    using t(5) [OF that] that i by (auto simp: entry_set_pde page_aligned_addr_of_frame)
  moreover have "mem t a = mem s a" if "frame_of a \<noteq> f" for a
    using t(6) [OF that] that slot_frame [OF page_aligned_addr_of_frame i, of f] reservedD(5) [OF Suc.prems(1,2)] by auto
  moreover have "image_same s t" by (rule image_same_trans [OF image_same_work [OF w(3)] t(7)])
  ultimately show ?case using t(2,4) by auto
qed

text \<open>
  The address space and the stack that \<^verbatim>\<open>create_process\<close> builds for a kernel process: directory \<open>n\<close> with the
  table \<open>t\<close> for the last 4 MB below 3 GB, and in it the stack page \<open>f\<close> with the frame for \<^verbatim>\<open>popa\<close> and \<^verbatim>\<open>iret\<close>.
\<close>

definition process_space :: "(u32 \<Rightarrow> u32) \<Rightarrow> nat \<Rightarrow> nat \<Rightarrow> nat \<Rightarrow> u32 \<Rightarrow> bool" where
  "process_space m n t f func \<longleftrightarrow>
     (\<forall>j<768. entry m (addr_of_frame n) j = (if j = 767 then addr_of_frame t OR PAGE_KERNEL else 0))
     \<and> entry m (addr_of_frame t) 1023 = addr_of_frame f OR PAGE_KERNEL
     \<and> (\<forall>j. 1013 \<le> j \<and> j < 1021 \<longrightarrow> entry m (addr_of_frame f) j = 0)
     \<and> entry m (addr_of_frame f) 1021 = func \<and> entry m (addr_of_frame f) 1022 = 0x08
     \<and> entry m (addr_of_frame f) 1023 = 0x202"

lemma process_space_cong:
  assumes "n < 1048576" "t < 1048576" "f < 1048576" "\<And>a. frame_of a \<in> {n, t, f} \<Longrightarrow> m' a = m a"
  shows "process_space m' n t f func = process_space m n t f func"
proof -
  have "entry m' (addr_of_frame k) j = entry m (addr_of_frame k) j" if "k \<in> {n, t, f}" "j < 1024" for k j
    unfolding entry_def
    using assms that slot_frame [OF page_aligned_addr_of_frame that(2), of k] frame_of_addr_of_frame [of k] by auto
  then show ?thesis by (simp add: process_space_def)
qed

lemma kernel_stack_run:
  assumes p: "reserved V fl {n} s" and z: "\<And>j. j < 768 \<Longrightarrow> entry (mem s) (addr_of_frame n) j = 0" and fr: "2 \<le> card (free_low s)"
  shows "\<exists>f t u. get_next_free_process_frame s = Inr (addr_of_frame f, take_frame f s) \<and> f < 0x40000
    \<and> bnd (kernel_frame (addr_of_frame n + 0xC0000000) (addr_of_frame f) func) (popa_frame 8) (take_frame f s) =
        Inr (addr_of_frame f + 0xC0000000 + 4 * of_nat 1013, u)
    \<and> reserved V fl {n, t, f} u \<and> process_space (mem u) n t f func \<and> (\<forall>b\<in>data_addrs V. peek load32 u b = peek load32 s b)
    \<and> card (free_low s) \<le> card (free_low u) + 2 \<and> image_same s u"
proof -
  have "free_low s \<noteq> {}" using fr by auto
  then obtain f where f: "get_next_free_process_frame s = Inr (addr_of_frame f, take_frame f s)" "f \<in> free_low s"
    using process_frames.alloc_frame [OF vm_invD(1) [OF reservedD(2) [OF p]]] by metis
  note p1 = reserved_take [OF p f(2)]
  have fl: "f < 0x40000" by (rule free_lowD(2) [OF f(2)])
  let ?s1 = "take_frame f s"
  have pk1: "peek load32 ?s1 = peek load32 s" by (rule peek_cong) (simp_all add: take_frame_def)
  have va: "frame_of PROC_STACK_VIRT div 1024 = 767" "frame_of PROC_STACK_VIRT mod 1024 = 1023"
    by (simp_all add: PROC_STACK_VIRT_def frame_of_def)
  have "card (free_low ?s1) = card (free_low s) - 1" using f(2) by (simp add: free_low_take)
  then have ne: "free_low ?s1 \<noteq> {}" using fr by auto
  have n1: "n \<in> insert f {n}" by simp
  from map_page_reserved [OF p1(1) n1 fl _ _ ne, of PROC_STACK_VIRT PAGE_KERNEL] z obtain t s2 where
    t: "t \<in> free_low ?s1"
      "map_page (addr_of_frame n + 0xC0000000) PROC_STACK_VIRT (addr_of_frame f) PAGE_KERNEL ?s1 = Inr ((), s2)"
      "mem s2 = (mem s)(slot (addr_of_frame n) 767 := addr_of_frame t OR PAGE_KERNEL,
          slot (addr_of_frame t) 1023 := addr_of_frame f OR PAGE_KERNEL)"
      "reserved V fl {t, f, n} s2" "free_low s2 = free_low ?s1 - {t}" "\<And>b. b \<in> data_addrs V \<Longrightarrow> peek load32 s2 b = peek load32 s b"
      "image_same ?s1 s2"
    unfolding va pk1 by auto
  have tl: "t < 0x40000" by (rule free_lowD(2) [OF t(1)])
  have "t \<notin> {f, n}" by (rule reserved_take(2) [OF p1(1) t(1)])
  then have ds: "t \<noteq> f" "t \<noteq> n" "f \<noteq> n" using p1(2) by auto
  have nl: "n < 0x40000" using reservedD(4) [OF p] by simp
  have fN: "f \<in> {t, f, n}" by simp
  have i: "1023 < (1024::nat)" "1022 < (1024::nat)" "1021 < (1024::nat)" by simp_all
  note w1 = reserved_write [OF t(4) fN i(1), of "0x202"]
  note w2 = reserved_write [OF w1(2) fN i(2), of "0x08"]
  note w3 = reserved_write [OF w2(2) fN i(3), of func]
  let ?b = "addr_of_frame f + 0xC0000000"
  let ?t1 = "s2\<lparr>mem := (mem s2)(slot (addr_of_frame f) 1023 := 0x202)\<rparr>"
  let ?t2 = "?t1\<lparr>mem := (mem ?t1)(slot (addr_of_frame f) 1022 := 0x08)\<rparr>"
  let ?t3 = "?t2\<lparr>mem := (mem ?t2)(slot (addr_of_frame f) 1021 := func)\<rparr>"
  have sp: "?b + 4 * of_nat (Suc 1023) = ?b + PROC_STACK_SIZE" "Suc 1022 = 1023" "Suc 1021 = 1022" "1013 + 8 = (1021::nat)"
    by (simp_all add: PROC_STACK_SIZE_def)
  have pu: "push_word 0x202 (?b + PROC_STACK_SIZE) s2 = Inr (?b + 4 * of_nat 1023, ?t1)"
    "push_word 0x08 (?b + 4 * of_nat 1023) ?t1 = Inr (?b + 4 * of_nat 1022, ?t2)"
    "push_word func (?b + 4 * of_nat 1022) ?t2 = Inr (?b + 4 * of_nat 1021, ?t3)"
    using push_word_run [OF t(4) fN i(1), of "0x202"] push_word_run [OF w1(2) fN i(2), of "0x08"]
      push_word_run [OF w2(2) fN i(3), of func] unfolding sp by blast+
  from popa_frame_run [OF w3(2) fN, of 1013 8] obtain u where
    u: "popa_frame 8 (?b + 4 * of_nat 1021) ?t3 = Inr (?b + 4 * of_nat 1013, u)" "reserved V fl {t, f, n} u"
      "\<And>b. b \<in> data_addrs V \<Longrightarrow> peek load32 u b = peek load32 ?t3 b"
      "\<And>j. j < 1024 \<Longrightarrow> entry (mem u) (addr_of_frame f) j = (if 1013 \<le> j \<and> j < 1021 then 0 else entry (mem ?t3) (addr_of_frame f) j)"
      "\<And>a. frame_of a \<noteq> f \<Longrightarrow> mem u a = mem ?t3 a" "free_low u = free_low ?t3" "image_same ?t3 u"
    unfolding sp by auto
  have run: "bnd (kernel_frame (addr_of_frame n + 0xC0000000) (addr_of_frame f) func) (popa_frame 8) ?s1 = Inr (?b + 4 * of_nat 1013, u)"
    unfolding kernel_frame_def Let_def bnd_assoc
    by (simp only: bnd_run sum.case prod.case t(2) pu u(1))
  have pk: "peek load32 u b = peek load32 s b" if "b \<in> data_addrs V" for b
  proof -
    have bV: "frame_of b \<in> V" using that by (simp add: data_addrs_def)
    show ?thesis
      using u(3) [OF that] dir_work_peek [OF w3(3) reservedD(2) [OF w2(2)] bV] dir_work_peek [OF w2(3) reservedD(2) [OF w1(2)] bV]
        dir_work_peek [OF w1(3) reservedD(2) [OF t(4)] bV] t(6) [OF that] by simp
  qed
  have lt: "n < 1048576" "t < 1048576" "f < 1048576" using nl tl fl by simp_all
  have en: "entry (mem u) (addr_of_frame k) j = entry (mem s2) (addr_of_frame k) j" if "k \<in> {n, t}" "j < 1024" for k j
  proof -
    have "frame_of (slot (addr_of_frame k) j) \<noteq> f"
      using that ds lt slot_frame [OF page_aligned_addr_of_frame that(2), of k] frame_of_addr_of_frame [of k] by auto
    then have "entry (mem u) (addr_of_frame k) j = entry (mem ?t3) (addr_of_frame k) j" unfolding entry_def by (rule u(5))
    also have "\<dots> = entry (mem s2) (addr_of_frame k) j" using that ds lt by (auto simp: frame_word_upd)
    finally show ?thesis .
  qed
  have "process_space (mem u) n t f func"
    unfolding process_space_def using lt ds z by (simp add: en u(4) t(3) frame_word_upd)
  moreover have "image_same s u"
  proof -
    note image_same_take also note t(7) also note image_same_work [OF w1(3)] also note image_same_work [OF w2(3)]
    also note image_same_work [OF w3(3)] also note u(7)
    finally show ?thesis .
  qed
  moreover have "free_low u = free_low s - {f} - {t}" using u(6) t(5) by (simp add: free_low_take)
  then have "card (free_low s) \<le> card (free_low u) + 2" using t(1) f(2) by (simp add: free_low_take card_Diff_singleton_if)
  ultimately show ?thesis using f(1) fl run u(2) pk by (intro exI [of _ f] exI [of _ t] exI [of _ u]) (simp add: insert_commute)
qed

section \<open>The code page of a user process\<close>

text \<open>Byte \<open>i\<close> of frame \<open>c\<close>, and byte \<open>i\<close> behind the physical address \<open>b\<close>.\<close>

definition frame_byte :: "(u32 \<Rightarrow> u32) \<Rightarrow> nat \<Rightarrow> nat \<Rightarrow> u8" where
  "frame_byte m c i = get_byte (of_nat i) (entry m (addr_of_frame c) (i div 4))"

definition byte_at :: "(u32 \<Rightarrow> u32) \<Rightarrow> u32 \<Rightarrow> u8" where
  "byte_at m a = get_byte a (m (word_base a))"

lemma unat_plus_high: "unat (a :: u32) < 0x40000000 \<Longrightarrow> unat (a + 0xC0000000) = unat a + 3221225472"
  by (simp add: unat_word_ariths)

lemma word_base_high: "unat a < 0x40000000 \<Longrightarrow> word_base (a + 0xC0000000) = word_base a + 0xC0000000"
proof (rule u32_eqI)
  assume a: "unat a < 0x40000000"
  have "(unat a + 3221225472) mod 4 = unat a mod 4" using mod_mult_self2 [of "unat a" 4 805306368] by simp
  moreover have "unat (word_base a) < 0x40000000" using a by (simp add: unat_word_base)
  moreover have "unat a mod 4 \<le> unat a" by simp
  ultimately show "unat (word_base (a + 0xC0000000)) = unat (word_base a + 0xC0000000)"
    using a by (simp add: unat_word_base unat_plus_high)
qed

lemma byte_shift_high: "unat a < 0x40000000 \<Longrightarrow> byte_shift (a + 0xC0000000) = byte_shift a"
proof -
  assume a: "unat a < 0x40000000"
  have "(unat a + 3221225472) mod 4 = unat a mod 4" using mod_mult_self2 [of "unat a" 4 805306368] by simp
  then show ?thesis using a by (simp add: byte_shift_def unat_and_3 unat_plus_high)
qed

lemma frame_byte_addr:
  assumes "c < 0x40000" "i < 4096"
  shows "unat (addr_of_frame c + of_nat i) = c * 4096 + i"
    "word_base (addr_of_frame c + of_nat i) = slot (addr_of_frame c) (i div 4)"
    "byte_shift (addr_of_frame c + of_nat i) = 8 * (i mod 4)" "byte_shift (of_nat i) = 8 * (i mod 4)"
proof -
  show u: "unat (addr_of_frame c + of_nat i) = c * 4096 + i"
    using assms by (simp add: unat_word_ariths unat_addr_of_frame unat_of_nat)
  have m: "(c * 4096 + i) mod 4 = i mod 4" using mod_mult_self2 [of i 4 "c * 1024"] by (simp add: algebra_simps)
  show "word_base (addr_of_frame c + of_nat i) = slot (addr_of_frame c) (i div 4)"
  proof (rule u32_eqI)
    have "i - i mod 4 = 4 * (i div 4)" by (simp add: minus_mod_eq_mult_div)
    moreover have "i mod 4 \<le> i" by simp
    moreover have "i div 4 < 1024" using assms(2) by simp
    ultimately show "unat (word_base (addr_of_frame c + of_nat i)) = unat (slot (addr_of_frame c) (i div 4))"
      using assms(1) by (simp add: unat_word_base u m slot_unat page_aligned_addr_of_frame unat_addr_of_frame)
  qed
  show "byte_shift (addr_of_frame c + of_nat i) = 8 * (i mod 4)" by (simp add: byte_shift_def unat_and_3 u m)
  show "byte_shift (of_nat i) = 8 * (i mod 4)" using assms(2) by (simp add: byte_shift_def unat_and_3 unat_of_nat)
qed

lemma get_byte_cong: "byte_shift a = byte_shift b \<Longrightarrow> get_byte a w = get_byte b w"
  by (simp add: get_byte_def)

lemma put_byte_cong: "byte_shift a = byte_shift b \<Longrightarrow> put_byte a x w = put_byte b x w"
  by (simp add: put_byte_def)

lemma load8_high:
  assumes vm: "vm_inv UNIV V s" and a: "unat a < 0x40000000"
  shows "load8 (a + 0xC0000000) s = Inr (byte_at (mem s) a, s)"
proof -
  have "unat (word_base a) < 0x40000000" using a by (simp add: unat_word_base)
  then have "load32 (word_base a + 0xC0000000) s = Inr (mem s (word_base a), s)"
    by (intro load_direct vm_invD(6,7) [OF vm] word_base_aligned)
  then show ?thesis
    using get_byte_cong [OF byte_shift_high [OF a]] by (simp add: load8_def rd8_def word_base_high [OF a] byte_at_def)
qed

lemma store8_reserved:
  fixes b :: u8
  assumes p: "reserved V fl N s" and c: "c \<in> N" and i: "i < 4096"
  defines "t \<equiv> s\<lparr>mem := (mem s)(slot (addr_of_frame c) (i div 4) := put_byte (of_nat i) b (entry (mem s) (addr_of_frame c) (i div 4)))\<rparr>"
  shows "store8 (addr_of_frame c + 0xC0000000 + of_nat i) b s = Inr ((), t)" "reserved V fl N t" "dir_work UNIV V c s t"
    "j < 4096 \<Longrightarrow> frame_byte (mem t) c j = (if j = i then b else frame_byte (mem s) c j)"
    "frame_of a \<noteq> c \<Longrightarrow> mem t a = mem s a"
proof -
  have cl: "c < 0x40000" by (rule reservedD(4) [OF p c])
  note A = frame_byte_addr [OF cl i]
  have lt: "unat (addr_of_frame c + of_nat i) < 0x40000000" using A(1) cl i by simp
  have i4: "i div 4 < 1024" using i by simp
  note w = reserved_write [OF p c i4, of "put_byte (of_nat i) b (entry (mem s) (addr_of_frame c) (i div 4))", folded t_def]
  show "reserved V fl N t" "dir_work UNIV V c s t" by (rule w(2), rule w(3))
  then show "frame_of a \<noteq> c \<Longrightarrow> mem t a = mem s a" by (simp add: dir_work_def)
  have ad: "addr_of_frame c + 0xC0000000 + of_nat i = addr_of_frame c + of_nat i + 0xC0000000" by simp
  have wb: "word_base (addr_of_frame c + 0xC0000000 + of_nat i) = addr_of_frame c + 0xC0000000 + 4 * of_nat (i div 4)"
    unfolding ad word_base_high [OF lt] A(2) by (simp add: slot_def)
  have ld: "load32 (addr_of_frame c + 0xC0000000 + 4 * of_nat (i div 4)) s = Inr (entry (mem s) (addr_of_frame c) (i div 4), s)"
    unfolding high_slot entry_def
    using load_direct [OF vm_invD(6,7) [OF reservedD(2) [OF p]], of "slot (addr_of_frame c) (i div 4)"] i4 cl
    by (simp add: slot_aligned slot_frame page_aligned_addr_of_frame frame_low_unat frame_of_addr_of_frame)
  have sh: "byte_shift (addr_of_frame c + 0xC0000000 + of_nat i) = byte_shift (of_nat i)"
    unfolding ad byte_shift_high [OF lt] A(3,4) ..
  show "store8 (addr_of_frame c + 0xC0000000 + of_nat i) b s = Inr ((), t)"
    using ld w(1) unfolding store8_def wr8_def wb put_byte_cong [OF sh] by simp
  show "frame_byte (mem t) c j = (if j = i then b else frame_byte (mem s) c j)" if j: "j < 4096"
  proof -
    have j4: "j div 4 < 1024" using j by simp
    have e: "entry (mem t) (addr_of_frame c) (j div 4) =
        (if j div 4 = i div 4 then put_byte (of_nat i) b (entry (mem s) (addr_of_frame c) (i div 4)) else entry (mem s) (addr_of_frame c) (j div 4))"
      using i4 j4 by (simp add: t_def entry_set_pde page_aligned_addr_of_frame)
    have "j div 4 = i div 4 \<and> j mod 4 = i mod 4 \<longleftrightarrow> j = i" by (metis div_mult_mod_eq)
    then show ?thesis
      unfolding frame_byte_def e using frame_byte_addr(4) [OF cl i] frame_byte_addr(4) [OF cl j] by (auto simp: get_put_byte)
  qed
qed

text \<open>
  The copy of the function: \<open>b\<close> is its physical address, inside the kernel image, hence in no reserved frame.
\<close>

lemma copy_bytes_run:
  assumes "reserved V fl N s" "c \<in> N" "i + k \<le> 4096" "unat b + 4096 \<le> safe_frame s * 4096"
  shows "\<exists>t. copy_bytes (addr_of_frame c + 0xC0000000) (b + 0xC0000000) i k s = Inr ((), t) \<and> reserved V fl N t
    \<and> (\<forall>d\<in>data_addrs V. peek load32 t d = peek load32 s d) \<and> free_low t = free_low s \<and> safe_frame t = safe_frame s
    \<and> (\<forall>j<4096. frame_byte (mem t) c j = (if i \<le> j \<and> j < i + k then byte_at (mem s) (b + of_nat j) else frame_byte (mem s) c j))
    \<and> (\<forall>a. frame_of a \<noteq> c \<longrightarrow> mem t a = mem s a)"
  using assms
proof (induction k arbitrary: i s)
  case 0
  then show ?case by auto
next
  case (Suc k)
  note p = Suc.prems(1) and c = Suc.prems(2)
  have i: "i < 4096" using Suc.prems(3) by simp
  have sf: "safe_frame s < 0x40000" using vm_invD(1) [OF reservedD(2) [OF p]] by (simp add: pmm_wf_def)
  have fc: "safe_frame s \<le> c" using reservedD(3) [OF p c] by (simp add: fresh_frame_def)
  have ub: "unat (b + of_nat j) = unat b + j" if "j < 4096" for j
    using that Suc.prems(4) sf by (simp add: unat_word_ariths unat_of_nat)
  let ?x = "byte_at (mem s) (b + of_nat i)"
  have "unat (b + of_nat i) < 0x40000000" using ub [OF i] Suc.prems(4) sf i by simp
  then have ld: "load8 (b + 0xC0000000 + of_nat i) s = Inr (?x, s)"
    using load8_high [OF reservedD(2) [OF p], of "b + of_nat i"] by (simp only: add.assoc add.commute [of "0xC0000000"])
  note w = store8_reserved [OF p c i, where b = ?x]
  let ?s = "s\<lparr>mem := (mem s)(slot (addr_of_frame c) (i div 4) := put_byte (of_nat i) ?x (entry (mem s) (addr_of_frame c) (i div 4)))\<rparr>"
  have im: "byte_at (mem ?s) (b + of_nat j) = byte_at (mem s) (b + of_nat j)" if "j < 4096" for j
  proof -
    have "frame_of (word_base (b + of_nat j)) < safe_frame s"
      using ub [OF that] that Suc.prems(4) unfolding word_base_frame by (simp add: frame_of_def less_mult_imp_div_less)
    then have "frame_of (word_base (b + of_nat j)) \<noteq> c" using fc by simp
    from w(5) [OF this] show ?thesis by (simp only: byte_at_def [of "mem ?s"] byte_at_def [of "mem s" "b + of_nat j"])
  qed
  have pre: "Suc i + k \<le> 4096" "unat b + 4096 \<le> safe_frame ?s * 4096" using Suc.prems(3,4) by simp_all
  from Suc.IH [OF w(2) c pre] obtain t where
    t: "copy_bytes (addr_of_frame c + 0xC0000000) (b + 0xC0000000) (Suc i) k ?s = Inr ((), t)" "reserved V fl N t"
      "\<And>d. d \<in> data_addrs V \<Longrightarrow> peek load32 t d = peek load32 ?s d" "free_low t = free_low ?s" "safe_frame t = safe_frame ?s"
      "\<And>j. j < 4096 \<Longrightarrow> frame_byte (mem t) c j = (if Suc i \<le> j \<and> j < Suc i + k then byte_at (mem ?s) (b + of_nat j) else frame_byte (mem ?s) c j)"
      "\<And>a. frame_of a \<noteq> c \<Longrightarrow> mem t a = mem ?s a" by blast
  have "copy_bytes (addr_of_frame c + 0xC0000000) (b + 0xC0000000) i (Suc k) s = Inr ((), t)"
    using ld w(1) t(1) by simp
  moreover have "peek load32 t d = peek load32 s d" if "d \<in> data_addrs V" for d
    using t(3) [OF that] dir_work_peek [OF w(3) reservedD(2) [OF p], of d] that by (simp add: data_addrs_def)
  moreover have "frame_byte (mem t) c j = (if i \<le> j \<and> j < i + Suc k then byte_at (mem s) (b + of_nat j) else frame_byte (mem s) c j)"
    if "j < 4096" for j
    using t(6) [OF that] im [OF that] w(4) [OF that] by auto
  moreover have "mem t a = mem s a" if "frame_of a \<noteq> c" for a
    using t(7) [OF that] w(5) [OF that] by simp
  ultimately show ?case using t(2,4,5) by auto
qed

section \<open>The address space of a user process\<close>

text \<open>
  For a user process there are two pages, both accessible to user code: the stack \<open>f\<close> in the table \<open>t\<close>, with the frame for \<^verbatim>\<open>iret\<close>
  to ring 3, and the code \<open>c\<close> in the table \<open>r\<close>, with a copy of the 4096 bytes at the function.
\<close>

definition user_space :: "(u32 \<Rightarrow> u32) \<Rightarrow> nat \<Rightarrow> nat \<Rightarrow> nat \<Rightarrow> nat \<Rightarrow> nat \<Rightarrow> (nat \<Rightarrow> u8) \<Rightarrow> bool" where
  "user_space m n t f r c code \<longleftrightarrow>
     (\<forall>j<768. entry m (addr_of_frame n) j =
        (if j = 767 then addr_of_frame t OR PAGE_USER else if j = 64 then addr_of_frame r OR PAGE_USER else 0))
     \<and> entry m (addr_of_frame t) 1023 = addr_of_frame f OR PAGE_USER
     \<and> entry m (addr_of_frame r) 0 = addr_of_frame c OR PAGE_USER
     \<and> (\<forall>i<4096. frame_byte m c i = code i)
     \<and> (\<forall>j. 1011 \<le> j \<and> j < 1019 \<longrightarrow> entry m (addr_of_frame f) j = 0)
     \<and> entry m (addr_of_frame f) 1019 = PROC_CODE_VIRT \<and> entry m (addr_of_frame f) 1020 = 0x1B
     \<and> entry m (addr_of_frame f) 1021 = 0x202 \<and> entry m (addr_of_frame f) 1022 = 0xC0000000
     \<and> entry m (addr_of_frame f) 1023 = 0x23"

lemma entry_cong_frame:
  "k < 1048576 \<Longrightarrow> j < 1024 \<Longrightarrow> (\<And>a. frame_of a = k \<Longrightarrow> m' a = m a) \<Longrightarrow> entry m' (addr_of_frame k) j = entry m (addr_of_frame k) j"
  unfolding entry_def using slot_frame [OF page_aligned_addr_of_frame, of j k] frame_of_addr_of_frame [of k] by simp

lemma user_space_cong:
  assumes "\<And>k. k \<in> {n, t, f, r, c} \<Longrightarrow> k < 1048576" "\<And>a. frame_of a \<in> {n, t, f, r, c} \<Longrightarrow> m' a = m a"
  shows "user_space m' n t f r c code = user_space m n t f r c code"
proof -
  have e: "entry m' (addr_of_frame k) j = entry m (addr_of_frame k) j" if "k \<in> {n, t, f, r, c}" "j < 1024" for k j
    using assms that by (intro entry_cong_frame) auto
  have "frame_byte m' c i = frame_byte m c i" if "i < 4096" for i using e [of c "i div 4"] that by (simp add: frame_byte_def)
  then show ?thesis by (simp add: user_space_def e)
qed

text \<open>The five pushes of the frame for \<^verbatim>\<open>iret\<close> and the eight registers below.\<close>

lemma user_pushes:
  assumes p: "reserved V fl N s" and fN: "f \<in> N"
  shows "\<exists>u. bnd (push_word 0x23 (addr_of_frame f + 0xC0000000 + 4 * of_nat 1024)) (\<lambda>sp.
      bnd (push_word 0xC0000000 sp) (\<lambda>sp. bnd (push_word 0x202 sp) (\<lambda>sp. bnd (push_word 0x1B sp) (\<lambda>sp.
      bnd (push_word PROC_CODE_VIRT sp) (popa_frame 8))))) s = Inr (addr_of_frame f + 0xC0000000 + 4 * of_nat 1011, u)
    \<and> reserved V fl N u \<and> (\<forall>b\<in>data_addrs V. peek load32 u b = peek load32 s b) \<and> free_low u = free_low s \<and> image_same s u
    \<and> (\<forall>j<1024. entry (mem u) (addr_of_frame f) j = (if j < 1011 then entry (mem s) (addr_of_frame f) j
         else if j < 1019 then 0 else [PROC_CODE_VIRT, 0x1B, 0x202, 0xC0000000, 0x23] ! (j - 1019)))
    \<and> (\<forall>a. frame_of a \<noteq> f \<longrightarrow> mem u a = mem s a)"
proof -
  have i: "1023 < (1024::nat)" "1022 < (1024::nat)" "1021 < (1024::nat)" "1020 < (1024::nat)" "1019 < (1024::nat)" by simp_all
  have S: "Suc 1023 = 1024" "Suc 1022 = 1023" "Suc 1021 = 1022" "Suc 1020 = 1021" "Suc 1019 = 1020" "1011 + 8 = (1019::nat)" by simp_all
  let ?b = "addr_of_frame f + 0xC0000000"
  let ?t1 = "s\<lparr>mem := (mem s)(slot (addr_of_frame f) 1023 := 0x23)\<rparr>"
  let ?t2 = "?t1\<lparr>mem := (mem ?t1)(slot (addr_of_frame f) 1022 := 0xC0000000)\<rparr>"
  let ?t3 = "?t2\<lparr>mem := (mem ?t2)(slot (addr_of_frame f) 1021 := 0x202)\<rparr>"
  let ?t4 = "?t3\<lparr>mem := (mem ?t3)(slot (addr_of_frame f) 1020 := 0x1B)\<rparr>"
  let ?t5 = "?t4\<lparr>mem := (mem ?t4)(slot (addr_of_frame f) 1019 := PROC_CODE_VIRT)\<rparr>"
  note w1 = reserved_write [OF p fN i(1), of "0x23"]
  note w2 = reserved_write [OF w1(2) fN i(2), of "0xC0000000"]
  note w3 = reserved_write [OF w2(2) fN i(3), of "0x202"]
  note w4 = reserved_write [OF w3(2) fN i(4), of "0x1B"]
  note w5 = reserved_write [OF w4(2) fN i(5), of PROC_CODE_VIRT]
  note pu = push_word_run [OF p fN i(1), of "0x23"] push_word_run [OF w1(2) fN i(2), of "0xC0000000"]
    push_word_run [OF w2(2) fN i(3), of "0x202"] push_word_run [OF w3(2) fN i(4), of "0x1B"]
    push_word_run [OF w4(2) fN i(5), of PROC_CODE_VIRT]
  from popa_frame_run [OF w5(2) fN, of 1011 8] obtain u where
    u: "popa_frame 8 (?b + 4 * of_nat 1019) ?t5 = Inr (?b + 4 * of_nat 1011, u)" "reserved V fl N u"
      "\<And>b. b \<in> data_addrs V \<Longrightarrow> peek load32 u b = peek load32 ?t5 b" "free_low u = free_low ?t5"
      "\<And>j. j < 1024 \<Longrightarrow> entry (mem u) (addr_of_frame f) j = (if 1011 \<le> j \<and> j < 1019 then 0 else entry (mem ?t5) (addr_of_frame f) j)"
      "\<And>a. frame_of a \<noteq> f \<Longrightarrow> mem u a = mem ?t5 a" "image_same ?t5 u" unfolding S by auto
  have run: "bnd (push_word 0x23 (?b + 4 * of_nat 1024)) (\<lambda>sp.
      bnd (push_word 0xC0000000 sp) (\<lambda>sp. bnd (push_word 0x202 sp) (\<lambda>sp. bnd (push_word 0x1B sp) (\<lambda>sp.
      bnd (push_word PROC_CODE_VIRT sp) (popa_frame 8))))) s = Inr (?b + 4 * of_nat 1011, u)"
    using pu unfolding S by (simp only: bnd_run sum.case prod.case u(1))
  have pk: "peek load32 u b = peek load32 s b" if "b \<in> data_addrs V" for b
  proof -
    have bV: "frame_of b \<in> V" using that by (simp add: data_addrs_def)
    show ?thesis
      using u(3) [OF that] dir_work_peek [OF w5(3) reservedD(2) [OF w4(2)] bV] dir_work_peek [OF w4(3) reservedD(2) [OF w3(2)] bV]
        dir_work_peek [OF w3(3) reservedD(2) [OF w2(2)] bV] dir_work_peek [OF w2(3) reservedD(2) [OF w1(2)] bV]
        dir_work_peek [OF w1(3) reservedD(2) [OF p] bV] by simp
  qed
  have im: "image_same s u"
  proof -
    note image_same_work [OF w1(3)] also note image_same_work [OF w2(3)] also note image_same_work [OF w3(3)]
    also note image_same_work [OF w4(3)] also note image_same_work [OF w5(3)] also note u(7)
    finally show ?thesis .
  qed
  have en: "entry (mem u) (addr_of_frame f) j = (if j < 1011 then entry (mem s) (addr_of_frame f) j
         else if j < 1019 then 0 else [PROC_CODE_VIRT, 0x1B, 0x202, 0xC0000000, 0x23] ! (j - 1019))" if j: "j < 1024" for j
  proof (cases "j < 1019")
    case True
    then show ?thesis using u(5) [OF j] by (auto simp: entry_set_pde page_aligned_addr_of_frame)
  next
    case False
    then have "j \<in> {1019, 1020, 1021, 1022, 1023}" using j by auto
    then show ?thesis using u(5) [OF j] by (auto simp: entry_set_pde page_aligned_addr_of_frame)
  qed
  have ot: "mem u a = mem s a" if "frame_of a \<noteq> f" for a
  proof -
    have ne: "a \<noteq> slot (addr_of_frame f) j" if "j < 1024" for j
      using slot_frame [OF page_aligned_addr_of_frame that, of f] reservedD(5) [OF p fN] \<open>frame_of a \<noteq> f\<close> by auto
    show ?thesis by (simp add: u(6) [OF that] ne)
  qed
  show ?thesis using run u(2,4) pk im en ot by (intro exI [of _ u]) simp
qed

lemma user_stack_run:
  assumes p: "reserved V fl {n} s" and z: "\<And>j. j < 768 \<Longrightarrow> entry (mem s) (addr_of_frame n) j = 0" and fr: "4 \<le> card (free_low s)"
    and b: "unat b + 4096 \<le> safe_frame s * 4096"
  shows "\<exists>f t r c u. get_next_free_process_frame s = Inr (addr_of_frame f, take_frame f s) \<and> f < 0x40000
    \<and> bnd (user_frame (addr_of_frame n + 0xC0000000) (addr_of_frame f) (b + 0xC0000000)) (popa_frame 8) (take_frame f s) =
        Inr (addr_of_frame f + 0xC0000000 + 4 * of_nat 1011, u)
    \<and> reserved V fl {n, t, f, r, c} u \<and> user_space (mem u) n t f r c (\<lambda>i. byte_at (mem s) (b + of_nat i))
    \<and> (\<forall>b\<in>data_addrs V. peek load32 u b = peek load32 s b) \<and> card (free_low s) \<le> card (free_low u) + 4 \<and> image_same s u"
proof -
  have "free_low s \<noteq> {}" using fr by auto
  then obtain f where f: "get_next_free_process_frame s = Inr (addr_of_frame f, take_frame f s)" "f \<in> free_low s"
    using process_frames.alloc_frame [OF vm_invD(1) [OF reservedD(2) [OF p]]] by metis
  note p1 = reserved_take [OF p f(2)]
  have fl: "f < 0x40000" by (rule free_lowD(2) [OF f(2)])
  let ?s1 = "take_frame f s" and ?D = "addr_of_frame n + 0xC0000000"
  have pk1: "peek load32 ?s1 = peek load32 s" by (rule peek_cong) (simp_all add: take_frame_def)
  have va: "frame_of PROC_STACK_VIRT div 1024 = 767" "frame_of PROC_STACK_VIRT mod 1024 = 1023"
    "frame_of PROC_CODE_VIRT div 1024 = 64" "frame_of PROC_CODE_VIRT mod 1024 = 0"
    by (simp_all add: PROC_STACK_VIRT_def PROC_CODE_VIRT_def frame_of_def)
  have c1: "card (free_low ?s1) = card (free_low s) - 1" using f(2) by (simp add: free_low_take)
  then have ne: "free_low ?s1 \<noteq> {}" using fr by auto
  have n1: "n \<in> insert f {n}" by simp
  from map_page_reserved [OF p1(1) n1 fl _ _ ne, of PROC_STACK_VIRT PAGE_USER] z obtain t s2 where
    t: "t \<in> free_low ?s1" "map_page ?D PROC_STACK_VIRT (addr_of_frame f) PAGE_USER ?s1 = Inr ((), s2)"
      "mem s2 = (mem s)(slot (addr_of_frame n) 767 := addr_of_frame t OR PAGE_USER,
          slot (addr_of_frame t) 1023 := addr_of_frame f OR PAGE_USER)"
      "reserved V fl {t, f, n} s2" "free_low s2 = free_low ?s1 - {t}" "\<And>b. b \<in> data_addrs V \<Longrightarrow> peek load32 s2 b = peek load32 s b"
      "image_same ?s1 s2"
    unfolding va pk1 by auto
  have c2: "card (free_low s2) = card (free_low s) - 2" using t(1,5) c1 by simp
  then have "free_low s2 \<noteq> {}" using fr by auto
  then obtain c where c: "get_next_free_process_frame s2 = Inr (addr_of_frame c, take_frame c s2)" "c \<in> free_low s2"
    using process_frames.alloc_frame [OF vm_invD(1) [OF reservedD(2) [OF t(4)]]] by metis
  note p3 = reserved_take [OF t(4) c(2)]
  have cl: "c < 0x40000" by (rule free_lowD(2) [OF c(2)])
  let ?s3 = "take_frame c s2"
  have pk3: "peek load32 ?s3 = peek load32 s2" by (rule peek_cong) (simp_all add: take_frame_def)
  have c3: "card (free_low ?s3) = card (free_low s) - 3" using c(2) c2 by (simp add: free_low_take)
  then have ne3: "free_low ?s3 \<noteq> {}" using fr by auto
  have tl: "t < 0x40000" by (rule free_lowD(2) [OF t(1)])
  have nl: "n < 0x40000" using reservedD(4) [OF p] by simp
  have "t \<notin> {f, n}" by (rule reserved_take(2) [OF p1(1) t(1)])
  then have d1: "t \<noteq> f" "t \<noteq> n" "f \<noteq> n" using p1(2) by auto
  have lt: "n < 1048576" "t < 1048576" "f < 1048576" "c < 1048576" using nl tl fl cl by simp_all
  have n3: "n \<in> insert c {t, f, n}" by simp
  have z3: "entry (mem ?s3) (addr_of_frame n) 64 = 0" using z [of 64] d1 lt by (simp add: t(3) frame_word_upd)
  from map_page_reserved [OF p3(1) n3 cl _ _ ne3, of PROC_CODE_VIRT PAGE_USER] z3 obtain r s4 where
    r: "r \<in> free_low ?s3" "map_page ?D PROC_CODE_VIRT (addr_of_frame c) PAGE_USER ?s3 = Inr ((), s4)"
      "mem s4 = (mem s2)(slot (addr_of_frame n) 64 := addr_of_frame r OR PAGE_USER, slot (addr_of_frame r) 0 := addr_of_frame c OR PAGE_USER)"
      "reserved V fl {r, c, t, f, n} s4" "free_low s4 = free_low ?s3 - {r}" "\<And>b. b \<in> data_addrs V \<Longrightarrow> peek load32 s4 b = peek load32 s2 b"
      "image_same ?s3 s4"
    unfolding va pk3 by auto
  have c4: "card (free_low s4) = card (free_low s) - 4" using r(1,5) c3 by simp
  have rl: "r < 0x40000" by (rule free_lowD(2) [OF r(1)])
  have "r \<notin> {c, t, f, n}" by (rule reserved_take(2) [OF p3(1) r(1)])
  then have ds: "r \<noteq> c" "r \<noteq> t" "r \<noteq> f" "r \<noteq> n" "c \<noteq> t" "c \<noteq> f" "c \<noteq> n" using p3(2) by auto
  have lr: "r < 1048576" using rl by simp
  have im4: "image_same s s4"
  proof -
    note image_same_take also note t(7) also note image_same_take also note r(7)
    finally show ?thesis .
  qed
  have b4: "unat b + 4096 \<le> safe_frame s4 * 4096" using b im4 by (simp add: image_same_def)
  have cN: "c \<in> {r, c, t, f, n}" and fN: "f \<in> {r, c, t, f, n}" by simp_all
  have k: "0 + 4096 \<le> (4096 :: nat)" by simp
  from copy_bytes_run [OF r(4) cN k b4] obtain s5 where
    s5: "copy_bytes (addr_of_frame c + 0xC0000000) (b + 0xC0000000) 0 4096 s4 = Inr ((), s5)" "reserved V fl {r, c, t, f, n} s5"
      "\<And>d. d \<in> data_addrs V \<Longrightarrow> peek load32 s5 d = peek load32 s4 d" "free_low s5 = free_low s4" "safe_frame s5 = safe_frame s4"
      "\<And>j. j < 4096 \<Longrightarrow> frame_byte (mem s5) c j = byte_at (mem s4) (b + of_nat j)"
      "\<And>a. frame_of a \<noteq> c \<Longrightarrow> mem s5 a = mem s4 a" by auto
  from user_pushes [OF s5(2) fN] obtain u where
    u: "bnd (push_word 0x23 (addr_of_frame f + 0xC0000000 + 4 * of_nat 1024)) (\<lambda>sp.
      bnd (push_word 0xC0000000 sp) (\<lambda>sp. bnd (push_word 0x202 sp) (\<lambda>sp. bnd (push_word 0x1B sp) (\<lambda>sp.
      bnd (push_word PROC_CODE_VIRT sp) (popa_frame 8))))) s5 = Inr (addr_of_frame f + 0xC0000000 + 4 * of_nat 1011, u)"
      "reserved V fl {r, c, t, f, n} u" "\<And>b. b \<in> data_addrs V \<Longrightarrow> peek load32 u b = peek load32 s5 b" "free_low u = free_low s5" "image_same s5 u"
      "\<And>j. j < 1024 \<Longrightarrow> entry (mem u) (addr_of_frame f) j = (if j < 1011 then entry (mem s5) (addr_of_frame f) j
         else if j < 1019 then 0 else [PROC_CODE_VIRT, 0x1B, 0x202, 0xC0000000, 0x23] ! (j - 1019))"
      "\<And>a. frame_of a \<noteq> f \<Longrightarrow> mem u a = mem s5 a" by blast
  have sp: "PROC_STACK_VIRT + PROC_STACK_SIZE = 0xC0000000" "addr_of_frame f + 0xC0000000 + PROC_STACK_SIZE = addr_of_frame f + 0xC0000000 + 4 * of_nat 1024"
    by (simp_all add: PROC_STACK_VIRT_def PROC_STACK_SIZE_def)
  have run: "bnd (user_frame ?D (addr_of_frame f) (b + 0xC0000000)) (popa_frame 8) ?s1 = Inr (addr_of_frame f + 0xC0000000 + 4 * of_nat 1011, u)"
    unfolding user_frame_def Let_def bnd_assoc sp
    by (simp only: bnd_run [of "map_page a v x g" for a v x g] bnd_run [of get_next_free_process_frame] bnd_run [of "copy_bytes d e 0 4096" for d e]
        sum.case prod.case t(2) c(1) r(2) s5(1) u(1))
  have en: "entry (mem u) (addr_of_frame k) j = entry (mem s4) (addr_of_frame k) j" if k: "k \<in> {n, t, r}" and j: "j < 1024" for k j
  proof (rule entry_cong_frame [OF _ j])
    show "k < 1048576" using k lt lr by auto
    show "mem u a = mem s4 a" if "frame_of a = k" for a using that k d1 ds u(7) [of a] s5(7) [of a] by auto
  qed
  have cb: "frame_byte (mem u) c j = byte_at (mem s) (b + of_nat j)" if j: "j < 4096" for j
  proof -
    have "entry (mem u) (addr_of_frame c) (j div 4) = entry (mem s5) (addr_of_frame c) (j div 4)"
      by (rule entry_cong_frame [OF lt(4)]) (use j ds u(7) in auto)
    then have "frame_byte (mem u) c j = byte_at (mem s4) (b + of_nat j)" using s5(6) [OF j] by (simp add: frame_byte_def)
    also have "\<dots> = byte_at (mem s) (b + of_nat j)"
    proof -
      have "safe_frame s < 0x40000" using vm_invD(1) [OF reservedD(2) [OF p]] by (simp add: pmm_wf_def)
      then have "unat (b + of_nat j) = unat b + j" using b j by (simp add: unat_word_ariths unat_of_nat)
      then have "frame_of (word_base (b + of_nat j)) < safe_frame s"
        using b j unfolding word_base_frame by (simp add: frame_of_def less_mult_imp_div_less)
      then show ?thesis using im4 by (simp add: byte_at_def image_same_def)
    qed
    finally show ?thesis .
  qed
  have "user_space (mem u) n t f r c (\<lambda>i. byte_at (mem s) (b + of_nat i))"
    unfolding user_space_def using lt lr d1 ds z by (simp add: en cb u(6) r(3) t(3) frame_word_upd)
  moreover have "image_same s u"
  proof -
    have "image_same s4 s5" using s5(5,7) reservedD(3) [OF r(4) cN] by (auto simp: image_same_def fresh_frame_def)
    with im4 have "image_same s s5" by (rule image_same_trans)
    then show ?thesis using u(5) by (rule image_same_trans)
  qed
  moreover have "card (free_low s) \<le> card (free_low u) + 4" using c4 s5(4) u(4) by simp
  moreover have "peek load32 u b = peek load32 s b" if "b \<in> data_addrs V" for b
    using u(3) [OF that] s5(3) [OF that] r(6) [OF that] t(6) [OF that] by simp
  moreover have "{r, c, t, f, n} = {n, t, f, r, c}" by auto
  ultimately show ?thesis using f(1) fl run u(2)
    by (intro exI [of _ f] exI [of _ t] exI [of _ r] exI [of _ c] exI [of _ u]) simp
qed

end
