(* ===== verification/Process_Start.thy ===== *)
theory Process_Start
  imports Process_Space
begin

unbundle bit_operations_syntax

text \<open>
  Creating and starting processes on a working heap: \<^verbatim>\<open>create_process\<close> with its control block, a block of the heap
  (\<open>filling\<close>), the scheduler's ring with the new process in it, \<^verbatim>\<open>init_process_scheduler\<close>, and the words that
  \<^verbatim>\<open>popa\<close> and \<^verbatim>\<open>iret\<close> find when the process gets the processor.
\<close>

section \<open>The processor takes the frame\<close>

lemma process_flags:
  assumes "page_aligned x" "g \<in> {PAGE_KERNEL, PAGE_USER}"
  shows "(x OR g) AND 1 = 1" "(x OR g) AND 0x80 = 0" "page_of (x OR g) = x" "g = PAGE_USER \<Longrightarrow> (x OR g) AND 4 = 4"
  using assms by (auto simp: page_of_or_flags or_flags_and PAGE_KERNEL_def PAGE_USER_def)

text \<open>A word of a page that directory \<open>n\<close> maps to frame \<open>f\<close> through table \<open>t\<close>.\<close>

lemma page_load:
  assumes pd: "entry (mem s) (addr_of_frame n) (q div 1024) = addr_of_frame t OR g"
    and pt: "entry (mem s) (addr_of_frame t) (q mod 1024) = addr_of_frame f OR g" and g: "g \<in> {PAGE_KERNEL, PAGE_USER}"
    and lt: "q < 1048576" "f < 0x40000" and c: "cr3 s = addr_of_frame n" and j: "j < 1024"
  shows "load32 (addr_of_frame q + 4 * of_nat j) s = Inr (entry (mem s) (addr_of_frame f) j, s)"
proof -
  let ?va = "slot (addr_of_frame q) j"
  note al = page_aligned_addr_of_frame
  have fr: "frame_of ?va = q" "word_aligned ?va" "unat ?va = q * 4096 + 4 * j"
    using slot_frame [OF al j] slot_aligned [OF al j] slot_unat [OF al j] lt(1) by (simp_all add: frame_of_addr_of_frame unat_addr_of_frame)
  have of: "addr_of_frame f OR (?va AND 0xFFF) = slot (addr_of_frame f) j"
  proof (rule u32_eqI)
    have "(q * 4096 + 4 * j) mod 4096 = 4 * j" using j by simp
    then show "unat (addr_of_frame f OR (?va AND 0xFFF)) = unat (slot (addr_of_frame f) j)"
      using lt(2) fr(3) j by (simp add: unat_data slot_unat al unat_addr_of_frame)
  qed
  have te: "mem s (addr_of_frame t + 4 * (drop_bit 12 ?va AND 0x3FF)) = addr_of_frame f OR g"
    using pt unfolding table_index_nat fr(1) by (simp add: entry_def slot_def)
  have "translate (mem s) (addr_of_frame n) ?va = Some (slot (addr_of_frame f) j)"
    using pd te of process_flags [OF al g] by (simp add: translate_entry [OF al] fr(1) Let_def)
  then show ?thesis using fr(2) by (simp add: load32_def c entry_def slot_def)
qed

lemma process_pages: "PROC_STACK_VIRT = addr_of_frame 0xBFFFF" "PROC_CODE_VIRT = addr_of_frame 0x10000"
  by (simp_all add: PROC_STACK_VIRT_def PROC_CODE_VIRT_def addr_of_frame_def)

lemma stack_load:
  assumes sp: "process_space (mem s) n t f func" and lt: "f < 0x40000"
    and c: "cr3 s = addr_of_frame n" and j: "j < 1024"
  shows "load32 (PROC_STACK_VIRT + 4 * of_nat j) s = Inr (entry (mem s) (addr_of_frame f) j, s)"
  unfolding process_pages by (rule page_load [OF _ _ _ _ lt c j]) (use sp in \<open>auto simp: process_space_def\<close>)

lemma pop_words_run:
  "(\<And>j. i \<le> j \<Longrightarrow> j < i + k \<Longrightarrow> load32 (base + 4 * of_nat j) s = Inr (g j, s)) \<Longrightarrow>
    pop_words k (base + 4 * of_nat i) s = Inr (map g [i..<i + k], s)"
proof (induction k arbitrary: i)
  case (Suc k)
  have "base + 4 * of_nat i + 4 = base + 4 * of_nat (Suc i)" by (simp add: algebra_simps)
  moreover have "pop_words k (base + 4 * of_nat (Suc i)) s = Inr (map g [Suc i..<Suc i + k], s)"
    by (rule Suc.IH) (rule Suc.prems; simp)
  moreover have "load32 (base + 4 * of_nat i) s = Inr (g i, s)" using Suc.prems by simp
  moreover have "map g [i..<i + Suc k] = g i # map g [Suc i..<Suc i + k]" by (subst upt_conv_Cons) simp_all
  ultimately show ?case by (simp only: pop_words.simps bnd_run sum.case prod.case ret_run)
qed simp

definition start_context :: "u32 \<Rightarrow> cpu_context" where
  "start_context func = \<lparr>gprs = replicate 8 0, ctx_eip = func, ctx_cs = 0x08, ctx_eflags = 0x202\<rparr>"

lemma popa_iret_run:
  assumes sp: "process_space (mem s) n t f func" and lt: "f < 0x40000" and c: "cr3 s = addr_of_frame n"
  shows "popa_iret (PROC_STACK_VIRT + 4 * of_nat 1013) s = Inr (start_context func, s)"
proof -
  note ld = stack_load [OF assms]
  have "pop_words 8 (PROC_STACK_VIRT + 4 * of_nat 1013) s = Inr (map (entry (mem s) (addr_of_frame f)) [1013..<1013 + 8], s)"
    by (rule pop_words_run) (use ld in simp)
  moreover have "map (entry (mem s) (addr_of_frame f)) [1013..<1013 + 8] = replicate 8 0"
  proof -
    have "map (entry (mem s) (addr_of_frame f)) [1013..<1013 + 8] = map (\<lambda>_. 0) [1013..<1013 + 8]"
      using sp unfolding process_space_def by (intro map_cong refl) auto
    then show ?thesis by (simp only: map_replicate_const length_upt diff_add_inverse)
  qed
  moreover have "PROC_STACK_VIRT + 4 * of_nat 1013 + 32 = PROC_STACK_VIRT + 4 * of_nat 1021"
    "PROC_STACK_VIRT + 4 * of_nat 1013 + 36 = PROC_STACK_VIRT + 4 * of_nat 1022"
    "PROC_STACK_VIRT + 4 * of_nat 1013 + 40 = PROC_STACK_VIRT + 4 * of_nat 1023" by simp_all
  moreover have "entry (mem s) (addr_of_frame f) 1021 = func" "entry (mem s) (addr_of_frame f) 1022 = 0x08"
    "entry (mem s) (addr_of_frame f) 1023 = 0x202" using sp by (simp_all add: process_space_def)
  ultimately show ?thesis
    using ld [of 1021] ld [of 1022] ld [of 1023]
    unfolding popa_iret_def start_context_def by (simp only: bnd_run sum.case prod.case ret_run)
qed

text \<open>Below the stack the process's directory maps nothing: an access to the heap faults.\<close>

lemma heap_unmapped:
  assumes sp: "process_space (mem s) n t f func" and c: "cr3 s = addr_of_frame n"
    and a: "frame_of a div 1024 < 767" "word_aligned a"
  shows "load32 a s = Inl (PageFault a)"
  using sp a by (simp add: load32_def c translate_entry page_aligned_addr_of_frame process_space_def)

text \<open>What user code of a new user process finds: its code, and on its stack the frame for the start.\<close>

lemma user_pages:
  assumes us: "user_space (mem s) n t f r c code" and lt: "f < 0x40000" "c < 0x40000" and cr: "cr3 s = addr_of_frame n"
  shows "i < 4096 \<Longrightarrow> load8 (PROC_CODE_VIRT + of_nat i) s = Inr (code i, s)"
    "pop_words 13 (PROC_STACK_VIRT + 4 * of_nat 1011) s =
      Inr (replicate 8 0 @ [PROC_CODE_VIRT, 0x1B, 0x202, 0xC0000000, 0x23], s)"
proof -
  have st: "load32 (PROC_STACK_VIRT + 4 * of_nat j) s = Inr (entry (mem s) (addr_of_frame f) j, s)" if "j < 1024" for j
    unfolding process_pages by (rule page_load [OF _ _ _ _ lt(1) cr that]) (use us in \<open>auto simp: user_space_def\<close>)
  have cd: "load32 (PROC_CODE_VIRT + 4 * of_nat j) s = Inr (entry (mem s) (addr_of_frame c) j, s)" if "j < 1024" for j
    unfolding process_pages by (rule page_load [OF _ _ _ _ lt(2) cr that]) (use us in \<open>auto simp: user_space_def\<close>)
  show "load8 (PROC_CODE_VIRT + of_nat i) s = Inr (code i, s)" if i: "i < 4096"
  proof -
    have k: "0x10000 < (0x40000 :: nat)" by simp
    note A = frame_byte_addr [OF k i, folded process_pages]
    have "i div 4 < 1024" using i by simp
    then have "load32 (word_base (PROC_CODE_VIRT + of_nat i)) s = Inr (entry (mem s) (addr_of_frame c) (i div 4), s)"
      unfolding A(2) slot_def by (rule cd)
    moreover have "get_byte (PROC_CODE_VIRT + of_nat i) w = get_byte (of_nat i) w" for w
      by (rule get_byte_cong) (simp only: A(3,4))
    ultimately show ?thesis using us i by (simp add: load8_def rd8_def user_space_def frame_byte_def)
  qed
  let ?e = "entry (mem s) (addr_of_frame f)"
  have "pop_words 13 (PROC_STACK_VIRT + 4 * of_nat 1011) s = Inr (map ?e [1011..<1011 + 13], s)"
    by (rule pop_words_run) (use st in simp)
  moreover have "map ?e [1011..<1011 + 13] = map ?e [1011..<1019] @ map ?e [1019..<1024]"
    by simp
  moreover have "map ?e [1011..<1019] = replicate 8 0"
  proof -
    have "map ?e [1011..<1019] = map (\<lambda>_. 0) [1011..<1019]"
      using us unfolding user_space_def by (intro map_cong refl) auto
    then show ?thesis by (simp only: map_replicate_const length_upt) simp
  qed
  moreover have "map ?e [1019..<1024] = [PROC_CODE_VIRT, 0x1B, 0x202, 0xC0000000, 0x23]"
    using us by (simp add: user_space_def upt_conv_Cons)
  ultimately show "pop_words 13 (PROC_STACK_VIRT + 4 * of_nat 1011) s =
      Inr (replicate 8 0 @ [PROC_CODE_VIRT, 0x1B, 0x202, 0xC0000000, 0x23], s)" by simp
qed

section \<open>Both kinds of process\<close>

definition process_built :: "bool \<Rightarrow> (u32 \<Rightarrow> u32) \<Rightarrow> nat \<Rightarrow> nat set \<Rightarrow> u32 \<Rightarrow> (nat \<Rightarrow> u8) \<Rightarrow> bool" where
  "process_built is_user m n N func code \<longleftrightarrow>
     (if is_user then \<exists>t f r c. N = {n, t, f, r, c} \<and> user_space m n t f r c code
      else \<exists>t f. N = {n, t, f} \<and> process_space m n t f func)"

lemma process_built_cong:
  assumes "\<And>k. k \<in> N \<Longrightarrow> k < 0x40000" "\<And>a. frame_of a \<in> N \<Longrightarrow> m' a = m a" "process_built is_user m n N func code"
  shows "process_built is_user m' n N func code"
proof (cases is_user)
  case True
  with assms(3) obtain t f r c where N: "N = {n, t, f, r, c}" "user_space m n t f r c code" by (auto simp: process_built_def)
  have "k < 1048576" if "k \<in> {n, t, f, r, c}" for k using assms(1) [of k] that N(1) by simp
  then have "user_space m' n t f r c code = user_space m n t f r c code" by (rule user_space_cong) (use assms(2) N(1) in auto)
  then show ?thesis using True N by (auto simp: process_built_def)
next
  case False
  with assms(3) obtain t f where N: "N = {n, t, f}" "process_space m n t f func" by (auto simp: process_built_def)
  have "process_space m' n t f func = process_space m n t f func"
    by (rule process_space_cong) (use assms(1) [of n] assms(1) [of t] assms(1) [of f] assms(2) N(1) in auto)
  then show ?thesis using False N by (auto simp: process_built_def)
qed

text \<open>The words of the frame for \<^verbatim>\<open>popa\<close> and \<^verbatim>\<open>iret\<close>, and the function inside the kernel image, which a user process copies.\<close>

definition frame_words :: "bool \<Rightarrow> nat" where
  "frame_words is_user = (if is_user then 13 else 11)"

definition code_in_image :: "u32 \<Rightarrow> kstate \<Rightarrow> bool" where
  "code_in_image func s \<longleftrightarrow> 0xC0000000 \<le> func \<and> unat (func - 0xC0000000) + 4096 \<le> safe_frame s * 4096"

lemma process_stack_run:
  assumes p: "reserved V fl {n} s" and z: "\<And>j. j < 768 \<Longrightarrow> entry (mem s) (addr_of_frame n) j = 0"
    and fr: "(if is_user then 4 else 2) \<le> card (free_low s)" and b: "is_user \<Longrightarrow> code_in_image func s"
  shows "\<exists>f N u. get_next_free_process_frame s = Inr (addr_of_frame f, take_frame f s)
    \<and> bnd (if is_user then user_frame (addr_of_frame n + 0xC0000000) (addr_of_frame f) func
           else kernel_frame (addr_of_frame n + 0xC0000000) (addr_of_frame f) func) (popa_frame 8) (take_frame f s) =
        Inr (addr_of_frame f + 0xC0000000 + 4 * of_nat (1024 - frame_words is_user), u)
    \<and> reserved V fl N u \<and> n \<in> N \<and> process_built is_user (mem u) n N func (\<lambda>i. byte_at (mem s) (func - 0xC0000000 + of_nat i))
    \<and> (\<forall>b\<in>data_addrs V. peek load32 u b = peek load32 s b)
    \<and> card (free_low s) \<le> card (free_low u) + 4 \<and> image_same s u"
proof (cases is_user)
  case True
  then have b': "unat (func - 0xC0000000) + 4096 \<le> safe_frame s * 4096" using b by (simp add: code_in_image_def)
  have "4 \<le> card (free_low s)" "1024 - frame_words is_user = 1011" using fr True by (simp_all add: frame_words_def)
  with user_stack_run [OF p z _ b'] True show ?thesis unfolding process_built_def by simp blast
next
  case False
  have "2 \<le> card (free_low s)" "1024 - frame_words is_user = 1013" using fr False by (simp_all add: frame_words_def)
  from kernel_stack_run [OF p z this(1), of func] obtain f t u where
    u: "get_next_free_process_frame s = Inr (addr_of_frame f, take_frame f s)"
      "bnd (kernel_frame (addr_of_frame n + 0xC0000000) (addr_of_frame f) func) (popa_frame 8) (take_frame f s) =
        Inr (addr_of_frame f + 0xC0000000 + 4 * of_nat 1013, u)"
      "reserved V fl {n, t, f} u" "process_space (mem u) n t f func" "\<forall>b\<in>data_addrs V. peek load32 u b = peek load32 s b"
      "card (free_low s) \<le> card (free_low u) + 2" "image_same s u" by blast
  have "process_built False (mem u) n {n, t, f} func code" for code using u(4) by (auto simp: process_built_def)
  moreover have "card (free_low s) \<le> card (free_low u) + 4" using u(6) by simp
  ultimately show ?thesis using u(1-3,5,7) False \<open>1024 - frame_words is_user = 1013\<close>
    by (intro exI [of _ f] exI [of _ "{n, t, f}"] exI [of _ u]) simp
qed

section \<open>Filling a process control block\<close>

definition filling :: "nat set \<Rightarrow> (heap_id \<Rightarrow> u32 list) \<Rightarrow> nat set \<Rightarrow> u32 \<Rightarrow> kstate \<Rightarrow> (nat \<Rightarrow> u32) \<Rightarrow> kstate \<Rightarrow> bool" where
  "filling V fl N p s0 g s \<longleftrightarrow> reserved V fl N s \<and> p \<in> allocated V fl Heap_128
     \<and> (\<forall>k<32. peek load32 s (p + 4 * of_nat k) = g k)
     \<and> (\<forall>b\<in>data_addrs V. b \<notin> block_words Heap_128 p \<longrightarrow> peek load32 s b = peek load32 s0 b)
     \<and> image_same s0 s"

lemma filling_store:
  assumes "filling V fl N p s0 g (kern m)" and k: "k < 32"
  shows "\<exists>t. mstore (p + 4 * of_nat k) w m = Inr ((), m\<lparr>kern := t\<rparr>) \<and> filling V fl N p s0 (g(k := w)) t
    \<and> (\<forall>a. frame_of a \<in> N \<longrightarrow> mem t a = mem (kern m) a) \<and> free_low t = free_low (kern m)"
proof -
  have r: "reserved V fl N (kern m)" and al: "p \<in> allocated V fl Heap_128"
    and g: "\<And>k. k < 32 \<Longrightarrow> peek load32 (kern m) (p + 4 * of_nat k) = g k"
    and o: "\<And>b. b \<in> data_addrs V \<Longrightarrow> b \<notin> block_words Heap_128 p \<Longrightarrow> peek load32 (kern m) b = peek load32 s0 b"
    using assms(1) by (auto simp: filling_def)
  have b: "p \<in> blocks V Heap_128" using al by (simp add: allocated_def)
  from reserved_store [OF r al pcb_word(1) [OF b k], of w] obtain t where
    t: "store32 (p + 4 * of_nat k) w (kern m) = Inr ((), t)" "reserved V fl N t" "t\<lparr>mem := mem (kern m)\<rparr> = kern m"
      "\<And>b. b \<in> data_addrs V \<Longrightarrow> peek load32 t b = (if b = p + 4 * of_nat k then w else peek load32 (kern m) b)"
      "\<And>a. frame_of a \<in> N \<Longrightarrow> mem t a = mem (kern m) a" "image_same (kern m) t" by blast
  have im: "image_same s0 t" using assms(1) t(6) image_same_trans by (auto simp: filling_def)
  have ad: "p + 4 * of_nat i \<in> data_addrs V" if "i < 32" for i by (rule block_words_addr [OF b pcb_word(1) [OF b that]])
  have "peek load32 t (p + 4 * of_nat i) = (g(k := w)) i" if "i < 32" for i
    using t(4) [OF ad [OF that]] pcb_apart [OF b b that k] g [OF that] by simp
  moreover have "peek load32 t c = peek load32 s0 c" if "c \<in> data_addrs V" "c \<notin> block_words Heap_128 p" for c
    using t(4) [OF that(1)] o [OF that] that(2) pcb_word(1) [OF b k] by auto
  moreover have "free_low t = free_low (kern m)" using t(3) mem_only(4) by metis
  ultimately show ?thesis using t al im by (intro exI [of _ t]) (simp add: filling_def mstore_def)
qed

lemma filling_next:
  assumes "filling V fl N p s0 g s" "reserved V fl M t" "\<And>b. b \<in> data_addrs V \<Longrightarrow> peek load32 t b = peek load32 s b"
    and "image_same s t"
  shows "filling V fl M p s0 g t"
proof -
  have "image_same s0 t" using assms(1,4) image_same_trans by (auto simp: filling_def)
  moreover
  have "p \<in> blocks V Heap_128" using assms(1) by (simp add: filling_def allocated_def)
  then have "p + 4 * of_nat i \<in> data_addrs V" if "i < 32" for i using block_words_addr pcb_word(1) that by blast
  ultimately show ?thesis using assms(1-3) by (simp add: filling_def)
qed

section \<open>Creating a process\<close>

lemma reserved_directory:
  assumes p: "reserved V fl {} s" and ne: "free_low s \<noteq> {}"
  shows "\<exists>n u. n < 0x40000 \<and> create_process_page_directory s = Inr (addr_of_frame n + 0xC0000000, u)
    \<and> reserved V fl {n} u \<and> (\<forall>j<768. entry (mem u) (addr_of_frame n) j = 0) \<and> n \<in> free_low s \<and> free_low u = free_low s - {n}
    \<and> (\<forall>b\<in>data_addrs V. peek load32 u b = peek load32 s b) \<and> image_same s u"
proof -
  from process_directory_run [OF reservedD(1) [OF p] ne] obtain n u where
    u: "n \<in> free_low s" "create_process_page_directory s = Inr (addr_of_frame n + 0xC0000000, u)"
      "dir_work UNIV V n (take_frame n s) u" "\<forall>j<768. entry (mem u) (addr_of_frame n) j = 0" by blast
  note p1 = reserved_take(1) [OF p u(1)]
  have "peek load32 (take_frame n s) = peek load32 s" by (rule peek_cong) (simp_all add: take_frame_def)
  then have "\<forall>b\<in>data_addrs V. peek load32 u b = peek load32 s b"
    using dir_work_peek [OF u(3) reservedD(2) [OF p1]] by (simp add: data_addrs_def)
  moreover have "u\<lparr>mem := mem (take_frame n s)\<rparr> = take_frame n s" using u(3) by (simp add: dir_work_def)
  then have "free_low u = free_low s - {n}" using mem_only(4) free_low_take by metis
  moreover have "reserved V fl {n} u" using reserved_work [OF p1 u(3)] by simp
  moreover have "image_same s u" by (rule image_same_trans [OF image_same_take image_same_work [OF u(3)]])
  ultimately show ?thesis using u(1,2,4) free_lowD(2) [OF u(1)] by blast
qed

lemma kern_op_seq: "kern_op (bnd f g) = bnd (kern_op f) (\<lambda>x. kern_op (g x))"
  by (rule ext) (simp add: kern_op_def bnd_def split: sum.split)

lemma process_built_code:
  assumes "\<And>i. i < 4096 \<Longrightarrow> is_user \<Longrightarrow> code i = code' i" "process_built is_user m n N func code"
  shows "process_built is_user m n N func code'"
proof (cases is_user)
  case True
  then have "user_space m n t f r c code' = user_space m n t f r c code" for t f r c
    using assms(1) by (simp add: user_space_def)
  then show ?thesis using assms(2) by (simp add: process_built_def)
next
  case False
  then show ?thesis using assms(2) by (simp add: process_built_def)
qed

lemma code_bytes_same:
  assumes c: "code_in_image func s" and j: "j < 4096" and i: "image_same s t"
  shows "byte_at (mem t) (func - 0xC0000000 + of_nat j) = byte_at (mem s) (func - 0xC0000000 + of_nat j)"
proof -
  let ?b = "func - 0xC0000000"
  have b: "unat ?b + 4096 \<le> safe_frame s * 4096" using c by (simp add: code_in_image_def)
  have "unat ?b \<le> unat func" using c by (simp add: code_in_image_def unat_sub word_le_nat_alt)
  have "unat ?b < 0x40000000" using c u32_bound [of func] by (simp add: code_in_image_def unat_sub word_le_nat_alt)
  then have "unat (?b + of_nat j) = unat ?b + j" using j by (simp add: unat_word_ariths unat_of_nat)
  then have "frame_of (word_base (?b + of_nat j)) < safe_frame s"
    using b j unfolding word_base_frame by (simp add: frame_of_def less_mult_imp_div_less)
  then show ?thesis using i by (simp add: byte_at_def image_same_def)
qed

lemma create_process_run:
  assumes inv: "heap_inv UNIV V fl (kern m)" and x: "fl Heap_128 = p # ps" and y: "fl Heap_4k = k # ks"
    and fr: "(if is_user then 5 else 3) \<le> card (free_low (kern m))" and im: "is_user \<Longrightarrow> code_in_image func (kern m)"
  shows "\<exists>n N u g. create_process func is_user m = add_to_list p (m\<lparr>kern := u\<rparr>)
    \<and> n < 0x40000 \<and> n \<in> free_low (kern m) \<and> n \<in> N
    \<and> filling V (fl(Heap_128 := ps, Heap_4k := ks)) N p (kern m) g u
    \<and> process_built is_user (mem u) n N func (\<lambda>i. byte_at (mem (kern m)) (func - 0xC0000000 + of_nat i))
    \<and> g 0 = PROC_STACK_VIRT + 4 * of_nat (1024 - frame_words is_user)
    \<and> g 1 = addr_of_frame n + 0xC0000000 \<and> g 4 = 0xC0000000
    \<and> g 20 = ucast (current_index m) \<and> g 21 = 0 \<and> g 22 = k + 4096 \<and> g 23 = 0 \<and> g 24 = 0
    \<and> card (free_low (kern m)) \<le> card (free_low u) + 5"
proof -
  let ?fl1 = "fl(Heap_128 := ps)" and ?s0 = "kern m"
  let ?fl2 = "?fl1(Heap_4k := ks)"
  let ?E = "1024 - frame_words is_user"
  have r0: "reserved V fl {} ?s0" using inv by (simp add: reserved_def)
  let ?s1 = "pop_block Heap_128 (peek load32 ?s0 p) ?s0"
  note P = reserved_pop [OF r0 x]
  have f1: "filling V ?fl1 {} p ?s0 (\<lambda>k. peek load32 ?s1 (p + 4 * of_nat k)) (kern (m\<lparr>kern := ?s1\<rparr>))"
    using P(2,3,8,11) by (simp add: filling_def)
  from filling_store [OF f1, of 20 "ucast (current_index m)"] obtain s2 g2 where
    s2: "mstore (p + 80) (ucast (current_index m)) (m\<lparr>kern := ?s1\<rparr>) = Inr ((), m\<lparr>kern := s2\<rparr>)"
      "filling V ?fl1 {} p ?s0 g2 (kern (m\<lparr>kern := s2\<rparr>))" "free_low s2 = free_low ?s0" "g2 20 = ucast (current_index m)"
    using P(6) by fastforce
  from filling_store [OF s2(2), of 21 0] obtain s3 g3 where
    s3: "mstore (p + 84) 0 (m\<lparr>kern := s2\<rparr>) = Inr ((), m\<lparr>kern := s3\<rparr>)"
      "filling V ?fl1 {} p ?s0 g3 (kern (m\<lparr>kern := s3\<rparr>))" "free_low s3 = free_low ?s0" "g3 = g2(21 := 0)"
    using s2(3) by fastforce
  from filling_store [OF s3(2), of 23 0] obtain s4 g4 where
    s4: "mstore (p + 92) 0 (m\<lparr>kern := s3\<rparr>) = Inr ((), m\<lparr>kern := s4\<rparr>)"
      "filling V ?fl1 {} p ?s0 g4 (kern (m\<lparr>kern := s4\<rparr>))" "free_low s4 = free_low ?s0" "g4 = g3(23 := 0)"
    using s3(3) by fastforce
  from filling_store [OF s4(2), of 24 0] obtain s5 g5 where
    s5: "mstore (p + 96) 0 (m\<lparr>kern := s4\<rparr>) = Inr ((), m\<lparr>kern := s5\<rparr>)"
      "filling V ?fl1 {} p ?s0 g5 s5" "free_low s5 = free_low ?s0" "g5 = g4(24 := 0)"
    using s4(3) by fastforce
  have r5: "reserved V ?fl1 {} s5" using s5(2) by (simp add: filling_def)
  have "free_low s5 \<noteq> {}" using fr s5(3) by (auto split: if_splits)
  from reserved_directory [OF r5 this] obtain n s6 where
    s6: "n < 0x40000" "create_process_page_directory s5 = Inr (addr_of_frame n + 0xC0000000, s6)" "reserved V ?fl1 {n} s6"
      "\<And>j. j < 768 \<Longrightarrow> entry (mem s6) (addr_of_frame n) j = 0" "n \<in> free_low s5" "free_low s6 = free_low s5 - {n}"
      "\<And>b. b \<in> data_addrs V \<Longrightarrow> peek load32 s6 b = peek load32 s5 b" "image_same s5 s6" by blast
  have f6: "filling V ?fl1 {n} p ?s0 g5 (kern (m\<lparr>kern := s6\<rparr>))" using filling_next [OF s5(2) s6(3,7,8)] by simp
  from filling_store [OF f6, of 1 "addr_of_frame n + 0xC0000000"] obtain s7 where
    s7: "mstore (p + 4) (addr_of_frame n + 0xC0000000) (m\<lparr>kern := s6\<rparr>) = Inr ((), m\<lparr>kern := s7\<rparr>)"
      "filling V ?fl1 {n} p ?s0 (g5(1 := addr_of_frame n + 0xC0000000)) s7" "free_low s7 = free_low s6"
      "\<And>a. frame_of a = n \<Longrightarrow> mem s7 a = mem s6 a"
    by auto
  have r7: "reserved V ?fl1 {n} s7" using s7(2) by (simp add: filling_def)
  have z7: "entry (mem s7) (addr_of_frame n) j = 0" if "j < 768" for j
    using s6(1,4) that s7(4) [of "slot (addr_of_frame n) j"] slot_frame [OF page_aligned_addr_of_frame, of j n]
    by (simp add: entry_def frame_of_addr_of_frame)
  have fr7: "(if is_user then 4 else 2) \<le> card (free_low s7)" using fr s5(3) s6(5,6) s7(3) by (simp split: if_splits)
  have im7: "image_same ?s0 s7" using s7(2) by (simp add: filling_def)
  have "code_in_image func s7" if is_user using im [OF that] im7 by (simp add: code_in_image_def image_same_def)
  from process_stack_run [OF r7 z7 fr7 this] obtain f N s8 where
    s8: "get_next_free_process_frame s7 = Inr (addr_of_frame f, take_frame f s7)"
      "bnd (if is_user then user_frame (addr_of_frame n + 0xC0000000) (addr_of_frame f) func
           else kernel_frame (addr_of_frame n + 0xC0000000) (addr_of_frame f) func) (popa_frame 8) (take_frame f s7) =
        Inr (addr_of_frame f + 0xC0000000 + 4 * of_nat ?E, s8)"
      "reserved V ?fl1 N s8" "n \<in> N"
      "process_built is_user (mem s8) n N func (\<lambda>i. byte_at (mem s7) (func - 0xC0000000 + of_nat i))"
      "\<And>b. b \<in> data_addrs V \<Longrightarrow> peek load32 s8 b = peek load32 s7 b" "card (free_low s7) \<le> card (free_low s8) + 4" "image_same s7 s8" by blast
  have f8: "filling V ?fl1 N p ?s0 (g5(1 := addr_of_frame n + 0xC0000000)) (kern (m\<lparr>kern := s8\<rparr>))"
    using filling_next [OF s7(2) s8(3,6,8)] by simp
  from filling_store [OF f8, of 0 "PROC_STACK_VIRT + 4 * of_nat ?E"] obtain s9 g9 where
    s9: "mstore p (PROC_STACK_VIRT + 4 * of_nat ?E) (m\<lparr>kern := s8\<rparr>) = Inr ((), m\<lparr>kern := s9\<rparr>)"
      "filling V ?fl1 N p ?s0 g9 (kern (m\<lparr>kern := s9\<rparr>))"
      "\<And>a. frame_of a \<in> N \<Longrightarrow> mem s9 a = mem s8 a"
      "g9 = g5(1 := addr_of_frame n + 0xC0000000, 0 := PROC_STACK_VIRT + 4 * of_nat ?E)" "free_low s9 = free_low s8"
    by auto
  from filling_store [OF s9(2), of 4 "0xC0000000"] obtain s10 g10 where
    s10: "mstore (p + 16) 0xC0000000 (m\<lparr>kern := s9\<rparr>) = Inr ((), m\<lparr>kern := s10\<rparr>)"
      "filling V ?fl1 N p ?s0 g10 s10"
      "\<And>a. frame_of a \<in> N \<Longrightarrow> mem s10 a = mem s9 a" "g10 = g9(4 := 0xC0000000)" "free_low s10 = free_low s9"
    by auto
  have r10: "reserved V ?fl1 N s10" using s10(2) by (simp add: filling_def)
  have y1: "?fl1 Heap_4k = k # ks" using y by simp
  note Q = reserved_pop [OF r10 y1]
  let ?s11 = "pop_block Heap_4k (peek load32 s10 k) s10"
  have f11: "filling V ?fl2 N p ?s0 g10 (kern (m\<lparr>kern := ?s11\<rparr>))"
    using s10(2) Q(2,8) Q(4) [of Heap_128] image_same_trans [OF _ Q(11), of ?s0] by (simp add: filling_def del: fun_upd_apply)
  from filling_store [OF f11, of 22 "k + 4096"] obtain u where
    s12: "mstore (p + 88) (k + 4096) (m\<lparr>kern := ?s11\<rparr>) = Inr ((), m\<lparr>kern := u\<rparr>)"
      "filling V ?fl2 N p ?s0 (g10(22 := k + 4096)) u"
      "\<And>a. frame_of a \<in> N \<Longrightarrow> mem u a = mem ?s11 a" "free_low u = free_low ?s11"
    by auto
  have km: "kmalloc sizeof_PCB ?s0 = Inr (p, ?s1)" "kmalloc 4096 s10 = Inr (k, ?s11)"
    using P(1) Q(1) by (simp_all add: kmalloc_def sizeof_PCB_def)
  have off: "PROC_STACK_VIRT + (addr_of_frame f + 0xC0000000 + 4 * of_nat ?E - (addr_of_frame f + 0xC0000000)) =
      PROC_STACK_VIRT + 4 * of_nat ?E" "PROC_STACK_VIRT + PROC_STACK_SIZE = 0xC0000000"
    by (simp_all add: PROC_STACK_VIRT_def PROC_STACK_SIZE_def)
  have stk: "bnd (kern_op (if is_user then user_frame (addr_of_frame n + 0xC0000000) (addr_of_frame f) func
      else kernel_frame (addr_of_frame n + 0xC0000000) (addr_of_frame f) func)) (\<lambda>sp. bnd (kern_op (popa_frame 8 sp)) R)
      (m\<lparr>kern := take_frame f s7\<rparr>) = R (addr_of_frame f + 0xC0000000 + 4 * of_nat ?E) (m\<lparr>kern := s8\<rparr>)" for R :: "u32 \<Rightarrow> unit mop"
  proof -
    have "kern_op (bnd (if is_user then user_frame (addr_of_frame n + 0xC0000000) (addr_of_frame f) func
        else kernel_frame (addr_of_frame n + 0xC0000000) (addr_of_frame f) func) (popa_frame 8)) (m\<lparr>kern := take_frame f s7\<rparr>) =
        Inr (addr_of_frame f + 0xC0000000 + 4 * of_nat ?E, m\<lparr>kern := s8\<rparr>)"
      using s8(2) by simp
    then show ?thesis unfolding bnd_assoc [symmetric] kern_op_seq [symmetric] by (subst bnd_run) (simp only: sum.case prod.case)
  qed
  note offs = PCB_PID_def PCB_sleep_time_def PCB_next_def PCB_prev_def PCB_page_dir_def PCB_saved_esp_def PCB_stack_top_def
    PCB_kernel_stack_top_def add_0_right
  have "kern_op (kmalloc sizeof_PCB) m = Inr (p, m\<lparr>kern := ?s1\<rparr>)"
    "kern_op create_process_page_directory (m\<lparr>kern := s5\<rparr>) = Inr (addr_of_frame n + 0xC0000000, m\<lparr>kern := s6\<rparr>)"
    "kern_op get_next_free_process_frame (m\<lparr>kern := s7\<rparr>) = Inr (addr_of_frame f, m\<lparr>kern := take_frame f s7\<rparr>)"
    "kern_op (kmalloc 4096) (m\<lparr>kern := s10\<rparr>) = Inr (k, m\<lparr>kern := ?s11\<rparr>)"
    "gets current_index (m\<lparr>kern := ?s1\<rparr>) = Inr (current_index m, m\<lparr>kern := ?s1\<rparr>)"
    using km s6(2) s8(1) by simp_all
  then have run: "create_process func is_user m = add_to_list p (m\<lparr>kern := u\<rparr>)"
    unfolding create_process_def Let_def offs
    by (simp only: bnd_run [of "kern_op (kmalloc sizeof_PCB)"] bnd_run [of "kern_op (kmalloc 4096)"] bnd_run [of "gets current_index"]
        bnd_run [of "kern_op create_process_page_directory"] bnd_run [of "kern_op get_next_free_process_frame"] bnd_run [of "mstore a w" for a w]
        sum.case prod.case stk off P(5) Q(5) if_False s2(1) s3(1) s4(1) s5(1) s7(1) s9(1) s10(1) s12(1))
  have bytes: "byte_at (mem s7) (func - 0xC0000000 + of_nat j) = byte_at (mem ?s0) (func - 0xC0000000 + of_nat j)"
    if "j < 4096" "is_user" for j using code_bytes_same [OF im [OF that(2)] that(1) im7] by simp
  have "process_built is_user (mem u) n N func (\<lambda>i. byte_at (mem s7) (func - 0xC0000000 + of_nat i))"
    by (rule process_built_cong [OF _ _ s8(5)]) (use reservedD(4) [OF s8(3)] s12(3) s10(3) s9(3) Q(7) in simp_all)
  then have "process_built is_user (mem u) n N func (\<lambda>i. byte_at (mem ?s0) (func - 0xC0000000 + of_nat i))"
    by (rule process_built_code [rotated]) (use bytes in simp)
  moreover have "card (free_low ?s0) \<le> card (free_low u) + 5"
    using s8(7) s7(3) s6(5,6) s5(3) s9(5) s10(5) s12(4) Q(6) by (simp add: card_Diff_singleton_if)
  ultimately show ?thesis using run s6(1,5) s5(3) s8(4) s12(2)
    by (intro exI [of _ n] exI [of _ N] exI [of _ u] exI [of _ "g10(22 := k + 4096)"])
      (simp add: s10(4) s9(4) s5(4) s4(4) s3(4) s2(4))
qed

section \<open>The new process joins the list\<close>

lemma last_process_run:
  assumes "process_ring V fl ps ts m" "i < length ps"
  shows "last_process (ps ! i) m = Inr (last ps, m)"
  using assms(2)
proof (induction "length ps - i" arbitrary: i)
  case (Suc d)
  have nx: "mload (ps ! i + PCB_next) m = Inr (if Suc i < length ps then ps ! Suc i else 0, m)"
    using pcb_load(1) [OF assms(1) Suc(3), of 23] ringD(10) [OF assms(1) Suc(3)] unfolding pcb_offsets by simp
  show ?case
  proof (cases "Suc i < length ps")
    case True
    then have "last_process (ps ! Suc i) m = Inr (last ps, m)" using Suc(1) [of "Suc i"] Suc(2) by simp
    then show ?thesis using nx True ringD(9) [OF assms(1) True] unfolding last_process_def by (subst loop_bnd) simp
  next
    case False
    then have "i = length ps - 1" using Suc(3) by simp
    then have "ps ! i = last ps" using ringD(3) [OF assms(1)] by (simp add: last_conv_nth)
    then show ?thesis using nx False unfolding last_process_def by (subst loop_done) simp_all
  qed
qed simp

lemma pcb_more_offsets: "PCB_PID = 4 * of_nat 20" "PCB_prev = 4 * of_nat 24"
  by (simp_all add: PCB_PID_def PCB_prev_def)

text \<open>The list as it was, in the memory with the new block filled in.\<close>

lemma ring_filling:
  assumes r: "process_ring V fl ps ts m" and x: "fl Heap_128 = p # xs" and k: "fl' Heap_128 = xs"
    and f: "filling V fl' N p (kern m) g u"
  shows "process_ring V fl' ps ts (m\<lparr>kern := u\<rparr>)" "p \<notin> set ps" "p \<in> allocated V fl' Heap_128"
proof -
  note D = ringD [OF r]
  have sub: "set ps \<subseteq> allocated V fl Heap_128" using r by (simp add: process_ring_def)
  show np: "p \<notin> set ps" using sub x by (auto simp: allocated_def)
  show "p \<in> allocated V fl' Heap_128" using f by (simp add: filling_def)
  then have pb: "p \<in> blocks V Heap_128" by (simp add: allocated_def)
  have sub': "set ps \<subseteq> allocated V fl' Heap_128" using sub x k by (auto simp: allocated_def)
  have pk: "peek load32 u (ps ! i + 4 * of_nat j) = peek load32 (kern m) (ps ! i + 4 * of_nat j)" if i: "i < length ps" and j: "j < 32" for i j
  proof -
    have b: "ps ! i \<in> blocks V Heap_128" by (rule D(8) [OF i])
    have "ps ! i \<noteq> p" using np i nth_mem by metis
    then have "ps ! i + 4 * of_nat j \<notin> block_words Heap_128 p"
      using block_words_disjoint [OF b pb _ pcb_word(1) [OF b j]] by blast
    then show ?thesis using f block_words_addr [OF b pcb_word(1) [OF b j]] by (simp add: filling_def)
  qed
  have inv: "heap_inv UNIV V fl' u" using f by (simp add: filling_def reserved_def)
  have "peek load32 u (ps ! i + PCB_next) = (if Suc i < length ps then ps ! Suc i else 0)
      \<and> sint (peek load32 u (ps ! i + PCB_sleep_time)) = ts ! i" if "i < length ps" for i
    using pk [OF that, of 23] pk [OF that, of 21] D(10,11) [OF that] unfolding pcb_offsets by simp
  then show "process_ring V fl' ps ts (m\<lparr>kern := u\<rparr>)"
    using inv sub' D(3-6) by (simp add: process_ring_def)
qed

lemma ring_append:
  assumes r: "process_ring V fl ps ts m" and p: "p \<in> allocated V fl Heap_128" "p \<notin> set ps"
    and g: "peek load32 (kern m) (p + PCB_next) = 0" "peek load32 (kern m) (p + PCB_sleep_time) = 0"
    and c: "current_index m \<noteq> 0" and N: "reserved V fl N (kern m)"
  shows "\<exists>m'. add_to_list p m = Inr ((), m') \<and> process_ring V fl (ps @ [p]) (ts @ [0]) m'
    \<and> m' = m\<lparr>kern := kern m', current_index := current_index m + 1\<rparr>
    \<and> (\<forall>q\<in>blocks V Heap_128. \<forall>j<32. peek load32 (kern m') (q + 4 * of_nat j) =
          (if q = last ps \<and> j = 23 then p else if q = p \<and> j = 24 then last ps else peek load32 (kern m) (q + 4 * of_nat j)))
    \<and> reserved V fl N (kern m') \<and> (\<forall>a. frame_of a \<in> N \<longrightarrow> mem (kern m') a = mem (kern m) a)"
proof -
  note D = ringD [OF r]
  let ?l = "last ps" and ?m1 = "m\<lparr>current_index := current_index m + 1\<rparr>"
  have ll: "length ps - 1 < length ps" "?l = ps ! (length ps - 1)" using D(3) by (simp_all add: last_conv_nth)
  have la: "?l \<in> allocated V fl Heap_128" and lb: "?l \<in> blocks V Heap_128" using D(7,8) ll by metis+
  have pb: "p \<in> blocks V Heap_128" using p(1) by (simp add: allocated_def)
  have lp: "?l \<noteq> p" using p(2) D(3) by auto
  have r1: "process_ring V fl ps ts ?m1" using r by (simp add: process_ring_def)
  have go: "last_process (process_lists ?m1) ?m1 = Inr (?l, ?m1)"
    using last_process_run [OF r1, of 0] D(3,6) by (simp add: hd_conv_nth)
  have k: "23 < (32::nat)" "24 < (32::nat)" by simp_all
  from reserved_store [OF N la pcb_word(1) [OF lb k(1)], of p] obtain t where
    t: "store32 (?l + 4 * of_nat 23) p (kern m) = Inr ((), t)" "reserved V fl N t"
      "\<And>b. b \<in> data_addrs V \<Longrightarrow> peek load32 t b = (if b = ?l + 4 * of_nat 23 then p else peek load32 (kern m) b)"
      "\<And>a. frame_of a \<in> N \<Longrightarrow> mem t a = mem (kern m) a" by blast
  from reserved_store [OF t(2) p(1) pcb_word(1) [OF pb k(2)], of ?l] obtain u where
    u: "store32 (p + 4 * of_nat 24) ?l t = Inr ((), u)" "reserved V fl N u"
      "\<And>b. b \<in> data_addrs V \<Longrightarrow> peek load32 u b = (if b = p + 4 * of_nat 24 then ?l else peek load32 t b)"
      "\<And>a. frame_of a \<in> N \<Longrightarrow> mem u a = mem t a" by blast
  let ?m' = "?m1\<lparr>kern := u\<rparr>"
  have st: "mstore (?l + PCB_next) p ?m1 = Inr ((), ?m1\<lparr>kern := t\<rparr>)"
    "mstore (p + PCB_prev) ?l (?m1\<lparr>kern := t\<rparr>) = Inr ((), ?m')"
    using t(1) u(1) unfolding pcb_offsets pcb_more_offsets by (simp_all add: mstore_def)
  have run: "add_to_list p m = Inr ((), ?m')"
    using c go st by (simp add: add_to_list_def)
  have w: "peek load32 u (q + 4 * of_nat j) =
      (if q = ?l \<and> j = 23 then p else if q = p \<and> j = 24 then ?l else peek load32 (kern m) (q + 4 * of_nat j))"
    if q: "q \<in> blocks V Heap_128" and j: "j < 32" for q j
  proof -
    note ad = block_words_addr [OF q pcb_word(1) [OF q j]]
    show ?thesis
      unfolding u(3) [OF ad] t(3) [OF ad] pcb_apart [OF q lb j k(1)] pcb_apart [OF q pb j k(2)] using lp by auto
  qed
  have "peek load32 u ((ps @ [p]) ! i + PCB_next) = (if Suc i < length (ps @ [p]) then (ps @ [p]) ! Suc i else 0)
      \<and> sint (peek load32 u ((ps @ [p]) ! i + PCB_sleep_time)) = (ts @ [0]) ! i" if "i < length (ps @ [p])" for i
  proof (cases "i < length ps")
    case True
    have "ps ! i = ?l \<longleftrightarrow> Suc i = length ps"
      unfolding ll(2) nth_eq_iff_index_eq [OF D(4) True ll(1)] using D(3) True by auto
    then show ?thesis
      using w [OF D(8) [OF True], of 23] w [OF D(8) [OF True], of 21] D(5) D(10,11) [OF True] True p(2) nth_mem [OF True]
      unfolding pcb_offsets by (auto simp: nth_append)
  next
    case False
    then have "i = length ps" using that by simp
    then show ?thesis
      using w [OF pb, of 23] w [OF pb, of 21] g lp D(5) unfolding pcb_offsets by (simp add: nth_append)
  qed
  moreover have "heap_inv UNIV V fl u" using u(2) by (simp add: reserved_def)
  moreover have "set ps \<subseteq> allocated V fl Heap_128" using r by (simp add: process_ring_def)
  ultimately have "process_ring V fl (ps @ [p]) (ts @ [0]) ?m'"
    using D(3-6) p unfolding process_ring_def by simp
  then show ?thesis using run w u(2,4) t(4) by (intro exI [of _ ?m']) simp
qed

lemma create_process_ring:
  assumes r: "process_ring V fl ps ts m" and c: "current_index m \<noteq> 0"
    and x: "fl Heap_128 = p # xs" and y: "fl Heap_4k = k # ks" and fr: "(if is_user then 5 else 3) \<le> card (free_low (kern m))"
    and im: "is_user \<Longrightarrow> code_in_image func (kern m)"
  shows "\<exists>m' n N. create_process func is_user m = Inr ((), m')
    \<and> process_ring V (fl(Heap_128 := xs, Heap_4k := ks)) (ps @ [p]) (ts @ [0]) m'
    \<and> current_index m' = current_index m + 1 \<and> current_process m' = current_process m \<and> trace m' = trace m
    \<and> (\<forall>i\<in>{0, 1, 20, 22, 24}. peek load32 (kern m') (p + 4 * of_nat i) =
         (if i = 0 then PROC_STACK_VIRT + 4 * of_nat (1024 - frame_words is_user) else if i = 1 then addr_of_frame n + 0xC0000000
          else if i = 20 then ucast (current_index m) else if i = 22 then k + 4096 else last ps))
    \<and> n \<in> free_low (kern m) \<and> reserved V (fl(Heap_128 := xs, Heap_4k := ks)) N (kern m')
    \<and> process_built is_user (mem (kern m')) n N func (\<lambda>i. byte_at (mem (kern m)) (func - 0xC0000000 + of_nat i))"
proof -
  let ?fl = "fl(Heap_128 := xs, Heap_4k := ks)" and ?code = "\<lambda>i. byte_at (mem (kern m)) (func - 0xC0000000 + of_nat i)"
  note D = ringD [OF r]
  from create_process_run [OF D(1) x y fr im] obtain n N u g where
    u: "create_process func is_user m = add_to_list p (m\<lparr>kern := u\<rparr>)" "filling V ?fl N p (kern m) g u"
      "g 20 = ucast (current_index m)" "g 21 = 0" "g 22 = k + 4096" "g 23 = 0" "n \<in> free_low (kern m)"
      "process_built is_user (mem u) n N func ?code"
      "g 0 = PROC_STACK_VIRT + 4 * of_nat (1024 - frame_words is_user)" "g 1 = addr_of_frame n + 0xC0000000" by blast
  have "?fl Heap_128 = xs" by simp
  note R = ring_filling [OF r x this u(2)]
  have w: "peek load32 u (p + 4 * of_nat j) = g j" if "j < 32" for j using u(2) that by (simp add: filling_def)
  have z: "peek load32 (kern (m\<lparr>kern := u\<rparr>)) (p + PCB_next) = 0" "peek load32 (kern (m\<lparr>kern := u\<rparr>)) (p + PCB_sleep_time) = 0"
    "current_index (m\<lparr>kern := u\<rparr>) \<noteq> 0" "reserved V ?fl N (kern (m\<lparr>kern := u\<rparr>))"
    using w [of 23] w [of 21] u(2,4,6) c unfolding pcb_offsets by (simp_all add: filling_def)
  from ring_append [OF R(1,3,2) z] obtain m' where
    m': "add_to_list p (m\<lparr>kern := u\<rparr>) = Inr ((), m')" "process_ring V ?fl (ps @ [p]) (ts @ [0]) m'"
      "m' = m\<lparr>kern := u, kern := kern m', current_index := current_index (m\<lparr>kern := u\<rparr>) + 1\<rparr>"
      "\<And>q j. q \<in> blocks V Heap_128 \<Longrightarrow> j < 32 \<Longrightarrow> peek load32 (kern m') (q + 4 * of_nat j) =
          (if q = last ps \<and> j = 23 then p else if q = p \<and> j = 24 then last ps else peek load32 (kern (m\<lparr>kern := u\<rparr>)) (q + 4 * of_nat j))"
      "reserved V ?fl N (kern m')" "\<And>a. frame_of a \<in> N \<Longrightarrow> mem (kern m') a = mem u a"
    by fastforce
  have pb: "p \<in> blocks V Heap_128" using R(3) by (simp add: allocated_def)
  have rest: "current_index m' = current_index m + 1 \<and> current_process m' = current_process m \<and> trace m' = trace m" by (subst (1 2 3) m'(3)) simp
  have "p \<noteq> last ps" using R(2) D(3) by auto
  then have g: "peek load32 (kern m') (p + 4 * of_nat j) = (if j = 24 then last ps else g j)" if "j < 32" for j
    using m'(4) [OF pb that] w [OF that] by simp
  have "\<forall>i\<in>{0, 1, 20, 22, 24}. peek load32 (kern m') (p + 4 * of_nat i) =
         (if i = 0 then PROC_STACK_VIRT + 4 * of_nat (1024 - frame_words is_user) else if i = 1 then addr_of_frame n + 0xC0000000
          else if i = 20 then ucast (current_index m) else if i = 22 then k + 4096 else last ps)"
  proof
    fix i :: nat
    assume i: "i \<in> {0, 1, 20, 22, 24}"
    then have "i < 32" by auto
    then show "peek load32 (kern m') (p + 4 * of_nat i) =
         (if i = 0 then PROC_STACK_VIRT + 4 * of_nat (1024 - frame_words is_user) else if i = 1 then addr_of_frame n + 0xC0000000
          else if i = 20 then ucast (current_index m) else if i = 22 then k + 4096 else last ps)"
      unfolding g [OF \<open>i < 32\<close>] using i u(3,5,9,10) by auto
  qed
  moreover have "process_built is_user (mem (kern m')) n N func ?code"
    by (rule process_built_cong [OF _ m'(6) u(8)]) (rule reservedD(4) [OF m'(5)])
  ultimately show ?thesis using u(1,7) m'(1,2,5) rest by (intro exI [of _ m'] exI [of _ n] exI [of _ N]) simp
qed

section \<open>Properties\<close>

text \<open>
  C18: \<^verbatim>\<open>create_process\<close> adds a process to the scheduler's ring.  With a free block for the control block,
  one for the kernel stack and three free frames (five for a user process, whose function lies in the kernel image)
  it succeeds: the ring has the new process at its end, awake, with
  its number, its predecessor and the top of its kernel stack; the processes that were there keep their order and their sleep times.
\<close>

theorem create_process_appends:
  assumes "process_ring V fl ps ts m" "current_index m \<noteq> 0"
    "fl Heap_128 = p # xs" "fl Heap_4k = k # ks" "(if is_user then 5 else 3) \<le> card (free_low (kern m))"
    "is_user \<Longrightarrow> code_in_image func (kern m)"
  shows "\<exists>m'. create_process func is_user m = Inr ((), m')
    \<and> process_ring V (fl(Heap_128 := xs, Heap_4k := ks)) (ps @ [p]) (ts @ [0]) m'
    \<and> current_index m' = current_index m + 1 \<and> current_process m' = current_process m \<and> trace m' = trace m
    \<and> peek load32 (kern m') (p + PCB_PID) = ucast (current_index m) \<and> peek load32 (kern m') (p + PCB_prev) = last ps
    \<and> peek load32 (kern m') (p + PCB_kernel_stack_top) = k + 4096"
  using create_process_ring [OF assms] unfolding pcb_offsets pcb_more_offsets by fastforce

text \<open>
  C19: What a new user process starts with.  Under its own page directory, \<^verbatim>\<open>PROC_CODE_VIRT\<close> reads as a copy of the 4096 bytes
  at its function, and from \<^verbatim>\<open>saved_esp\<close> the stack holds eight zeros for \<^verbatim>\<open>popa\<close> and the frame with which \<^verbatim>\<open>iret\<close>
  enters the code in ring 3, with interrupts on and the stack at its top.
\<close>

theorem user_process_image:
  assumes "process_ring V fl ps ts m" "current_index m \<noteq> 0"
    "fl Heap_128 = p # xs" "fl Heap_4k = k # ks" "5 \<le> card (free_low (kern m))" "code_in_image func (kern m)"
  shows "\<exists>m' s code. create_process func True m = Inr ((), m')
    \<and> s = (kern m')\<lparr>cr3 := peek load32 (kern m') (p + PCB_page_dir) - 0xC0000000\<rparr>
    \<and> (\<forall>i<4096. load8 (func + of_nat i) (kern m) = Inr (code i, kern m) \<and> load8 (PROC_CODE_VIRT + of_nat i) s = Inr (code i, s))
    \<and> pop_words 13 (peek load32 (kern m') (p + PCB_saved_esp)) s =
        Inr (replicate 8 0 @ [PROC_CODE_VIRT, 0x1B, 0x202, PROC_STACK_VIRT + PROC_STACK_SIZE, 0x23], s)"
proof -
  let ?code = "\<lambda>i. byte_at (mem (kern m)) (func - 0xC0000000 + of_nat i)"
  have fr: "(if True then 5 else 3) \<le> card (free_low (kern m))" using assms(5) by simp
  from create_process_ring [OF assms(1-4) fr assms(6)] obtain m' n N where
    m': "create_process func True m = Inr ((), m')" "reserved V (fl(Heap_128 := xs, Heap_4k := ks)) N (kern m')"
      "process_built True (mem (kern m')) n N func ?code" "peek load32 (kern m') (p + 4 * of_nat 0) = PROC_STACK_VIRT + 4 * of_nat 1011"
      "peek load32 (kern m') (p + 4 * of_nat 1) = addr_of_frame n + 0xC0000000"
    by (auto simp: frame_words_def)
  let ?s = "(kern m')\<lparr>cr3 := addr_of_frame n\<rparr>"
  from m'(3) obtain t f r c where us: "N = {n, t, f, r, c}" "user_space (mem ?s) n t f r c ?code" by (auto simp: process_built_def)
  have lt: "f < 0x40000" "c < 0x40000" using reservedD(4) [OF m'(2)] us(1) by simp_all
  note U = user_pages [OF us(2) lt]
  have "load8 (func + of_nat i) (kern m) = Inr (?code i, kern m)" if i: "i < 4096" for i
  proof -
    have "safe_frame (kern m) < 0x40000" using vm_invD(1) [OF heap_invD(1) [OF ringD(1) [OF assms(1)]]] by (simp add: pmm_wf_def)
    then have "unat (func - 0xC0000000 + of_nat i) < 0x40000000"
      using assms(6) i by (simp add: code_in_image_def unat_word_ariths unat_of_nat)
    from load8_high [OF heap_invD(1) [OF ringD(1) [OF assms(1)]] this] show ?thesis by (simp add: algebra_simps)
  qed
  moreover have "PROC_STACK_VIRT + PROC_STACK_SIZE = 0xC0000000" by (simp add: PROC_STACK_VIRT_def PROC_STACK_SIZE_def)
  ultimately show ?thesis using m'(1,4,5) U unfolding pcb_offsets
    by (intro exI [of _ m'] exI [of _ ?s] exI [of _ ?code]) simp
qed

lemma scheduler_start_run:
  assumes inv: "heap_inv UNIV V fl (kern m)" and x: "fl Heap_128 = p # xs" and y: "fl Heap_4k = k # ks"
    and fr: "3 \<le> card (free_low (kern m))"
  shows "\<exists>u n m'. init_process_scheduler func m = Inr (start_context func, m')
    \<and> m' = m\<lparr>kern := u\<lparr>cr3 := addr_of_frame n\<rparr>, current_process := p, next_process := p, process_lists := p, current_index := 1\<rparr>
    \<and> n \<in> free_low (kern m) \<and> process_ring V (fl(Heap_128 := xs, Heap_4k := ks)) [p] [0] (m'\<lparr>kern := u\<rparr>)
    \<and> peek load32 u (p + PCB_kernel_stack_top) = k + 4096 \<and> (\<exists>t f. process_space (mem u) n t f func)
    \<and> card (free_low (kern m)) \<le> card (free_low u) + 5"
proof -
  let ?fl = "fl(Heap_128 := xs, Heap_4k := ks)" and ?m0 = "m\<lparr>current_index := 0\<rparr>"
  have i0: "heap_inv UNIV V fl (kern ?m0)" "3 \<le> card (free_low (kern ?m0))" using inv fr by simp_all
  have "(if False then 5 else 3) \<le> card (free_low (kern ?m0))" "False \<Longrightarrow> code_in_image func (kern ?m0)" using fr by simp_all
  from create_process_run [OF i0(1) x y this] obtain n N u g where
    u0: "create_process func False ?m0 = add_to_list p (?m0\<lparr>kern := u\<rparr>)"
      "n \<in> free_low (kern m)" "filling V ?fl N p (kern m) g u"
      "process_built False (mem u) n N func (\<lambda>i. byte_at (mem (kern m)) (func - 0xC0000000 + of_nat i))"
      "g 0 = PROC_STACK_VIRT + 4 * of_nat (1024 - frame_words False)" "g 1 = addr_of_frame n + 0xC0000000" "g 21 = 0" "g 22 = k + 4096" "g 23 = 0"
      "card (free_low (kern m)) \<le> card (free_low u) + 5"
    by fastforce
  from u0(4) obtain t f where N: "N = {n, t, f}" and u4: "process_space (mem u) n t f func" by (auto simp: process_built_def)
  have g0: "g 0 = PROC_STACK_VIRT + 4 * of_nat 1013" using u0(5) by (simp add: frame_words_def)
  note u = u0(1,2) u0(3) [unfolded N] u4 g0 u0(6-10)
  let ?m1 = "?m0\<lparr>kern := u, process_lists := p, current_index := 1\<rparr>"
  have cp: "create_process func False ?m0 = Inr ((), ?m1)" unfolding u(1) by (simp add: add_to_list_def)
  have al: "p \<in> allocated V ?fl Heap_128" and inv': "heap_inv UNIV V ?fl u" using u(3) by (simp_all add: filling_def reserved_def)
  have fl: "f < 0x40000" using reservedD(4) [of V ?fl "{n, t, f}" u f] u(3) by (simp add: filling_def)
  have w: "peek load32 u (p + 4 * of_nat j) = g j" if "j < 32" for j using u(3) that by (simp add: filling_def)
  let ?m2 = "?m1\<lparr>current_process := p, next_process := p\<rparr>"
  have ring: "process_ring V ?fl [p] [0] ?m2"
    using inv' al w [of 21] w [of 23] u(7,9) unfolding process_ring_def pcb_offsets by simp
  have ld: "mload (p + PCB_page_dir) ?m2 = Inr (addr_of_frame n + 0xC0000000, ?m2)"
    "mload (p + PCB_saved_esp) ?m2 = Inr (PROC_STACK_VIRT + 4 * of_nat 1013, ?m2)"
    using pcb_load(1) [OF ring, of 0 1] pcb_load(1) [OF ring, of 0 0] w [of 0] w [of 1] u(5,6) unfolding pcb_offsets by simp_all
  let ?u = "u\<lparr>cr3 := addr_of_frame n\<rparr>"
  have "popa_iret (PROC_STACK_VIRT + 4 * of_nat 1013) ?u = Inr (start_context func, ?u)"
    by (rule popa_iret_run [of _ n t f]) (use u(4) fl in simp_all)
  then have "init_process_scheduler func m = Inr (start_context func, ?m2\<lparr>kern := ?u\<rparr>)"
    using cp ld by (simp add: init_process_scheduler_def Let_def)
  moreover have "?m2\<lparr>kern := ?u\<rparr> = m\<lparr>kern := ?u, current_process := p, next_process := p, process_lists := p, current_index := 1\<rparr>" by simp
  moreover have "?m2\<lparr>kern := ?u\<rparr>\<lparr>kern := u\<rparr> = ?m2" by simp
  moreover have "peek load32 u (p + PCB_kernel_stack_top) = k + 4096" using w [of 22] u(8) unfolding pcb_offsets by simp
  ultimately show ?thesis using ring u(2,4,10) by metis
qed

lemma schedule_fault: "mload (current_process m + PCB_next) m = Inl e \<Longrightarrow> schedule m = Inl e"
  by (simp add: schedule_def schedule_step_def)

lemma tick_in_process:
  assumes sp: "process_space (mem (kern m)) n t f func" and c: "cr3 (kern m) = addr_of_frame n"
    and p: "current_process m = p" "p \<in> blocks V Heap_128"
  shows "timer_interrupt_handler m = Inl (PageFault (p + PCB_next))"
proof -
  have q: "PCB_next = 4 * of_nat 23" by (rule pcb_offsets)
  have k: "23 < (32::nat)" by simp
  have "unat p < 0x80000000" using p(2) region_bounds [of Heap_128 "frame_of p"] by (auto simp: blocks_def frame_of_def)
  then have a: "frame_of (p + PCB_next) div 1024 < 767" "word_aligned (p + PCB_next)"
    using pcb_word [OF p(2) k] block_words_addr [OF p(2) pcb_word(1) [OF p(2) k]] unfolding q by (simp_all add: frame_of_def data_addrs_def)
  have "mload (p + PCB_next) m' = Inl (PageFault (p + PCB_next))"
    if "mem (kern m') = mem (kern m)" "cr3 (kern m') = cr3 (kern m)" for m'
    unfolding mload_def using heap_unmapped [of "kern m'", OF _ _ a] sp c that by simp
  then show ?thesis
    using p(1) by (simp add: timer_interrupt_handler_def bnd_def schedule_fault)
qed

text \<open>
  C17: \<^verbatim>\<open>init_process_scheduler\<close> starts its process.  On a heap with a free block of both classes and three free
  frames it ends in the \<^verbatim>\<open>iret\<close> with all registers zero, the instruction pointer at the function,
  the kernel's code segment and interrupts on, in an address space in a new frame that maps none of the first
  767 directory entries; in memory there is the ring of this one process, which is the current and the next one.
\<close>

theorem scheduler_start:
  assumes "heap_inv UNIV V fl (kern m)" "fl Heap_128 = p # xs" "fl Heap_4k = k # ks" "3 \<le> card (free_low (kern m))"
  shows "\<exists>s m'. init_process_scheduler func m = Inr (\<lparr>gprs = replicate 8 0, ctx_eip = func, ctx_cs = 0x08, ctx_eflags = 0x202\<rparr>, m')
    \<and> current_process m' = p \<and> next_process m' = p \<and> current_index m' = 1 \<and> trace m' = trace m
    \<and> kern m' = s\<lparr>cr3 := cr3 (kern m')\<rparr> \<and> process_ring V (fl(Heap_128 := xs, Heap_4k := ks)) [p] [0] (m'\<lparr>kern := s\<rparr>)
    \<and> peek load32 s (p + PCB_kernel_stack_top) = k + 4096 \<and> frame_of (cr3 (kern m')) \<in> free_low (kern m)
    \<and> (\<forall>va. frame_of va < 767 * 1024 \<longrightarrow> translate (mem (kern m')) (cr3 (kern m')) va = None)"
proof -
  from scheduler_start_run [OF assms, of func] obtain u n m' t f where
    u: "init_process_scheduler func m = Inr (start_context func, m')"
      "m' = m\<lparr>kern := u\<lparr>cr3 := addr_of_frame n\<rparr>, current_process := p, next_process := p, process_lists := p, current_index := 1\<rparr>"
      "n \<in> free_low (kern m)" "process_ring V (fl(Heap_128 := xs, Heap_4k := ks)) [p] [0] (m'\<lparr>kern := u\<rparr>)"
      "peek load32 u (p + PCB_kernel_stack_top) = k + 4096" "process_space (mem u) n t f func" by blast
  have f: "kern m' = u\<lparr>cr3 := addr_of_frame n\<rparr>" "current_process m' = p" "next_process m' = p" "current_index m' = 1" "trace m' = trace m"
    by (simp_all add: u(2))
  have n: "frame_of (addr_of_frame n) = n" by (rule frame_of_addr_of_frame [OF free_lowD(5) [OF u(3)]])
  have un: "translate (mem u) (addr_of_frame n) va = None" if "frame_of va < 767 * 1024" for va
  proof -
    have "frame_of va div 1024 < 767" using that by (simp add: div_less_iff_less_mult)
    then show ?thesis using u(6) by (simp add: translate_entry page_aligned_addr_of_frame process_space_def)
  qed
  show ?thesis
    by (rule exI [of _ u], rule exI [of _ m'])
      (use u(1,3,4,5) un in \<open>simp add: f n start_context_def\<close>)
qed

text \<open>
  C27: The first timer interrupt ends the kernel.  After \<^verbatim>\<open>init_process_scheduler\<close> the process's own
  directory is active; \<^verbatim>\<open>schedule\<close> then reads the \<^verbatim>\<open>next\<close> field of the current control block,
  which lies in the heap, which that directory does not map: a page fault in the interrupt handler.
\<close>

theorem first_tick_page_fault:
  assumes "heap_inv UNIV V fl (kern m)" "fl Heap_128 = p # xs" "fl Heap_4k = k # ks" "3 \<le> card (free_low (kern m))"
  shows "bnd (init_process_scheduler func) (\<lambda>_. timer_interrupt_handler) m = Inl (PageFault (p + PCB_next))"
proof -
  from scheduler_start_run [OF assms, of func] obtain u n m' t f where
    u: "init_process_scheduler func m = Inr (start_context func, m')"
      "m' = m\<lparr>kern := u\<lparr>cr3 := addr_of_frame n\<rparr>, current_process := p, next_process := p, process_lists := p, current_index := 1\<rparr>"
      "process_ring V (fl(Heap_128 := xs, Heap_4k := ks)) [p] [0] (m'\<lparr>kern := u\<rparr>)" "process_space (mem u) n t f func" by blast
  have "p \<in> blocks V Heap_128" using ringD(8) [OF u(3), of 0] by simp
  then have "timer_interrupt_handler m' = Inl (PageFault (p + PCB_next))"
    using u(4) by (intro tick_in_process [of _ n t f func]) (simp_all add: u(2))
  then show ?thesis using u(1) by simp
qed

section \<open>Two processes on the booted heap\<close>

lemma long_enough: "2 \<le> card X \<Longrightarrow> X \<subseteq> set l \<Longrightarrow> \<exists>x y zs. l = x # y # zs"
proof -
  assume "2 \<le> card X" "X \<subseteq> set l"
  then have "2 \<le> length l" using card_mono [of "set l" X] card_length [of l] by simp
  then show "\<exists>x y zs. l = x # y # zs" by (auto simp: Suc_le_length_iff numeral_2_eq_2)
qed

lemma boot_lists:
  "\<exists>fl p q xs k k' ks. heap_inv UNIV premapped fl boot_heap \<and> fl Heap_128 = p # q # xs \<and> fl Heap_4k = k # k' # ks
    \<and> 10 \<le> card (free_low boot_heap)"
proof -
  from boot_heap_inv obtain fl where fl: "heap_inv UNIV premapped fl boot_heap" "\<And>h. set (fl h) = blocks premapped h"
    "255736 \<le> card (free_low boot_heap)" by blast
  have V: "0x20000 \<in> premapped" "0x70000 \<in> premapped" "0x70001 \<in> premapped" unfolding premapped_def
    by (rule CollectI, rule exI [of _ Heap_128], simp add: region_base_def)
      (rule CollectI, rule exI [of _ Heap_4k], simp add: region_base_def)+
  have "{0x20000000, 0x20000080} \<subseteq> set (fl Heap_128)" "{0x70000000, 0x70001000} \<subseteq> set (fl Heap_4k)"
    using V unfolding fl(2) by (simp_all add: blocks_def in_region_def region_base_def bsize_def frame_of_def)
  moreover have "2 \<le> card {0x20000000, 0x20000080 :: u32}" "2 \<le> card {0x70000000, 0x70001000 :: u32}" by simp_all
  ultimately have "\<exists>x y zs. fl Heap_128 = x # y # zs" "\<exists>x y zs. fl Heap_4k = x # y # zs" using long_enough by blast+
  then show ?thesis using fl(1,3) by fastforce
qed

theorem scheduler_start_witness:
  "\<exists>ctx m'. init_process_scheduler 0xC0100500 (demo_machine\<lparr>kern := boot_heap\<rparr>) = Inr (ctx, m') \<and> ctx_eip ctx = 0xC0100500"
proof -
  let ?m = "demo_machine\<lparr>kern := boot_heap\<rparr>"
  from boot_lists obtain fl p xs k ks where fl: "heap_inv UNIV premapped fl (kern ?m)" "fl Heap_128 = p # xs" "fl Heap_4k = k # ks"
    "3 \<le> card (free_low (kern ?m))" by fastforce
  show ?thesis using scheduler_start [OF fl, of "0xC0100500"] by fastforce
qed

theorem first_tick_page_fault_witness:
  "\<exists>a. bnd (init_process_scheduler 0xC0100500) (\<lambda>_. timer_interrupt_handler) (demo_machine\<lparr>kern := boot_heap\<rparr>) = Inl (PageFault a)"
proof -
  let ?m = "demo_machine\<lparr>kern := boot_heap\<rparr>"
  from boot_lists obtain fl p xs k ks where fl: "heap_inv UNIV premapped fl (kern ?m)" "fl Heap_128 = p # xs" "fl Heap_4k = k # ks"
    "3 \<le> card (free_low (kern ?m))" by fastforce
  show ?thesis using first_tick_page_fault [OF fl, of "0xC0100500"] by blast
qed

lemma boot_ring:
  "\<exists>fl p q xs k ks m. process_ring premapped fl [p] [0] m \<and> fl Heap_128 = q # xs \<and> fl Heap_4k = k # ks
    \<and> current_index m \<noteq> 0 \<and> 5 \<le> card (free_low (kern m))"
proof -
  let ?m = "demo_machine\<lparr>kern := boot_heap\<rparr>"
  from boot_lists obtain fl p q xs k k' ks where fl: "heap_inv UNIV premapped fl (kern ?m)" "fl Heap_128 = p # q # xs"
    "fl Heap_4k = k # k' # ks" "10 \<le> card (free_low (kern ?m))" by fastforce
  from fl(4) have "3 \<le> card (free_low (kern ?m))" by simp
  from scheduler_start_run [OF fl(1-3) this, of "0xC0100500"] obtain u n m1 where
    u: "m1 = ?m\<lparr>kern := u\<lparr>cr3 := addr_of_frame n\<rparr>, current_process := p, next_process := p, process_lists := p, current_index := 1\<rparr>"
      "process_ring premapped (fl(Heap_128 := q # xs, Heap_4k := k' # ks)) [p] [0] (m1\<lparr>kern := u\<rparr>)"
      "card (free_low (kern ?m)) \<le> card (free_low u) + 5" by blast
  let ?fl = "fl(Heap_128 := q # xs, Heap_4k := k' # ks)" and ?m1 = "m1\<lparr>kern := u\<rparr>"
  have "?fl Heap_128 = q # xs" "?fl Heap_4k = k' # ks" "current_index ?m1 \<noteq> 0" "5 \<le> card (free_low (kern ?m1))"
    using u(1,3) fl(4) by simp_all
  then show ?thesis using u(2) by metis
qed

theorem create_process_appends_witness:
  "\<exists>fl p q m m'. process_ring premapped fl [p] [0] m \<and> create_process 0xC0100600 False m = Inr ((), m')
    \<and> process_ring premapped (fl(Heap_128 := tl (fl Heap_128), Heap_4k := tl (fl Heap_4k))) [p, q] [0, 0] m'"
proof -
  from boot_ring obtain fl p q xs k ks m where r: "process_ring premapped fl [p] [0] m" "fl Heap_128 = q # xs" "fl Heap_4k = k # ks"
    "current_index m \<noteq> 0" "5 \<le> card (free_low (kern m))" by blast
  have c: "(if False then 5 else 3) \<le> card (free_low (kern m))" "False \<Longrightarrow> code_in_image 0xC0100600 (kern m)" using r(5) by simp_all
  from create_process_appends [OF r(1,4,2,3) c] obtain m' where
    m': "create_process 0xC0100600 False m = Inr ((), m')"
      "process_ring premapped (fl(Heap_128 := xs, Heap_4k := ks)) ([p] @ [q]) ([0] @ [0]) m'" by blast
  have "fl(Heap_128 := xs, Heap_4k := ks) = fl(Heap_128 := tl (fl Heap_128), Heap_4k := tl (fl Heap_4k))" using r(2,3) by simp
  then show ?thesis using r(1) m' by (intro exI [of _ fl] exI [of _ p] exI [of _ q] exI [of _ m] exI [of _ m']) simp
qed

theorem user_process_image_witness:
  "\<exists>fl p m m' s. process_ring premapped fl [p] [0] m \<and> create_process 0xC0001000 True m = Inr ((), m')
    \<and> s = (kern m')\<lparr>cr3 := peek load32 (kern m') (hd (fl Heap_128) + PCB_page_dir) - 0xC0000000\<rparr>
    \<and> pop_words 13 (peek load32 (kern m') (hd (fl Heap_128) + PCB_saved_esp)) s =
        Inr ([0, 0, 0, 0, 0, 0, 0, 0, PROC_CODE_VIRT, 0x1B, 0x202, 0xC0000000, 0x23], s)"
proof -
  from boot_ring obtain fl p q xs k ks m where r: "process_ring premapped fl [p] [0] m" "fl Heap_128 = q # xs" "fl Heap_4k = k # ks"
    "current_index m \<noteq> 0" "5 \<le> card (free_low (kern m))" by blast
  have "code_in_image 0xC0001000 (kern m)"
    using vm_invD(1) [OF heap_invD(1) [OF ringD(1) [OF r(1)]]] by (simp add: code_in_image_def pmm_wf_def)
  from user_process_image [OF r(1,4,2,3,5) this] obtain m' s where
    m': "create_process 0xC0001000 True m = Inr ((), m')"
      "s = (kern m')\<lparr>cr3 := peek load32 (kern m') (q + PCB_page_dir) - 0xC0000000\<rparr>"
      "pop_words 13 (peek load32 (kern m') (q + PCB_saved_esp)) s =
        Inr (replicate 8 0 @ [PROC_CODE_VIRT, 0x1B, 0x202, PROC_STACK_VIRT + PROC_STACK_SIZE, 0x23], s)" by blast
  have z: "PROC_STACK_VIRT + PROC_STACK_SIZE = 0xC0000000" "replicate 8 (0::u32) = [0, 0, 0, 0, 0, 0, 0, 0]"
    by (simp_all add: PROC_STACK_VIRT_def PROC_STACK_SIZE_def numeral_eq_Suc)
  then show ?thesis using r(1,2) m' by (intro exI [of _ fl] exI [of _ p] exI [of _ m] exI [of _ m'] exI [of _ s]) (simp add: numeral_eq_Suc)
qed

end
