(* ===== verification/Vga_Float.thy ===== *)
theory Vga_Float
  imports Vga
begin

unbundle bit_operations_syntax

text \<open>
  The conversion \<^verbatim>\<open>%f\<close> of \<^verbatim>\<open>kprintf\<close>: the decimal numeral that \<^verbatim>\<open>double_to_string\<close> of \<^verbatim>\<open>lib/vga.c\<close> writes.
\<close>

section \<open>The digits behind the point\<close>

text \<open>What IEEE 754 promises: a result that fits 53 bits is not changed.\<close>

definition exact_53 :: "(rat \<Rightarrow> rat) \<Rightarrow> bool" where
  "exact_53 rnd \<longleftrightarrow> (\<forall>n k. n < 2 ^ 53 \<longrightarrow> rnd (of_nat n / 2 ^ k) = of_nat n / 2 ^ k)"

definition decimal_digit :: "nat \<Rightarrow> nat \<Rightarrow> nat \<Rightarrow> u8" where
  "decimal_digit a j i = of_nat (a * 10 ^ i div 2 ^ j mod 10) + 48"

lemma pow2_dvd: "odd (a :: nat) \<Longrightarrow> 2 ^ j dvd a * 10 ^ i \<longleftrightarrow> j \<le> (i :: nat)"
proof
  assume a: "odd a" and d: "2 ^ j dvd a * 10 ^ i"
  show "j \<le> i"
  proof (rule ccontr)
    assume "\<not> j \<le> i"
    then have j: "2 ^ j = (2 :: nat) ^ i * 2 ^ (j - i)" "0 < j - i" by (simp_all flip: power_add)
    have "a * 10 ^ i = 2 ^ i * (a * 5 ^ i)" using power_mult_distrib [of 2 "5 :: nat" i] by simp
    then have "2 ^ i * 2 ^ (j - i) dvd 2 ^ i * (a * 5 ^ i)" using d by (simp only: j(1))
    then have "2 ^ (j - i) dvd a * 5 ^ i" by simp
    then have "even (a * 5 ^ i)" using j(2) dvd_trans [of 2 "2 ^ (j - i)" "a * 5 ^ i"] dvd_power [of "j - i" "2 :: nat"] by blast
    then show False using a by simp
  qed
next
  assume "j \<le> i"
  then have "10 ^ i = (2 :: nat) ^ j * (2 ^ (i - j) * 5 ^ i)"
    using power_mult_distrib [of 2 "5 :: nat" i] by (simp add: power_add [symmetric] mult.assoc [symmetric])
  then show "2 ^ j dvd a * 10 ^ i" by simp
qed

lemma floor_nat_div: "\<lfloor>(of_nat p :: rat) / of_nat q\<rfloor> = int (p div q)"
  using floor_divide_of_int_eq [of "int p" "int q", where 'a = rat] by (simp add: zdiv_int)

lemma frac_nat_mod: "0 < q \<Longrightarrow> (of_nat p :: rat) / of_nat q - of_int (int (p div q)) = of_nat (p mod q) / of_nat q"
proof -
  assume q: "0 < q"
  have "(of_nat p :: rat) = of_nat (p div q) * of_nat q + of_nat (p mod q)" by (metis div_mult_mod_eq of_nat_add of_nat_mult)
  then show ?thesis using q by (simp add: field_simps)
qed

lemma put_decimals_step:
  assumes e: "exact_53 rnd" and j: "0 < j" "j \<le> 50"
  shows "rnd (of_nat (A mod 2 ^ j) / 2 ^ j * 10) = of_nat (10 * (A mod 2 ^ j)) / 2 ^ j"
    "\<lfloor>(of_nat (10 * (A mod 2 ^ j)) :: rat) / 2 ^ j\<rfloor> = int (10 * A div 2 ^ j mod 10)"
    "rnd (of_nat (10 * (A mod 2 ^ j)) / 2 ^ j - of_int (int (10 * A div 2 ^ j mod 10))) = of_nat (10 * A mod 2 ^ j) / 2 ^ j"
proof -
  let ?N = "2 ^ j :: nat" and ?x = "A mod 2 ^ j"
  have x: "?x < ?N" by simp
  have N: "?N \<le> 2 ^ 50" using j(2) by (intro power_increasing) simp_all
  have NN: "(2 :: rat) ^ j = of_nat ?N" by simp
  have "(of_nat ?x / 2 ^ j * 10 :: rat) = of_nat (5 * ?x) / 2 ^ (j - 1)"
    using j(1) power_Suc [of "2 :: rat" "j - 1"] by (simp add: field_simps)
  moreover have "?x < 1125899906842624" using less_le_trans [OF x N] by simp
  then have "5 * ?x < 2 ^ 53" by simp
  ultimately show "rnd (of_nat ?x / 2 ^ j * 10) = of_nat (10 * ?x) / 2 ^ j"
    using e unfolding exact_53_def by (metis (no_types, lifting) mult.commute of_nat_mult of_nat_numeral times_divide_eq_left)
  have A: "A = A div ?N * ?N + ?x" by (rule div_mult_mod_eq [symmetric])
  have dv: "10 * A div ?N = 10 * (A div ?N) + 10 * ?x div ?N"
  proof -
    have "10 * A = 10 * ?x + ?N * (10 * (A div ?N))" using A by (metis add.commute mult.assoc mult.commute distrib_left)
    then show ?thesis by simp
  qed
  have lt: "10 * ?x div ?N < 10" using x by (simp add: less_mult_imp_div_less)
  have dig: "10 * A div ?N mod 10 = 10 * ?x div ?N" unfolding dv using lt by simp
  show "\<lfloor>(of_nat (10 * ?x) :: rat) / 2 ^ j\<rfloor> = int (10 * A div 2 ^ j mod 10)"
    unfolding dig NN by (rule floor_nat_div)
  have "(of_nat (10 * ?x) / 2 ^ j - of_int (int (10 * A div 2 ^ j mod 10)) :: rat) = of_nat (10 * ?x mod ?N) / 2 ^ j"
    unfolding dig NN by (rule frac_nat_mod) simp
  also have "10 * ?x mod ?N = 10 * A mod ?N" by (simp add: mod_mult_right_eq)
  finally have f: "(of_nat (10 * ?x) / 2 ^ j - of_int (int (10 * A div 2 ^ j mod 10)) :: rat) = of_nat (10 * A mod ?N) / 2 ^ j" .
  have "10 * A mod ?N < ?N" by simp
  then have "10 * A mod ?N < 2 ^ 53" using less_le_trans [OF _ N] by fastforce
  then show "rnd (of_nat (10 * ?x) / 2 ^ j - of_int (int (10 * A div 2 ^ j mod 10))) = of_nat (10 * A mod 2 ^ j) / 2 ^ j"
    using e unfolding f exact_53_def by simp
qed

lemma put_decimals_run:
  assumes e: "exact_53 rnd" and j: "0 < j" "j \<le> 50" and a: "odd a"
  shows "i \<le> j \<Longrightarrow> put_decimals rnd k (of_nat (a * 10 ^ i mod 2 ^ j) / 2 ^ j) buf =
    buf @ map (decimal_digit a j) [Suc i..<Suc (min (i + k) j)]"
proof (induction k arbitrary: i buf)
  case 0
  then show ?case by simp
next
  case (Suc k)
  have pos: "(0 :: rat) < of_nat (a * 10 ^ i mod 2 ^ j) / 2 ^ j \<longleftrightarrow> i < j"
    using pow2_dvd [OF a, of j i] by (simp add: zero_less_divide_iff dvd_eq_mod_eq_0) (metis not_le neq0_conv)
  show ?case
  proof (cases "i < j")
    case True
    note st = put_decimals_step [OF e j, of "a * 10 ^ i"]
    have t: "10 * (a * 10 ^ i) = a * 10 ^ Suc i" by simp
    have "put_decimals rnd (Suc k) (of_nat (a * 10 ^ i mod 2 ^ j) / 2 ^ j) buf =
        put_decimals rnd k (of_nat (a * 10 ^ Suc i mod 2 ^ j) / 2 ^ j) (buf @ [decimal_digit a j (Suc i)])"
      using pos True st unfolding t by (simp add: Let_def decimal_digit_def add.commute)
    also have "\<dots> = buf @ [decimal_digit a j (Suc i)] @ map (decimal_digit a j) [Suc (Suc i)..<Suc (min (Suc i + k) j)]"
      using Suc.IH [of "Suc i"] True by simp
    also have "\<dots> = buf @ map (decimal_digit a j) [Suc i..<Suc (min (i + Suc k) j)]"
    proof -
      have "Suc i < Suc (min (i + Suc k) j)" using True by simp
      then have "[Suc i..<Suc (min (i + Suc k) j)] = Suc i # [Suc (Suc i)..<Suc (min (i + Suc k) j)]" by (rule upt_conv_Cons)
      then show ?thesis by simp
    qed
    finally show ?thesis .
  next
    case False
    then have "i = j" using Suc.prems by simp
    then show ?thesis using pos by simp
  qed
qed

lemma decimal_digit_not_point: "decimal_digit a j i \<noteq> of_char (CHR ''.'')"
proof
  let ?d = "a * 10 ^ i div 2 ^ j mod 10"
  have "?d < 10" by simp
  then have "unat (decimal_digit a j i) = ?d + 48" by (simp add: decimal_digit_def unat_word_ariths unat_of_nat)
  moreover assume "decimal_digit a j i = of_char (CHR ''.'')"
  ultimately show False by simp
qed

text \<open>The integer part with its sign, as the two branches of the code write it.\<close>

lemma integer_part:
  assumes "p = a div q"
  shows "(if int p = 0 then buf @ bytes ''0'' else let ds = put_digits (int p) buf in swap_ends (length buf) (length ds - 1) ds)
    = buf @ decimal p"
proof (cases "p = 0")
  case True
  then show ?thesis by (simp add: decimal.simps [of 0] bytes_def)
next
  case False
  then show ?thesis using put_digits_decimal [of p buf] swap_ends_rev [of buf "rev (decimal p)" "[]"] by (simp add: Let_def)
qed

lemma exact_53_nat: "exact_53 rnd \<Longrightarrow> n < 2 ^ 53 \<Longrightarrow> rnd (of_nat n) = of_nat n"
  unfolding exact_53_def by (metis div_by_1 power_0)

text \<open>The part of \<^verbatim>\<open>double_to_string\<close> behind the sign.\<close>

lemma magnitude:
  assumes e: "exact_53 rnd" and a: "a < 2 ^ 53" and j: "j \<le> 50" and lt: "j = 0 \<or> odd a"
  shows "(let s = put_decimals rnd 6 (rnd (of_nat a / 2 ^ j - rnd (of_int (int (a div 2 ^ j))))) (ds @ bytes ''.'')
     in if last s = of_char (CHR ''.'') then s @ bytes ''0'' else s) =
    ds @ bytes ''.'' @ (if j = 0 then bytes ''0'' else map (decimal_digit a j) [1..<Suc (min 6 j)])"
proof -
  let ?N = "2 ^ j :: nat"
  have "a div ?N \<le> a" by simp
  then have p: "a div ?N < 2 ^ 53" using a by linarith
  have NN: "(2 :: rat) ^ j = of_nat ?N" by simp
  have "rnd (of_int (int (a div ?N))) = of_int (int (a div ?N))" using exact_53_nat [OF e p] by simp
  moreover have "of_nat a / 2 ^ j - of_int (int (a div ?N)) = (of_nat (a mod ?N) / 2 ^ j :: rat)"
    unfolding NN by (rule frac_nat_mod) simp
  moreover have "a mod ?N < 2 ^ 53" using a mod_less_eq_dividend [of a ?N] by linarith
  then have "rnd (of_nat (a mod ?N) / 2 ^ j) = of_nat (a mod ?N) / 2 ^ j" using e a unfolding exact_53_def by simp
  ultimately have f: "rnd (of_nat a / 2 ^ j - rnd (of_int (int (a div ?N)))) = of_nat (a mod ?N) / 2 ^ j" by simp
  show ?thesis
  proof (cases "j = 0")
    case True
    have "put_decimals rnd 6 0 b = b" for b by (simp add: numeral_eq_Suc)
    then show ?thesis unfolding f using True by (simp add: bytes_def)
  next
    case False
    then have "put_decimals rnd 6 (of_nat (a mod ?N) / 2 ^ j) (ds @ bytes ''.'') =
        (ds @ bytes ''.'') @ map (decimal_digit a j) [1..<Suc (min 6 j)]"
      using put_decimals_run [OF e _ j, of a 0 6] lt by simp
    moreover have "map (decimal_digit a j) [1..<Suc (min 6 j)] \<noteq> []" using False by simp
    moreover from this have "last (map (decimal_digit a j) [1..<Suc (min 6 j)]) \<in> set (map (decimal_digit a j) [1..<Suc (min 6 j)])"
      by (rule last_in_set)
    then have "last (map (decimal_digit a j) [1..<Suc (min 6 j)]) \<noteq> of_char (CHR ''.'')"
      using decimal_digit_not_point by fastforce
    ultimately show ?thesis unfolding f Let_def using False by simp
  qed
qed

section \<open>Property\<close>

lemma double_to_string_run:
  assumes "exact_53 rnd" "a < 2 ^ 53" "j \<le> 50" "j = 0 \<or> odd a" "negative \<longrightarrow> 0 < a"
  shows "\<exists>s. double_to_string rnd (if negative then - (of_nat a / 2 ^ j) else of_nat a / 2 ^ j) = Inr s
    \<and> s = (if negative then bytes ''-'' else []) @ decimal (a div 2 ^ j) @ bytes ''.''
        @ (if j = 0 then bytes ''0'' else map (decimal_digit a j) [1..<Suc (min 6 j)])
    \<and> length s < 64"
proof -
  let ?v = "of_nat a / 2 ^ j :: rat" and ?buf = "if negative then bytes ''-'' else []" and ?p = "a div 2 ^ j"
  let ?s = "?buf @ decimal ?p @ bytes ''.'' @ (if j = 0 then bytes ''0'' else map (decimal_digit a j) [1..<Suc (min 6 j)])"
  have p: "?p < 2 ^ 53"
  proof -
    have "?p \<le> a" by simp
    then show ?thesis using assms(2) by linarith
  qed
  have fl: "\<lfloor>?v\<rfloor> = int ?p" using floor_nat_div [of a "2 ^ j"] by simp
  have pos: "0 \<le> ?v" "?v = 0 \<longleftrightarrow> a = 0" "0 < ?v \<longleftrightarrow> 0 < a" by (simp_all add: zero_less_divide_iff)
  have sg: "(if (if negative then - ?v else ?v) < 0 then bytes ''-'' else []) = ?buf"
    "(if (if negative then - ?v else ?v) < 0 then - (if negative then - ?v else ?v) else (if negative then - ?v else ?v)) = ?v"
    using assms(5) pos by auto
  have "double_to_string rnd (if negative then - ?v else ?v) = Inr ?s"
  proof (cases "a = 0")
    case True
    then have "j = 0" "\<not> negative" using assms(4,5) by auto
    then show ?thesis using True by (simp add: double_to_string_def decimal.simps [of 0] bytes_def)
  next
    case False
    have "\<not> 2 ^ 63 \<le> int ?p" using p by simp
    then have "double_to_string rnd (if negative then - ?v else ?v) = Inr (let s = put_decimals rnd 6 (rnd (?v - rnd (of_int (int ?p))))
        ((if int ?p = 0 then ?buf @ bytes ''0'' else let ds = put_digits (int ?p) ?buf in swap_ends (length ?buf) (length ds - 1) ds) @ bytes ''.'')
        in if last s = of_char (CHR ''.'') then s @ bytes ''0'' else s)"
      using False pos(2) unfolding double_to_string_def Let_def sg fl by simp
    also have "\<dots> = Inr ?s"
      unfolding integer_part [OF refl] magnitude [OF assms(1-4)] by simp
    finally show ?thesis .
  qed
  moreover have "length ?s < 64"
  proof -
    have "length (decimal ?p) \<le> 16" by (rule length_decimal) (use p in simp_all)
    then show ?thesis by (auto simp: bytes_def)
  qed
  ultimately show ?thesis by blast
qed

text \<open>
  C29: \<^verbatim>\<open>kprintf\<close> prints a \<^verbatim>\<open>double\<close> in decimal.  For a value \<open>a / 2\<^sup>j\<close> in lowest terms with \<open>a\<close> below \<open>2\<^sup>5\<^sup>3\<close> and \<open>j\<close> at most 50, of either sign, \<^verbatim>\<open>double_to_string\<close>
  writes the sign, the integer part, a point and the decimals: one 0 for an integer, all \<open>j\<close> of them when \<open>j\<close> is at most 6, and
  otherwise the first six, cut off; the buffer of 64 bytes is enough.  Of the arithmetic it needs only that
  results which fit 53 bits are exact.  The conversion \<^verbatim>\<open>%f\<close> puts exactly these characters on the screen.
\<close>

theorem double_to_string_correct:
  assumes "exact_53 rnd" "a < 2 ^ 53" "j \<le> 50" "j = 0 \<or> odd a" "negative \<longrightarrow> 0 < a"
  defines "x \<equiv> if negative then - (of_nat a / 2 ^ j) else of_nat a / 2 ^ j"
  shows "\<exists>s. double_to_string rnd x = Inr s
    \<and> s = (if negative then bytes ''-'' else []) @ decimal (a div 2 ^ j) @ bytes ''.''
        @ (if j = 0 then bytes ''0'' else map (decimal_digit a j) [1..<Suc (min 6 j)])
    \<and> length s < 64
    \<and> (\<forall>v. kprintf_fp rnd ''%f'' [ADouble x] v = Inr ((print s v)\<lparr>color := 0x0F\<rparr>))"
proof -
  from double_to_string_run [OF assms(1-5)] show ?thesis by (auto simp: x_def kprintf_fp_def)
qed

theorem double_to_string_correct_witness: 
  "double_to_string (\<lambda>x. x) (- (of_nat 25 / 2 ^ 3)) = Inr (bytes ''-3.125'')
    \<and> (\<forall>v. kprintf ''%f'' [ADouble (- (of_nat 25 / 2 ^ 3))] v = Inr ((print (bytes ''-3.125'') v)\<lparr>color := 0x0F\<rparr>))"
proof -
  have e: "exact_53 (\<lambda>x. x)" by (simp add: exact_53_def)
  have "[1..<Suc (min 6 3)] = [1, 2, 3 :: nat]" by code_simp
  then have "map (decimal_digit 25 3) [1..<Suc (min 6 3)] = bytes ''125''"
    by (simp add: decimal_digit_def bytes_def)
  moreover have "decimal (25 div 2 ^ 3) = bytes ''3''" by (simp add: decimal.simps [of 3] bytes_def)
  ultimately show ?thesis using double_to_string_correct [OF e, of 25 3 True] by (simp add: bytes_def kprintf_def)
qed

end
