(* ===== verification/Paging_Test.thy ===== *)
theory Paging_Test
  imports Boot
begin

unbundle bit_operations_syntax

text \<open>
  The debugging report \<^verbatim>\<open>test_mapping\<close> of \<^verbatim>\<open>lib/paging_manager.c\<close> (its call in \<^verbatim>\<open>init_paging\<close> is commented out).  Its
  argument is the address of the function itself.
\<close>

definition test_mapping :: "u32 \<Rightarrow> unit kop" where
  "test_mapping test_virt =
     bnd (kprint (''=== MAPPING TEST ==='' @ [CHR 0x0A]) []) (\<lambda>_.
     bnd (gets kernel_page_dir) (\<lambda>dir.
     bnd (kprint (''Page dir physical: %x'' @ [CHR 0x0A]) [AInt (dir - 0xC0000000)]) (\<lambda>_.
     bnd (load32 (dir + 4 * 0)) (\<lambda>table0_phys.
     let table0 = (table0_phys AND NOT 0xFFF) + 0xC0000000 in
     bnd (load32 (table0 + 4 * 0)) (\<lambda>first.
     bnd (kprint (''Table0 first entry: %x'' @ [CHR 0x0A]) [AInt first]) (\<lambda>_.
     bnd (kprint (''Table0 should be: 0x3 (addr 0x0 + flags)'' @ [CHR 0x0A]) []) (\<lambda>_.
     bnd (load32 (dir + 4 * 768)) (\<lambda>table768_phys.
     let table768 = (table768_phys AND NOT 0xFFF) + 0xC0000000 in
     bnd (load32 (table768 + 4 * 0)) (\<lambda>first.
     bnd (kprint (''Table768 first entry: %x'' @ [CHR 0x0A]) [AInt first]) (\<lambda>_.
     bnd (kprint (''Table768 should map to physical 0x0'' @ [CHR 0x0A]) []) (\<lambda>_.
     let test_dir_idx = drop_bit 22 test_virt;
         test_tbl_idx = drop_bit 12 test_virt AND 0x3FF in
     bnd (load32 (dir + 4 * test_dir_idx)) (\<lambda>test_table_phys.
     let test_table = (test_table_phys AND NOT 0xFFF) + 0xC0000000 in
     bnd (kprint (''test_mapping() virt: %x'' @ [CHR 0x0A]) [AInt test_virt]) (\<lambda>_.
     bnd (kprint (''dir_index: %x table_index: %x'' @ [CHR 0x0A]) [AInt test_dir_idx, AInt test_tbl_idx]) (\<lambda>_.
     bnd (load32 (test_table + 4 * test_tbl_idx)) (\<lambda>page_entry.
     bnd (kprint (''page entry: %x'' @ [CHR 0x0A]) [AInt page_entry]) (\<lambda>_.
     bnd (kprint (''should be physical: %x'' @ [CHR 0x0A]) [AInt (test_virt - 0xC0000000)]) (\<lambda>_.
     bnd (load32 (table768 + 4 * 289)) (\<lambda>page_entry.
     bnd (kprint (''entry for 0xC0121000: %x'' @ [CHR 0x0A]) [AInt page_entry]) (\<lambda>_.
     kprint (''=== END TEST ==='' @ [CHR 0x0A]) [])))))))))))))))))))"

fun print_lines :: "(string \<times> karg list) list \<Rightarrow> unit kop" where
  "print_lines [] = ret ()"
| "print_lines ((line, args) # rest) = bnd (kprint (line @ [CHR 0x0A]) args) (\<lambda>_. print_lines rest)"

text \<open>Words of the first gigabyte in the state that \<^verbatim>\<open>init_paging\<close> leaves, with any console.\<close>

lemma boot_load:
  assumes wf: "wf_dir (mem t) (cr3 t)" and dm: "direct_map (mem t) (cr3 t)" and f: "f < 0x40000" "j < 1024"
  shows "load32 (addr_of_frame f + 0xC0000000 + 4 * of_nat j) (t\<lparr>console := v\<rparr>) = Inr (entry (mem t) (addr_of_frame f) j, t\<lparr>console := v\<rparr>)"
  unfolding high_slot entry_def
  using load_direct [of "t\<lparr>console := v\<rparr>" "slot (addr_of_frame f) j"] assms
  by (simp add: slot_aligned slot_frame page_aligned_addr_of_frame frame_low_unat frame_of_addr_of_frame)

lemma kprint_on: "fmt_ok cs args \<Longrightarrow> kprint cs args (t\<lparr>console := v\<rparr>) = Inr ((), t\<lparr>console := console_after cs args v\<rparr>)"
  by simp

lemma test_mapping_run:
  assumes b: "boot_ok s" and f: "0xC0000 \<le> frame_of self"
  shows "\<exists>s'. init_paging s = Inr ((), s') \<and> test_mapping self s' = print_lines
    [(''=== MAPPING TEST ==='', []), (''Page dir physical: %x'', [AInt (kernel_page_dir s - 0xC0000000)]),
     (''Table0 first entry: %x'', [AInt (mem s' 0)]), (''Table0 should be: 0x3 (addr 0x0 + flags)'', []),
     (''Table768 first entry: %x'', [AInt 0x103]), (''Table768 should map to physical 0x0'', []),
     (''test_mapping() virt: %x'', [AInt self]),
     (''dir_index: %x table_index: %x'', [AInt (drop_bit 22 self), AInt (drop_bit 12 self AND 0x3FF)]),
     (''page entry: %x'', [AInt (page_of (self - 0xC0000000) OR 0x103)]), (''should be physical: %x'', [AInt (self - 0xC0000000)]),
     (''entry for 0xC0121000: %x'', [AInt 0x121103]), (''=== END TEST ==='', [])] s'"
proof -
  from init_paging_run [OF b] obtain m v where
    t: "init_paging s = Inr ((), s\<lparr>mem := m, cr3 := kernel_page_dir s - 0xC0000000, cr0 := cr0 s OR 0x80000000,
      cr4 := cr4 s OR 0x80, console := v\<rparr>)" and e: "entered s 256 0x40000 m" by blast
  note L = kernel_layout [OF conjunct1 [OF b [unfolded boot_ok_def]]]
  let ?t = "s\<lparr>mem := m, cr3 := kernel_page_dir s - 0xC0000000, cr0 := cr0 s OR 0x80000000, cr4 := cr4 s OR 0x80\<rparr>"
  let ?K = "kframe s" and ?C = "0xC0000000 :: u32"
  let ?p = "frame_of self - 0xC0000"
  have p: "?p < 0x40000" "frame_of self = 786432 + ?p" using f frame_of_lt [of self] by auto
  have dv: "frame_of self div 1024 = 768 + ?p div 1024" "frame_of self mod 1024 = ?p mod 1024"
    using p(2) div_mult_self3 [of 1024 768 ?p] mod_mult_self3 [of 768 1024 ?p] by simp_all
  note wf = entered_wf(1) [OF e L(5)] and dm = entered_direct_map [OF e L(5)]
  have ld: "load32 (addr_of_frame g + ?C + 4 * of_nat j) (?t\<lparr>console := w\<rparr>) = Inr (entry m (addr_of_frame g) j, ?t\<lparr>console := w\<rparr>)"
    if "g < 0x40000" "j < 1024" for g j w
    using boot_load [of ?t g j w] wf dm that L(1) by simp
  have pde: "entry m (addr_of_frame ?K) (768 + i) = addr_of_frame (?K + 2 + i) OR PAGE_KERNEL" if "i < 256" for i
    using e that by (simp add: entered_def)
  have pte: "entry m (addr_of_frame (?K + 2 + q div 1024)) (q mod 1024) = addr_of_frame q OR PAGE_KERNEL OR PAGE_GLOBAL" if "q < 0x40000" for q
    using e that by (simp add: entered_def)
  have lo: "entry m (addr_of_frame ?K) 0 = 0" using e by (simp add: entered_def)
  have a0: "addr_of_frame 0 = 0" by (simp add: addr_of_frame_def)
  have kl: "?K < 0x40000" "?K + 2 + i < 0x40000" if "i < 256" for i using L(5) that by simp_all
  have d1: "load32 (kernel_page_dir s + 4 * 0) (?t\<lparr>console := w\<rparr>) = Inr (0, ?t\<lparr>console := w\<rparr>)" for w
    using ld [OF kl(1), of 0 0 w] lo L(1) by simp
  have d2: "load32 ((0 AND NOT 0xFFF) + ?C + 4 * 0) (?t\<lparr>console := w\<rparr>) = Inr (m 0, ?t\<lparr>console := w\<rparr>)" for w
    using ld [of 0 0 w] by (simp add: a0 entry_def slot_def)
  have d3: "load32 (kernel_page_dir s + 4 * 768) (?t\<lparr>console := w\<rparr>) = Inr (addr_of_frame (?K + 2) OR PAGE_KERNEL, ?t\<lparr>console := w\<rparr>)" for w
    using ld [OF kl(1), of 0 768 w] pde [of 0] L(1) by simp
  have m3: "(addr_of_frame q OR PAGE_KERNEL) AND NOT 0xFFF = addr_of_frame q" for q
    unfolding page_of_mask(2) by (rule kernel_flags(4) [OF page_aligned_addr_of_frame])
  have d4: "load32 (addr_of_frame (?K + 2) + ?C + 4 * 0) (?t\<lparr>console := w\<rparr>) = Inr (0x103, ?t\<lparr>console := w\<rparr>)" for w
    using ld [OF kl(2), of 0 0 w] pte [of 0] by (simp add: a0 PAGE_KERNEL_def PAGE_GLOBAL_def)
  have ix: "drop_bit 22 self = of_nat (768 + ?p div 1024)" "drop_bit 12 self AND 0x3FF = of_nat (?p mod 1024)"
    unfolding dir_index_nat table_index_nat dv by simp_all
  have ip: "?p div 1024 < 256" using p(1) by (simp add: less_mult_imp_div_less)
  have d5: "load32 (kernel_page_dir s + 4 * drop_bit 22 self) (?t\<lparr>console := w\<rparr>) =
      Inr (addr_of_frame (?K + 2 + ?p div 1024) OR PAGE_KERNEL, ?t\<lparr>console := w\<rparr>)" for w
    using ld [OF kl(1), of 0 "768 + ?p div 1024" w] pde [OF ip] ip L(1) unfolding ix by simp
  have ap: "addr_of_frame ?p = page_of (self - ?C)"
  proof -
    have "unat self = unat (self - ?C) + 0xC0000000" using f by (simp add: unat_sub word_le_nat_alt frame_of_def)
    then have "frame_of (self - ?C) = ?p" by (simp add: frame_of_def)
    then show ?thesis by (simp add: page_of_eq_addr_of_frame)
  qed
  have fl: "x OR PAGE_KERNEL OR PAGE_GLOBAL = x OR 0x103" for x by (simp add: PAGE_KERNEL_def PAGE_GLOBAL_def or.assoc)
  have d6: "load32 (addr_of_frame (?K + 2 + ?p div 1024) + ?C + 4 * (drop_bit 12 self AND 0x3FF)) (?t\<lparr>console := w\<rparr>) =
      Inr (page_of (self - ?C) OR 0x103, ?t\<lparr>console := w\<rparr>)" for w
    using ld [OF kl(2) [OF ip], of "?p mod 1024" w] pte [OF p(1)] unfolding ix ap fl by simp
  have d7: "load32 (addr_of_frame (?K + 2) + ?C + 4 * 289) (?t\<lparr>console := w\<rparr>) = Inr (0x121103, ?t\<lparr>console := w\<rparr>)" for w
    using ld [OF kl(2), of 0 289 w] pte [of 289] by (simp add: addr_of_frame_def PAGE_KERNEL_def PAGE_GLOBAL_def)
  have fm: "fmt_ok (''=== MAPPING TEST ==='' @ [CHR 0x0A]) []" "fmt_ok (''Page dir physical: %x'' @ [CHR 0x0A]) [AInt x]"
    "fmt_ok (''Table0 first entry: %x'' @ [CHR 0x0A]) [AInt x]" "fmt_ok (''Table0 should be: 0x3 (addr 0x0 + flags)'' @ [CHR 0x0A]) []"
    "fmt_ok (''Table768 first entry: %x'' @ [CHR 0x0A]) [AInt x]" "fmt_ok (''Table768 should map to physical 0x0'' @ [CHR 0x0A]) []"
    "fmt_ok (''test_mapping() virt: %x'' @ [CHR 0x0A]) [AInt x]" "fmt_ok (''dir_index: %x table_index: %x'' @ [CHR 0x0A]) [AInt x, AInt y]"
    "fmt_ok (''page entry: %x'' @ [CHR 0x0A]) [AInt x]" "fmt_ok (''should be physical: %x'' @ [CHR 0x0A]) [AInt x]"
    "fmt_ok (''entry for 0xC0121000: %x'' @ [CHR 0x0A]) [AInt x]" "fmt_ok (''=== END TEST ==='' @ [CHR 0x0A]) []" for x y by simp_all
  have g: "gets kernel_page_dir (?t\<lparr>console := w\<rparr>) = Inr (kernel_page_dir s, ?t\<lparr>console := w\<rparr>)" for w by simp
  note run = bnd_run sum.case prod.case ret_run g m3 d1 d2 d3 d4 d5 d6 d7 fm [THEN kprint_on]
  have "test_mapping self (?t\<lparr>console := v\<rparr>) = print_lines
    [(''=== MAPPING TEST ==='', []), (''Page dir physical: %x'', [AInt (kernel_page_dir s - ?C)]),
     (''Table0 first entry: %x'', [AInt (m 0)]), (''Table0 should be: 0x3 (addr 0x0 + flags)'', []),
     (''Table768 first entry: %x'', [AInt 0x103]), (''Table768 should map to physical 0x0'', []),
     (''test_mapping() virt: %x'', [AInt self]),
     (''dir_index: %x table_index: %x'', [AInt (drop_bit 22 self), AInt (drop_bit 12 self AND 0x3FF)]),
     (''page entry: %x'', [AInt (page_of (self - ?C) OR 0x103)]), (''should be physical: %x'', [AInt (self - ?C)]),
     (''entry for 0xC0121000: %x'', [AInt 0x121103]), (''=== END TEST ==='', [])] (?t\<lparr>console := v\<rparr>)"
    unfolding test_mapping_def Let_def print_lines.simps by (simp only: run)
  moreover have "?t\<lparr>console := v\<rparr> = s\<lparr>mem := m, cr3 := kernel_page_dir s - 0xC0000000, cr0 := cr0 s OR 0x80000000,
      cr4 := cr4 s OR 0x80, console := v\<rparr>" by simp
  ultimately show ?thesis using t by (intro exI [of _ "?t\<lparr>console := v\<rparr>"]) simp
qed

end
