(* ===== verification/Large_Domain.thy ===== *)
theory Large_Domain
  imports Kmalloc
begin

unbundle bit_operations_syntax

text \<open>
  The allocations of more than 4096 bytes (\<^verbatim>\<open>kmalloc_large\<close> and \<^verbatim>\<open>kfree_large\<close> of \<^verbatim>\<open>lib/heap_domain.c\<close>): what mapping and unmapping
  a run of pages does to the address spaces, the invariant \<^verbatim>\<open>heaps_ok\<close> of both halves of the heap, and the effect of each call on it.
\<close>

section \<open>Taking a page out of the address spaces\<close>

lemma vm_inv_subset:
  assumes "vm_inv A V s" "W \<subseteq> V"
  shows "vm_inv A W s"
proof -
  have "vm_ok A W (dir_of s) (mem s) (used s) (safe_frame s)"
    using vm_okD [OF vm_invD(4) [OF assms(1)]] assms(2) unfolding vm_ok_def by (simp add: subset_iff)
  then show ?thesis using assms(1) by (simp add: vm_inv_def)
qed

text \<open>A frame that no address space uses may be given back.\<close>

lemma vm_inv_release:
  assumes vm: "vm_inv A V s" and f: "safe_frame s \<le> f" "f < 0x40000" "\<And>d. d \<in> A \<Longrightarrow> f \<notin> own (mem s) (dir_of s d)"
    "\<And>q. q \<in> V \<Longrightarrow> ptrans (mem s) (dir_of s KDir) q \<noteq> Some f"
  shows "vm_inv A V (s\<lparr>bitmap := unmark_bit f (bitmap s)\<rparr>)" "used (s\<lparr>bitmap := unmark_bit f (bitmap s)\<rparr>) = used s - {f}"
    "vm_frame s (s\<lparr>bitmap := unmark_bit f (bitmap s)\<rparr>)"
proof -
  let ?s = "s\<lparr>bitmap := unmark_bit f (bitmap s)\<rparr>"
  show fr: "vm_frame s ?s"
    unfolding vm_frame_def by (rule exI [of _ "mem s"], rule exI [of _ "unmark_bit f (bitmap s)"], rule exI [of _ "used_frames s"]) simp
  show u: "used ?s = used s - {f}" using f(2) by (auto simp: used_def)
  note ok = vm_invD(4) [OF vm]
  have "dir_ok (mem s) (dir_of s) (used s - {f}) (safe_frame s) d" if "d \<in> A" for d
    using vm_okD(5) [OF ok that] f(3) [OF that] unfolding dir_ok_def own_def by blast
  moreover have "\<exists>g. page_ok A (dir_of s) (mem s) (used s - {f}) (safe_frame s) q g" if "q \<in> V" for q
    using vm_okD(7) [OF ok that] f(4) [OF that] unfolding page_ok_def by blast
  ultimately have "vm_ok A V (dir_of s) (mem s) (used s - {f}) (safe_frame s)" using ok unfolding vm_ok_def by blast
  moreover have "pmm_wf ?s"
    using vm_invD(1) [OF vm] f(1) vm_frame_simps(6) [OF fr] by (simp add: pmm_wf_def)
  ultimately show "vm_inv A V ?s" using u by (intro vm_inv_cong [OF fr vm]) simp_all
qed

text \<open>What clearing the entry of page \<open>p\<close> in directory \<open>d\<close> leaves.\<close>

definition unmapped :: "dir_id set \<Rightarrow> nat set \<Rightarrow> dir_id \<Rightarrow> nat \<Rightarrow> kstate \<Rightarrow> kstate \<Rightarrow> bool" where
  "unmapped A V d p s s' \<longleftrightarrow> vm_inv A V s' \<and> vm_frame s s'
     \<and> ptrans (mem s') (dir_of s d) p = None
     \<and> (\<forall>g\<in>A. \<forall>q<1048576. (g, q) \<noteq> (d, p) \<longrightarrow> ptrans (mem s') (dir_of s g) q = ptrans (mem s) (dir_of s g) q)
     \<and> (\<forall>g\<in>A. own (mem s') (dir_of s g) = own (mem s) (dir_of s g))
     \<and> (\<forall>a. frame_of a \<notin> own (mem s) (dir_of s d) \<longrightarrow> mem s' a = mem s a)"

lemma clear_pte:
  assumes vm: "vm_inv A V s" and d: "d \<in> A" and p: "p < 0xC0000" "p \<notin> V"
    and pres: "present (entry (mem s) (dir_of s d) (p div 1024))"
  shows "\<exists>s'. store32 (page_of (entry (mem s) (dir_of s d) (p div 1024)) + 0xC0000000 + 4 * of_nat (p mod 1024)) 0 s = Inr ((), s')
    \<and> unmapped A V d p s s' \<and> used s' = used s"
proof -
  let ?e = "entry (mem s) (dir_of s d) (p div 1024)"
  let ?m = "(mem s)(slot (page_of ?e) (p mod 1024) := 0)"
  have ut: "frame_of ?e \<in> utabs (mem s) (dir_of s d)" using pres p(1) by (auto simp: tabs_def)
  then have low: "frame_of (page_of ?e) < 0x40000" using vm_invD(11) [OF vm d] by (simp add: frame_of_page_of)
  have st: "store32 (page_of ?e + 0xC0000000 + 4 * of_nat (p mod 1024)) 0 s = Inr ((), s\<lparr>mem := ?m\<rparr>)"
    by (rule store_low [OF vm page_of_aligned low]) simp
  note w = vm_ok_set_pte [OF vm_invD(4) [OF vm] d p pres, where w = 0]
  have fr: "frame_of (slot (page_of ?e) (p mod 1024)) \<in> own (mem s) (dir_of s d)"
    using ut by (simp add: slot_frame page_of_aligned frame_of_page_of own_def)
  have inv: "vm_inv A V (s\<lparr>mem := ?m\<rparr>)"
    by (rule vm_inv_cong [OF vm_frame_mem vm]) (use w(1) vm_invD(1) [OF vm] in simp_all)
  have "ptrans ?m (dir_of s g) q = ptrans (mem s) (dir_of s g) q" if "g \<in> A" "q < 1048576" "(g, q) \<noteq> (d, p)" for g q
    using w(4,5) that by (cases "g = d") auto
  moreover have "own ?m (dir_of s g) = own (mem s) (dir_of s g)" if "g \<in> A" for g using w(2,6) that by (cases "g = d") auto
  moreover have "ptrans ?m (dir_of s d) p = None" using w(3) by (simp add: present_def)
  ultimately show ?thesis
    unfolding st unmapped_def using inv vm_frame_mem fr
    by (intro exI [of _ "s\<lparr>mem := ?m\<rparr>"]) auto
qed

lemma page_frame [simp]: "p < 1048576 \<Longrightarrow> frame_of (addr_of_frame p) = p"
  by (rule frame_of_addr_of_frame)

text \<open>Both branches of \<^verbatim>\<open>unmap_in\<close> for a mapped page: the frame stays, or it is given back first.\<close>

lemma unmap_in_run:
  assumes vm: "vm_inv A V s" and d: "d \<in> A" and p: "p < 0xC0000" "p \<notin> V" and f: "ptrans (mem s) (dir_of s d) p = Some f"
    and ff: "b \<Longrightarrow> safe_frame s \<le> f \<and> f < 0x40000 \<and> (\<forall>d\<in>A. f \<notin> own (mem s) (dir_of s d)) \<and> (\<forall>q\<in>V. ptrans (mem s) (dir_of s KDir) q \<noteq> Some f)"
  shows "\<exists>s'. unmap_in (dir_of s d + 0xC0000000) (addr_of_frame p) b s = Inr ((), s')
    \<and> unmapped A V d p s s' \<and> used s' = used s - (if b then {f} else {})"
proof -
  let ?e = "entry (mem s) (dir_of s d) (p div 1024)"
  let ?pte = "entry (mem s) (page_of ?e) (p mod 1024)"
  have pres: "present ?e" and pte: "present ?pte" "frame_of ?pte = f" using f by (auto simp: ptrans_def Let_def split: if_splits)
  have i: "p div 1024 < 1024" "p < 1048576" "p mod 1024 < 1024" using p(1) by auto
  have ld: "load32 (dir_of s d + 0xC0000000 + 4 * of_nat (p div 1024)) s = Inr (?e, s)" by (rule load_dir_entry [OF vm d i(1)])
  have ut: "frame_of ?e \<in> utabs (mem s) (dir_of s d)" using pres p(1) by (auto simp: tabs_def)
  have low: "unat (slot (page_of ?e) (p mod 1024)) < 0x40000000"
    using vm_invD(11) [OF vm d ut] by (intro frame_low_unat) (simp add: slot_frame page_of_aligned frame_of_page_of)
  have ld2: "load32 (page_of ?e + 0xC0000000 + 4 * of_nat (p mod 1024)) s = Inr (?pte, s)"
    unfolding high_slot entry_def
    by (intro load_direct vm_invD(6,7) [OF vm]) (use low in \<open>simp_all add: page_simps page_of_aligned entry_def\<close>)
  let ?t = "s\<lparr>bitmap := unmark_bit f (bitmap s)\<rparr>"
  have fp: "frame_of (page_of ?pte) = f" by (simp add: frame_of_page_of pte)
  have addr: "drop_bit 22 (addr_of_frame p) = (of_nat (p div 1024) :: u32)"
    "drop_bit 12 (addr_of_frame p) AND 0x3FF = (of_nat (p mod 1024) :: u32)"
    using dir_index_nat [of "addr_of_frame p"] table_index_nat [of "addr_of_frame p"] i(2) by simp_all
  show ?thesis
  proof (cases b)
    case False
    from clear_pte [OF vm d p pres] show ?thesis
      using False pres ld by (auto simp: unmap_in_def addr and_one_present page_of_mask present_def [symmetric] Let_def)
  next
    case True
    have f': "safe_frame s \<le> f" "f < 0x40000" "\<And>d. d \<in> A \<Longrightarrow> f \<notin> own (mem s) (dir_of s d)"
      "\<And>q. q \<in> V \<Longrightarrow> ptrans (mem s) (dir_of s KDir) q \<noteq> Some f" using ff [OF True] by auto
    note r = vm_inv_release [OF vm f']
    have "frame_of (page_of ?pte) < 524288" using f'(2) fp by simp
    from clear_frame_low [OF this, of s] obtain w where c: "clear_frame (page_of ?pte) s = Inr (w, ?t)" unfolding fp by blast
    have dt: "dir_of ?t = dir_of s" by (rule vm_frame_simps(1) [OF r(3)])
    from clear_pte [OF r(1) d p, unfolded dt] pres obtain s' where
      s': "store32 (page_of ?e + 0xC0000000 + 4 * of_nat (p mod 1024)) 0 ?t = Inr ((), s')" "unmapped A V d p ?t s'" "used s' = used ?t"
      by auto
    have "unmap_in (dir_of s d + 0xC0000000) (addr_of_frame p) b s = Inr ((), s')"
      using True pres ld2 c s'(1) by (simp add: unmap_in_def addr ld and_one_present page_of_mask present_def [symmetric] Let_def)
    moreover have "unmapped A V d p s s'"
      using s'(2) vm_frame_trans [OF r(3)] by (simp add: unmapped_def dt)
    ultimately show ?thesis using s'(3) r(2) True by auto
  qed
qed

text \<open>
  Pages \<open>P\<close> given back: they are in neither address space any more and the frames \<open>F\<close> behind them are free; every other page
  and the contents of all memory outside directories and tables are as before.
\<close>

definition released :: "nat set \<Rightarrow> nat set \<Rightarrow> nat set \<Rightarrow> kstate \<Rightarrow> kstate \<Rightarrow> bool" where
  "released V P F s s' \<longleftrightarrow> vm_inv UNIV (V - P) s' \<and> vm_frame s s' \<and> used s' = used s - F \<and> F \<subseteq> used s \<inter> {safe_frame s..<0x40000}
     \<and> card F = card P \<and> (\<forall>p\<in>P. ptrans (mem s') (dir_of s KDir) p = None \<and> ptrans (mem s') (dir_of s LDir) p = None)
     \<and> (\<forall>g. \<forall>q<1048576. q \<notin> P \<longrightarrow> ptrans (mem s') (dir_of s g) q = ptrans (mem s) (dir_of s g) q)
     \<and> (\<forall>a. (\<forall>d. frame_of a \<notin> own (mem s) (dir_of s d)) \<longrightarrow> mem s' a = mem s a)
     \<and> (\<forall>d. own (mem s') (dir_of s d) = own (mem s) (dir_of s d))"

lemma released_refl: "vm_inv UNIV V s \<Longrightarrow> released V {} {} s s"
  by (simp add: released_def)

lemma released_trans:
  assumes r: "released V P F s t" "released (V - P) Q G t u" and P: "finite P" "finite Q" "P \<inter> Q = {}" "P \<subseteq> {..<1048576}"
  shows "released V (P \<union> Q) (F \<union> G) s u"
proof -
  have fr: "vm_frame s t" using r(1) by (simp add: released_def)
  note dt = vm_frame_simps(1,6) [OF fr]
  have FG: "F \<inter> G = {}" "finite F" "finite G"
    using r by (auto simp: released_def intro: finite_subset)
  have "card (F \<union> G) = card (P \<union> Q)"
    using r FG P by (simp add: card_Un_disjoint released_def)
  moreover have "V - P - Q = V - (P \<union> Q)" by auto
  moreover have "ptrans (mem u) (dir_of s g) p = ptrans (mem t) (dir_of s g) p" if "p \<in> P" for g p
  proof -
    have "p < 1048576" "p \<notin> Q" using that P(3,4) by auto
    then show ?thesis using r(2) unfolding released_def dt by blast
  qed
  ultimately show ?thesis
    using r P(3,4) vm_frame_trans [OF fr] unfolding released_def dt by auto
qed

lemma released_peek:
  assumes vm: "vm_inv UNIV V s" and r: "released V P F s s'" and b: "frame_of b \<in> V - P"
  shows "peek load32 s' b = peek load32 s b"
proof -
  have bV: "frame_of b \<in> V" and fr: "vm_frame s s'" and vm': "vm_inv UNIV (V - P) s'" using r b by (auto simp: released_def)
  from data_addr [OF vm bV] obtain f where f: "ptrans (mem s) (dir_of s KDir) (frame_of b) = Some f"
    "translate (mem s) (cr3 s) b = Some (addr_of_frame f OR (b AND 0xFFF))" "f < 0x40000"
    "\<forall>d\<in>UNIV. f \<notin> own (mem s) (dir_of s d)" by blast
  from data_addr [OF vm' b] obtain f' where f': "ptrans (mem s') (dir_of s' KDir) (frame_of b) = Some f'"
    "translate (mem s') (cr3 s') b = Some (addr_of_frame f' OR (b AND 0xFFF))" by blast
  have "frame_of b < 1048576" by (simp add: frame_of_def less_mult_imp_div_less u32_bound)
  then have "f' = f" using r b f(1) f'(1) by (simp add: released_def vm_frame_simps(1) [OF fr])
  moreover have "mem s' (addr_of_frame f OR (b AND 0xFFF)) = mem s (addr_of_frame f OR (b AND 0xFFF))"
    using r f(3,4) by (simp add: released_def frame_of_data)
  ultimately show ?thesis using f(2) f'(2) by (simp add: peek_def load32_def)
qed

lemma large_dirs: "l_page_directory (large_dom s) = dir_of s LDir + 0xC0000000" "kernel_page_dir s = dir_of s KDir + 0xC0000000"
  by (simp_all add: dir_of_def)

lemma owner_large: "0x80000 \<le> p \<Longrightarrow> owner p = LDir"
  by (simp add: owner_def)

lemma large_unmap_page_run:
  assumes vm: "vm_inv UNIV V s" and p: "p \<in> V" "0x80000 \<le> p"
  shows "\<exists>s' f. large_unmap_page (addr_of_frame p) True s = Inr ((), s') \<and> released V {p} {f} s s'"
proof -
  from vm_okD(7) [OF vm_invD(4) [OF vm] p(1)] obtain f where
    f: "page_ok UNIV (dir_of s) (mem s) (used s) (safe_frame s) p f" by blast
  then have f1: "p < 0xC0000" "ptrans (mem s) (dir_of s KDir) p = Some f" "ptrans (mem s) (dir_of s LDir) p = Some f"
    "safe_frame s \<le> f" "f < 0x40000" "f \<in> used s" "\<And>d. f \<notin> own (mem s) (dir_of s d)"
    using owner_large [OF p(2)] by (auto simp: page_ok_def)
  have V: "vm_inv UNIV (V - {p}) s" by (rule vm_inv_subset [OF vm]) auto
  have nV: "p \<notin> V - {p}" by simp
  from unmap_in_run [OF V UNIV_I f1(1) nV f1(3), of False] obtain t where
    t: "unmap_in (dir_of s LDir + 0xC0000000) (addr_of_frame p) False s = Inr ((), t)"
      "unmapped UNIV (V - {p}) LDir p s t" "used t = used s" by auto
  have fr: "vm_frame s t" and vt: "vm_inv UNIV (V - {p}) t" using t(2) by (simp_all add: unmapped_def)
  note dt = vm_frame_simps [OF fr]
  have small: "p < 1048576" using f1(1) by simp
  have kt: "ptrans (mem t) (dir_of t KDir) q = ptrans (mem s) (dir_of s KDir) q" if "q < 1048576" for q
    using t(2) that by (simp add: unmapped_def dt)
  have inj: "ptrans (mem s) (dir_of s KDir) q \<noteq> Some f" if "q \<in> V" "q \<noteq> p" for q
    using vm_okD(8) [OF vm_invD(4) [OF vm] that(1) p(1) that(2)] f1(2) by simp
  have pV: "q < 1048576" if "q \<in> V" for q using vm_okD(7) [OF vm_invD(4) [OF vm] that] by (auto simp: page_ok_def)
  have ff: "safe_frame t \<le> f \<and> f < 0x40000 \<and> (\<forall>d\<in>UNIV. f \<notin> own (mem t) (dir_of t d))
      \<and> (\<forall>q\<in>V - {p}. ptrans (mem t) (dir_of t KDir) q \<noteq> Some f)"
    using f1(4,5,7) t(2) inj kt pV by (simp add: unmapped_def dt)
  have fk: "ptrans (mem t) (dir_of t KDir) p = Some f" using kt [OF small] f1(2) by simp
  from unmap_in_run [OF vt UNIV_I f1(1) nV fk, of True] ff obtain u where
    u: "unmap_in (dir_of t KDir + 0xC0000000) (addr_of_frame p) True t = Inr ((), u)"
      "unmapped UNIV (V - {p}) KDir p t u" "used u = used t - {f}" by auto
  have "large_unmap_page (addr_of_frame p) True s = Inr ((), u)"
    using t(1) u(1) by (simp add: large_unmap_page_def large_dirs dt)
  moreover have "released V {p} {f} s u"
    using t(2,3) u(2,3) f1(4-6) small vm_frame_trans [OF fr] unfolding released_def unmapped_def dt by simp
  ultimately show ?thesis by blast
qed

lemma unmap_pages_run:
  assumes vm: "vm_inv UNIV V s" and p: "{b + i..<b + i + k} \<subseteq> V" "0x80000 \<le> b"
  shows "\<exists>s' F. unmap_pages (addr_of_frame b) i k s = Inr ((), s') \<and> released V {b + i..<b + i + k} F s s'"
  using assms
proof (induction k arbitrary: i V s)
  case 0
  then show ?case using released_refl by auto
next
  case (Suc k)
  have pv: "b + i \<in> V" using Suc.prems(2) by auto
  have ad: "addr_of_frame b + of_nat i * 4096 = (addr_of_frame (b + i) :: u32)" by (simp add: addr_of_frame_def algebra_simps)
  from large_unmap_page_run [OF Suc.prems(1) pv] Suc.prems(3) obtain t f where
    t: "large_unmap_page (addr_of_frame (b + i)) True s = Inr ((), t)" "released V {b + i} {f} s t" by auto
  have "vm_inv UNIV (V - {b + i}) t" using t(2) by (simp add: released_def)
  moreover have "{b + (i + 1)..<b + (i + 1) + k} \<subseteq> V - {b + i}" using Suc.prems(2) by auto
  ultimately obtain u F where
    u: "unmap_pages (addr_of_frame b) (i + 1) k t = Inr ((), u)" "released (V - {b + i}) {b + (i + 1)..<b + (i + 1) + k} F t u"
    using Suc.IH [of "V - {b + i}" t "i + 1"] Suc.prems(3) by blast
  have "b + i < 1048576" using vm_okD(7) [OF vm_invD(4) [OF Suc.prems(1)] pv] by (auto simp: page_ok_def)
  then have "released V ({b + i} \<union> {b + (i + 1)..<b + (i + 1) + k}) ({f} \<union> F) s u"
    by (intro released_trans [OF t(2) u(2)]) auto
  moreover have "{b + i} \<union> {b + (i + 1)..<b + (i + 1) + k} = {b + i..<b + i + Suc k}" by auto
  moreover have "unmap_pages (addr_of_frame b) i (Suc k) s = Inr ((), u)" using t(1) u(1) by (simp add: ad)
  ultimately show ?case by auto
qed

section \<open>Mapping pages\<close>

definition new_span :: "nat set \<Rightarrow> nat set \<Rightarrow> nat set \<Rightarrow> kstate \<Rightarrow> kstate \<Rightarrow> bool" where
  "new_span V P N s s' \<longleftrightarrow> vm_inv UNIV (V \<union> P) s' \<and> vm_frame s s' \<and> used s' = used s \<union> N \<and> N \<subseteq> free_low s
     \<and> (\<forall>b. frame_of b \<in> V \<longrightarrow> peek load32 s' b = peek load32 s b)"

lemma free_low_grow: "vm_frame s s' \<Longrightarrow> used s' = used s \<union> N \<Longrightarrow> free_low s' = free_low s - N"
  by (auto simp: free_low_used vm_frame_simps)

lemma page_address: "addr_of_frame b + of_nat i * 4096 = (addr_of_frame (b + i) :: u32)"
  by (simp add: addr_of_frame_def algebra_simps)

lemma map_large_pages_run:
  assumes vm: "vm_inv UNIV V s" and b: "0x80000 \<le> b" "b + i + k \<le> 0xC0000" "{b + i..<b + i + k} \<inter> V = {}"
    and fr: "3 * k \<le> card (free_low s)"
  shows "\<exists>s' N. map_large_pages (addr_of_frame b) i k s = Inr (True, s') \<and> new_span V {b + i..<b + i + k} N s s' \<and> card N \<le> 3 * k"
  using assms
proof (induction k arbitrary: i V s)
  case 0
  then show ?case by (intro exI [of _ s] exI [of _ "{}"]) (simp add: new_span_def)
next
  case (Suc k)
  let ?va = "addr_of_frame (b + i)"
  have fv: "frame_of ?va = b + i" using Suc.prems(3) by simp
  have "b + i \<in> {b + i..<b + i + Suc k}" by simp
  then have "b + i \<notin> V" using Suc.prems(4) by blast
  then have "1024 \<le> frame_of ?va" "frame_of ?va < 0xC0000" "frame_of ?va \<notin> V" "owner (frame_of ?va) \<in> UNIV" "3 \<le> card (free_low s)"
    using Suc.prems(2,3,5) by (simp_all add: fv)
  from new_page [OF Suc.prems(1) this] owner_large [of "b + i"] Suc.prems(2) obtain f t u v N where
    f: "get_next_free_process_frame s = Inr (addr_of_frame f, t)" "addr_of_frame f \<noteq> 0"
    and u: "map_page (dir_of s LDir + 0xC0000000) ?va (addr_of_frame f) PAGE_KERNEL t = Inr ((), u)"
      "map_page (kernel_page_dir s) ?va (addr_of_frame f) PAGE_KERNEL u = Inr ((), v)"
    and v: "vm_inv UNIV (insert (b + i) V) v" "grown UNIV V N s v" "card N \<le> 3" and tu: "vm_frame s t" "vm_frame s u"
    unfolding fv by auto
  have fs: "vm_frame s v" "used v = used s \<union> N" "N \<subseteq> free_low s" using v(2) by (simp_all add: grown_def)
  have pk: "peek load32 v c = peek load32 s c" if "frame_of c \<in> V" for c
    by (rule grown_peek [OF Suc.prems(1) v(1,2) _ that]) blast
  note fl = free_low_grow [OF fs(1,2)]
  have "card (free_low v) = card (free_low s) - card N"
    unfolding fl by (rule card_Diff_subset [OF finite_subset [OF fs(3) finite_free_low] fs(3)])
  then have room: "3 * k \<le> card (free_low v)" using Suc.prems(5) v(3) by simp
  have sp: "{b + i..<b + i + Suc k} = insert (b + i) {b + (i + 1)..<b + (i + 1) + k}" by auto
  have dj: "{b + (i + 1)..<b + (i + 1) + k} \<inter> insert (b + i) V = {}" using Suc.prems(4) unfolding sp by auto
  have le: "b + (i + 1) + k \<le> 0xC0000" using Suc.prems(3) by simp
  from Suc.IH [OF v(1) Suc.prems(2) le dj room] obtain w M where
    w: "map_large_pages (addr_of_frame b) (i + 1) k v = Inr (True, w)"
      "new_span (insert (b + i) V) {b + (i + 1)..<b + (i + 1) + k} M v w" "card M \<le> 3 * k" by blast
  have "map_large_pages (addr_of_frame b) i (Suc k) s = Inr (True, w)"
    using f u w(1) by (simp add: page_address Let_def vm_frame_simps [OF tu(1)] vm_frame_simps [OF tu(2)] large_dirs(1) flip: large_dirs(2))
  moreover have "insert (b + i) V \<union> {b + (i + 1)..<b + (i + 1) + k} = V \<union> {b + i..<b + i + Suc k}" by auto
  then have "new_span V {b + i..<b + i + Suc k} (N \<union> M) s w"
    using w(2) fs pk fl vm_frame_trans [OF fs(1)] unfolding new_span_def by auto
  moreover have "card (N \<union> M) \<le> 3 * Suc k" using card_Un_le [of N M] v(3) w(3) by simp
  ultimately show ?case by blast
qed

section \<open>The invariant of the large domain\<close>

text \<open>
  \<open>L\<close>: the allocations in use, each the number of its first page and its number of pages; \<open>H\<close>: the slots of the free list, head
  first.  A slot keeps its first page mapped, with the next slot in its first word and its length in the second.
\<close>

definition pages_of :: "nat \<times> nat \<Rightarrow> nat set" where
  "pages_of x = {fst x..<fst x + snd x}"

definition large_pages :: "(nat \<times> nat) set \<Rightarrow> (nat \<times> nat) list \<Rightarrow> nat set" where
  "large_pages L H = (\<Union>x\<in>L. pages_of x) \<union> fst ` set H"

definition spans_ok :: "nat \<Rightarrow> (nat \<times> nat) set \<Rightarrow> (nat \<times> nat) list \<Rightarrow> bool" where
  "spans_ok e L H \<longleftrightarrow> distinct H \<and> L \<inter> set H = {} \<and> (\<forall>x\<in>L \<union> set H. 0 < snd x \<and> 0x80000 \<le> fst x \<and> fst x + snd x \<le> e)
     \<and> (\<forall>x\<in>L \<union> set H. \<forall>y\<in>L \<union> set H. x \<noteq> y \<longrightarrow> pages_of x \<inter> pages_of y = {})"

definition large_ok :: "nat set \<Rightarrow> (nat \<times> nat) set \<Rightarrow> (nat \<times> nat) list \<Rightarrow> kstate \<Rightarrow> bool" where
  "large_ok V L H s \<longleftrightarrow>
     (\<exists>e. l_next_virt_addr (large_dom s) = addr_of_frame e \<and> 0x80000 \<le> e \<and> e \<le> 0xC0000 \<and> spans_ok e L H)
     \<and> {p\<in>V. 0x80000 \<le> p} = large_pages L H
     \<and> (\<forall>(b, n)\<in>L. peek load32 s (addr_of_frame b) = of_nat n)
     \<and> flist (peek load32 s) (l_next_free_virt (large_dom s)) (map (\<lambda>x. addr_of_frame (fst x)) H)
     \<and> (\<forall>(b, n)\<in>set H. peek load32 s (addr_of_frame b + 4) = of_nat n)"

definition heaps_ok :: "nat set \<Rightarrow> (heap_id \<Rightarrow> u32 list) \<Rightarrow> (nat \<times> nat) set \<Rightarrow> (nat \<times> nat) list \<Rightarrow> kstate \<Rightarrow> bool" where
  "heaps_ok V fl L H s \<longleftrightarrow> heap_inv UNIV V fl s \<and> large_ok V L H s"

lemma in_large_region: "in_region h p \<Longrightarrow> p < 0x80000"
  using region_bounds by blast

text \<open>The size classes do not notice what happens above 2 GB.\<close>

lemma heap_inv_large_change:
  assumes inv: "heap_inv UNIV V fl s" and vm: "vm_inv UNIV V' s'" and h: "heaps s' = heaps s"
    and V: "{p\<in>V'. p < 0x80000} = {p\<in>V. p < 0x80000}"
    and pk: "\<And>b. b \<in> data_addrs V \<Longrightarrow> frame_of b < 0x80000 \<Longrightarrow> peek load32 s' b = peek load32 s b"
  shows "heap_inv UNIV V' fl s'"
proof -
  have "domain_ok V' s' g (fl g)" for g
  proof -
    note d = heap_invD(2) [OF inv UNIV_I, of g]
    have r: "p \<in> V' \<and> in_region g p \<longleftrightarrow> p \<in> V \<and> in_region g p" for p using V in_large_region [of g p] by auto
    then have "{p\<in>V'. in_region g p} = {p\<in>V. in_region g p}" "blocks V' g = blocks V g" by (auto simp: blocks_def)
    moreover have "peek load32 s' x = peek load32 s x" if "x \<in> set (fl g)" for x
    proof -
      have "x \<in> blocks V g" using domain_okD(8) [OF d] that by blast
      then show ?thesis using pk [OF blocks_addr] in_large_region by (auto simp: blocks_def)
    qed
    then have "flist (peek load32 s') (next_free_block (heaps s g)) (fl g)"
      using domain_okD(6) [OF d] flist_cong by blast
    ultimately show ?thesis using d by (simp add: domain_ok_def h)
  qed
  then show ?thesis using vm by (simp add: heap_inv_def)
qed

lemma vm_inv_large:
  assumes "l_page_directory d = l_page_directory (large_dom s)"
  shows "vm_inv A V (s\<lparr>large_dom := d\<rparr>) = vm_inv A V s"
proof -
  have "dir_of (s\<lparr>large_dom := d\<rparr>) = dir_of s" using assms by (auto simp: dir_of_def fun_eq_iff split: dir_id.split)
  moreover have "pmm_wf (s\<lparr>large_dom := d\<rparr>) = pmm_wf s" "layout_ok (s\<lparr>large_dom := d\<rparr>) = layout_ok s"
    "used (s\<lparr>large_dom := d\<rparr>) = used s" "safe_frame (s\<lparr>large_dom := d\<rparr>) = safe_frame s"
    by (simp_all add: pmm_wf_def layout_ok_def used_def safe_frame_def heap_start_def
      kernel_page_tables_base_def kernel_page_table_def)
  ultimately show ?thesis by (simp add: vm_inv_def)
qed

lemma peek_large [simp]: "peek load32 (s\<lparr>large_dom := d\<rparr>) = peek load32 s"
  by (rule peek_cong) simp_all

text \<open>The two words at the start of a page.\<close>

lemma unat_page_word: "b < 0xC0000 \<Longrightarrow> unat (addr_of_frame b + 4 :: u32) = b * 4096 + 4"
  by (simp add: unat_word_ariths unat_addr_of_frame)

lemma page_words:
  assumes "b < 0xC0000"
  shows "frame_of (addr_of_frame b + 4) = b" "word_aligned (addr_of_frame b)" "word_aligned (addr_of_frame b + 4)"
    "b \<in> V \<Longrightarrow> addr_of_frame b \<in> data_addrs V" "b \<in> V \<Longrightarrow> addr_of_frame b + 4 \<in> data_addrs V"
proof -
  show f: "frame_of (addr_of_frame b + 4) = b" using assms by (simp add: frame_of_def unat_page_word)
  show w: "word_aligned (addr_of_frame b)" using assms by (simp add: word_aligned_iff unat_addr_of_frame)
  have "b * 4096 + 4 = 4 * (b * 1024 + 1)" by simp
  then have "(4::nat) dvd b * 4096 + 4" by (metis dvd_triv_left)
  then show w4: "word_aligned (addr_of_frame b + 4)" using assms by (simp add: word_aligned_iff unat_page_word)
  show "b \<in> V \<Longrightarrow> addr_of_frame b \<in> data_addrs V" "b \<in> V \<Longrightarrow> addr_of_frame b + 4 \<in> data_addrs V"
    using assms f w w4 by (simp_all add: data_addrs_def)
qed

lemma page_words_neq:
  assumes "b < 0xC0000" "c < 0xC0000"
  shows "(addr_of_frame b :: u32) = addr_of_frame c \<longleftrightarrow> b = c" "(addr_of_frame b + 4 :: u32) \<noteq> addr_of_frame c"
    "(addr_of_frame b + 4 :: u32) = addr_of_frame c + 4 \<longleftrightarrow> b = c"
proof -
  show i: "(addr_of_frame b :: u32) = addr_of_frame c \<longleftrightarrow> b = c"
  proof
    assume "(addr_of_frame b :: u32) = addr_of_frame c"
    then have "frame_of (addr_of_frame b) = frame_of (addr_of_frame c)" by simp
    then show "b = c" using assms by simp
  qed simp
  show "(addr_of_frame b + 4 :: u32) = addr_of_frame c + 4 \<longleftrightarrow> b = c" using i by simp
  show "(addr_of_frame b + 4 :: u32) \<noteq> addr_of_frame c"
  proof
    assume "(addr_of_frame b + 4 :: u32) = addr_of_frame c"
    then have "unat (addr_of_frame b + 4 :: u32) = unat (addr_of_frame c :: u32)" by simp
    then have "b * 4096 + 4 = c * 4096" using assms unat_page_word [OF assms(1)] by (simp add: unat_addr_of_frame)
    then have "(b * 4096 + 4) mod 4096 = c * 4096 mod 4096" by (rule arg_cong)
    then show False by simp
  qed
qed

text \<open>A write to a data page leaves every address space as it was.\<close>

lemma store_data_ptrans:
  assumes vm: "vm_inv A V s" and a: "a \<in> data_addrs V" and st: "store32 a w s = Inr ((), t)" and d: "d \<in> A" "q < 1048576"
  shows "ptrans (mem t) (dir_of s d) q = ptrans (mem s) (dir_of s d) q"
proof -
  have "frame_of a \<in> V" using a by (simp add: data_addrs_def)
  from data_addr [OF vm this] obtain f where f: "translate (mem s) (cr3 s) a = Some (addr_of_frame f OR (a AND 0xFFF))"
    "safe_frame s \<le> f" "f < 0x40000" "\<forall>d\<in>A. f \<notin> own (mem s) (dir_of s d)" by blast
  let ?pa = "addr_of_frame f OR (a AND 0xFFF)"
  have fr: "frame_of ?pa = f" using f(3) by (simp add: frame_of_data)
  have "mem t = (mem s)(?pa := w)" using st f(1) by (auto simp: store32_def split: if_splits)
  then show ?thesis using vm_ok_data_write(2) [OF vm_invD(4) [OF vm] _ _ d, of ?pa w] f fr by simp
qed

lemma slot_writes:
  assumes vm: "vm_inv UNIV V s" and b: "b \<in> V" "b < 0xC0000"
  shows "\<exists>u v. store32 (addr_of_frame b) x s = Inr ((), u) \<and> store32 (addr_of_frame b + 4) y u = Inr ((), v) \<and> mem_only_ok UNIV V s v
    \<and> (\<forall>a\<in>data_addrs V. peek load32 v a = (if a = addr_of_frame b then x else if a = addr_of_frame b + 4 then y else peek load32 s a))
    \<and> (\<forall>q<1048576. ptrans (mem v) (dir_of s KDir) q = ptrans (mem s) (dir_of s KDir) q)"
proof -
  have ok: "mem_only_ok UNIV V s s" using vm by simp
  note w = page_words(4,5) [OF b(2) b(1)]
  from data.wr_peek [OF ok w(1), of x] obtain u where
    u: "store32 (addr_of_frame b) x s = Inr ((), u)" "vm_inv UNIV V u" "u\<lparr>mem := mem s\<rparr> = s"
      "\<And>a. a \<in> data_addrs V \<Longrightarrow> peek load32 u a = (if a = addr_of_frame b then x else peek load32 s a)" by blast
  from data.wr_peek [OF conjI [OF u(2,3)] w(2), of y] obtain v where
    v: "store32 (addr_of_frame b + 4) y u = Inr ((), v)" "mem_only_ok UNIV V s v"
      "\<And>a. a \<in> data_addrs V \<Longrightarrow> peek load32 v a = (if a = addr_of_frame b + 4 then y else peek load32 u a)" by blast
  have "dir_of u = dir_of s" by (rule vm_frame_simps(1) [OF vm_frame_mem_only [OF u(3)]])
  then have "ptrans (mem v) (dir_of s KDir) q = ptrans (mem s) (dir_of s KDir) q" if "q < 1048576" for q
    using store_data_ptrans [OF vm w(1) u(1) UNIV_I that, of KDir] store_data_ptrans [OF u(2) w(2) v(1) UNIV_I that, of KDir] by simp
  moreover have "peek load32 v a = (if a = addr_of_frame b then x else if a = addr_of_frame b + 4 then y else peek load32 s a)"
    if "a \<in> data_addrs V" for a using u(4) [OF that] v(3) [OF that] page_words_neq(2) [OF b(2) b(2)] by auto
  ultimately show ?thesis using u(1) v(1,2) by blast
qed

text \<open>What the invariant says of one allocation or slot.\<close>

lemma spansD:
  assumes sp: "spans_ok e L H" and x: "x \<in> L \<union> set H" and e: "e \<le> 0xC0000"
  shows "0 < snd x" "0x80000 \<le> fst x" "fst x + snd x \<le> e" "fst x < 0xC0000" "fst x \<in> pages_of x"
    "y \<in> L \<union> set H \<Longrightarrow> y \<noteq> x \<Longrightarrow> fst y \<notin> pages_of x" "y \<in> L \<union> set H \<Longrightarrow> y \<noteq> x \<Longrightarrow> fst y \<noteq> fst x"
proof -
  show b: "0 < snd x" "0x80000 \<le> fst x" "fst x + snd x \<le> e" using sp x unfolding spans_ok_def by blast+
  then show "fst x < 0xC0000" using e by simp
  show p: "fst x \<in> pages_of x" using b by (simp add: pages_of_def)
  show n: "fst y \<notin> pages_of x" if "y \<in> L \<union> set H" "y \<noteq> x" for y
  proof -
    have "0 < snd y" using sp that(1) unfolding spans_ok_def by blast
    then have "fst y \<in> pages_of y" by (simp add: pages_of_def)
    moreover have "pages_of y \<inter> pages_of x = {}" using sp x that unfolding spans_ok_def by blast
    ultimately show ?thesis by blast
  qed
  show "fst y \<noteq> fst x" if "y \<in> L \<union> set H" "y \<noteq> x" using n [OF that] p by auto
qed

lemma unat_pages: "n \<le> 0xC0000 \<Longrightarrow> unat (of_nat n :: u32) = n"
  by (simp add: unat_of_nat)

lemma large_pointer:
  assumes "0x80000 \<le> b" "b < 0xC0000"
  shows "kfree_heap (addr_of_frame b + 4) = kfree_large (addr_of_frame b + 4)" "addr_of_frame b + 4 \<noteq> (0 :: u32)"
proof -
  have u: "unat (addr_of_frame b + 4 :: u32) = b * 4096 + 4" by (rule unat_page_word [OF assms(2)])
  then show "addr_of_frame b + 4 \<noteq> (0 :: u32)" by (metis unat_0 add_is_0 zero_neq_numeral)
  show "kfree_heap (addr_of_frame b + 4) = kfree_large (addr_of_frame b + 4)"
    using assms by (simp add: kfree_heap_def word_le_nat_alt word_less_nat_alt u not_less)
qed

lemma large_okD:
  assumes "large_ok V L H s"
  obtains e where "l_next_virt_addr (large_dom s) = addr_of_frame e" "0x80000 \<le> e" "e \<le> 0xC0000" "spans_ok e L H"
  using assms by (auto simp: large_ok_def)

lemma large_okD2:
  assumes "large_ok V L H s"
  shows "{p\<in>V. 0x80000 \<le> p} = large_pages L H" "(b, n) \<in> L \<Longrightarrow> peek load32 s (addr_of_frame b) = of_nat n"
    "flist (peek load32 s) (l_next_free_virt (large_dom s)) (map (\<lambda>x. addr_of_frame (fst x)) H)"
    "(b, n) \<in> set H \<Longrightarrow> peek load32 s (addr_of_frame b + 4) = of_nat n"
  using assms by (auto simp: large_ok_def)

lemma large_page_mapped:
  assumes "large_ok V L H s"
  shows "x \<in> L \<union> set H \<Longrightarrow> fst x \<in> V" "x \<in> L \<Longrightarrow> pages_of x \<subseteq> V"
proof -
  from assms obtain e where e: "e \<le> 0xC0000" "spans_ok e L H" by (rule large_okD)
  have sub: "large_pages L H \<subseteq> V" using large_okD2(1) [OF assms] by blast
  then show "fst x \<in> V" if "x \<in> L \<union> set H" using spansD(5) [OF e(2) that e(1)] that by (auto simp: large_pages_def)
  show "pages_of x \<subseteq> V" if "x \<in> L" using sub that by (auto simp: large_pages_def)
qed

lemma slots_cong:
  assumes "\<And>y. y \<in> set H \<Longrightarrow> m (addr_of_frame (fst y)) = m' (addr_of_frame (fst y))"
  shows "flist m p (map (\<lambda>x. addr_of_frame (fst x)) H) = flist m' p (map (\<lambda>x. addr_of_frame (fst x)) H)"
  using assms by (intro flist_cong) auto

text \<open>The invariant in a state where the words that it reads are known.\<close>

lemma large_okI:
  assumes e: "l_next_virt_addr (large_dom s) = addr_of_frame e" "0x80000 \<le> e" "e \<le> 0xC0000" "spans_ok e L H"
    and V: "{p\<in>V. 0x80000 \<le> p} = large_pages L H"
    and L: "\<And>b n. (b, n) \<in> L \<Longrightarrow> peek load32 s (addr_of_frame b) = of_nat n"
    and H: "flist (peek load32 s) (l_next_free_virt (large_dom s)) (map (\<lambda>x. addr_of_frame (fst x)) H)"
      "\<And>b n. (b, n) \<in> set H \<Longrightarrow> peek load32 s (addr_of_frame b + 4) = of_nat n"
  shows "large_ok V L H s"
  using assms unfolding large_ok_def by blast

lemma free_large_pages:
  assumes sp: "spans_ok e L H" and x: "(b, n) \<in> L" and e: "e \<le> 0xC0000"
  shows "large_pages L H - {b + 1..<b + n} = large_pages (L - {(b, n)}) ((b, n) # H)"
proof -
  have xi: "(b, n) \<in> L \<union> set H" using x by simp
  have b: "0 < n" using spansD(1) [OF sp xi e] by simp
  then have pg: "pages_of (b, n) - {b + 1..<b + n} = {b}" by (auto simp: pages_of_def)
  have dj: "pages_of y \<inter> {b + 1..<b + n} = {}" if y: "y \<in> L" "y \<noteq> (b, n)" for y
  proof -
    have "pages_of y \<inter> pages_of (b, n) = {}" using sp y xi unfolding spans_ok_def by blast
    moreover have "{b + 1..<b + n} \<subseteq> pages_of (b, n)" by (auto simp: pages_of_def)
    ultimately show ?thesis by blast
  qed
  have hd: "fst y \<notin> {b + 1..<b + n}" if "y \<in> set H" for y
  proof -
    have "y \<noteq> (b, n)" using that sp x by (auto simp: spans_ok_def)
    then have "fst y \<notin> pages_of (b, n)" using spansD(6) [OF sp xi e, of y] that by auto
    then show ?thesis by (auto simp: pages_of_def)
  qed
  have "(\<Union>x\<in>L. pages_of x) - {b + 1..<b + n} = (\<Union>x\<in>L - {(b, n)}. pages_of x) \<union> {b}"
    using pg x dj by blast
  then show ?thesis unfolding large_pages_def using hd by auto
qed

lemma free_spans:
  assumes "spans_ok e L H" "(b, n) \<in> L"
  shows "spans_ok e (L - {(b, n)}) ((b, n) # H)"
proof -
  have "L - {(b, n)} \<union> set ((b, n) # H) = L \<union> set H" using assms(2) by auto
  then show ?thesis using assms by (auto simp: spans_ok_def)
qed

lemma heaps_okD:
  assumes "heaps_ok V fl L H s"
  shows "heap_inv UNIV V fl s" "large_ok V L H s" "vm_inv UNIV V s"
  using assms heap_invD(1) by (auto simp: heaps_ok_def)

lemma kfree_large_run:
  assumes inv: "heaps_ok V fl L H s" and x: "(b, n) \<in> L"
  shows "\<exists>s' F. kfree (addr_of_frame b + 4) s = Inr (0, s')
    \<and> heaps_ok (V - {b + 1..<b + n}) fl (L - {(b, n)}) ((b, n) # H) s'
    \<and> F \<subseteq> used s \<inter> {safe_frame s..<0x40000} \<and> card F = n - 1 \<and> used s' = used s - F \<and> safe_frame s' = safe_frame s
    \<and> l_next_virt_addr (large_dom s') = l_next_virt_addr (large_dom s)
    \<and> (\<forall>p\<in>{b + 1..<b + n}. ptrans (mem s') (dir_of s' KDir) p = None)
    \<and> (\<forall>a\<in>data_addrs (V - pages_of (b, n)). peek load32 s' a = peek load32 s a)"
proof -
  note I = heaps_okD [OF inv]
  from I(2) obtain e where e: "l_next_virt_addr (large_dom s) = addr_of_frame e" "0x80000 \<le> e" "e \<le> 0xC0000" "spans_ok e L H"
    by (rule large_okD)
  have xi: "(b, n) \<in> L \<union> set H" using x by simp
  note S = spansD [OF e(4) xi e(3)]
  have b: "0 < n" "0x80000 \<le> b" "b + n \<le> 0xC0000" "b < 0xC0000" using S(1-4) e(3) by simp_all
  have bV: "b \<in> V" and pV: "pages_of (b, n) \<subseteq> V" using large_page_mapped(1) [OF I(2) xi] large_page_mapped(2) [OF I(2) x] by simp_all
  have ok: "mem_only_ok UNIV V s s" using I(3) by simp
  have hdr: "load32 (addr_of_frame b) s = Inr (of_nat n, s)"
    using data.rd_peek [OF ok page_words(4) [OF b(4) bV]] large_okD2(2) [OF I(2) x] by simp
  let ?P = "{b + 1..<b + n}"
  have un: "unat (of_nat n :: u32) = n" using b by (intro unat_pages) simp
  have "{b + 1..<b + 1 + (n - 1)} \<subseteq> V" using pV b(1) by (auto simp: pages_of_def)
  from unmap_pages_run [OF I(3) this b(2)] b(1) obtain t F where
    t: "unmap_pages (addr_of_frame b) 1 (n - 1) s = Inr ((), t)" "released V ?P F s t" by auto
  have ft: "vm_frame s t" and vt: "vm_inv UNIV (V - ?P) t" using t(2) by (simp_all add: released_def)
  note dt = vm_frame_simps [OF ft]
  have bV': "b \<in> V - ?P" using bV by simp
  let ?head = "l_next_free_virt (large_dom s)"
  from slot_writes [OF vt bV' b(4)] obtain u v where
    u: "store32 (addr_of_frame b) ?head t = Inr ((), u)" "store32 (addr_of_frame b + 4) (of_nat n) u = Inr ((), v)"
    and v: "vm_inv UNIV (V - ?P) v" "v\<lparr>mem := mem t\<rparr> = t"
      "\<And>a. a \<in> data_addrs (V - ?P) \<Longrightarrow> peek load32 v a =
         (if a = addr_of_frame b then ?head else if a = addr_of_frame b + 4 then of_nat n else peek load32 t a)"
      "\<And>q. q < 1048576 \<Longrightarrow> ptrans (mem v) (dir_of t KDir) q = ptrans (mem t) (dir_of t KDir) q" by blast
  note vt' = mem_only_frame [OF v(2)]
  have fv: "vm_frame s v" using vm_frame_trans [OF ft] vm_frame_mem [of t "mem v"] vt' by metis
  note dv = vm_frame_simps [OF fv]
  let ?s' = "v\<lparr>large_dom := (large_dom v)\<lparr>l_next_free_virt := addr_of_frame b\<rparr>\<rparr>"
  have pk: "peek load32 ?s' a = (if a = addr_of_frame b then ?head else if a = addr_of_frame b + 4 then of_nat n else peek load32 s a)"
    if "a \<in> data_addrs (V - ?P)" for a
  proof -
    have "frame_of a \<in> V - ?P" using that by (simp add: data_addrs_def)
    then show ?thesis using v(3) [OF that] released_peek [OF I(3) t(2)] by simp
  qed
  have run: "kfree (addr_of_frame b + 4) s = Inr (0, ?s')"
    using hdr t(1) u dt(4) large_pointer [OF b(2,4)]
    by (simp add: kfree_def kfree_large_def un set_large_def Let_def)
  have outside: "peek load32 ?s' a = peek load32 s a" if "a \<in> data_addrs V" "frame_of a \<notin> pages_of (b, n)" for a
  proof -
    have "frame_of a \<noteq> b" "a \<in> data_addrs (V - ?P)" using that b(1) by (auto simp: data_addrs_def pages_of_def)
    then show ?thesis using pk [of a] page_words(1) [OF b(4)] b(4) by auto
  qed
  have vs: "vm_inv UNIV (V - ?P) ?s'" using v(1) by (subst vm_inv_large) simp_all
  have "heap_inv UNIV (V - ?P) fl ?s'"
  proof (rule heap_inv_large_change [OF I(1) vs])
    show "heaps ?s' = heaps s" using dv(3) by simp
    show "{p \<in> V - ?P. p < 0x80000} = {p \<in> V. p < 0x80000}" using b(2) by auto
  next
    fix a assume a: "a \<in> data_addrs V" "frame_of a < 0x80000"
    then have "frame_of a \<notin> pages_of (b, n)" using b(2) by (auto simp: pages_of_def)
    then show "peek load32 ?s' a = peek load32 s a" by (rule outside [OF a(1)])
  qed
  moreover have "large_ok (V - ?P) (L - {(b, n)}) ((b, n) # H) ?s'"
  proof (rule large_okI)
    show "l_next_virt_addr (large_dom ?s') = addr_of_frame e" using e(1) dv(4) by simp
    show "0x80000 \<le> e" "e \<le> 0xC0000" "spans_ok e (L - {(b, n)}) ((b, n) # H)" by (rule e(2,3) free_spans [OF e(4) x])+
    show "{p \<in> V - ?P. 0x80000 \<le> p} = large_pages (L - {(b, n)}) ((b, n) # H)"
      using large_okD2(1) [OF I(2)] free_large_pages [OF e(4) x e(3)] by auto
  next
    fix c m assume c: "(c, m) \<in> L - {(b, n)}"
    then have cx: "(c, m) \<in> L \<union> set H" "(c, m) \<noteq> (b, n)" by auto
    have "c < 0xC0000" "c \<in> V" using spansD(4) [OF e(4) cx(1) e(3)] large_page_mapped(1) [OF I(2) cx(1)] by simp_all
    then show "peek load32 ?s' (addr_of_frame c) = of_nat m"
      using outside [OF page_words(4)] S(6) [OF cx] large_okD2(2) [OF I(2)] c by simp
  next
    have "peek load32 ?s' (addr_of_frame (fst y)) = peek load32 s (addr_of_frame (fst y))" if y: "y \<in> set H" for y
    proof -
      have yx: "y \<in> L \<union> set H" "y \<noteq> (b, n)" using y x e(4) by (auto simp: spans_ok_def)
      have "fst y < 0xC0000" "fst y \<in> V" using spansD(4) [OF e(4) yx(1) e(3)] large_page_mapped(1) [OF I(2) yx(1)] by simp_all
      then show ?thesis using outside [OF page_words(4)] S(6) [OF yx] by simp
    qed
    then have "flist (peek load32 ?s') ?head (map (\<lambda>x. addr_of_frame (fst x)) H)"
      using large_okD2(3) [OF I(2)] slots_cong [of H "peek load32 ?s'" "peek load32 s"] by blast
    moreover have "addr_of_frame b \<noteq> (0 :: u32)" using b by (intro addr_of_frame_nonzero) simp_all
    moreover have "peek load32 ?s' (addr_of_frame b) = ?head" using pk [OF page_words(4) [OF b(4) bV']] by simp
    ultimately show "flist (peek load32 ?s') (l_next_free_virt (large_dom ?s')) (map (\<lambda>x. addr_of_frame (fst x)) ((b, n) # H))" by simp
  next
    fix c m assume c: "(c, m) \<in> set ((b, n) # H)"
    show "peek load32 ?s' (addr_of_frame c + 4) = of_nat m"
    proof (cases "(c, m) = (b, n)")
      case True
      then show ?thesis using pk [OF page_words(5) [OF b(4) bV']] page_words_neq(2) [OF b(4) b(4)] by simp
    next
      case False
      then have cx: "(c, m) \<in> L \<union> set H" "(c, m) \<noteq> (b, n)" "(c, m) \<in> set H" using c by auto
      have cb: "c < 0xC0000" "c \<in> V" using spansD(4) [OF e(4) cx(1) e(3)] large_page_mapped(1) [OF I(2) cx(1)] by simp_all
      then show ?thesis
        using outside [OF page_words(5) [OF cb]] page_words(1) [OF cb(1)] S(6) [OF cx(1,2)] large_okD2(4) [OF I(2) cx(3)] by simp
    qed
  qed
  ultimately have "heaps_ok (V - ?P) fl (L - {(b, n)}) ((b, n) # H) ?s'" by (simp add: heaps_ok_def)
  moreover have us: "used ?s' = used s - F"
  proof -
    have "used ?s' = used v" by (simp add: used_def)
    also have "\<dots> = used t" by (subst vt') (simp add: used_def)
    finally show ?thesis using t(2) by (simp add: released_def)
  qed
  moreover have "safe_frame ?s' = safe_frame s"
    using dv(6) by (simp add: safe_frame_def heap_start_def kernel_page_tables_base_def kernel_page_table_def)
  moreover have "ptrans (mem ?s') (dir_of ?s' KDir) p = None" if "p \<in> ?P" for p
  proof -
    have "dir_of ?s' KDir = dir_of s KDir" using dv(5) by (simp add: dir_of_def)
    moreover have "p < 1048576" using that b(3) by simp
    ultimately show ?thesis using v(4) [of p] t(2) that by (simp add: dt(1) released_def)
  qed
  moreover have "\<forall>a\<in>data_addrs (V - pages_of (b, n)). peek load32 ?s' a = peek load32 s a"
    using outside by (auto simp: data_addrs_def)
  moreover have "l_next_virt_addr (large_dom ?s') = l_next_virt_addr (large_dom s)" using dv(4) by simp
  ultimately show ?thesis using run t(2) b(1) by (intro exI [of _ ?s'] exI [of _ F]) (simp add: released_def)
qed

section \<open>Allocation\<close>

lemma spans_insertD:
  assumes sp: "spans_ok e (insert x L) H" and x: "x \<notin> L"
  shows "x \<notin> set H" "spans_ok e L H" "pages_of x \<inter> large_pages L H = {}"
proof -
  show n: "x \<notin> set H" using sp by (auto simp: spans_ok_def)
  show "spans_ok e L H" using sp unfolding spans_ok_def by blast
  have "pages_of x \<inter> pages_of y = {} \<and> (y \<in> set H \<longrightarrow> fst y \<notin> pages_of x)" if y: "y \<in> L \<union> set H" for y
  proof -
    have "y \<noteq> x" using y x n by auto
    then have dj: "pages_of x \<inter> pages_of y = {}" using sp y unfolding spans_ok_def by blast
    have "0 < snd y" using sp y unfolding spans_ok_def by blast
    then have "fst y \<in> pages_of y" by (simp add: pages_of_def)
    then show ?thesis using dj by blast
  qed
  then show "pages_of x \<inter> large_pages L H = {}" unfolding large_pages_def by blast
qed

text \<open>Once the address range is chosen: the pages and the header.\<close>

lemma large_commit:
  assumes inv: "heaps_ok V fl L H s" and e: "l_next_virt_addr (large_dom s) = addr_of_frame e" "e \<le> 0xC0000"
    and sp: "spans_ok e (insert (b, k) L) H" "(b, k) \<notin> L" and fr: "3 * k \<le> card (free_low s)"
  shows "\<exists>s' N. bnd (map_large_pages (addr_of_frame b) 0 k) (\<lambda>complete.
      if complete then bnd (store32 (addr_of_frame b) (of_nat k)) (\<lambda>_. ret (addr_of_frame b + 4)) else ret 0) s = Inr (addr_of_frame b + 4, s')
    \<and> heaps_ok (V \<union> pages_of (b, k)) fl (insert (b, k) L) H s' \<and> used s' = used s \<union> N \<and> N \<subseteq> free_low s \<and> card N \<le> 3 * k
    \<and> (\<forall>a\<in>data_addrs V. peek load32 s' a = peek load32 s a) \<and> safe_frame s' = safe_frame s \<and> large_dom s' = large_dom s
    \<and> console s' = console s"
proof -
  note I = heaps_okD [OF inv] and X = spans_insertD [OF sp]
  have xi: "(b, k) \<in> insert (b, k) L \<union> set H" by simp
  note S = spansD [OF sp(1) xi e(2)]
  have b: "0 < k" "0x80000 \<le> b" "b + k \<le> 0xC0000" "b < 0xC0000" using S(1-4) e(2) by simp_all
  have lp: "{p\<in>V. 0x80000 \<le> p} = large_pages L H" by (rule large_okD2(1) [OF I(2)])
  have dj: "pages_of (b, k) \<inter> V = {}"
  proof -
    have "\<forall>p\<in>pages_of (b, k). 0x80000 \<le> p" using b(2) by (simp add: pages_of_def)
    then show ?thesis using X(3) lp by blast
  qed
  then have "{b + 0..<b + 0 + k} \<inter> V = {}" "b + 0 + k \<le> 0xC0000" using b(3) by (simp_all add: pages_of_def)
  from map_large_pages_run [OF I(3) b(2) this(2,1) fr] obtain t N where
    t: "map_large_pages (addr_of_frame b) 0 k s = Inr (True, t)" "new_span V (pages_of (b, k)) N s t" "card N \<le> 3 * k"
    by (auto simp: pages_of_def)
  let ?V = "V \<union> pages_of (b, k)"
  have vt: "vm_inv UNIV ?V t" and ft: "vm_frame s t" and pt: "\<And>a. frame_of a \<in> V \<Longrightarrow> peek load32 t a = peek load32 s a"
    using t(2) by (auto simp: new_span_def)
  have bV: "b \<in> ?V" "b \<notin> V" using dj S(5) by auto
  have ok: "mem_only_ok UNIV ?V t t" using vt by simp
  from data.wr_peek [OF ok page_words(4) [OF b(4) bV(1)], of "of_nat k"] obtain u where
    u: "store32 (addr_of_frame b) (of_nat k) t = Inr ((), u)" "vm_inv UNIV ?V u" "u\<lparr>mem := mem t\<rparr> = t"
      "\<And>a. a \<in> data_addrs ?V \<Longrightarrow> peek load32 u a = (if a = addr_of_frame b then of_nat k else peek load32 t a)" by blast
  note ut = mem_only_frame [OF u(3)]
  have fu: "vm_frame s u" using vm_frame_trans [OF ft] vm_frame_mem [of t "mem u"] ut by metis
  note du = vm_frame_simps [OF fu]
  have out: "peek load32 u a = peek load32 s a" if "a \<in> data_addrs V" for a
  proof -
    have "frame_of a \<in> V" "a \<in> data_addrs ?V" using that by (auto simp: data_addrs_def)
    moreover from this bV b(4) have "a \<noteq> addr_of_frame b" by auto
    ultimately show ?thesis using u(4) pt by simp
  qed
  have hi: "heap_inv UNIV ?V fl u"
  proof (rule heap_inv_large_change [OF I(1) u(2) du(3)])
    show "{p \<in> ?V. p < 0x80000} = {p \<in> V. p < 0x80000}" using b(2) by (auto simp: pages_of_def)
  qed (rule out)
  have lo: "large_ok ?V (insert (b, k) L) H u"
  proof (rule large_okI)
    show "l_next_virt_addr (large_dom u) = addr_of_frame e" "0x80000 \<le> e" using e(1) du(4) S(2,3) by simp_all
    show "e \<le> 0xC0000" "spans_ok e (insert (b, k) L) H" by (fact e(2), fact sp(1))
    show "{p \<in> ?V. 0x80000 \<le> p} = large_pages (insert (b, k) L) H"
    proof -
      have "{p \<in> ?V. 0x80000 \<le> p} = {p\<in>V. 0x80000 \<le> p} \<union> pages_of (b, k)" using b(2) by (auto simp: pages_of_def)
      then show ?thesis unfolding lp by (auto simp: large_pages_def)
    qed
  next
    fix c m assume c: "(c, m) \<in> insert (b, k) L"
    show "peek load32 u (addr_of_frame c) = of_nat m"
    proof (cases "(c, m) = (b, k)")
      case True
      then show ?thesis using u(4) [OF page_words(4) [OF b(4) bV(1)]] by simp
    next
      case False
      then have cL: "(c, m) \<in> L" using c by auto
      then have "c \<in> V" using large_page_mapped(1) [OF I(2), of "(c, m)"] by simp
      moreover have "c < 0xC0000" using spansD(4) [OF sp(1) _ e(2), of "(c, m)"] cL by simp
      ultimately show ?thesis using out [OF page_words(4)] large_okD2(2) [OF I(2) cL] by simp
    qed
  next
    have m: "fst y < 0xC0000" "fst y \<in> V" if "y \<in> set H" for y
      using spansD(4) [OF X(2) _ e(2), of y] large_page_mapped(1) [OF I(2), of y] that by simp_all
    have "peek load32 u (addr_of_frame (fst y)) = peek load32 s (addr_of_frame (fst y))" if "y \<in> set H" for y
      by (rule out [OF page_words(4) [OF m [OF that]]])
    then show "flist (peek load32 u) (l_next_free_virt (large_dom u)) (map (\<lambda>x. addr_of_frame (fst x)) H)"
      using large_okD2(3) [OF I(2)] slots_cong [of H "peek load32 u" "peek load32 s"] du(4) by simp
    show "peek load32 u (addr_of_frame c + 4) = of_nat n" if "(c, n) \<in> set H" for c n
      using out [OF page_words(5)] m [OF that] large_okD2(4) [OF I(2) that] by simp
  qed
  have "used u = used t" by (subst ut) (simp add: used_def)
  then have "used u = used s \<union> N" "N \<subseteq> free_low s" using t(2) by (simp_all add: new_span_def)
  then show ?thesis using t(1,3) u(1) hi lo out du(4,6,8)
    by (intro exI [of _ u] exI [of _ N]) (simp add: heaps_ok_def)
qed

definition page_count :: "u32 \<Rightarrow> nat" where
  "page_count sz = (unat sz + 4099) div 4096"

text \<open>The head of the free list is long enough, or there is room above; and the frames suffice.\<close>

definition reuses :: "nat \<Rightarrow> (nat \<times> nat) list \<Rightarrow> bool" where
  "reuses k H \<longleftrightarrow> H \<noteq> [] \<and> k \<le> snd (hd H)"

definition can_alloc_large :: "nat \<Rightarrow> (nat \<times> nat) list \<Rightarrow> kstate \<Rightarrow> bool" where
  "can_alloc_large k H s \<longleftrightarrow> (reuses k H \<or> frame_of (l_next_virt_addr (large_dom s)) + k \<le> 0xC0000)
     \<and> 3 * k \<le> card (free_low s)"

text \<open>Where the allocation goes and which slots are left.\<close>

definition place :: "nat \<Rightarrow> (nat \<times> nat) list \<Rightarrow> kstate \<Rightarrow> nat" where
  "place k H s = (if reuses k H then fst (hd H) else frame_of (l_next_virt_addr (large_dom s)))"

definition slots_left :: "nat \<Rightarrow> (nat \<times> nat) list \<Rightarrow> (nat \<times> nat) list" where
  "slots_left k H = (if reuses k H then tl H else H)"

lemma spans_fresh:
  assumes sp: "spans_ok e L H" and k: "0 < k" "0x80000 \<le> e"
  shows "spans_ok (e + k) (insert (e, k) L) H" "(e, k) \<notin> L"
proof -
  have le: "fst x + snd x \<le> e \<and> 0 < snd x" if "x \<in> L \<union> set H" for x using sp that unfolding spans_ok_def by blast
  then have n: "(e, k) \<notin> L \<union> set H" using k(1) by fastforce
  then show "(e, k) \<notin> L" by simp
  have dj: "pages_of (e, k) \<inter> pages_of x = {}" if "x \<in> L \<union> set H" for x using le [OF that] by (auto simp: pages_of_def)
  have "0 < snd x \<and> 0x80000 \<le> fst x \<and> fst x + snd x \<le> e + k" if "x \<in> insert (e, k) L \<union> set H" for x
  proof (cases "x = (e, k)")
    case False
    then have "x \<in> L \<union> set H" using that by auto
    then show ?thesis using le [of x] sp unfolding spans_ok_def by (meson trans_le_add1)
  qed (use k in simp)
  moreover have "pages_of x \<inter> pages_of y = {}" if "x \<in> insert (e, k) L \<union> set H" "y \<in> insert (e, k) L \<union> set H" "x \<noteq> y" for x y
  proof (cases "x = (e, k) \<or> y = (e, k)")
    case True
    then show ?thesis using that dj [of x] dj [of y] by blast
  next
    case False
    then have "x \<in> L \<union> set H" "y \<in> L \<union> set H" using that by auto
    then show ?thesis using sp that(3) unfolding spans_ok_def by blast
  qed
  moreover have "distinct H" "insert (e, k) L \<inter> set H = {}" using sp n by (auto simp: spans_ok_def)
  ultimately show "spans_ok (e + k) (insert (e, k) L) H" unfolding spans_ok_def by simp
qed

lemma spans_reuse:
  assumes sp: "spans_ok e L ((b, m) # H)" and k: "0 < k" "k \<le> m"
  shows "spans_ok e (insert (b, k) L) H" "(b, k) \<notin> L"
proof -
  let ?A = "L \<union> set ((b, m) # H)"
  have D: "distinct ((b, m) # H)" "L \<inter> set ((b, m) # H) = {}"
    "\<And>x. x \<in> ?A \<Longrightarrow> 0 < snd x \<and> 0x80000 \<le> fst x \<and> fst x + snd x \<le> e"
    "\<And>x y. x \<in> ?A \<Longrightarrow> y \<in> ?A \<Longrightarrow> x \<noteq> y \<Longrightarrow> pages_of x \<inter> pages_of y = {}" using sp unfolding spans_ok_def by blast+
  have bm: "(b, m) \<in> ?A" "(b, m) \<notin> L \<union> set H" using D(1,2) by auto
  have sub: "pages_of (b, k) \<subseteq> pages_of (b, m)" using k(2) by (auto simp: pages_of_def)
  have dj: "pages_of (b, k) \<inter> pages_of x = {}" if "x \<in> L \<union> set H" for x
  proof -
    have "x \<in> ?A" "x \<noteq> (b, m)" using that bm(2) by auto
    then show ?thesis using D(4) [OF bm(1), of x] sub by blast
  qed
  have bk: "b \<in> pages_of (b, k)" using k(1) by (simp add: pages_of_def)
  then have n: "(b, k) \<notin> L \<union> set H" using dj by blast
  then show "(b, k) \<notin> L" by simp
  have "0 < snd x \<and> 0x80000 \<le> fst x \<and> fst x + snd x \<le> e" if "x \<in> insert (b, k) L \<union> set H" for x
    using that D(3) [of x] D(3) [OF bm(1)] k by auto
  moreover have "pages_of x \<inter> pages_of y = {}" if "x \<in> insert (b, k) L \<union> set H" "y \<in> insert (b, k) L \<union> set H" "x \<noteq> y" for x y
  proof (cases "x = (b, k) \<or> y = (b, k)")
    case True
    then show ?thesis using that dj [of x] dj [of y] by blast
  next
    case False
    then show ?thesis using that D(4) [of x y] by auto
  qed
  ultimately show "spans_ok e (insert (b, k) L) H" using D(1,2) n unfolding spans_ok_def by auto
qed

lemma large_free_list:
  assumes "heaps_ok V fl L H s"
  shows "l_next_free_virt (large_dom s) = (case H of [] \<Rightarrow> 0 | x # xs \<Rightarrow> addr_of_frame (fst x))"
    "(l_next_free_virt (large_dom s) = 0) = (H = [])"
  using large_okD2(3) [OF heaps_okD(2) [OF assms]] by (cases H; auto)+

text \<open>The head of the free list is taken off and its page given back.\<close>

lemma take_slot:
  assumes inv: "heaps_ok V fl L ((b, m) # H) s"
  defines "s1 \<equiv> s\<lparr>large_dom := (large_dom s)\<lparr>l_next_free_virt := peek load32 s (addr_of_frame b)\<rparr>\<rparr>"
  shows "\<exists>t. large_unmap_page (addr_of_frame b) True s1 = Inr ((), t) \<and> heaps_ok (V - {b}) fl L H t
    \<and> load32 (addr_of_frame b) s = Inr (peek load32 s (addr_of_frame b), s) \<and> load32 (addr_of_frame b + 4) s = Inr (of_nat m, s)
    \<and> large_dom t = large_dom s1 \<and> safe_frame t = safe_frame s \<and> card (free_low s) \<le> card (free_low t)
    \<and> (\<forall>a\<in>data_addrs (V - {b}). peek load32 t a = peek load32 s a) \<and> console t = console s"
proof -
  note I = heaps_okD [OF inv]
  from I(2) obtain e where e: "l_next_virt_addr (large_dom s) = addr_of_frame e" "0x80000 \<le> e" "e \<le> 0xC0000" "spans_ok e L ((b, m) # H)"
    by (rule large_okD)
  have xi: "(b, m) \<in> L \<union> set ((b, m) # H)" by simp
  note S = spansD [OF e(4) xi e(3)]
  have b: "0x80000 \<le> b" "b < 0xC0000" and bV: "b \<in> V" using S(2,4) large_page_mapped(1) [OF I(2) xi] by simp_all
  have ok: "mem_only_ok UNIV V s s" using I(3) by simp
  have ld: "load32 (addr_of_frame b) s = Inr (peek load32 s (addr_of_frame b), s)" "load32 (addr_of_frame b + 4) s = Inr (of_nat m, s)"
    using data.rd_peek [OF ok page_words(4) [OF b(2) bV]] data.rd_peek [OF ok page_words(5) [OF b(2) bV]]
      large_okD2(4) [OF I(2), of b m] by simp_all
  have v1: "vm_inv UNIV V s1" using I(3) unfolding s1_def by (subst vm_inv_large) simp_all
  from large_unmap_page_run [OF v1 bV b(1)] obtain t f where
    t: "large_unmap_page (addr_of_frame b) True s1 = Inr ((), t)" "released V {b} {f} s1 t" by blast
  have ft: "vm_frame s1 t" and vt: "vm_inv UNIV (V - {b}) t" and ut: "used t = used s1 - {f}" using t(2) by (simp_all add: released_def)
  note dt = vm_frame_simps [OF ft]
  have s1: "used s1 = used s" "safe_frame s1 = safe_frame s" "heaps s1 = heaps s" "peek load32 s1 = peek load32 s" "console s1 = console s"
    by (simp_all add: s1_def used_def safe_frame_def heap_start_def kernel_page_tables_base_def kernel_page_table_def)
  have out: "peek load32 t a = peek load32 s a" if "a \<in> data_addrs (V - {b})" for a
    using released_peek [OF v1 t(2)] that s1(4) by (simp add: data_addrs_def)
  have hi: "heap_inv UNIV (V - {b}) fl t"
  proof (rule heap_inv_large_change [OF I(1) vt])
    show "heaps t = heaps s" using dt(3) s1(3) by simp
    show "{p \<in> V - {b}. p < 0x80000} = {p \<in> V. p < 0x80000}" using b(1) by auto
    show "peek load32 t a = peek load32 s a" if "a \<in> data_addrs V" "frame_of a < 0x80000" for a
      using that b(1) by (intro out) (auto simp: data_addrs_def)
  qed
  have other: "fst y < 0xC0000" "fst y \<in> V - {b}" if y: "y \<in> L \<union> set H" for y
  proof -
    have y': "y \<in> L \<union> set ((b, m) # H)" "y \<noteq> (b, m)" using y e(4) by (auto simp: spans_ok_def)
    show "fst y < 0xC0000" by (rule spansD(4) [OF e(4) y'(1) e(3)])
    show "fst y \<in> V - {b}" using large_page_mapped(1) [OF I(2) y'(1)] S(7) [OF y'] by simp
  qed
  have lo: "large_ok (V - {b}) L H t"
  proof (rule large_okI)
    show "l_next_virt_addr (large_dom t) = addr_of_frame e" using dt(4) e(1) by (simp add: s1_def)
    show "0x80000 \<le> e" "e \<le> 0xC0000" by (fact e(2), fact e(3))
    show "spans_ok e L H" using e(4) by (auto simp: spans_ok_def)
    show "{p \<in> V - {b}. 0x80000 \<le> p} = large_pages L H"
    proof -
      have "{p \<in> V - {b}. 0x80000 \<le> p} = large_pages L ((b, m) # H) - {b}" using large_okD2(1) [OF I(2)] by auto
      moreover have "b \<notin> large_pages L H"
      proof
        assume "b \<in> large_pages L H"
        then consider y where "y \<in> L" "b \<in> pages_of y" | y where "y \<in> set H" "fst y = b" by (auto simp: large_pages_def)
        then show False
        proof cases
          case 1
          then have "y \<in> L \<union> set ((b, m) # H)" "(b, m) \<noteq> y" using e(4) by (auto simp: spans_ok_def)
          from spansD(6) [OF e(4) this(1) e(3) xi this(2)] 1 show False by simp
        next
          case 2
          then show False using other(2) [of y] by auto
        qed
      qed
      ultimately show ?thesis by (auto simp: large_pages_def)
    qed
    show "peek load32 t (addr_of_frame c) = of_nat n" if "(c, n) \<in> L" for c n
      using out [OF page_words(4)] other [of "(c, n)"] that large_okD2(2) [OF I(2) that] by simp
    show "peek load32 t (addr_of_frame c + 4) = of_nat n" if "(c, n) \<in> set H" for c n
      using out [OF page_words(5)] other [of "(c, n)"] that large_okD2(4) [OF I(2), of c n] by simp
    have "flist (peek load32 s) (peek load32 s (addr_of_frame b)) (map (\<lambda>x. addr_of_frame (fst x)) H)"
      using large_okD2(3) [OF I(2)] by simp
    moreover have "peek load32 t (addr_of_frame (fst y)) = peek load32 s (addr_of_frame (fst y))" if "y \<in> set H" for y
      using out [OF page_words(4)] other [of y] that by simp
    ultimately show "flist (peek load32 t) (l_next_free_virt (large_dom t)) (map (\<lambda>x. addr_of_frame (fst x)) H)"
      using slots_cong [of H "peek load32 t" "peek load32 s"] dt(4) by (simp add: s1_def)
  qed
  have "free_low s \<subseteq> free_low t" unfolding free_low_used using ut s1 dt(6) by auto
  then have "card (free_low s) \<le> card (free_low t)" by (intro card_mono) simp_all
  then show ?thesis using t(1) hi lo ld dt(4,6,8) s1(2,5) out by (intro exI [of _ t]) (simp add: heaps_ok_def)
qed

text \<open>The next free address moves up.\<close>

lemma bump:
  assumes inv: "heaps_ok V fl L H s" and e: "l_next_virt_addr (large_dom s) = addr_of_frame e" "e + k \<le> 0xC0000"
  shows "heaps_ok V fl L H (s\<lparr>large_dom := (large_dom s)\<lparr>l_next_virt_addr := addr_of_frame (e + k)\<rparr>\<rparr>)"
proof -
  note I = heaps_okD [OF inv]
  let ?s = "s\<lparr>large_dom := (large_dom s)\<lparr>l_next_virt_addr := addr_of_frame (e + k)\<rparr>\<rparr>"
  have v: "vm_inv UNIV V ?s" using I(3) by (subst vm_inv_large) simp_all
  have "heap_inv UNIV V fl ?s" by (rule heap_inv_large_change [OF I(1) v]) simp_all
  moreover from I(2) obtain e' where e': "l_next_virt_addr (large_dom s) = addr_of_frame e'" "0x80000 \<le> e'" "e' \<le> 0xC0000" "spans_ok e' L H"
    by (rule large_okD)
  then have "e' = e" using e page_frame [of e'] page_frame [of e] by simp
  then have "spans_ok (e + k) L H" using e'(4) unfolding spans_ok_def by (meson trans_le_add1)
  then have "large_ok V L H ?s"
    using e'(2) \<open>e' = e\<close> e(2) large_okD2 [OF I(2)] by (intro large_okI [of _ "e + k"]) simp_all
  ultimately show ?thesis by (simp add: heaps_ok_def)
qed

lemma page_count_word:
  assumes "unat sz + 4099 < 2 ^ 32"
  shows "(sz + 4 + 4095) div 4096 = (of_nat (page_count sz) :: u32)" "page_count sz < 2 ^ 20" "0 < page_count sz"
    "unat sz + 4 \<le> 4096 * page_count sz"
proof -
  have "unat ((sz + 4 + 4095) div 4096) = page_count sz"
    using assms by (simp add: page_count_def unat_div_distrib unat_word_ariths)
  moreover show c: "page_count sz < 2 ^ 20" using assms by (simp add: page_count_def less_mult_imp_div_less)
  ultimately show "(sz + 4 + 4095) div 4096 = (of_nat (page_count sz) :: u32)" by (intro u32_eqI) (simp add: unat_of_nat)
  show "0 < page_count sz" by (simp add: page_count_def div_greater_zero_iff)
  have "x < 4096 * Suc (x div 4096)" for x :: nat using dividend_less_times_div [of 4096 x] by simp
  from this [of "unat sz + 4099"] show "unat sz + 4 \<le> 4096 * page_count sz" by (simp add: page_count_def)
qed

lemma word_count_le: "m \<le> 0xC0000 \<Longrightarrow> k < 2 ^ 20 \<Longrightarrow> (of_nat k \<le> (of_nat m :: u32)) = (k \<le> m)"
  by (simp add: word_le_nat_alt unat_of_nat)

lemma frames_left:
  assumes "used s' = used s \<union> N" "safe_frame s' = safe_frame s" "N \<subseteq> free_low s" "card N \<le> c"
  shows "card (free_low s) \<le> card (free_low s') + c"
proof -
  have "free_low s' = free_low s - N" using assms(1,2) by (auto simp: free_low_used)
  moreover have "finite N" by (rule finite_subset [OF assms(3) finite_free_low])
  ultimately have "card (free_low s') = card (free_low s) - card N" using assms(3) by (simp add: card_Diff_subset)
  then show ?thesis using assms(4) by simp
qed

lemma kmalloc_pages_run:
  fixes sz :: u32
  assumes inv: "heaps_ok V fl L H s" and sz: "4096 < sz" and P: "(sz + 4 + 4095) div 4096 = of_nat k" "k < 2 ^ 20" "0 < k"
    and c: "can_alloc_large k H s"
  shows "\<exists>V' s'. kmalloc sz s = Inr (addr_of_frame (place k H s) + 4, s')
    \<and> heaps_ok V' fl (insert (place k H s, k) L) (slots_left k H) s' \<and> (place k H s, k) \<notin> L
    \<and> V - {place k H s} \<subseteq> V' \<and> (\<forall>a\<in>data_addrs (V - {place k H s}). peek load32 s' a = peek load32 s a)
    \<and> {p\<in>V'. p < 0x80000} = {p\<in>V. p < 0x80000} \<and> card (free_low s) \<le> card (free_low s') + 3 * k
    \<and> frame_of (l_next_virt_addr (large_dom s')) \<le> frame_of (l_next_virt_addr (large_dom s)) + k
    \<and> console s' = console s"
proof -
  note I = heaps_okD [OF inv]
  from I(2) obtain e where e: "l_next_virt_addr (large_dom s) = addr_of_frame e" "0x80000 \<le> e" "e \<le> 0xC0000" "spans_ok e L H"
    by (rule large_okD)
  have uk: "unat (of_nat k :: u32) = k" using P(2) by (simp add: unat_of_nat)
  have nz: "sz \<noteq> 0" "\<not> sz \<le> 4096" using sz by auto
  have small: "\<not> sz \<le> 64" "\<not> sz \<le> 128" "\<not> sz \<le> 256" "\<not> sz \<le> 512" "\<not> sz \<le> 1024" "\<not> sz \<le> 2048"
    using sz by (simp_all add: word_le_nat_alt word_less_nat_alt)
  have dispatch: "kmalloc sz = kmalloc_large sz" using small nz(2) by (simp add: kmalloc_def)
  let ?b = "place k H s"
  let ?rest = "bnd (map_large_pages (addr_of_frame ?b) 0 k) (\<lambda>complete.
      if complete then bnd (store32 (addr_of_frame ?b) (of_nat k)) (\<lambda>_. ret (addr_of_frame ?b + 4)) else ret 0)"
  show ?thesis
  proof (cases "reuses k H")
    case True
    then obtain b m Hs where H: "H = (b, m) # Hs" and km: "k \<le> m" by (cases H) (auto simp: reuses_def)
    have b: "?b = b" "slots_left k H = Hs" using True by (simp_all add: place_def slots_left_def H)
    have "(b, m) \<in> L \<union> set H" by (simp add: H)
    note S = spansD [OF e(4) this e(3)]
    have m: "m \<le> 0xC0000" using S(3) e(3) by simp
    from take_slot [OF inv [unfolded H]] obtain t where
      t: "large_unmap_page (addr_of_frame b) True (s\<lparr>large_dom := (large_dom s)\<lparr>l_next_free_virt := peek load32 s (addr_of_frame b)\<rparr>\<rparr>) = Inr ((), t)"
        "heaps_ok (V - {b}) fl L Hs t" "load32 (addr_of_frame b) s = Inr (peek load32 s (addr_of_frame b), s)"
        "load32 (addr_of_frame b + 4) s = Inr (of_nat m, s)"
        "large_dom t = (large_dom s)\<lparr>l_next_free_virt := peek load32 s (addr_of_frame b)\<rparr>"
        "card (free_low s) \<le> card (free_low t)" "\<And>a. a \<in> data_addrs (V - {b}) \<Longrightarrow> peek load32 t a = peek load32 s a" and ct: "console t = console s" by auto
    have nt: "l_next_virt_addr (large_dom t) = addr_of_frame e" using t(5) e(1) by simp
    note R = spans_reuse [OF e(4) [unfolded H] P(3) km]
    have "3 * k \<le> card (free_low t)" using c t(6) by (simp add: can_alloc_large_def)
    from large_commit [OF t(2) nt e(3) R this] obtain u N where
      u: "?rest t = Inr (addr_of_frame b + 4, u)" "heaps_ok (V - {b} \<union> pages_of (b, k)) fl (insert (b, k) L) Hs u"
        "\<And>a. a \<in> data_addrs (V - {b}) \<Longrightarrow> peek load32 u a = peek load32 t a"
      and N: "used u = used t \<union> N" "safe_frame u = safe_frame t" "N \<subseteq> free_low t" "card N \<le> 3 * k"
      and lu: "large_dom u = large_dom t" "console u = console t" unfolding b(1) by blast
    have low: "{p \<in> V - {b} \<union> pages_of (b, k). p < 0x80000} = {p\<in>V. p < 0x80000}" using S(2) by (auto simp: pages_of_def)
    have fr: "card (free_low s) \<le> card (free_low u) + 3 * k" using frames_left [OF N] t(6) by simp
    have "l_next_free_virt (large_dom s) = addr_of_frame b" "l_next_free_virt (large_dom s) \<noteq> 0"
      using large_free_list [OF inv] by (simp_all add: H)
    then have "kmalloc_large sz s = ?rest t"
      unfolding b(1) using t(1,3,4) P(1) nz(1) word_count_le [OF m P(2)] km
      by (simp add: kmalloc_large_def Let_def uk set_large_def)
    moreover have "frame_of (l_next_virt_addr (large_dom u)) \<le> frame_of (l_next_virt_addr (large_dom s)) + k" by (simp add: lu(1) t(5))
    ultimately show ?thesis using u t(7) ct lu(2) R(2) low fr unfolding dispatch b by (intro exI [of _ "V - {b} \<union> pages_of (b, k)"] exI [of _ u]) auto
  next
    case False
    have b: "?b = e" "slots_left k H = H" using False e(1,3) by (simp_all add: place_def slots_left_def)
    have room: "e + k \<le> 0xC0000" "3 * k \<le> card (free_low s)" using c False e(1,3) by (simp_all add: can_alloc_large_def)
    let ?t = "s\<lparr>large_dom := (large_dom s)\<lparr>l_next_virt_addr := addr_of_frame (e + k)\<rparr>\<rparr>"
    have nt: "l_next_virt_addr (large_dom ?t) = addr_of_frame (e + k)" by simp
    have ft: "free_low ?t = free_low s"
      by (simp add: free_low_def safe_frame_def heap_start_def kernel_page_tables_base_def kernel_page_table_def)
    from ft room have fr: "3 * k \<le> card (free_low ?t)" by simp
    note F = spans_fresh [OF e(4) P(3) e(2)]
    from large_commit [OF bump [OF inv e(1) room(1)] nt room(1) F fr] obtain u N where
      u: "?rest ?t = Inr (addr_of_frame e + 4, u)" "heaps_ok (V \<union> pages_of (e, k)) fl (insert (e, k) L) H u"
        "\<And>a. a \<in> data_addrs V \<Longrightarrow> peek load32 u a = peek load32 ?t a"
      and N: "used u = used ?t \<union> N" "safe_frame u = safe_frame ?t" "N \<subseteq> free_low ?t" "card N \<le> 3 * k"
      and lu: "large_dom u = large_dom ?t" "console u = console ?t" unfolding b(1) by blast
    have low: "{p \<in> V \<union> pages_of (e, k). p < 0x80000} = {p\<in>V. p < 0x80000}" using e(2) by (auto simp: pages_of_def)
    have left: "card (free_low s) \<le> card (free_low u) + 3 * k" using frames_left [OF N] ft by simp
    have nx: "frame_of (l_next_virt_addr (large_dom u)) \<le> frame_of (l_next_virt_addr (large_dom s)) + k"
      using room(1) e(1,3) by (simp add: lu(1))
    have pg: "addr_of_frame e + of_nat k * 4096 = (addr_of_frame (e + k) :: u32)" by (rule page_address)
    have tf: "take_fresh_virt (of_nat k) s = Inr (addr_of_frame e, ?t)" by (simp add: take_fresh_virt_def set_large_def e(1) pg)
    have "kmalloc_large sz s = ?rest ?t"
    proof (cases H)
      case Nil
      then have "l_next_free_virt (large_dom s) = 0" using large_free_list [OF inv] by simp
      then show ?thesis unfolding b(1) using tf P(1) nz(1) by (simp add: kmalloc_large_def Let_def uk)
    next
      case (Cons x Hs)
      then obtain c m where x: "H = (c, m) # Hs" by (cases x) auto
      then have m: "\<not> k \<le> m" using False by (simp add: reuses_def)
      have cx: "(c, m) \<in> L \<union> set H" by (simp add: x)
      note S = spansD [OF e(4) cx e(3)]
      have mb: "m \<le> 0xC0000" using S(3) e(3) by simp
      have "l_next_free_virt (large_dom s) = addr_of_frame c" "l_next_free_virt (large_dom s) \<noteq> 0"
        using large_free_list [OF inv] by (simp_all add: x)
      moreover from take_slot [OF inv [unfolded x]] have "load32 (addr_of_frame c + 4) s = Inr (of_nat m, s)" by blast
      ultimately show ?thesis unfolding b(1) using tf P(1) nz(1) word_count_le [OF mb P(2)] m by (simp add: kmalloc_large_def Let_def uk)
    qed
    then show ?thesis using u F(2) low left nx lu(2) unfolding dispatch b by (intro exI [of _ "V \<union> pages_of (e, k)"] exI [of _ u]) (auto simp: data_addrs_def)
  qed
qed

lemma kmalloc_large_run:
  assumes inv: "heaps_ok V fl L H s" and sz: "4096 < sz" "unat sz + 4099 < 2 ^ 32" and c: "can_alloc_large (page_count sz) H s"
  shows "\<exists>V' s'. kmalloc sz s = Inr (addr_of_frame (place (page_count sz) H s) + 4, s')
    \<and> heaps_ok V' fl (insert (place (page_count sz) H s, page_count sz) L) (slots_left (page_count sz) H) s'
    \<and> (place (page_count sz) H s, page_count sz) \<notin> L
    \<and> V - {place (page_count sz) H s} \<subseteq> V'
    \<and> (\<forall>a\<in>data_addrs (V - {place (page_count sz) H s}). peek load32 s' a = peek load32 s a)
    \<and> {p\<in>V'. p < 0x80000} = {p\<in>V. p < 0x80000} \<and> card (free_low s) \<le> card (free_low s') + 3 * page_count sz
    \<and> frame_of (l_next_virt_addr (large_dom s')) \<le> frame_of (l_next_virt_addr (large_dom s)) + page_count sz
    \<and> console s' = console s"
  by (rule kmalloc_pages_run [OF inv sz(1) page_count_word(1-3) [OF sz(2)] c])

end
