(* ===== verification/Heap_Client.thy ===== *)
theory Heap_Client
  imports Kmalloc
begin

unbundle bit_operations_syntax

text \<open>
  Programs of allocations, releases, reads and writes, the answers that their author expects, and the contract of an allocator
  (locale \<^verbatim>\<open>block_store\<close>) under which every program that keeps the rules gets these answers.
\<close>

section \<open>Programs that use the heap\<close>

text \<open>
  A client keeps its pointers in variables.  It allocates into the next variable, releases the block of a variable
  (\<^verbatim>\<open>kfree\<close> overwrites the variable), and writes and reads words of blocks.
\<close>

datatype heap_cmd = Malloc u32 | Free nat | Put nat nat u32 | Get nat nat

fun run_cmds :: "(u32 \<Rightarrow> u32 kop) \<Rightarrow> (u32 \<Rightarrow> u32 kop) \<Rightarrow> heap_cmd list \<Rightarrow> u32 list \<Rightarrow> u32 list kop" where
  "run_cmds alloc release [] ps = ret []"
| "run_cmds alloc release (Malloc sz # cs) ps = bnd (alloc sz) (\<lambda>p. run_cmds alloc release cs (ps @ [p]))"
| "run_cmds alloc release (Free i # cs) ps = bnd (release (ps ! i)) (\<lambda>p. run_cmds alloc release cs (ps[i := p]))"
| "run_cmds alloc release (Put i j w # cs) ps =
     bnd (store32 (ps ! i + 4 * of_nat j) w) (\<lambda>_. run_cmds alloc release cs ps)"
| "run_cmds alloc release (Get i j # cs) ps =
     bnd (load32 (ps ! i + 4 * of_nat j)) (\<lambda>w. bnd (run_cmds alloc release cs ps) (\<lambda>ws. ret (w # ws)))"

text \<open>
  What the client may expect: every variable that holds a block holds a map of its own from words to contents.  \<open>None\<close> if the
  client breaks a rule: it uses a variable that holds no block, a word outside the size it asked for, or a word it never wrote.
\<close>

type_synonym variables = "(u32 \<times> (nat \<rightharpoonup> u32)) option list"

definition variable :: "variables \<Rightarrow> nat \<Rightarrow> (u32 \<times> (nat \<rightharpoonup> u32)) option" where
  "variable bs i = (if i < length bs then bs ! i else None)"

definition word_count :: "u32 \<Rightarrow> nat" where
  "word_count sz = unat sz div 4"

fun answers :: "heap_cmd list \<Rightarrow> variables \<Rightarrow> u32 list option" where
  "answers [] bs = Some []"
| "answers (Malloc sz # cs) bs = answers cs (bs @ [Some (sz, Map.empty)])"
| "answers (Free i # cs) bs = (case variable bs i of None \<Rightarrow> None | Some _ \<Rightarrow> answers cs (bs[i := None]))"
| "answers (Put i j w # cs) bs = (case variable bs i of None \<Rightarrow> None
     | Some (sz, c) \<Rightarrow> if j < word_count sz then answers cs (bs[i := Some (sz, c(j \<mapsto> w))]) else None)"
| "answers (Get i j # cs) bs = (case variable bs i of None \<Rightarrow> None
     | Some (sz, c) \<Rightarrow> (case c j of None \<Rightarrow> None | Some w \<Rightarrow> map_option ((#) w) (answers cs bs)))"

fun cost :: "(u32 \<Rightarrow> nat) \<Rightarrow> heap_cmd list \<Rightarrow> nat" where
  "cost weight [] = 0"
| "cost weight (Malloc sz # cs) = weight sz + cost weight cs"
| "cost weight (_ # cs) = cost weight cs"

section \<open>The contract of an allocator\<close>

text \<open>
  \<open>inv n B s\<close>: the allocator is in order, \<open>B\<close> are its blocks in use with the sizes asked for, and \<open>n\<close> more units can be
  allocated.  The laws: an allocation within the budget gives a block that is not in use, no operation changes a word of another block, and
  a block reads back what was written to it.
\<close>

abbreviation same_words :: "(u32 \<rightharpoonup> u32) \<Rightarrow> kstate \<Rightarrow> kstate \<Rightarrow> bool" where
  "same_words B s s' \<equiv> \<forall>q z j. B q = Some z \<longrightarrow> j < word_count z \<longrightarrow>
     peek load32 s' (q + 4 * of_nat j) = peek load32 s (q + 4 * of_nat j)"

lemma variable_update: "i < length bs \<Longrightarrow> variable (bs[i := b]) k = (if k = i then b else variable bs k)"
  by (simp add: variable_def)

lemma variable_append: "variable (bs @ [b]) k = (if k = length bs then b else variable bs k)"
  by (auto simp: variable_def nth_append)

lemma variable_bound: "variable bs i = Some b \<Longrightarrow> i < length bs"
  by (simp add: variable_def split: if_splits)

text \<open>The pointers \<open>ps\<close> in the machine and the variables \<open>bs\<close> of the client agree.\<close>

definition tracks :: "(u32 \<rightharpoonup> u32) \<Rightarrow> variables \<Rightarrow> u32 list \<Rightarrow> kstate \<Rightarrow> bool" where
  "tracks B bs ps s \<longleftrightarrow> length ps = length bs
     \<and> (\<forall>i z c. variable bs i = Some (z, c) \<longrightarrow> B (ps ! i) = Some z
          \<and> (\<forall>j w. c j = Some w \<longrightarrow> j < word_count z \<and> peek load32 s (ps ! i + 4 * of_nat j) = w))
     \<and> (\<forall>i k. variable bs i \<noteq> None \<longrightarrow> variable bs k \<noteq> None \<longrightarrow> ps ! i = ps ! k \<longrightarrow> i = k)"

lemma tracksD:
  assumes "tracks B bs ps s"
  shows "length ps = length bs" "variable bs i = Some (z, c) \<Longrightarrow> B (ps ! i) = Some z"
    "variable bs i = Some (z, c) \<Longrightarrow> c j = Some w \<Longrightarrow> j < word_count z \<and> peek load32 s (ps ! i + 4 * of_nat j) = w"
    "variable bs i = Some x \<Longrightarrow> variable bs k = Some y \<Longrightarrow> ps ! i = ps ! k \<Longrightarrow> i = k"
  using assms unfolding tracks_def by auto

lemma tracks_same: "tracks B bs ps s \<Longrightarrow> same_words B s s' \<Longrightarrow> tracks B bs ps s'"
  unfolding tracks_def by auto

lemma tracks_alloc:
  assumes t: "tracks B bs ps s" and p: "B p = None"
  shows "tracks (B(p \<mapsto> sz)) (bs @ [Some (sz, Map.empty)]) (ps @ [p]) s"
proof -
  note T = tracksD [OF t]
  have nth: "(ps @ [p]) ! i = ps ! i" if "variable bs i = Some b" for i b
    using variable_bound [OF that] T(1) by (simp add: nth_append)
  have last: "(ps @ [p]) ! length bs = p" using T(1) by (simp add: nth_append)
  have old: "ps ! i \<noteq> p" if "variable bs i = Some b" for i b
    using T(2) [of i "fst b" "snd b"] that p by auto
  have new: "variable bs (length bs) = None" by (simp add: variable_def)
  show ?thesis
    unfolding tracks_def variable_append
    using T nth last old new by (auto split: if_splits) metis+
qed

lemma tracks_free:
  assumes t: "tracks B bs ps s" and i: "variable bs i = Some b"
  shows "tracks (B(ps ! i := None)) (bs[i := None]) (ps[i := q]) s"
proof -
  note T = tracksD [OF t]
  have ib: "i < length bs" by (rule variable_bound [OF i])
  have other: "k \<noteq> i \<Longrightarrow> variable bs k = Some x \<Longrightarrow> ps ! k \<noteq> ps ! i" for k x using T(4) [OF _ i, of k x] by blast
  show ?thesis
    unfolding tracks_def variable_update [OF ib]
    using T other by (auto simp: nth_list_update split: if_splits)
qed

lemma tracks_put:
  assumes t: "tracks B bs ps s" and i: "variable bs i = Some (sz, c)" and j: "j < word_count sz"
    and s': "\<forall>q z k. B q = Some z \<longrightarrow> k < word_count z \<longrightarrow>
        peek load32 s' (q + 4 * of_nat k) = (if q = ps ! i \<and> k = j then w else peek load32 s (q + 4 * of_nat k))"
  shows "tracks B (bs[i := Some (sz, c(j \<mapsto> w))]) ps s'"
proof -
  note T = tracksD [OF t]
  have ib: "i < length bs" by (rule variable_bound [OF i])
  have other: "ps ! k \<noteq> ps ! i" if "k \<noteq> i" "variable bs k = Some x" for k x using T(4) [OF that(2) i] that(1) by blast
  have content: "peek load32 s' (ps ! k + 4 * of_nat l) = v" if k: "variable (bs[i := Some (sz, c(j \<mapsto> w))]) k = Some (z, d)" "d l = Some v" for k z d l v
  proof (cases "k = i")
    case True
    then have d: "z = sz" "d = c(j \<mapsto> w)" using k(1) by (simp_all add: variable_update [OF ib])
    then have "l < word_count sz" using k(2) T(3) [OF i, of l] j by (auto split: if_splits)
    then show ?thesis using s' T(2,3) [OF i] k(2) d True by (auto split: if_splits)
  next
    case False
    then have v: "variable bs k = Some (z, d)" using k(1) by (simp add: variable_update [OF ib])
    then show ?thesis using s' T(2,3) [OF v] k(2) other [OF False v] by auto
  qed
  have bound: "l < word_count z" if "variable (bs[i := Some (sz, c(j \<mapsto> w))]) k = Some (z, d)" "d l = Some v" for k z d l v
    using that T(3) i j by (auto simp: variable_update [OF ib] split: if_splits)
  have size: "B (ps ! k) = Some z" if "variable (bs[i := Some (sz, c(j \<mapsto> w))]) k = Some (z, d)" for k z d
    using that T(2) i by (auto simp: variable_update [OF ib] split: if_splits)
  have inj: "k = l" if "variable (bs[i := Some (sz, c(j \<mapsto> w))]) k \<noteq> None" "variable (bs[i := Some (sz, c(j \<mapsto> w))]) l \<noteq> None" "ps ! k = ps ! l" for k l
    using that T(4) i by (auto simp: variable_update [OF ib] split: if_splits)
  show ?thesis unfolding tracks_def using T(1) content bound size inj by simp
qed

locale block_store =
  fixes alloc release :: "u32 \<Rightarrow> u32 kop" and weight :: "u32 \<Rightarrow> nat"
    and inv :: "nat \<Rightarrow> (u32 \<rightharpoonup> u32) \<Rightarrow> kstate \<Rightarrow> bool"
  assumes alloc_law: "inv (weight sz + n) B s \<Longrightarrow>
      \<exists>p s'. alloc sz s = Inr (p, s') \<and> B p = None \<and> inv n (B(p \<mapsto> sz)) s' \<and> same_words B s s'"
    and release_law: "inv n B s \<Longrightarrow> B p = Some sz \<Longrightarrow>
      \<exists>q s'. release p s = Inr (q, s') \<and> inv n (B(p := None)) s' \<and> same_words (B(p := None)) s s'"
    and write_law: "inv n B s \<Longrightarrow> B p = Some sz \<Longrightarrow> j < word_count sz \<Longrightarrow>
      \<exists>s'. store32 (p + 4 * of_nat j) w s = Inr ((), s') \<and> inv n B s' \<and> (\<forall>q z i. B q = Some z \<longrightarrow> i < word_count z \<longrightarrow>
        peek load32 s' (q + 4 * of_nat i) = (if q = p \<and> i = j then w else peek load32 s (q + 4 * of_nat i)))"
    and read_law: "inv n B s \<Longrightarrow> B p = Some sz \<Longrightarrow> j < word_count sz \<Longrightarrow>
      load32 (p + 4 * of_nat j) s = Inr (peek load32 s (p + 4 * of_nat j), s)"
begin

text \<open>A client that keeps the rules, on a budget that covers its allocations, gets the answers it expects.\<close>

lemma client_correct:
  assumes "inv (cost weight cs) B s" "tracks B bs ps s" "answers cs bs = Some out"
  shows "\<exists>s' B'. run_cmds alloc release cs ps s = Inr (out, s') \<and> inv 0 B' s'"
  using assms
proof (induction cs arbitrary: B s bs ps out)
  case Nil
  then show ?case by auto
next
  case (Cons x cs)
  show ?case
  proof (cases x)
    case (Malloc sz)
    with Cons.prems(1) have "inv (weight sz + cost weight cs) B s" by simp
    from alloc_law [OF this] obtain p s' where
      p: "alloc sz s = Inr (p, s')" "B p = None" "inv (cost weight cs) (B(p \<mapsto> sz)) s'" "same_words B s s'" by blast
    have "tracks (B(p \<mapsto> sz)) (bs @ [Some (sz, Map.empty)]) (ps @ [p]) s'"
      by (rule tracks_alloc [OF tracks_same [OF Cons.prems(2) p(4)] p(2)])
    from Cons.IH [OF p(3) this] Cons.prems(3) show ?thesis using p(1) by (simp add: Malloc)
  next
    case (Free i)
    with Cons.prems(3) obtain sz c where i: "variable bs i = Some (sz, c)" and a: "answers cs (bs[i := None]) = Some out"
      by (auto split: option.splits)
    have inv: "inv (cost weight cs) B s" using Cons.prems(1) by (simp add: Free)
    from release_law [OF inv tracksD(2) [OF Cons.prems(2) i]] obtain q s' where
      q: "release (ps ! i) s = Inr (q, s')" "inv (cost weight cs) (B(ps ! i := None)) s'" "same_words (B(ps ! i := None)) s s'" by blast
    have "tracks (B(ps ! i := None)) (bs[i := None]) (ps[i := q]) s'"
      by (rule tracks_same [OF tracks_free [OF Cons.prems(2) i] q(3)])
    from Cons.IH [OF q(2) this a] show ?thesis using q(1) by (simp add: Free)
  next
    case (Put i j w)
    with Cons.prems(3) obtain sz c where i: "variable bs i = Some (sz, c)" and j: "j < word_count sz"
      and a: "answers cs (bs[i := Some (sz, c(j \<mapsto> w))]) = Some out" by (auto split: option.splits if_splits)
    have inv: "inv (cost weight cs) B s" using Cons.prems(1) by (simp add: Put)
    from write_law [OF inv tracksD(2) [OF Cons.prems(2) i] j, of w] obtain s' where
      q: "store32 (ps ! i + 4 * of_nat j) w s = Inr ((), s')" "inv (cost weight cs) B s'"
        "\<forall>q z k. B q = Some z \<longrightarrow> k < word_count z \<longrightarrow>
          peek load32 s' (q + 4 * of_nat k) = (if q = ps ! i \<and> k = j then w else peek load32 s (q + 4 * of_nat k))" by blast
    from Cons.IH [OF q(2) tracks_put [OF Cons.prems(2) i j q(3)] a] show ?thesis using q(1) by (simp add: Put)
  next
    case (Get i j)
    with Cons.prems(3) obtain sz c w ws where i: "variable bs i = Some (sz, c)" "c j = Some w"
      and a: "answers cs bs = Some ws" and out: "out = w # ws" by (auto split: option.splits)
    have inv: "inv (cost weight cs) B s" using Cons.prems(1) by (simp add: Get)
    have w: "j < word_count sz" "peek load32 s (ps ! i + 4 * of_nat j) = w" using tracksD(3) [OF Cons.prems(2) i] by simp_all
    have "load32 (ps ! i + 4 * of_nat j) s = Inr (w, s)"
      using read_law [OF inv tracksD(2) [OF Cons.prems(2) i(1)] w(1)] w(2) by simp
    then show ?thesis using Cons.IH [OF inv Cons.prems(2) a] by (auto simp: Get out)
  qed
qed

end

end
