(* ===== verification/Heap_Programs.thy ===== *)
theory Heap_Programs
  imports Large_Domain Heap_Client
begin

unbundle bit_operations_syntax

text \<open>
  \<^verbatim>\<open>kmalloc\<close> and \<^verbatim>\<open>kfree\<close> satisfy the contract \<^verbatim>\<open>block_store\<close>: both kinds of blocks as one map from addresses to sizes, the words that each
  owns, the budget of pages and frames, and the properties of the whole heap.
\<close>

section \<open>What one invariant needs of a state\<close>

lemma large_word_addr:
  assumes "large_ok V L H s" "x \<in> L \<union> set H"
  shows "addr_of_frame (fst x) \<in> data_addrs V" "addr_of_frame (fst x) + 4 \<in> data_addrs V"
    "frame_of (addr_of_frame (fst x)) = fst x" "frame_of (addr_of_frame (fst x) + 4) = fst x" "0x80000 \<le> fst x" "fst x < 0xC0000"
proof -
  from assms(1) obtain e where e: "e \<le> 0xC0000" "spans_ok e L H" by (rule large_okD)
  show b: "0x80000 \<le> fst x" "fst x < 0xC0000" using spansD(2,4) [OF e(2) assms(2) e(1)] by simp_all
  have "fst x \<in> V" by (rule large_page_mapped(1) [OF assms])
  then show "addr_of_frame (fst x) \<in> data_addrs V" "addr_of_frame (fst x) + 4 \<in> data_addrs V"
    "frame_of (addr_of_frame (fst x)) = fst x" "frame_of (addr_of_frame (fst x) + 4) = fst x"
    using page_words [OF b(2)] b(2) by simp_all
qed

text \<open>The words that the large domain reads: headers of allocations, and both words of slots.\<close>

definition large_words :: "(nat \<times> nat) set \<Rightarrow> (nat \<times> nat) list \<Rightarrow> u32 set" where
  "large_words L H = (\<lambda>x. addr_of_frame (fst x)) ` (L \<union> set H) \<union> (\<lambda>x. addr_of_frame (fst x) + 4) ` set H"

lemma large_ok_cong:
  assumes lo: "large_ok V L H s" and d: "large_dom s' = large_dom s" and V: "{p\<in>V'. 0x80000 \<le> p} = {p\<in>V. 0x80000 \<le> p}"
    and pk: "\<And>a. a \<in> large_words L H \<Longrightarrow> peek load32 s' a = peek load32 s a"
  shows "large_ok V' L H s'"
proof -
  from lo obtain e where e: "l_next_virt_addr (large_dom s) = addr_of_frame e" "0x80000 \<le> e" "e \<le> 0xC0000" "spans_ok e L H"
    by (rule large_okD)
  show ?thesis
  proof (rule large_okI)
    show "l_next_virt_addr (large_dom s') = addr_of_frame e" using e(1) d by simp
    show "0x80000 \<le> e" "e \<le> 0xC0000" "spans_ok e L H" by (fact e)+
    show "{p \<in> V'. 0x80000 \<le> p} = large_pages L H" using V large_okD2(1) [OF lo] by simp
    show "peek load32 s' (addr_of_frame b) = of_nat n" if "(b, n) \<in> L" for b n
      using pk [of "addr_of_frame b"] large_okD2(2) [OF lo that] that by (force simp: large_words_def)
    show "peek load32 s' (addr_of_frame b + 4) = of_nat n" if "(b, n) \<in> set H" for b n
      using pk [of "addr_of_frame b + 4"] large_okD2(4) [OF lo that] that by (force simp: large_words_def)
    have "peek load32 s' (addr_of_frame (fst y)) = peek load32 s (addr_of_frame (fst y))" if "y \<in> set H" for y
      using pk [of "addr_of_frame (fst y)"] that by (auto simp: large_words_def)
    then show "flist (peek load32 s') (l_next_free_virt (large_dom s')) (map (\<lambda>x. addr_of_frame (fst x)) H)"
      using large_okD2(3) [OF lo] slots_cong [of H "peek load32 s'" "peek load32 s"] d by simp
  qed
qed

lemma large_words_high:
  assumes "large_ok V L H s" "a \<in> large_words L H"
  shows "a \<in> data_addrs V" "0x80000 \<le> frame_of a"
proof -
  from assms(2) obtain x where x: "x \<in> L \<union> set H" "a = addr_of_frame (fst x) \<or> a = addr_of_frame (fst x) + 4"
    by (auto simp: large_words_def)
  then show "a \<in> data_addrs V" "0x80000 \<le> frame_of a" using large_word_addr [OF assms(1) x(1)] by auto
qed

lemma heaps_ok_write:
  assumes inv: "heaps_ok V fl L H s" and t: "mem_only_ok UNIV V s t"
    and fl: "\<And>g b. b \<in> set (fl g) \<Longrightarrow> peek load32 t b = peek load32 s b"
    and lw: "\<And>a. a \<in> large_words L H \<Longrightarrow> peek load32 t a = peek load32 s a"
  shows "heaps_ok V fl L H t"
proof -
  note I = heaps_okD [OF inv]
  have "t\<lparr>mem := mem s\<rparr> = s" using t by simp
  then have "large_dom t = large_dom s" by (rule vm_frame_simps(4) [OF vm_frame_mem_only])
  then have "large_ok V L H t" by (intro large_ok_cong [OF I(2)]) (simp_all add: lw)
  moreover have "heap_inv UNIV V fl t" by (rule heap_inv_writes [OF I(1) t fl])
  ultimately show ?thesis by (simp add: heaps_ok_def)
qed

section \<open>Blocks of both kinds\<close>

definition alloc_weight :: "u32 \<Rightarrow> nat" where
  "alloc_weight sz = (if sz \<le> 4096 then 1 else page_count sz)"

definition owned :: "nat set \<Rightarrow> (heap_id \<Rightarrow> u32 list) \<Rightarrow> (nat \<times> nat) set \<Rightarrow> u32 \<Rightarrow> u32 \<Rightarrow> bool" where
  "owned V fl L p sz \<longleftrightarrow> (if sz \<le> 4096 then p \<in> allocated V fl (class_of sz)
     else (frame_of p, page_count sz) \<in> L \<and> p = addr_of_frame (frame_of p) + 4 \<and> unat sz + 4099 < 2 ^ 32)"

definition footprint :: "u32 \<Rightarrow> u32 \<Rightarrow> u32 set" where
  "footprint p sz = (if sz \<le> 4096 then block_words (class_of sz) p
     else {a. word_aligned a \<and> frame_of a \<in> pages_of (frame_of p, page_count sz) \<and> a \<noteq> addr_of_frame (frame_of p)})"

lemma small_word:
  assumes p: "p \<in> blocks V h" and sz: "sz \<le> bsize h" and j: "j < word_count sz"
  shows "p + 4 * of_nat j \<in> block_words h p" "unat (p + 4 * of_nat j) = unat p + 4 * j"
proof -
  have r: "frame_of p < 0x80000" using p in_large_region by (auto simp: blocks_def)
  have b: "unat (bsize h) \<le> 4096" by (cases h) (simp_all add: heap_class_args)
  have j': "4 * j + 4 \<le> unat (bsize h)" using j sz by (simp add: word_count_def word_le_nat_alt)
  have "unat p < 0x80000000" using r by (simp add: frame_of_def)
  then show u: "unat (p + 4 * of_nat j) = unat p + 4 * j" using j' b by (simp add: unat_word_ariths unat_of_nat)
  have "4 dvd unat p" using blocks_addr [OF p] by (simp add: data_addrs_def word_aligned_iff)
  then show "p + 4 * of_nat j \<in> block_words h p" using j' by (simp add: block_words_def word_aligned_iff u)
qed

lemma large_word:
  assumes b: "0x80000 \<le> b" "b + k \<le> 0xC0000" and sz: "unat sz + 4 \<le> 4096 * k" and j: "j < word_count sz"
  shows "unat (addr_of_frame b + 4 + 4 * of_nat j :: u32) = b * 4096 + (4 + 4 * j)"
    "frame_of (addr_of_frame b + 4 + 4 * of_nat j) \<in> pages_of (b, k)" "word_aligned (addr_of_frame b + 4 + 4 * of_nat j)"
    "addr_of_frame b + 4 + 4 * of_nat j \<noteq> (addr_of_frame b :: u32)"
proof -
  have j': "4 * j + 4 \<le> unat sz" using j by (simp add: word_count_def)
  then have lt: "4 + 4 * j < 4096 * k" using sz by simp
  have "b * 4096 + 4096 * k \<le> 0xC0000000" using b(2) by simp
  then have "b * 4096 + (4 + 4 * j) < 0xC0000000" using lt by simp
  then show u: "unat (addr_of_frame b + 4 + 4 * of_nat j :: u32) = b * 4096 + (4 + 4 * j)"
    using b by (simp add: unat_word_ariths unat_of_nat unat_addr_of_frame)
  have "(4 + 4 * j) div 4096 < k" using lt by (simp add: less_mult_imp_div_less mult.commute)
  then show "frame_of (addr_of_frame b + 4 + 4 * of_nat j) \<in> pages_of (b, k)"
    unfolding frame_of_def u by (simp add: pages_of_def)
  show "word_aligned (addr_of_frame b + 4 + 4 * of_nat j)" unfolding word_aligned_iff u by (simp add: dvd_add)
  have z: "unat (addr_of_frame b :: u32) = b * 4096" using b by (simp add: unat_addr_of_frame)
  show "addr_of_frame b + 4 + 4 * of_nat j \<noteq> (addr_of_frame b :: u32)"
  proof
    assume "addr_of_frame b + 4 + 4 * of_nat j = (addr_of_frame b :: u32)"
    then have "b * 4096 + (4 + 4 * j) = b * 4096" using u z by metis
    then show False by simp
  qed
qed

lemma owned_word:
  assumes inv: "heaps_ok V fl L H s" and o: "owned V fl L p sz" and j: "j < word_count sz"
  shows "p + 4 * of_nat j \<in> footprint p sz" "p + 4 * of_nat j \<in> data_addrs V"
    "i < word_count sz \<Longrightarrow> (p + 4 * of_nat i = p + 4 * of_nat j) = (i = j)"
proof -
  note I = heaps_okD [OF inv]
  have "p + 4 * of_nat j \<in> footprint p sz \<and> p + 4 * of_nat j \<in> data_addrs V \<and> (\<exists>u. \<forall>i<word_count sz. unat (p + 4 * of_nat i) = u + 4 * i)"
  proof (cases "sz \<le> 4096")
    case True
    then have p: "p \<in> blocks V (class_of sz)" using o by (simp add: owned_def allocated_def)
    note w = small_word [OF p class_of_least(1) [OF True]]
    show ?thesis using w(1) [OF j] w(2) block_words_addr [OF p w(1) [OF j]] True by (auto simp: footprint_def)
  next
    case False
    from I(2) obtain e where e: "e \<le> 0xC0000" "spans_ok e L H" by (rule large_okD)
    let ?b = "frame_of p" and ?k = "page_count sz"
    have x: "(?b, ?k) \<in> L" and p: "p = addr_of_frame ?b + 4" and sz: "unat sz + 4099 < 2 ^ 32"
      using o False by (auto simp: owned_def)
    then have xi: "(?b, ?k) \<in> L \<union> set H" by simp
    note S = spansD [OF e(2) xi e(1)]
    have b: "0x80000 \<le> ?b" "?b + ?k \<le> 0xC0000" using S(2,3) e(1) by simp_all
    note w = large_word [OF b page_count_word(4) [OF sz], folded p]
    have "pages_of (?b, ?k) \<subseteq> V" by (rule large_page_mapped(2) [OF I(2) x])
    then show ?thesis using w [OF j] w(1) False by (auto simp: footprint_def data_addrs_def)
  qed
  then show "p + 4 * of_nat j \<in> footprint p sz" "p + 4 * of_nat j \<in> data_addrs V"
    "i < word_count sz \<Longrightarrow> (p + 4 * of_nat i = p + 4 * of_nat j) = (i = j)"
    using j by (metis, metis, metis add_left_cancel mult_cancel1 zero_neq_numeral)
qed

lemma owned_low: "owned V fl L p sz \<Longrightarrow> sz \<le> 4096 \<Longrightarrow> frame_of p < 0x80000"
  using in_large_region by (auto simp: owned_def allocated_def blocks_def)

lemma owned_large:
  assumes lo: "large_ok V L H s" and o: "owned V fl L p sz" and sz: "\<not> sz \<le> 4096"
  shows "(frame_of p, page_count sz) \<in> L" "p = addr_of_frame (frame_of p) + 4" "0x80000 \<le> frame_of p"
    "pages_of (frame_of p, page_count sz) \<subseteq> {q\<in>V. 0x80000 \<le> q}"
proof -
  show x: "(frame_of p, page_count sz) \<in> L" and "p = addr_of_frame (frame_of p) + 4" using o sz by (auto simp: owned_def)
  show b: "0x80000 \<le> frame_of p" using large_word_addr(5) [OF lo, of "(frame_of p, page_count sz)"] x by simp
  show "pages_of (frame_of p, page_count sz) \<subseteq> {q\<in>V. 0x80000 \<le> q}"
    using large_page_mapped(2) [OF lo x] b by (auto simp: pages_of_def)
qed

lemma footprint_low:
  assumes "owned V fl L p sz" "sz \<le> 4096" "a \<in> footprint p sz"
  shows "frame_of a < 0x80000"
proof -
  have p: "p \<in> blocks V (class_of sz)" using assms by (simp add: owned_def allocated_def)
  then have "frame_of a = frame_of p" using block_word_div(2) assms(2,3) by (auto simp: footprint_def)
  then show ?thesis using owned_low [OF assms(1,2)] by simp
qed

lemma footprint_disjoint:
  assumes inv: "heaps_ok V fl L H s" and o: "owned V fl L p sz" "owned V fl L q z" "p \<noteq> q"
  shows "footprint p sz \<inter> footprint q z = {}"
proof -
  note I = heaps_okD [OF inv]
  from I(2) obtain e where e: "e \<le> 0xC0000" "spans_ok e L H" by (rule large_okD)
  have high: "0x80000 \<le> frame_of a" if "owned V fl L r y" "\<not> y \<le> 4096" "a \<in> footprint r y" for r y a
    using owned_large(3) [OF I(2) that(1,2)] that(2,3) by (auto simp: footprint_def pages_of_def)
  consider "sz \<le> 4096" "z \<le> 4096" | "\<not> sz \<le> 4096" "\<not> z \<le> 4096" | "(sz \<le> 4096) \<noteq> (z \<le> 4096)" by blast
  then show ?thesis
  proof cases
    case 1
    then have "p \<in> blocks V (class_of sz)" "q \<in> blocks V (class_of z)" using o by (auto simp: owned_def allocated_def)
    from block_words_disjoint [OF this o(3)] show ?thesis using 1 by (auto simp: footprint_def)
  next
    case 2
    note x = owned_large [OF I(2) o(1) 2(1)] and y = owned_large [OF I(2) o(2) 2(2)]
    have "(frame_of p, page_count sz) \<noteq> (frame_of q, page_count z)"
    proof
      assume "(frame_of p, page_count sz) = (frame_of q, page_count z)"
      then have "frame_of p = frame_of q" by simp
      then show False using x(2) y(2) o(3) by metis
    qed
    then have "pages_of (frame_of p, page_count sz) \<inter> pages_of (frame_of q, page_count z) = {}"
      using e(2) x(1) y(1) unfolding spans_ok_def by blast
    then show ?thesis using 2 by (auto simp: footprint_def)
  next
    case 3
    then show ?thesis using footprint_low o(1,2) high by fastforce
  qed
qed

text \<open>The words that the allocator keeps for itself are in no block in use.\<close>

lemma footprint_private:
  assumes inv: "heaps_ok V fl L H s" and o: "owned V fl L p sz" and a: "a \<in> footprint p sz"
  shows "a \<notin> large_words L H" "b \<in> set (fl g) \<Longrightarrow> a \<noteq> b"
proof -
  note I = heaps_okD [OF inv]
  from I(2) obtain e where e: "e \<le> 0xC0000" "spans_ok e L H" by (rule large_okD)
  show "a \<notin> large_words L H"
  proof (cases "sz \<le> 4096")
    case True
    then show ?thesis using footprint_low [OF o True a] large_words_high(2) [OF I(2)] by fastforce
  next
    case False
    note x = owned_large [OF I(2) o False]
    have xi: "(frame_of p, page_count sz) \<in> L \<union> set H" using x(1) by simp
    have fa: "frame_of a \<in> pages_of (frame_of p, page_count sz)" "a \<noteq> addr_of_frame (frame_of p)"
      using a False by (auto simp: footprint_def)
    show ?thesis
    proof
      assume "a \<in> large_words L H"
      then obtain y where y: "y \<in> L \<union> set H" "a = addr_of_frame (fst y) \<or> y \<in> set H \<and> a = addr_of_frame (fst y) + 4"
        by (auto simp: large_words_def)
      then have "frame_of a = fst y" using large_word_addr(3,4) [OF I(2) y(1)] by auto
      then have "y = (frame_of p, page_count sz)" using spansD(6) [OF e(2) xi e(1) y(1)] fa(1) by auto
      then show False using y(2) fa(2) x(1) e(2) by (auto simp: spans_ok_def)
    qed
  qed
  show "a \<noteq> b" if b: "b \<in> set (fl g)"
  proof (cases "sz \<le> 4096")
    case True
    then show ?thesis using free_block_apart [OF I(1) _ _ b, of p "class_of sz" a] o a by (auto simp: owned_def footprint_def)
  next
    case False
    have "b \<in> blocks V g" using domain_okD(8) [OF heap_invD(2) [OF I(1) UNIV_I]] b by blast
    then have "frame_of b < 0x80000" using in_large_region by (auto simp: blocks_def)
    then show ?thesis using owned_large(3) [OF I(2) o False] a False by (auto simp: footprint_def pages_of_def)
  qed
qed

section \<open>The budget\<close>

definition budget :: "nat \<Rightarrow> nat set \<Rightarrow> kstate \<Rightarrow> bool" where
  "budget n V s \<longleftrightarrow> (\<forall>h. card {p\<in>V. in_region h p} + n \<le> 0x10000)
     \<and> frame_of (l_next_virt_addr (large_dom s)) + n \<le> 0xC0000 \<and> 3 * n \<le> card (free_low s)"

lemma region_pages:
  assumes "heap_inv UNIV V fl s"
  shows "card {p\<in>V. in_region h p} = frame_of (next_virt_addr (heaps s h)) - region_base h" "finite {p\<in>V. in_region h p}"
  using domain_okD(4) [OF heap_invD(2) [OF assms UNIV_I, of h]] by simp_all

lemma free_low_same: "used s' = used s \<Longrightarrow> safe_frame s' = safe_frame s \<Longrightarrow> free_low s' = free_low s"
  by (simp add: free_low_used)

lemma small_alloc_run:
  assumes inv: "heaps_ok V fl L H s" and b: "budget (Suc n) V s"
  shows "\<exists>p V' fl' s'. heap_domain_alloc h s = Inr (p, s') \<and> alloc_spec h V fl s p V' fl' s'
    \<and> heaps_ok V' fl' L H s' \<and> budget n V' s'"
proof (cases "fl h")
  case (Cons x xs)
  note I = heaps_okD [OF inv]
  let ?s = "pop_block h (peek load32 s x) s"
  have sp: "alloc_spec h V fl s x V (fl(h := xs)) ?s" by (rule alloc_fast_spec [OF I(1) Cons])
  have pk: "peek load32 ?s = peek load32 s" by (rule peek_cong) (simp_all add: pop_block_def)
  have d: "large_dom ?s = large_dom s" "used ?s = used s" "safe_frame ?s = safe_frame s"
    by (simp_all add: pop_block_def used_def safe_frame_def heap_start_def kernel_page_tables_base_def kernel_page_table_def)
  have "large_ok V L H ?s" by (rule large_ok_cong [OF I(2) d(1)]) (simp_all add: pk)
  moreover have "heap_inv UNIV V (fl(h := xs)) ?s" using sp by (simp add: alloc_spec_def)
  moreover have "\<forall>g. card {p\<in>V. in_region g p} + n \<le> 0x10000" using b unfolding budget_def by (metis add_Suc_right Suc_leD)
  then have "budget n V ?s" using b free_low_same [OF d(2,3)] by (simp add: budget_def d(1))
  ultimately show ?thesis using heap_domain_alloc_fast [OF I(1) UNIV_I Cons] sp by (auto simp: heaps_ok_def)
next
  case Nil
  note I = heaps_okD [OF inv]
  let ?a = "next_virt_addr (heaps s h)"
  note D = domain_okD [OF heap_invD(2) [OF I(1) UNIV_I, of h]]
  have "card {p\<in>V. in_region h p} + Suc n \<le> 0x10000" using b unfolding budget_def by blast
  then have room: "in_region h (frame_of ?a)" using region_pages(1) [OF I(1), of h] D(5) by (simp add: in_region_def)
  have fr: "3 \<le> card (free_low s)" using b by (simp add: budget_def)
  let ?V = "insert (frame_of ?a) V"
  from alloc_slow_spec [OF I(1) Nil room fr] obtain s' N where
    a: "heap_domain_alloc h s = Inr (?a, s')" "alloc_spec h V fl s ?a ?V (fl(h := tl (page_blocks ?a (bsize h)))) s'"
      "new_pages V s s' N" "card N \<le> 3" "large_dom s' = large_dom s" "safe_frame s' = safe_frame s" by blast
  have low: "frame_of ?a < 0x80000" by (rule in_large_region [OF room])
  have "large_ok ?V L H s'"
  proof (rule large_ok_cong [OF I(2) a(5)])
    show "{p \<in> ?V. 0x80000 \<le> p} = {p \<in> V. 0x80000 \<le> p}" using low by auto
    show "peek load32 s' w = peek load32 s w" if "w \<in> large_words L H" for w
      using a(3) large_words_high(1) [OF I(2) that] by (simp add: new_pages_def)
  qed
  then have ok: "heaps_ok ?V (fl(h := tl (page_blocks ?a (bsize h)))) L H s'" using a(2) by (simp add: heaps_ok_def alloc_spec_def)
  have cd: "card {p \<in> ?V. in_region g p} + n \<le> 0x10000" for g
  proof -
    have "{p \<in> ?V. in_region g p} \<subseteq> insert (frame_of ?a) {p\<in>V. in_region g p}" by auto
    then have "card {p \<in> ?V. in_region g p} \<le> card (insert (frame_of ?a) {p\<in>V. in_region g p})"
      using region_pages(2) [OF I(1)] by (intro card_mono) simp_all
    also have "\<dots> \<le> Suc (card {p\<in>V. in_region g p})" using region_pages(2) [OF I(1)] by (simp add: card_insert_if)
    finally have "card {p \<in> ?V. in_region g p} + n \<le> card {p\<in>V. in_region g p} + Suc n" by simp
    moreover have "card {p\<in>V. in_region g p} + Suc n \<le> 0x10000" using b unfolding budget_def by blast
    ultimately show ?thesis by (rule order_trans)
  qed
  have "card (free_low s) \<le> card (free_low s') + 3"
    using a(3,4,6) by (intro frames_left [of s' s N]) (simp_all add: new_pages_def)
  then have "budget n ?V s'" using cd b by (simp add: budget_def a(5))
  then show ?thesis using a(1,2) ok by blast
qed

section \<open>The kernel's allocator satisfies the contract\<close>

definition kernel_heap :: "nat \<Rightarrow> (u32 \<rightharpoonup> u32) \<Rightarrow> kstate \<Rightarrow> bool" where
  "kernel_heap n B s \<longleftrightarrow> (\<exists>V fl L H. heaps_ok V fl L H s \<and> budget n V s \<and> (\<forall>p sz. B p = Some sz \<longrightarrow> owned V fl L p sz))"

lemma owned_words_same:
  assumes inv: "heaps_ok V fl L H s" and B: "\<And>p sz. B p = Some sz \<Longrightarrow> owned V fl L p sz"
    and pk: "\<And>a p sz. B p = Some sz \<Longrightarrow> a \<in> footprint p sz \<Longrightarrow> a \<in> data_addrs V \<Longrightarrow> peek load32 s' a = peek load32 s a"
  shows "same_words B s s'"
  using owned_word(1,2) [OF inv B] pk by blast

lemma kernel_alloc_small:
  assumes h: "kernel_heap (Suc n) B s" and sz: "sz \<le> 4096"
  shows "\<exists>p s'. kmalloc sz s = Inr (p, s') \<and> B p = None \<and> kernel_heap n (B(p \<mapsto> sz)) s' \<and> same_words B s s'"
proof -
  from h obtain V fl L H where inv: "heaps_ok V fl L H s" and b: "budget (Suc n) V s"
    and B: "\<And>p z. B p = Some z \<Longrightarrow> owned V fl L p z" unfolding kernel_heap_def by blast
  let ?h = "class_of sz"
  from small_alloc_run [OF inv b, of ?h] obtain p V' fl' s' where
    p: "heap_domain_alloc ?h s = Inr (p, s')" "alloc_spec ?h V fl s p V' fl' s'" "heaps_ok V' fl' L H s'" "budget n V' s'" by blast
  have sp: "p \<in> blocks V' ?h" "p \<notin> allocated V fl ?h" "allocated V' fl' ?h = insert p (allocated V fl ?h)"
    "\<And>g. g \<noteq> ?h \<Longrightarrow> allocated V' fl' g = allocated V fl g" "\<And>w. w \<in> data_addrs V \<Longrightarrow> peek load32 s' w = peek load32 s w" "V \<subseteq> V'"
    using p(2) by (auto simp: alloc_spec_def)
  have fresh: "B p = None"
  proof (cases "B p")
    case (Some z)
    note o = B [OF Some]
    show ?thesis
    proof (cases "z \<le> 4096")
      case True
      then have z: "p \<in> allocated V fl (class_of z)" using o by (simp add: owned_def)
      then have "p \<in> blocks V' (class_of z)" using sp(6) by (auto simp: allocated_def blocks_def)
      then show ?thesis using blocks_disjoint [OF sp(1)] z sp(2) by auto
    next
      case False
      have "frame_of p < 0x80000" using sp(1) in_large_region by (auto simp: blocks_def)
      then show ?thesis using owned_large(3) [OF heaps_okD(2) [OF inv] o False] by simp
    qed
  qed
  have keep: "owned V' fl' L q z" if "owned V fl L q z" for q z
    using that sp(3,4) by (cases "class_of z = ?h") (auto simp: owned_def)
  have new: "owned V' fl' L p sz" using sz sp(3) by (simp add: owned_def)
  have "kernel_heap n (B(p \<mapsto> sz)) s'"
    unfolding kernel_heap_def using p(3,4) keep B new by (intro exI [of _ V'] exI [of _ fl'] exI [of _ L] exI [of _ H]) simp
  moreover have "same_words B s s'" by (rule owned_words_same [OF inv B]) (use sp(5) in auto)
  ultimately show ?thesis using p(1) fresh by (simp add: kmalloc_class [OF sz])
qed

lemma blocks_low: "{p\<in>V'. p < 0x80000} = {p\<in>V. p < 0x80000} \<Longrightarrow> blocks V' h = blocks V h"
  using in_large_region by (auto simp: blocks_def)

lemma regions_low: "{p\<in>V'. p < 0x80000} = {p\<in>V. p < 0x80000} \<Longrightarrow> {p\<in>V'. in_region h p} = {p\<in>V. in_region h p}"
  using in_large_region by blast

lemma kernel_alloc_large:
  assumes h: "kernel_heap (page_count sz + n) B s" and sz: "\<not> sz \<le> 4096"
  shows "\<exists>p s'. kmalloc sz s = Inr (p, s') \<and> B p = None \<and> kernel_heap n (B(p \<mapsto> sz)) s' \<and> same_words B s s'"
proof -
  let ?k = "page_count sz"
  from h obtain V fl L H where inv: "heaps_ok V fl L H s" and b: "budget (?k + n) V s"
    and B: "\<And>p z. B p = Some z \<Longrightarrow> owned V fl L p z" unfolding kernel_heap_def by blast
  note I = heaps_okD [OF inv]
  have bb: "card {p\<in>V. in_region g p} + (?k + n) \<le> 0x10000" "frame_of (l_next_virt_addr (large_dom s)) + (?k + n) \<le> 0xC0000"
    "3 * (?k + n) \<le> card (free_low s)" for g using b unfolding budget_def by blast+
  have "?k \<le> 0x10000" using bb(1) [of Heap_64] by simp
  then have nw: "unat sz + 4099 < 2 ^ 32" using dividend_less_times_div [of 4096 "unat sz + 4099", folded page_count_def] by simp
  have c: "can_alloc_large ?k H s" using bb(2,3) by (simp add: can_alloc_large_def)
  have sz': "4096 < sz" using sz by simp
  let ?b = "place ?k H s" and ?H = "slots_left ?k H"
  from kmalloc_large_run [OF inv sz' nw c] obtain V' s' where
    r: "kmalloc sz s = Inr (addr_of_frame ?b + 4, s')" "heaps_ok V' fl (insert (?b, ?k) L) ?H s'" "(?b, ?k) \<notin> L"
      "\<And>a. a \<in> data_addrs (V - {?b}) \<Longrightarrow> peek load32 s' a = peek load32 s a"
      "{p\<in>V'. p < 0x80000} = {p\<in>V. p < 0x80000}" "card (free_low s) \<le> card (free_low s') + 3 * ?k"
      "frame_of (l_next_virt_addr (large_dom s')) \<le> frame_of (l_next_virt_addr (large_dom s)) + ?k" by blast
  let ?p = "addr_of_frame ?b + 4 :: u32" and ?L = "insert (?b, ?k) L"
  note I' = heaps_okD [OF r(2)]
  from I'(2) obtain e where e: "e \<le> 0xC0000" "spans_ok e ?L ?H" by (rule large_okD)
  have bi: "(?b, ?k) \<in> ?L \<union> set ?H" by simp
  note S = spansD [OF e(2) bi e(1)]
  have b': "?b < 0xC0000" "0x80000 \<le> ?b" by (use S(2,4) in simp_all)
  have fp: "frame_of ?p = ?b" by (rule page_words(1) [OF b'(1)])
  have off: "fst x \<noteq> ?b \<and> ?b \<notin> pages_of x" if x: "x \<in> L" for x
  proof -
    have "x \<in> ?L \<union> set ?H" "(?b, ?k) \<noteq> x" using x r(3) by auto
    then show ?thesis using spansD(6,7) [OF e(2) _ e(1) bi, of x] by auto
  qed
  have fresh: "B ?p = None"
  proof (cases "B ?p")
    case (Some z)
    note o = B [OF Some]
    show ?thesis
    proof (cases "z \<le> 4096")
      case True
      then show ?thesis using owned_low [OF o True] b'(2) by (simp add: fp)
    next
      case False
      from owned_large(1) [OF I(2) o False] off show ?thesis unfolding fp by fastforce
    qed
  qed
  have keep: "owned V' fl ?L q z" if "owned V fl L q z" for q z
    using that blocks_low [OF r(5)] by (auto simp: owned_def allocated_def)
  have new: "owned V' fl ?L ?p sz" using sz nw by (simp add: owned_def fp)
  have "card {p\<in>V. in_region g p} + n \<le> 0x10000" for g using bb(1) [of g] by simp
  moreover have "frame_of (l_next_virt_addr (large_dom s')) + n \<le> 0xC0000" "3 * n \<le> card (free_low s')"
    using bb(2,3) r(6,7) by simp_all
  ultimately have "budget n V' s'" unfolding budget_def regions_low [OF r(5)] by blast
  then have "kernel_heap n (B(?p \<mapsto> sz)) s'"
    unfolding kernel_heap_def using r(2) keep B new by (intro exI [of _ V'] exI [of _ fl] exI [of _ ?L] exI [of _ ?H]) simp
  moreover have "same_words B s s'"
  proof (rule owned_words_same [OF inv B])
    fix a q z assume q: "B q = Some z" "a \<in> footprint q z" "a \<in> data_addrs V"
    have "frame_of a \<noteq> ?b"
    proof (cases "z \<le> 4096")
      case True
      then show ?thesis using footprint_low [OF B [OF q(1)] True q(2)] b'(2) by auto
    next
      case False
      then show ?thesis using off [OF owned_large(1) [OF I(2) B [OF q(1)] False]] q(2) by (auto simp: footprint_def)
    qed
    then show "peek load32 s' a = peek load32 s a" using q(3) by (intro r(4)) (simp add: data_addrs_def)
  qed
  ultimately show ?thesis using r(1) fresh by blast
qed

lemma budget_less:
  assumes "budget n V s" "{p\<in>V'. p < 0x80000} = {p\<in>V. p < 0x80000}"
    "l_next_virt_addr (large_dom s') = l_next_virt_addr (large_dom s)" "card (free_low s) \<le> card (free_low s')"
  shows "budget n V' s'"
  using assms(1,3,4) unfolding budget_def regions_low [OF assms(2)] by simp

lemma release_small:
  assumes inv: "heaps_ok V fl L H s" and p: "p \<in> allocated V fl h"
  shows "\<exists>s'. kfree p s = Inr (0, s') \<and> heaps_ok V (fl(h := p # fl h)) L H s'
    \<and> large_dom s' = large_dom s \<and> free_low s' = free_low s \<and> (\<forall>a\<in>data_addrs V. a \<noteq> p \<longrightarrow> peek load32 s' a = peek load32 s a)
    \<and> console s' = console s"
proof -
  note I = heaps_okD [OF inv]
  have b: "p \<in> blocks V h" "p \<notin> set (fl h)" and r: "in_region h (frame_of p)" using p by (auto simp: allocated_def blocks_def)
  from heap_domain_free_run [OF I(1) UNIV_I b] obtain s' where
    s': "heap_domain_free h p s = Inr ((), s')" "heap_inv UNIV V (fl(h := p # fl h)) s'"
      "\<And>a. a \<in> data_addrs V \<Longrightarrow> a \<noteq> p \<Longrightarrow> peek load32 s' a = peek load32 s a"
    and e: "s' = s\<lparr>mem := mem s', heaps := (heaps s)(h := (heaps s h)\<lparr>next_free_block := p\<rparr>)\<rparr>" by blast
  have d: "large_dom s' = large_dom s" and c: "console s' = console s" by (subst e, simp)+
  have f: "free_low s' = free_low s"
    by (subst e) (simp add: free_low_def safe_frame_def heap_start_def kernel_page_tables_base_def kernel_page_table_def)
  have "large_ok V L H s'"
  proof (rule large_ok_cong [OF I(2) d refl])
    fix a assume a: "a \<in> large_words L H"
    have "a \<noteq> p" using large_words_high(2) [OF I(2) a] in_large_region [OF r] by auto
    then show "peek load32 s' a = peek load32 s a" by (rule s'(3) [OF large_words_high(1) [OF I(2) a]])
  qed
  then show ?thesis using s' d c f by (intro exI [of _ s']) (simp add: kfree_def block_region [OF r] heaps_ok_def)
qed

lemma kernel_release:
  assumes h: "kernel_heap n B s" and p: "B p = Some sz"
  shows "\<exists>q s'. kfree p s = Inr (q, s') \<and> kernel_heap n (B(p := None)) s' \<and> same_words (B(p := None)) s s'"
proof -
  from h obtain V fl L H where inv: "heaps_ok V fl L H s" and b: "budget n V s"
    and B: "\<And>p z. B p = Some z \<Longrightarrow> owned V fl L p z" unfolding kernel_heap_def by blast
  note I = heaps_okD [OF inv] and o = B [OF p]
  have B': "owned V fl L q z" "q \<noteq> p" if "(B(p := None)) q = Some z" for q z using that B by (auto split: if_splits)
  have apart: "a \<notin> footprint p sz" if "(B(p := None)) q = Some z" "a \<in> footprint q z" for a q z
    using footprint_disjoint [OF inv B'(1) [OF that(1)] o B'(2) [OF that(1)]] that(2) by blast
  show ?thesis
  proof (cases "sz \<le> 4096")
    case True
    let ?h = "class_of sz"
    have pa: "p \<in> allocated V fl ?h" using o True by (simp add: owned_def)
    from release_small [OF inv pa] obtain s' where
      s': "kfree p s = Inr (0, s')" "heaps_ok V (fl(?h := p # fl ?h)) L H s'" "large_dom s' = large_dom s" "free_low s' = free_low s"
        "\<And>a. a \<in> data_addrs V \<Longrightarrow> a \<noteq> p \<Longrightarrow> peek load32 s' a = peek load32 s a" by blast
    have "owned V (fl(?h := p # fl ?h)) L q z" if "(B(p := None)) q = Some z" for q z
      using B' [OF that] by (auto simp: owned_def allocated_def)
    moreover have "budget n V s'" by (rule budget_less [OF b refl]) (simp_all add: s'(3,4))
    ultimately have "kernel_heap n (B(p := None)) s'" unfolding kernel_heap_def using s'(2) by blast
    moreover have "same_words (B(p := None)) s s'"
    proof (rule owned_words_same [OF inv B'(1)])
      fix a q z assume q: "(B(p := None)) q = Some z" "a \<in> footprint q z" "a \<in> data_addrs V"
      have "p \<in> blocks V ?h" using pa by (simp add: allocated_def)
      then have "p \<in> footprint p sz" using True block_word_self by (auto simp: footprint_def)
      then have "a \<noteq> p" using apart [OF q(1,2)] by auto
      then show "peek load32 s' a = peek load32 s a" by (rule s'(5) [OF q(3)])
    qed
    ultimately show ?thesis using s'(1) by blast
  next
    case False
    let ?b = "frame_of p" and ?k = "page_count sz"
    note x = owned_large [OF I(2) o False]
    from kfree_large_run [OF inv x(1)] obtain s' F where
      s': "kfree (addr_of_frame ?b + 4) s = Inr (0, s')" "heaps_ok (V - {?b + 1..<?b + ?k}) fl (L - {(?b, ?k)}) ((?b, ?k) # H) s'"
        "used s' = used s - F" "safe_frame s' = safe_frame s" "l_next_virt_addr (large_dom s') = l_next_virt_addr (large_dom s)"
        "\<And>a. a \<in> data_addrs (V - pages_of (?b, ?k)) \<Longrightarrow> peek load32 s' a = peek load32 s a" by blast
    let ?V = "V - {?b + 1..<?b + ?k}"
    have low: "{q\<in>?V. q < 0x80000} = {q\<in>V. q < 0x80000}" using x(3) by auto
    have "owned ?V fl (L - {(?b, ?k)}) q z" if q: "(B(p := None)) q = Some z" for q z
    proof (cases "z \<le> 4096")
      case True
      then show ?thesis using B'(1) [OF q] blocks_low [OF low] by (simp add: owned_def allocated_def)
    next
      case False
      note y = owned_large [OF I(2) B'(1) [OF q] False]
      have "frame_of q \<noteq> ?b" using y(2) x(2) B'(2) [OF q] by metis
      then show ?thesis using B'(1) [OF q] False by (auto simp: owned_def)
    qed
    moreover have "free_low s \<subseteq> free_low s'" unfolding free_low_used using s'(3,4) by auto
    then have "card (free_low s) \<le> card (free_low s')" by (intro card_mono) simp_all
    then have "budget n ?V s'" by (intro budget_less [OF b low s'(5)])
    ultimately have "kernel_heap n (B(p := None)) s'" unfolding kernel_heap_def using s'(2) by blast
    moreover have "same_words (B(p := None)) s s'"
    proof (rule owned_words_same [OF inv B'(1)])
      fix a q z assume q: "(B(p := None)) q = Some z" "a \<in> footprint q z" "a \<in> data_addrs V"
      have "frame_of a \<notin> pages_of (?b, ?k)"
      proof (cases "z \<le> 4096")
        case True
        then show ?thesis using footprint_low [OF B'(1) [OF q(1)] True q(2)] x(3) by (auto simp: pages_of_def)
      next
        case zl: False
        note y = owned_large [OF I(2) B'(1) [OF q(1)] zl]
        have "(frame_of q, page_count z) \<noteq> (?b, ?k)"
        proof
          assume "(frame_of q, page_count z) = (?b, ?k)"
          then have "frame_of q = ?b" by simp
          then show False using y(2) x(2) B'(2) [OF q(1)] by metis
        qed
        moreover from I(2) obtain e where "e \<le> 0xC0000" "spans_ok e L H" by (rule large_okD)
        ultimately have "pages_of (frame_of q, page_count z) \<inter> pages_of (?b, ?k) = {}"
          using y(1) x(1) unfolding spans_ok_def by blast
        then show ?thesis using q(2) zl by (auto simp: footprint_def)
      qed
      then show "peek load32 s' a = peek load32 s a" using q(3) by (intro s'(6)) (simp add: data_addrs_def)
    qed
    ultimately show ?thesis using s'(1) x(2) by metis
  qed
qed

lemma kernel_write:
  assumes h: "kernel_heap n B s" and p: "B p = Some sz" and j: "j < word_count sz"
  shows "load32 (p + 4 * of_nat j) s = Inr (peek load32 s (p + 4 * of_nat j), s)"
    "\<exists>s'. store32 (p + 4 * of_nat j) w s = Inr ((), s') \<and> kernel_heap n B s' \<and> (\<forall>q z i. B q = Some z \<longrightarrow> i < word_count z \<longrightarrow>
        peek load32 s' (q + 4 * of_nat i) = (if q = p \<and> i = j then w else peek load32 s (q + 4 * of_nat i)))"
proof -
  from h obtain V fl L H where inv: "heaps_ok V fl L H s" and b: "budget n V s"
    and B: "\<And>p z. B p = Some z \<Longrightarrow> owned V fl L p z" unfolding kernel_heap_def by blast
  note I = heaps_okD [OF inv] and o = B [OF p]
  let ?a = "p + 4 * of_nat j"
  note aw = owned_word [OF inv o j]
  have ok: "mem_only_ok UNIV V s s" using I(3) by simp
  show "load32 ?a s = Inr (peek load32 s ?a, s)" by (rule data.rd_peek [OF ok aw(2)])
  from data.wr_peek [OF ok aw(2), of w] obtain t where
    t: "store32 ?a w s = Inr ((), t)" "mem_only_ok UNIV V s t"
      "\<And>c. c \<in> data_addrs V \<Longrightarrow> peek load32 t c = (if c = ?a then w else peek load32 s c)" by blast
  note priv = footprint_private [OF inv o aw(1)]
  have "heaps_ok V fl L H t"
  proof (rule heaps_ok_write [OF inv t(2)])
    fix g c assume c: "c \<in> set (fl g)"
    then have "c \<in> blocks V g" using domain_okD(8) [OF heap_invD(2) [OF I(1) UNIV_I]] by blast
    then show "peek load32 t c = peek load32 s c" using t(3) [OF blocks_addr] priv(2) [OF c] by auto
  next
    fix c assume c: "c \<in> large_words L H"
    then show "peek load32 t c = peek load32 s c" using t(3) [OF large_words_high(1) [OF I(2) c]] priv(1) by auto
  qed
  moreover have "t\<lparr>mem := mem s\<rparr> = s" using t(2) by simp
  then have fr: "large_dom t = large_dom s" "free_low t = free_low s"
    using vm_frame_simps(4,6) [OF vm_frame_mem_only] mem_only_frame [of t s] mem_only(4) by metis+
  then have "budget n V t" by (intro budget_less [OF b refl]) simp_all
  ultimately have "kernel_heap n B t" unfolding kernel_heap_def using B by blast
  moreover have "peek load32 t (q + 4 * of_nat i) = (if q = p \<and> i = j then w else peek load32 s (q + 4 * of_nat i))"
    if q: "B q = Some z" "i < word_count z" for q z i
  proof (cases "q = p")
    case True
    then have "z = sz" using q(1) p by simp
    then show ?thesis using t(3) [OF owned_word(2) [OF inv B [OF q(1)] q(2)]] aw(3) [of i] q(2) True by simp
  next
    case False
    have "q + 4 * of_nat i \<noteq> ?a"
      using footprint_disjoint [OF inv B [OF q(1)] o False] owned_word(1) [OF inv B [OF q(1)] q(2)] aw(1) by auto
    then show ?thesis using t(3) [OF owned_word(2) [OF inv B [OF q(1)] q(2)]] False by simp
  qed
  ultimately show "\<exists>s'. store32 ?a w s = Inr ((), s') \<and> kernel_heap n B s' \<and> (\<forall>q z i. B q = Some z \<longrightarrow> i < word_count z \<longrightarrow>
        peek load32 s' (q + 4 * of_nat i) = (if q = p \<and> i = j then w else peek load32 s (q + 4 * of_nat i)))"
    using t(1) by blast
qed

interpretation kernel: block_store kmalloc kfree alloc_weight kernel_heap
proof (unfold_locales, goal_cases)
  case (1 sz n B s)
  then show ?case using kernel_alloc_small [of n B s sz] kernel_alloc_large [of sz n B s] by (auto simp: alloc_weight_def split: if_splits)
next
  case (2 n B s p sz)
  then show ?case by (rule kernel_release)
next
  case (3 n B s p sz j w)
  then show ?case by (rule kernel_write(2))
next
  case (4 n B s p sz j)
  then show ?case by (rule kernel_write(1))
qed

section \<open>From the boot on\<close>

lemma budget_mono: "budget n V s \<Longrightarrow> m \<le> n \<Longrightarrow> budget m V s"
  unfolding budget_def by (meson add_left_mono order_trans mult_le_mono2)

lemma premapped_high: "{p\<in>premapped. 0x80000 \<le> p} = {}"
proof -
  have "p < 0x80000" if "p \<in> premapped" for p
  proof -
    from that obtain h where "region_base h \<le> p" "p < region_base h + 256" by (auto simp: premapped_def)
    then show ?thesis by (cases h) (simp_all add: region_base_def)
  qed
  then show ?thesis by fastforce
qed

lemma boot_heaps_ok:
  assumes inv: "heap_inv UNIV premapped fl s" and l: "l_next_virt_addr (large_dom s) = 0x80000000" "l_next_free_virt (large_dom s) = 0"
  shows "heaps_ok premapped fl {} [] s"
proof -
  have "large_ok premapped {} [] s"
  proof (rule large_okI)
    show "l_next_virt_addr (large_dom s) = addr_of_frame 0x80000" using l(1) by (simp add: addr_of_frame_def)
    show "spans_ok 0x80000 {} []" by (simp add: spans_ok_def)
    show "{p \<in> premapped. 0x80000 \<le> p} = large_pages {} []" by (simp add: premapped_high large_pages_def)
  qed (use l(2) in simp_all)
  then show ?thesis using inv by (simp add: heaps_ok_def)
qed

lemma boot_budget:
  assumes inv: "heap_inv UNIV premapped fl s" and l: "l_next_virt_addr (large_dom s) = 0x80000000" and fr: "255736 \<le> card (free_low s)"
  shows "budget 65280 premapped s"
proof -
  have "card {p\<in>premapped. in_region h p} \<le> 256" for h
  proof -
    have "{p\<in>premapped. in_region h p} \<subseteq> {region_base h..<region_base h + 256}"
    proof
      fix p assume "p \<in> {p\<in>premapped. in_region h p}"
      then obtain g where g: "region_base g \<le> p" "p < region_base g + 256" and h: "in_region h p" by (auto simp: premapped_def)
      then have "in_region g p" by (simp add: in_region_def)
      then have "g = h" using region_unique h by blast
      then show "p \<in> {region_base h..<region_base h + 256}" using g by simp
    qed
    then have "card {p\<in>premapped. in_region h p} \<le> card {region_base h..<region_base h + 256}" by (intro card_mono) simp_all
    then show ?thesis by simp
  qed
  moreover have "frame_of 0x80000000 = 0x80000" by (simp add: frame_of_def)
  ultimately show ?thesis using fr by (auto simp: budget_def l intro: order_trans)
qed

lemma boot_kernel_heap:
  assumes "boot_ok s" "n \<le> 65280"
  shows "\<exists>s'. init_memory s = Inr ((), s') \<and> kernel_heap n Map.empty s'"
proof -
  from init_memory_heap [OF assms(1)] obtain s' fl where
    s': "init_memory s = Inr ((), s')" "heap_inv UNIV premapped fl s'"
      "l_next_virt_addr (large_dom s') = 0x80000000" "l_next_free_virt (large_dom s') = 0" "255736 \<le> card (free_low s')" by blast
  have "budget n premapped s'" by (rule budget_mono [OF boot_budget [OF s'(2,3,5)] assms(2)])
  then show ?thesis using s'(1) boot_heaps_ok [OF s'(2-4)] unfolding kernel_heap_def by fastforce
qed

section \<open>Properties\<close>

text \<open>
  C1: The heap refines a store of separate blocks.  Take any program of allocations of any sizes, releases, and reads and writes of words,
  that keeps the rules of a heap: it uses no released block, no word outside the size it asked for and reads no word it
  never wrote.  Run on the booted kernel it returns without a fault, and every read gives what was last written
  to that word, although the blocks of all sizes share one memory that the kernel pages in on demand and takes back.  The allocations may add up to
  65280 units, one for a block of at most 4096 bytes and one per page of a larger one.
\<close>

theorem heap_programs_correct:
  assumes "boot_ok s" "answers cs [] = Some out" "cost alloc_weight cs \<le> 65280"
  shows "\<exists>s'. bnd init_memory (\<lambda>_. run_cmds kmalloc kfree cs []) s = Inr (out, s')"
proof -
  from boot_kernel_heap [OF assms(1,3)] obtain t where
    t: "init_memory s = Inr ((), t)" "kernel_heap (cost alloc_weight cs) Map.empty t" by blast
  have "tracks Map.empty [] [] t" by (simp add: tracks_def variable_def)
  from kernel.client_correct [OF t(2) this assms(2)] show ?thesis using t(1) by auto
qed

theorem heap_programs_correct_witness:
  "\<exists>s'. bnd init_memory (\<lambda>_. run_cmds kmalloc kfree
     [Malloc 100, Malloc 8192, Put 0 3 7, Put 1 2000 9, Free 0, Malloc 64, Put 2 0 5, Get 1 2000, Free 1, Malloc 5000, Put 3 1 4, Get 2 0, Get 3 1] [])
     boot_state = Inr ([9, 5, 4], s')"
proof (rule heap_programs_correct [OF boot_state_ok])
  have wc: "word_count 100 = 25" "word_count 8192 = 2048" "word_count 64 = 16" "word_count 5000 = 1250"
    by (simp_all add: word_count_def)
  show "answers [Malloc 100, Malloc 8192, Put 0 3 7, Put 1 2000 9, Free 0, Malloc 64, Put 2 0 5, Get 1 2000, Free 1, Malloc 5000, Put 3 1 4, Get 2 0, Get 3 1] [] =
      Some [9, 5, 4]" by (simp add: variable_def wc numeral_2_eq_2 numeral_3_eq_3)
  show "cost alloc_weight [Malloc 100, Malloc 8192, Put 0 3 7, Put 1 2000 9, Free 0, Malloc 64, Put 2 0 5, Get 1 2000, Free 1, Malloc 5000, Put 3 1 4, Get 2 0, Get 3 1]
      \<le> 65280" by (simp add: alloc_weight_def page_count_def)
qed

section \<open>Allocations of more than a page\<close>

lemma unmapped_fault:
  assumes vm: "vm_inv A V s" and p: "ptrans (mem s) (dir_of s KDir) (frame_of a) = None" and a: "word_aligned a"
  shows "load32 a s = Inl (PageFault a)"
  using translate_wf [OF vm_invD(6) [OF vm], of a] vm_invD(3) [OF vm] p a by (simp add: load32_def)

lemma place_apart:
  assumes inv: "heaps_ok V fl (insert (b, k) L) H s" and n: "(b, k) \<notin> L" and x: "x \<in> L"
  shows "pages_of (b, k) \<inter> pages_of x = {}" "b \<notin> pages_of x" "0x80000 \<le> b" "pages_of (b, k) \<subseteq> V" "pages_of x \<subseteq> V"
proof -
  note lo = heaps_okD(2) [OF inv]
  from lo obtain e where e: "e \<le> 0xC0000" "spans_ok e (insert (b, k) L) H" by (rule large_okD)
  have bi: "(b, k) \<in> insert (b, k) L \<union> set H" by simp
  note S = spansD [OF e(2) bi e(1)]
  have ne: "x \<noteq> (b, k)" using n x by auto
  show dj: "pages_of (b, k) \<inter> pages_of x = {}" using e(2) x ne unfolding spans_ok_def by blast
  show "b \<notin> pages_of x" "0x80000 \<le> b" using dj S(2,5) by auto
  show "pages_of (b, k) \<subseteq> V" "pages_of x \<subseteq> V" using large_page_mapped(2) [OF lo] x by auto
qed

lemma boot_heap_large:
  "\<exists>fl. heaps_ok premapped fl {} [] boot_heap \<and> l_next_virt_addr (large_dom boot_heap) = 0x80000000 \<and> 255736 \<le> card (free_low boot_heap)"
proof -
  from init_memory_heap [OF boot_state_ok] obtain s fl where
    s: "init_memory boot_state = Inr ((), s)" "heap_inv UNIV premapped fl s"
      "l_next_virt_addr (large_dom s) = 0x80000000" "l_next_free_virt (large_dom s) = 0" "255736 \<le> card (free_low s)" by blast
  have "s = boot_heap" using s(1) by (simp add: boot_heap_def)
  then show ?thesis using s boot_heaps_ok [OF s(2-4)] by blast
qed

lemma boot_can_alloc_large: "k \<le> 1000 \<Longrightarrow> can_alloc_large k [] boot_heap"
  using boot_heap_large by (auto simp: can_alloc_large_def frame_of_def)

text \<open>The booted heap after one allocation of two pages and a header, which takes the first three pages of the large region.\<close>

lemma boot_one_large:
  "\<exists>V fl s. kmalloc 8192 boot_heap = Inr (0x80000004, s) \<and> heaps_ok V fl {(0x80000, 3)} [] s \<and> 255727 \<le> card (free_low s)"
proof -
  from boot_heap_large obtain fl where fl: "heaps_ok premapped fl {} [] boot_heap" "l_next_virt_addr (large_dom boot_heap) = 0x80000000"
    "255736 \<le> card (free_low boot_heap)" by blast
  have k: "page_count 8192 = 3" by (simp add: page_count_def)
  have sz: "4096 < (8192 :: u32)" "unat (8192 :: u32) + 4099 < 2 ^ 32" by simp_all
  have p: "place 3 [] boot_heap = 0x80000" "slots_left 3 [] = []" by (simp_all add: place_def slots_left_def reuses_def fl(2) frame_of_def)
  have a: "addr_of_frame 0x80000 + 4 = (0x80000004 :: u32)" by (simp add: addr_of_frame_def)
  have c: "can_alloc_large (page_count 8192) [] boot_heap" unfolding k by (rule boot_can_alloc_large) simp
  from kmalloc_large_run [OF fl(1) sz c] obtain V s where
    s: "kmalloc 8192 boot_heap = Inr (0x80000004, s)" "heaps_ok V fl {(0x80000, 3)} [] s"
      "card (free_low boot_heap) \<le> card (free_low s) + 3 * 3" unfolding k p a by blast
  then show ?thesis using fl(3) by (intro exI [of _ V] exI [of _ fl] exI [of _ s]) simp
qed

text \<open>
  C5: \<^verbatim>\<open>kmalloc\<close> of more than 4096 bytes.  While the head of the free list is long enough or the region has room, and
  frames are left, it returns an address four bytes into a fresh run of pages, all mapped, that holds the request and its header
  and meets no other allocation; the list of slots loses its head if that was used; the heap invariant
  holds, and neither another large allocation nor the size classes change a word.
\<close>

theorem kmalloc_large_correct:
  assumes "heaps_ok V fl L H s" "4096 < sz" "unat sz + 4099 < 2 ^ 32" "can_alloc_large (page_count sz) H s"
  shows "\<exists>b V' s'. kmalloc sz s = Inr (addr_of_frame b + 4, s') \<and> heaps_ok V' fl (insert (b, page_count sz) L) (slots_left (page_count sz) H) s'
    \<and> unat sz + 4 \<le> 4096 * page_count sz \<and> 0x80000 \<le> b \<and> pages_of (b, page_count sz) \<subseteq> V'
    \<and> (\<forall>x\<in>L. pages_of (b, page_count sz) \<inter> pages_of x = {} \<and> (\<forall>a\<in>data_addrs (pages_of x). peek load32 s' a = peek load32 s a))
    \<and> (\<forall>h. blocks V' h = blocks V h) \<and> (\<forall>a\<in>data_addrs V. frame_of a < 0x80000 \<longrightarrow> peek load32 s' a = peek load32 s a)"
proof -
  let ?k = "page_count sz"
  let ?b = "place ?k H s"
  from kmalloc_large_run [OF assms] obtain V' s' where
    r: "kmalloc sz s = Inr (addr_of_frame ?b + 4, s')" "heaps_ok V' fl (insert (?b, ?k) L) (slots_left ?k H) s'" "(?b, ?k) \<notin> L"
      "\<And>a. a \<in> data_addrs (V - {?b}) \<Longrightarrow> peek load32 s' a = peek load32 s a" "{p\<in>V'. p < 0x80000} = {p\<in>V. p < 0x80000}" by blast
  note lo = heaps_okD(2) [OF r(2)]
  have b: "0x80000 \<le> ?b" "pages_of (?b, ?k) \<subseteq> V'"
    using large_word_addr(5) [OF lo, of "(?b, ?k)"] large_page_mapped(2) [OF lo, of "(?b, ?k)"] by simp_all
  have "peek load32 s' a = peek load32 s a" if "x \<in> L" "a \<in> data_addrs (pages_of x)" for x a
    using place_apart(2) [OF r(2,3) that(1)] large_page_mapped(2) [OF heaps_okD(2) [OF assms(1)] that(1)] that(2)
    by (intro r(4)) (auto simp: data_addrs_def)
  moreover have "pages_of (?b, ?k) \<inter> pages_of x = {}" if "x \<in> L" for x by (rule place_apart(1) [OF r(2,3) that])
  moreover have "peek load32 s' a = peek load32 s a" if "a \<in> data_addrs V" "frame_of a < 0x80000" for a
    using that b(1) by (intro r(4)) (auto simp: data_addrs_def)
  ultimately show ?thesis using r(1,2) b page_count_word(4) [OF assms(3)] blocks_low [OF r(5)]
    by (intro exI [of _ ?b] exI [of _ V'] exI [of _ s']) simp
qed

theorem kmalloc_large_correct_witness:
  "\<exists>b V fl s. kmalloc 100000 boot_heap = Inr (addr_of_frame b + 4, s) \<and> heaps_ok V fl {(b, 25)} [] s \<and> pages_of (b, 25) \<subseteq> V"
proof -
  from boot_heap_large obtain fl where fl: "heaps_ok premapped fl {} [] boot_heap" by blast
  have k: "page_count 100000 = 25" by (simp add: page_count_def)
  have c: "can_alloc_large (page_count 100000) [] boot_heap" unfolding k by (rule boot_can_alloc_large) simp
  have "slots_left 25 [] = []" by (simp add: slots_left_def)
  then show ?thesis using kmalloc_large_correct [OF fl _ _ c] unfolding k by auto
qed

text \<open>
  C6: \<^verbatim>\<open>kfree\<close> of a large allocation of \<open>n\<close> pages.  All its pages but the first are unmapped, so that an access to them faults, and
  their \<open>n - 1\<close> frames are free again; the first page stays mapped and is the new head of the list of slots; every other allocation
  keeps its contents, and the invariant holds.
\<close>

theorem kfree_large_correct:
  assumes "heaps_ok V fl L H s" "(b, n) \<in> L"
  shows "\<exists>s'. kfree (addr_of_frame b + 4) s = Inr (0, s') \<and> heaps_ok (V - {b + 1..<b + n}) fl (L - {(b, n)}) ((b, n) # H) s'
    \<and> card (free_low s') = card (free_low s) + (n - 1)
    \<and> (\<forall>a. word_aligned a \<and> frame_of a \<in> {b + 1..<b + n} \<longrightarrow> load32 a s' = Inl (PageFault a))
    \<and> (\<forall>a\<in>data_addrs (V - pages_of (b, n)). load32 a s' = Inr (peek load32 s a, s'))"
proof -
  from kfree_large_run [OF assms] obtain s' F where
    r: "kfree (addr_of_frame b + 4) s = Inr (0, s')" "heaps_ok (V - {b + 1..<b + n}) fl (L - {(b, n)}) ((b, n) # H) s'"
      "F \<subseteq> used s \<inter> {safe_frame s..<0x40000}" "card F = n - 1" "used s' = used s - F" "safe_frame s' = safe_frame s"
      "\<And>p. p \<in> {b + 1..<b + n} \<Longrightarrow> ptrans (mem s') (dir_of s' KDir) p = None"
      "\<And>a. a \<in> data_addrs (V - pages_of (b, n)) \<Longrightarrow> peek load32 s' a = peek load32 s a" by blast
  note vm = heaps_okD(3) [OF r(2)]
  have "free_low s' = free_low s \<union> F" using r(3,5,6) by (auto simp: free_low_used)
  moreover have "free_low s \<inter> F = {}" using r(3) by (auto simp: free_low_used)
  moreover have "finite F" by (rule finite_subset [OF r(3)]) simp
  ultimately have "card (free_low s') = card (free_low s) + (n - 1)" using r(4) by (simp add: card_Un_disjoint)
  moreover have "load32 a s' = Inl (PageFault a)" if "word_aligned a" "frame_of a \<in> {b + 1..<b + n}" for a
    by (rule unmapped_fault [OF vm r(7) [OF that(2)] that(1)])
  moreover have "load32 a s' = Inr (peek load32 s a, s')" if "a \<in> data_addrs (V - pages_of (b, n))" for a
  proof -
    have ok: "mem_only_ok UNIV (V - {b + 1..<b + n}) s' s'" using vm by simp
    have "a \<in> data_addrs (V - {b + 1..<b + n})" using that by (auto simp: data_addrs_def pages_of_def)
    then show ?thesis using data.rd_peek [OF ok] r(8) [OF that] by simp
  qed
  ultimately show ?thesis using r(1,2) by blast
qed

theorem kfree_large_correct_witness:
  "\<exists>s s' V fl. kmalloc 8192 boot_heap = Inr (0x80000004, s) \<and> kfree 0x80000004 s = Inr (0, s')
    \<and> heaps_ok V fl {} [(0x80000, 3)] s' \<and> load32 0x80001000 s' = Inl (PageFault 0x80001000)"
proof -
  from boot_one_large obtain V fl s where s: "kmalloc 8192 boot_heap = Inr (0x80000004, s)" "heaps_ok V fl {(0x80000, 3)} [] s" by blast
  have a: "addr_of_frame 0x80000 + 4 = (0x80000004 :: u32)" "word_aligned 0x80001000" "frame_of 0x80001000 = 0x80001"
    by (simp_all add: addr_of_frame_def word_aligned_def frame_of_def)
  have x: "(0x80000, 3) \<in> {(0x80000 :: nat, 3 :: nat)}" by simp
  from kfree_large_correct [OF s(2) x] obtain s' where
    s': "kfree (addr_of_frame 0x80000 + 4) s = Inr (0, s')" "heaps_ok (V - {0x80000 + 1..<0x80000 + 3}) fl ({(0x80000, 3)} - {(0x80000, 3)}) [(0x80000, 3)] s'"
      "\<And>a. word_aligned a \<Longrightarrow> frame_of a \<in> {0x80000 + 1..<0x80000 + 3} \<Longrightarrow> load32 a s' = Inl (PageFault a)" by blast
  have "heaps_ok (V - {0x80000 + 1..<0x80000 + 3}) fl {} [(0x80000, 3)] s'" using s'(2) by simp
  then show ?thesis using s(1) s'(1) s'(3) [OF a(2)] unfolding a(1,3) by fastforce
qed

text \<open>
  C30: A released large allocation is reused.  After \<^verbatim>\<open>kfree\<close> of an allocation of \<open>n\<close> pages the next \<^verbatim>\<open>kmalloc\<close> that needs more than one
  and at most \<open>n\<close> pages returns the same address, and the slots that were free before are free again.
\<close>

theorem large_reuse:
  assumes "heaps_ok V fl L H s" "(b, n) \<in> L" "4096 < sz" "page_count sz \<le> n" "3 * page_count sz \<le> card (free_low s)"
  shows "\<exists>V' s'. bnd (kfree (addr_of_frame b + 4)) (\<lambda>_. kmalloc sz) s = Inr (addr_of_frame b + 4, s')
    \<and> heaps_ok V' fl (insert (b, page_count sz) (L - {(b, n)})) H s'"
proof -
  let ?k = "page_count sz"
  from kfree_large_run [OF assms(1,2)] obtain t F where
    t: "kfree (addr_of_frame b + 4) s = Inr (0, t)" "heaps_ok (V - {b + 1..<b + n}) fl (L - {(b, n)}) ((b, n) # H) t"
      "used t = used s - F" "safe_frame t = safe_frame s" by blast
  from heaps_okD(2) [OF assms(1)] obtain e where e: "e \<le> 0xC0000" "spans_ok e L H" by (rule large_okD)
  have "(b, n) \<in> L \<union> set H" using assms(2) by simp
  from spansD(3) [OF e(2) this e(1)] have "?k \<le> 0xC0000" using e(1) assms(4) by simp
  then have nw: "unat sz + 4099 < 2 ^ 32" using dividend_less_times_div [of 4096 "unat sz + 4099", folded page_count_def] by simp
  have r: "reuses ?k ((b, n) # H)" using assms(4) by (simp add: reuses_def)
  have "free_low s \<subseteq> free_low t" unfolding free_low_used using t(3,4) by auto
  then have "card (free_low s) \<le> card (free_low t)" by (intro card_mono) simp_all
  then have c: "can_alloc_large ?k ((b, n) # H) t" using r assms(5) by (simp add: can_alloc_large_def)
  have p: "place ?k ((b, n) # H) t = b" "slots_left ?k ((b, n) # H) = H" using r by (simp_all add: place_def slots_left_def)
  from kmalloc_large_run [OF t(2) assms(3) nw c] show ?thesis using t(1) unfolding p by auto
qed

theorem large_reuse_witness:
  "\<exists>s s'. kmalloc 8192 boot_heap = Inr (0x80000004, s) \<and> bnd (kfree 0x80000004) (\<lambda>_. kmalloc 5000) s = Inr (0x80000004, s')"
proof -
  from boot_one_large obtain V fl s where
    s: "kmalloc 8192 boot_heap = Inr (0x80000004, s)" "heaps_ok V fl {(0x80000, 3)} [] s" "255727 \<le> card (free_low s)" by blast
  have a: "addr_of_frame 0x80000 + 4 = (0x80000004 :: u32)" by (simp add: addr_of_frame_def)
  have x: "(0x80000, 3) \<in> {(0x80000 :: nat, 3 :: nat)}" by simp
  have k: "page_count 5000 = 2" by (simp add: page_count_def)
  have "4096 < (5000 :: u32)" "page_count 5000 \<le> 3" "3 * page_count 5000 \<le> card (free_low s)" using s(3) by (simp_all add: k)
  from large_reuse [OF s(2) x this] show ?thesis using s(1) unfolding a by blast
qed

text \<open>
  C31: The number of pages wraps around.  For the three largest sizes, which \<open>4 + 4095\<close> carries over \<open>2 ^ 32\<close>, \<^verbatim>\<open>kmalloc\<close>
  does not fail: it returns an allocation of a single page.
\<close>

theorem kmalloc_size_wraps:
  assumes "heaps_ok V fl L H s" "0xFFFFFFFD \<le> sz" "can_alloc_large 1 H s"
  shows "\<exists>b V' s'. kmalloc sz s = Inr (addr_of_frame b + 4, s') \<and> (b, 1) \<notin> L \<and> heaps_ok V' fl (insert (b, 1) L) (slots_left 1 H) s'"
proof -
  have big: "0xFFFFFFFD \<le> unat sz" using assms(2) by (simp add: word_le_nat_alt)
  then have "unat (sz + 4 + 4095) = unat sz + 4099 - 4294967296" using u32_bound [of sz] by (simp add: unat_word_ariths le_mod_geq)
  then have "unat ((sz + 4 + 4095) div 4096) = 1" using big u32_bound [of sz] by (simp add: unat_div_distrib)
  then have w: "(sz + 4 + 4095) div 4096 = of_nat 1" by (intro u32_eqI) simp
  have "4096 < sz" using big by (simp add: word_less_nat_alt)
  from kmalloc_pages_run [OF assms(1) this w _ _ assms(3)] show ?thesis by auto
qed

theorem kmalloc_size_wraps_witness:
  "\<exists>b V fl s. kmalloc 0xFFFFFFFF boot_heap = Inr (addr_of_frame b + 4, s) \<and> heaps_ok V fl {(b, 1)} [] s"
proof -
  from boot_heap_large obtain fl where fl: "heaps_ok premapped fl {} [] boot_heap" by blast
  have c: "can_alloc_large 1 [] boot_heap" by (rule boot_can_alloc_large) simp
  have "slots_left 1 [] = []" by (simp add: slots_left_def)
  then show ?thesis using kmalloc_size_wraps [OF fl _ c, of "0xFFFFFFFF"] by auto
qed

end
