(* ===== verification/Disk_Commands.thy ===== *)
theory Disk_Commands
  imports Shell Heap_Programs
begin

unbundle bit_operations_syntax

text \<open>
  The commands \<^verbatim>\<open>diskW\<close> and \<^verbatim>\<open>diskR\<close> of the shell from the command line to the drive and back to the screen: the composition of
  the splitting of the line, the number parser, the disk driver, the large allocations and the console.
\<close>

section \<open>The last word of a line\<close>

lemma read_cstr_run:
  assumes vm: "vm_inv A V s" and r: "readable V s p cs"
  shows "read_cstr p s = Inr (cs, s)"
proof -
  let ?c = "\<lambda>(q, cs). bnd (load8 q) (\<lambda>c. ret (c \<noteq> 0))"
  let ?b = "\<lambda>(q, cs). bnd (load8 q) (\<lambda>c. ret (q + 1, cs @ [c]))"
  have "\<exists>q. loop ?c ?b (p, acc) s = Inr ((q, acc @ cs), s)" for acc using r
  proof (induction cs arbitrary: p acc)
    case Nil
    then have "?c (p, acc) s = Inr (False, s)" using load8_vm [OF vm] by (simp add: readable_Nil)
    from loop_done [of ?c "(p, acc)" s s ?b, OF this] show ?case unfolding append_Nil2 by blast
  next
    case (Cons c cs)
    then have c: "bpeek load32 s p = c" "c \<noteq> 0" "p \<in> byte_addrs V s" "readable V s (p + 1) cs" by (auto simp: readable_Cons)
    note ld = load8_vm [OF vm c(3), unfolded c(1)]
    have go: "?c (p, acc) s = Inr (True, s)" using ld c(2) by simp
    have "?b (p, acc) s = Inr ((p + 1, acc @ [c]), s)" using ld by simp
    from loop_more [of ?c "(p, acc)" s s ?b, OF go this] Cons.IH [OF c(4), of "acc @ [c]"] show ?case unfolding append_assoc append_Cons append_Nil by metis
  qed
  from this [of "[]"] obtain q where "loop ?c ?b (p, []) s = Inr ((q, cs), s)" by auto
  then show ?thesis by (simp add: read_cstr_def)
qed

lemma last_word_start:
  "last (word_starts q p cs) + of_nat (length (last (split_words q cs))) = p + of_nat (length cs)
    \<and> length (last (split_words q cs)) \<le> length cs"
proof (induction cs arbitrary: q p)
  case (Cons c cs)
  let ?q = "if c = 34 then \<not> q else q"
  obtain w ws where w: "split_words ?q cs = w # ws" using split_words_ne by (cases "split_words ?q cs") auto
  obtain xs where xs: "word_starts ?q (p + 1) cs = (p + 1) # xs" using word_starts_hd by blast
  have len: "xs = [] \<longleftrightarrow> ws = []" using length_word_starts [of ?q "p + 1" cs] unfolding w xs by auto
  note IH = Cons.IH [of ?q "p + 1", unfolded w xs]
  show ?case
  proof (cases "c = 32 \<and> \<not> ?q")
    case True
    then have "split_words q (c # cs) = [] # w # ws" "word_starts q p (c # cs) = p # (p + 1) # xs" using w xs by (auto simp: Let_def)
    then show ?thesis using IH by (simp add: algebra_simps)
  next
    case False
    then have e: "split_words q (c # cs) = (c # w) # ws" "word_starts q p (c # cs) = p # xs" using w xs by (auto simp: Let_def)
    show ?thesis unfolding e using IH len by (cases "ws = []") (simp_all add: algebra_simps)
  qed
qed simp

lemma cstr_char: "cstr f p cs \<Longrightarrow> i < length cs \<Longrightarrow> f (p + of_nat i) = cs ! i"
proof (induction cs arbitrary: p i)
  case (Cons c cs)
  then show ?case using Cons.IH [of "p + 1" "i - 1"] by (cases i) (auto simp: algebra_simps)
qed simp

section \<open>Writing\<close>

definition half_word :: "(nat \<Rightarrow> u8) \<Rightarrow> nat \<Rightarrow> u16" where
  "half_word f j = ucast (f (2 * j)) OR push_bit 8 (ucast (f (2 * j + 1)))"

lemma peek16_half_word: "peek16 s (half b j) = half_word (\<lambda>i. bpeek load32 s (b + of_nat i)) j"
  by (simp add: peek16_def half_word_def half_def algebra_simps)

lemma same_trace: "same_but m k \<Longrightarrow> kern k = kern m \<Longrightarrow> k = m\<lparr>trace := trace k\<rparr>"
  by (cases m, cases k) (simp add: same_but_def)

text \<open>The split line again, with the address of its last word and the bytes behind it.\<close>

lemma last_word:
  assumes line: "line_ok V fl m inp cs" and t: "kern_op (tokinize_words inp) m = Inr ((argv, c), m\<lparr>kern := t\<rparr>)"
    and w: "split_words False cs = ws @ [w]"
  defines "b \<equiv> inp + of_nat (length cs - length w)"
  shows "load32 (argv + 4 * of_nat (length ws)) t = Inr (b, t)" "readable V t b w" "image_addrs t = image_addrs (kern m)"
    "length w \<le> length cs"
    "length cs \<le> k \<Longrightarrow> k < 2 ^ 32 \<Longrightarrow> word_base (inp + of_nat k) \<in> image_addrs (kern m)
      \<Longrightarrow> bpeek load32 t (inp + of_nat k) = bpeek load32 (kern m) (inp + of_nat k)"
proof -
  note l = line [unfolded line_ok_def]
  from tokinize_words_full [of V fl "kern m" inp cs] l obtain argv' t' where
    f: "tokinize_words inp (kern m) = Inr ((argv', of_nat (length (split_words False cs))), t')"
      "\<forall>i<length (split_words False cs). load32 (argv' + 4 * of_nat i) t' = Inr (peek load32 t' (argv' + 4 * of_nat i), t')
         \<and> readable V t' (peek load32 t' (argv' + 4 * of_nat i)) (split_words False cs ! i)"
      "image_addrs t' = image_addrs (kern m)"
      "\<forall>i<length (split_words False cs). peek load32 t' (argv' + 4 * of_nat i) = word_starts False inp cs ! i"
      "\<forall>a. word_base a \<in> image_addrs (kern m) \<longrightarrow> a \<notin> span inp (length cs) \<longrightarrow> bpeek load32 t' a = bpeek load32 (kern m) a" by blast
  have "m\<lparr>kern := t'\<rparr> = m\<lparr>kern := t\<rparr>" "argv' = argv" using t f(1) by simp_all
  then have e: "t' = t" "argv' = argv" by (metis machine.select_convs(1) machine.surjective machine.update_convs(1))+
  note f = f [unfolded e]
  have n: "length ws < length (split_words False cs)" using w by simp
  have lw: "last (word_starts False inp cs) = word_starts False inp cs ! length ws"
  proof -
    have "length (word_starts False inp cs) = Suc (length ws)" by (simp add: w)
    moreover have "word_starts False inp cs \<noteq> []" using word_starts_hd [of False inp cs] by auto
    ultimately show ?thesis by (simp add: last_conv_nth)
  qed
  have L: "last (word_starts False inp cs) + of_nat (length w) = inp + of_nat (length cs)" "length w \<le> length cs"
    using last_word_start [of False inp cs] w by simp_all
  have b: "word_starts False inp cs ! length ws = b"
    using L unfolding lw b_def by (simp add: of_nat_diff algebra_simps)
  show "load32 (argv + 4 * of_nat (length ws)) t = Inr (b, t)" "readable V t b w"
    using f(2,4) n b w by (auto simp: nth_append)
  show "image_addrs t = image_addrs (kern m)" "length w \<le> length cs" by (fact f(3), fact L(2))
  assume k: "length cs \<le> k" "k < 2 ^ 32" "word_base (inp + of_nat k) \<in> image_addrs (kern m)"
  have "inp + of_nat k \<notin> span inp (length cs)"
  proof
    assume "inp + of_nat k \<in> span inp (length cs)"
    then obtain i where "i < length cs" "inp + of_nat k = inp + of_nat i" by (auto simp: span_def)
    then show False using off_inj [of k i inp] k(1,2) by simp
  qed
  then show "bpeek load32 t (inp + of_nat k) = bpeek load32 (kern m) (inp + of_nat k)" using f(5) k(3) by blast
qed

text \<open>The message of \<^verbatim>\<open>diskW\<close>.\<close>

definition written_text :: string where
  "written_text = nl @ ''Successfully wrote to disk at '' @ nl @ ''LBA: %d, '' @ nl @ ''sector size: %d, '' @ nl @ ''the data: %s '' @ nl"

text \<open>
  C14: \<^verbatim>\<open>diskW LBA Segment word\<close>, from the command line to the disk.  With an LBA of at most 2000, a \<open>Segment\<close> of 1 to 255 and
  a drive that follows the protocol of \<open>ata_disk\<close> and has no transfer under way, for a line with all
  the bytes to be sent in the kernel image, the shell returns without a fault; the \<open>Segment\<close> sectors from \<open>LBA\<close> on hold the characters of the word and then the bytes
  that follow the command line in the kernel's memory (512 bytes a sector are sent whatever the length of the word), all other sectors are
  as before and the drive is free for the next command; the message names both numbers and the word, and the heap is left as it was.
\<close>

theorem shell_disk_write:
  assumes line: "line_ok V fl m inp cs" and words: "split_words False cs = [bytes ''diskW'', l, n, w]"
    and args: "\<forall>c\<in>set l \<union> set n. digit c" "dec_value 0 l \<le> 2000" "1 \<le> dec_value 0 n" "dec_value 0 n \<le> 255"
    and drive: "ata_disk (port_in m) d" "idle (command (port_in m) (trace m))" and short: "length cs < 4096"
    and image: "\<forall>a\<in>span inp (length cs + 512 * nat (dec_value 0 n)). word_base a \<in> image_addrs (kern m)"
  defines "content i \<equiv> if i < length w then w ! i else bpeek load32 (kern m) (inp + of_nat (length cs - length w + i))"
    and "first \<equiv> 256 * nat (dec_value 0 l)" and "count \<equiv> 256 * nat (dec_value 0 n)"
  shows "\<exists>tr. shell_done V fl (m\<lparr>trace := tr\<rparr>)
      (console_after written_text [AInt (word_of_int (dec_value 0 l)), AInt (word_of_int (dec_value 0 n)), AStr w]
         (set_color COLOR_GREEN (console (kern m)))) {} (process_input inp m)
    \<and> disk_after (port_in m) d tr = (\<lambda>x. if first \<le> x \<and> x < first + count then half_word content (x - first) else disk_after (port_in m) d (trace m) x)
    \<and> idle (command (port_in m) tr)"
proof -
  let ?L = "word_of_int (dec_value 0 l) :: u32" and ?N = "word_of_int (dec_value 0 n) :: u8"
  from process_input_parsed [OF line] words obtain argv t where
    p: "parsed V fl m [bytes ''diskW'', l, n, w] argv t" and tok: "kern_op (tokinize_words inp) m = Inr ((argv, 4), m\<lparr>kern := t\<rparr>)"
    and run: "process_input inp m = dispatch argv 4 (bytes ''diskW'') (m\<lparr>kern := t\<rparr>)" by auto
  define b where "b = inp + of_nat (length cs - length w)"
  note lw = last_word [OF line tok, of "[bytes ''diskW'', l, n]" w, folded b_def]
  have ws: "split_words False cs = [bytes ''diskW'', l, n] @ [w]" using words by simp
  have ld: "load32 (argv + 12) t = Inr (b, t)" using lw(1) [OF ws] by (simp add: numeral_3_eq_3)
  have vm: "vm_inv UNIV V t" using p heap_invD(1) unfolding parsed_def by blast
  have c: "read_cstr b t = Inr (w, t)" by (rule read_cstr_run [OF vm lw(2) [OF ws]])
  have av: "disk_arguments_ok argv (m\<lparr>kern := t\<rparr>) = Inr (True, m\<lparr>kern := t\<rparr>)"
    "argument_int argv 1 (m\<lparr>kern := t\<rparr>) = Inr (dec_value 0 l, m\<lparr>kern := t\<rparr>)"
    "argument_int argv 2 (m\<lparr>kern := t\<rparr>) = Inr (dec_value 0 n, m\<lparr>kern := t\<rparr>)"
    "0 \<le> dec_value 0 l" "0 \<le> dec_value 0 n"
    using disk_arguments_run [OF p] args by (simp_all add: numeral_2_eq_2)
  have uN: "unat ?N = nat (dec_value 0 n)" using av(5) args(4) by (simp add: unsigned_of_int take_bit_int_eq_self)
  have uL: "unat ?L = nat (dec_value 0 l)" using av(4) args(2) by (simp add: unsigned_of_int take_bit_int_eq_self)
  have nn: "nat (dec_value 0 n) \<le> 255" using args(4) by simp
  have off: "b + of_nat i = inp + of_nat (length cs - length w + i)" for i by (simp add: b_def)
  have at: "word_base (b + of_nat i) \<in> image_addrs (kern m)" if "i < length w + 512 * nat (dec_value 0 n)" for i
  proof -
    have "length cs - length w + i < length cs + 512 * nat (dec_value 0 n)" using that lw(4) [OF ws] by linarith
    then have "b + of_nat i \<in> span inp (length cs + 512 * nat (dec_value 0 n))" unfolding off span_def by blast
    then show ?thesis using image by blast
  qed
  have buf: "span b (512 * unat ?N) \<subseteq> byte_addrs V (kern (m\<lparr>kern := t\<rparr>))"
    using at lw(3) [OF ws] unfolding uN by (auto simp: span_def byte_addrs_def ram_addrs_def)
  have ct: "bpeek load32 t (b + of_nat i) = content i" if i: "i < 512 * nat (dec_value 0 n)" for i
  proof (cases "i < length w")
    case True
    then show ?thesis using cstr_char [of "bpeek load32 t" b w i] lw(2) [OF ws] by (simp add: content_def readable_def)
  next
    case False
    then have "length cs \<le> length cs - length w + i" "length cs - length w + i < 2 ^ 32" using False lw(4) [OF ws] i short nn by simp_all
    from lw(5) [OF ws this] at [of i] i False show ?thesis by (simp add: content_def off)
  qed
  have dr: "ata_disk (port_in (m\<lparr>kern := t\<rparr>)) d" "idle (command (port_in (m\<lparr>kern := t\<rparr>)) (trace (m\<lparr>kern := t\<rparr>)))"
    "unat ?L < 268435456" "?N \<noteq> 0"
    using drive uL uN args(2,3) by (auto simp del: unat_eq_zero)
  from write_sector_run [OF _ dr buf] vm obtain k where
    k: "ata_write_sector ?L ?N b (m\<lparr>kern := t\<rparr>) = Inr ((), k)" "same_but (m\<lparr>kern := t\<rparr>) k" "kern k = t" "idle (command (port_in m) (trace k))"
      "disk_after (port_in m) d (trace k) = overlay (\<lambda>q. peek16 t (half b q)) (256 * nat (dec_value 0 l)) 0 count (disk_after (port_in m) d (trace m))"
    by (auto simp: uL uN count_def mult.commute)
  have km: "k = m\<lparr>kern := t, trace := trace k\<rparr>" using same_trace [OF k(2)] k(3) by simp
  have disk: "disk_after (port_in m) d (trace k) = (\<lambda>x. if first \<le> x \<and> x < first + count then half_word content (x - first) else disk_after (port_in m) d (trace m) x)"
  proof -
    have "peek16 t (half b q) = half_word content q" if "q < count" for q
      using that ct [of "2 * q"] ct [of "2 * q + 1"] unfolding peek16_half_word by (simp add: half_word_def count_def)
    then show ?thesis unfolding k(5) by (auto simp: overlay_def first_def fun_eq_iff)
  qed
  let ?v = "console_after written_text [AInt ?L, AInt (word_of_int (dec_value 0 n)), AStr w] (set_color COLOR_GREEN (console (kern m)))"
  have con: "console t = console (kern m)" using p by (auto simp: parsed_def)
  let ?m = "m\<lparr>trace := trace k\<rparr>"
  have k': "k = ?m\<lparr>kern := t\<rparr>" by (rule trans [OF km]) (rule machine.equality; simp)
  have ku: "k\<lparr>kern := u\<rparr> = ?m\<lparr>kern := u\<rparr>" for u by (subst k') simp
  have fmt: "fmt_ok written_text [AInt x, AInt y, AStr w]" for x y by (simp add: written_text_def nl_def)
  have put: "putf_color COLOR_GREEN written_text [AInt x, AInt y, AStr w] k =
      Inr ((), ?m\<lparr>kern := t\<lparr>console := console_after written_text [AInt x, AInt y, AStr w] (set_color COLOR_GREEN (console (kern m)))\<rparr>\<rparr>)" for x y
    using putf_color_run [OF fmt, of COLOR_GREEN x y k] unfolding ku k(3) by (simp add: con)
  have a3: "argument argv 3 (m\<lparr>kern := t\<rparr>) = Inr (b, m\<lparr>kern := t\<rparr>)" using ld by (simp add: argument_def)
  have rc: "kern_op (read_cstr b) k = Inr (w, k)" using c k(3) by (simp add: kern_op_def)
  have cmd: "cmd_diskW argv 4 (m\<lparr>kern := t\<rparr>) = Inr (True, ?m\<lparr>kern := t\<lparr>console := ?v\<rparr>\<rparr>)"
    unfolding cmd_diskW_def written_text_def [symmetric] by (simp add: av(1-3) a3 k(1) rc put del: putf_color_run kern_op_Inr One_nat_def)
  have p': "parsed V fl ?m [bytes ''diskW'', l, n, w] argv t" using p by (simp add: parsed_def)
  from release_array [OF p', of ?v] obtain t' fl' where
    r: "free_array argv (?m\<lparr>kern := t\<lparr>console := ?v\<rparr>\<rparr>) = Inr ((), ?m\<lparr>kern := t'\<rparr>)"
    "\<exists>mm hh. t' = (kern ?m)\<lparr>heaps := hh, mem := mm, console := ?v\<rparr>"
    "heap_inv UNIV V fl' t'" "\<forall>g. allocated V fl' g = allocated V fl g" by blast
  have "process_input inp m = Inr ((), ?m\<lparr>kern := t'\<rparr>)" unfolding run using cmd r(1) by (simp add: dispatch_def)
  then have "shell_done V fl ?m ?v {} (process_input inp m)"
    unfolding shell_done_def using r(2-4) by (intro exI [of _ t'] exI [of _ fl']) simp
  then show ?thesis using disk k(4) by blast
qed

text \<open>A machine with a command line, on a kernel whose disk has the words \<open>d\<close>.\<close>

lemma disk_line:
  assumes "0 \<notin> set cs" "length cs < 4096" "length (split_words False cs) \<le> 64"
  shows "\<exists>fl m. line_ok premapped fl m 0xC0001000 cs \<and> color (console (kern m)) = 0x0F \<and> port_in m = demo_drive d \<and> trace m = []
    \<and> (\<forall>k<4096. \<forall>a\<in>span 0xC0001000 k. word_base a \<in> image_addrs (kern m))
    \<and> (\<exists>mm v. kern m = boot_heap\<lparr>mem := mm, console := v\<rparr>)"
proof -
  from line_state_image [OF assms] obtain fl m where
    m: "line_ok premapped fl m 0xC0001000 cs" "color (console (kern m)) = 0x0F" "image_addrs (kern m) = image_addrs boot_heap"
    "\<exists>mm v. kern m = boot_heap\<lparr>mem := mm, console := v\<rparr>" by blast
  have im: "word_base a \<in> image_addrs (kern m)" if "k < 4096" "a \<in> span 0xC0001000 k" for k a
    using image_span [OF that(1), of a] span_mono [of k "Suc k" "0xC0001000"] that(2) m(3) by auto
  have "line_ok premapped fl (m\<lparr>port_in := demo_drive d, trace := []\<rparr>) 0xC0001000 cs" using m(1) by (simp add: line_ok_def)
  then show ?thesis using m(2,4) im by (intro exI [of _ fl] exI [of _ "m\<lparr>port_in := demo_drive d, trace := []\<rparr>"]) simp
qed

theorem shell_disk_write_witness:
  "\<exists>fl m v tr. shell_done premapped fl (m\<lparr>trace := tr\<rparr>) v {} (process_input 0xC0001000 m)
    \<and> disk_after (demo_drive (\<lambda>_. 5)) (\<lambda>_. 5) tr 12800 = 0x6968 \<and> disk_after (demo_drive (\<lambda>_. 5)) (\<lambda>_. 5) tr 13056 = 5"
proof -
  let ?cs = "bytes ''diskW 50 1 hi''" and ?D = "disk_after (demo_drive (\<lambda>_. 5)) (\<lambda>_. 5)"
  have sw: "split_words False ?cs = [bytes ''diskW'', bytes ''50'', bytes ''1'', bytes ''hi'']" by (simp add: bytes_def)
  from disk_line [of ?cs "\<lambda>_. 5"] obtain fl m where m: "line_ok premapped fl m 0xC0001000 ?cs" "port_in m = demo_drive (\<lambda>_. 5)" "trace m = []"
    "\<And>k a. k < 4096 \<Longrightarrow> a \<in> span 0xC0001000 k \<Longrightarrow> word_base a \<in> image_addrs (kern m)"
    unfolding sw by (auto simp: bytes_def)
  have v: "dec_value 0 (bytes ''50'') = 50" "dec_value 0 (bytes ''1'') = 1" by (simp_all add: bytes_def)
  have g: "\<forall>c\<in>set (bytes ''50'') \<union> set (bytes ''1''). digit c" by (simp add: bytes_def digit_def)
  have l: "length ?cs = 13" "length (bytes ''hi'') = 2" by (simp_all add: bytes_def)
  have dr: "ata_disk (port_in m) (\<lambda>_. 5)" "idle (command (port_in m) (trace m))" unfolding m(2,3) by (rule demo_drive_ok) (simp add: idle_def)
  let ?f = "\<lambda>i. bpeek load32 (kern m) (0xC0001000 + of_nat (13 - 2 + i))"
  have "\<exists>v tr. shell_done premapped fl (m\<lparr>trace := tr\<rparr>) v {} (process_input 0xC0001000 m)
    \<and> ?D tr = (\<lambda>x. if 12800 \<le> x \<and> x < 13056
        then half_word (\<lambda>i. if i < 2 then bytes ''hi'' ! i else ?f i) (x - 12800) else ?D [] x)"
    using shell_disk_write [OF m(1) sw g _ _ _ dr] m(4) [of "13 + 512"] unfolding v l m(2,3)
    by (simp del: demo_cells disk_after.simps cong: if_cong) blast
  then obtain v tr where
    tr: "shell_done premapped fl (m\<lparr>trace := tr\<rparr>) v {} (process_input 0xC0001000 m)"
      "?D tr = (\<lambda>x. if 12800 \<le> x \<and> x < 13056
        then half_word (\<lambda>i. if i < 2 then bytes ''hi'' ! i else ?f i) (x - 12800) else ?D [] x)" by blast
  have "half_word (\<lambda>i. if i < 2 then bytes ''hi'' ! i else ?f i) (12800 - 12800) = 0x6968"
    by (simp add: half_word_def bytes_def)
  then have "?D tr 12800 = 0x6968" "?D tr 13056 = 5" unfolding tr(2) by simp_all
  then show ?thesis using tr(1) by blast
qed

section \<open>Reading\<close>

text \<open>A word is its four bytes.\<close>

lemma word_from_bytes:
  assumes a: "word_aligned a" and b: "\<And>c. word_base c = a \<Longrightarrow> bpeek load32 t c = bpeek load32 s c"
  shows "peek load32 t a = peek load32 s a"
proof (rule bit_word_eqI)
  fix n assume "n < LENGTH(32)"
  then have n: "n < 32" by simp
  have a4: "unat a mod 4 = 0" using a by (simp add: word_aligned_iff dvd_eq_mod_eq_0)
  let ?c = "a + of_nat (n div 8)"
  have k: "n div 8 < 4" using n by simp
  have ub: "unat a + n div 8 < 4294967296"
  proof -
    have "unat a div 4 < 1073741824" using u32_bound [of a] by simp
    moreover have "unat a = 4 * (unat a div 4)" using a4 mult_div_mod_eq [of 4 "unat a"] by linarith
    ultimately show ?thesis using k by linarith
  qed
  then have uc: "unat ?c = unat a + n div 8" by (simp add: unat_word_ariths unat_of_nat)
  have m: "unat ?c mod 4 = n div 8" unfolding uc using a4 k by (simp add: mod_add_eq [symmetric])
  have wb: "word_base ?c = a" by (rule u32_eqI) (simp add: unat_word_base m, simp add: uc)
  have sh: "byte_shift ?c = 8 * (n div 8)" by (simp add: byte_shift_def unat_and_3 m)
  have "bit (bpeek load32 u ?c) (n mod 8) = bit (peek load32 u a) n" for u
    by (simp add: bpeek_def wb get_byte_def sh bit_simps)
  then show "bit (peek load32 t a) n = bit (peek load32 s a) n" using b [OF wb] by metis
qed

text \<open>The bytes of a buffer that begins behind the header of a run of at least two pages.\<close>

lemma buffer_word:
  assumes b: "b < 0xBFFFF" "2 \<le> k" and c: "c \<in> span (addr_of_frame b + 4) 5120"
  shows "frame_of c \<in> pages_of (b, k)" "word_base c \<noteq> addr_of_frame b" "word_aligned (word_base c)"
proof -
  from c obtain i where i: "i < 5120" "c = addr_of_frame b + 4 + of_nat i" by (auto simp: span_def)
  have u: "unat (addr_of_frame b :: u32) = b * 4096" using b by (simp add: unat_addr_of_frame)
  have uc: "unat c = b * 4096 + (4 + i)"
  proof -
    have "c = addr_of_frame b + of_nat (4 + i)" by (simp add: i(2))
    moreover have "b * 4096 + (4 + i) < 2 ^ 32" using b i(1) by simp
    ultimately show ?thesis using u by (simp add: unat_word_ariths unat_of_nat)
  qed
  have "frame_of c = b + (4 + i) div 4096" using uc by (simp add: frame_of_def)
  moreover have "(4 + i) div 4096 < 2" using i(1) by simp
  ultimately show "frame_of c \<in> pages_of (b, k)" using b(2) by (simp add: pages_of_def)
  show "word_aligned (word_base c)" by (rule word_base_aligned)
  show "word_base c \<noteq> addr_of_frame b"
  proof
    assume "word_base c = addr_of_frame b"
    then have "unat c - unat c mod 4 = b * 4096" using u unat_word_base [of c] by simp
    moreover have "unat c mod 4 \<le> 3" by (simp add: less_Suc_eq_le [symmetric])
    ultimately show False using uc by linarith
  qed
qed

section \<open>Printing the printable\<close>

definition printable :: "u8 \<Rightarrow> bool" where
  "printable c \<longleftrightarrow> 32 \<le> c \<and> c \<le> 126"

lemma printable_sint: "sint (c :: u8) \<ge> 32 \<and> sint c \<le> 126 \<longleftrightarrow> printable c"
proof -
  have dv: "uint c div 128 = (if uint c < 128 then 0 else 1)" using uint_lt2p [of c] by (auto intro: int_div_pos_eq [of _ 128 1 "uint c - 128"])
  have s: "sint c = (if uint c < 128 then uint c else uint c - 256)"
    using uint_lt2p [of c] dv by (simp add: drop_bit_eq_div sint_uint signed_take_bit_eq_take_bit_minus take_bit_int_eq_self bit_iff_odd_drop_bit)
  show ?thesis unfolding printable_def word_le_def s using uint_lt2p [of c] by auto
qed

definition white_cells :: "u8 list \<Rightarrow> (u8 \<times> u8) list" where
  "white_cells cs = map (\<lambda>c. (c, 0x0F)) (filter printable cs)"

lemma print_byte_run:
  assumes vm: "vm_inv A V (kern m)" and a: "buf + of_nat i \<in> byte_addrs V (kern m)" and w: "color (console (kern m)) = 0x0F"
  shows "print_byte buf i m = Inr ((), m\<lparr>kern := (kern m)\<lparr>console :=
    print_cells (white_cells [bpeek load32 (kern m) (buf + of_nat i)]) (console (kern m))\<rparr>\<rparr>)"
proof -
  let ?c = "bpeek load32 (kern m) (buf + of_nat i)"
  have ld: "kern_op (load8 (buf + of_nat i)) m = Inr (?c, m)" using load8_vm [OF vm a] by (simp add: kern_op_def)
  have sc: "ucast (scast ?c :: u32) = ?c" by (rule bit_word_eqI) (auto simp: bit_simps)
  have p: "putf ''%c'' [AInt (scast ?c)] m = Inr ((), m\<lparr>kern := (kern m)\<lparr>console := print_cells [(?c, 0x0F)] (console (kern m))\<rparr>\<rparr>)"
    using w by (simp add: putf_def kprint_def kprintf_def' print_cell_def sc)
  show ?thesis
  proof (cases "printable ?c")
    case True
    then show ?thesis using p by (simp only: print_byte_def bnd_run ld sum.case prod.case printable_sint if_True) (simp add: white_cells_def)
  next
    case False
    then show ?thesis by (simp add: print_byte_def ld printable_sint white_cells_def)
  qed
qed

lemma print_bytes_run:
  assumes "vm_inv A V (kern m)" "\<And>j. i \<le> j \<Longrightarrow> j < i + n \<Longrightarrow> buf + of_nat j \<in> byte_addrs V (kern m)" "color (console (kern m)) = 0x0F"
  shows "for_loop (print_byte buf) i n m = Inr ((), m\<lparr>kern := (kern m)\<lparr>console :=
    print_cells (white_cells (map (\<lambda>j. bpeek load32 (kern m) (buf + of_nat j)) [i..<i + n])) (console (kern m))\<rparr>\<rparr>)"
  using assms
proof (induction n arbitrary: i m)
  case 0
  then show ?case by (simp add: white_cells_def)
next
  case (Suc n)
  let ?v = "print_cells (white_cells [bpeek load32 (kern m) (buf + of_nat i)]) (console (kern m))"
  let ?m = "m\<lparr>kern := (kern m)\<lparr>console := ?v\<rparr>\<rparr>"
  have st: "print_byte buf i m = Inr ((), ?m)" by (rule print_byte_run [OF Suc.prems(1) Suc.prems(2) Suc.prems(3)]) simp_all
  have pk: "bpeek load32 (kern ?m) = bpeek load32 (kern m)"
    using peek_cong [of "kern ?m" "kern m"] by (intro ext) (simp add: bpeek_def)
  have ba: "byte_addrs V ((kern m)\<lparr>console := v\<rparr>) = byte_addrs V (kern m)" for v by (simp add: byte_addrs_def ram_addrs_def image_addrs_def dir_of_def)
  have vm: "vm_inv A V (kern ?m)" using Suc.prems(1) by simp
  have "for_loop (print_byte buf) (i + 1) n ?m = Inr ((), ?m\<lparr>kern := (kern ?m)\<lparr>console :=
      print_cells (white_cells (map (\<lambda>j. bpeek load32 (kern ?m) (buf + of_nat j)) [i + 1..<i + 1 + n])) (console (kern ?m))\<rparr>\<rparr>)"
    by (rule Suc.IH [OF vm]) (use Suc.prems in \<open>simp_all add: ba\<close>)
  moreover have "[i..<i + Suc n] = i # [i + 1..<i + 1 + n]" by (simp add: upt_conv_Cons)
  ultimately show ?case using st unfolding pk by (simp add: white_cells_def)
qed

text \<open>Splitting a line keeps both halves of the heap.\<close>

lemma parse_keeps_heaps:
  assumes line: "line_ok V fl m inp cs" and heaps: "heaps_ok V fl L H (kern m)"
    and t: "kern_op (tokinize_words inp) m = Inr ((argv, c), m\<lparr>kern := t\<rparr>)"
  shows "heaps_ok V (fl(Heap_256 := tl (fl Heap_256))) L H t" "large_dom t = large_dom (kern m)" "free_low t = free_low (kern m)"
proof -
  note l = line [unfolded line_ok_def]
  from tokinize_words_full [of V fl "kern m" inp cs] l obtain argv' t' where
    f: "tokinize_words inp (kern m) = Inr ((argv', of_nat (length (split_words False cs))), t')" "argv' \<in> blocks V Heap_256"
      "heap_inv UNIV V (fl(Heap_256 := tl (fl Heap_256))) t'" "\<exists>mm hh. t' = (kern m)\<lparr>heaps := hh, mem := mm\<rparr>"
      "\<forall>w\<in>data_addrs V. w \<notin> slots argv' \<longrightarrow> peek load32 t' w = peek load32 (kern m) w" by blast
  have "m\<lparr>kern := t'\<rparr> = m\<lparr>kern := t\<rparr>" using t f(1) by simp
  then have "t' = t" by (metis machine.select_convs(1) machine.surjective machine.update_convs(1))
  note f = f [unfolded this]
  show d: "large_dom t = large_dom (kern m)" using f(4) by auto
  show "free_low t = free_low (kern m)"
    using f(4) by (auto simp: free_low_def safe_frame_def heap_start_def kernel_page_tables_base_def kernel_page_table_def)
  have "large_ok V L H t"
  proof (rule large_ok_cong [OF heaps_okD(2) [OF heaps] d refl])
    fix a assume "a \<in> large_words L H"
    note a = large_words_high [OF heaps_okD(2) [OF heaps] this]
    have "a \<notin> slots argv'"
    proof
      assume "a \<in> slots argv'"
      then have "frame_of a = frame_of argv'" using slots_block [OF f(2)] block_word_div(2) [OF f(2)] by blast
      moreover have "in_region Heap_256 (frame_of argv')" using f(2) by (simp add: blocks_def)
      ultimately show False using a(2) in_large_region [of Heap_256 "frame_of argv'"] by simp
    qed
    then show "peek load32 t a = peek load32 (kern m) a" using f(5) a(1) by blast
  qed
  then show "heaps_ok V (fl(Heap_256 := tl (fl Heap_256))) L H t" using f(3) by (simp add: heaps_ok_def)
qed

text \<open>Filling the buffer of a large allocation from the disk keeps both halves of the heap.\<close>

lemma read_keeps_heaps:
  assumes inv: "heaps_ok V fl (insert (b, k) L) H s" and k: "2 \<le> k"
    and t: "mem_only_ok UNIV V s t" and f: "filled_to V s (addr_of_frame b + 4) 0 2560 g s t"
  shows "heaps_ok V fl (insert (b, k) L) H t" "span (addr_of_frame b + 4) 5120 \<subseteq> byte_addrs V s"
proof -
  note I = heaps_okD [OF inv]
  let ?B = "span (addr_of_frame b + 4) 5120 :: u32 set"
  from I(2) obtain e where e: "e \<le> 0xC0000" "spans_ok e (insert (b, k) L) H" by (rule large_okD)
  have bi: "(b, k) \<in> insert (b, k) L \<union> set H" "(b, k) \<in> insert (b, k) L" by simp_all
  note S = spansD [OF e(2) bi(1) e(1)]
  have b: "b < 0xBFFFF" using S(3) k e(1) by simp
  note B = buffer_word [OF b k]
  have pv: "pages_of (b, k) \<subseteq> V" by (rule large_page_mapped(2) [OF I(2) bi(2)])
  show "?B \<subseteq> byte_addrs V s"
    using B(1,3) pv by (auto simp: byte_addrs_def ram_addrs_def data_addrs_def word_base_frame)
  have same: "peek load32 t a = peek load32 s a" if a: "a \<in> data_addrs V" "\<And>c. c \<in> ?B \<Longrightarrow> word_base c \<noteq> a" for a
  proof (rule word_from_bytes)
    show "word_aligned a" using a(1) by (simp add: data_addrs_def)
    fix c assume c: "word_base c = a"
    have "c \<in> byte_addrs V s" using a(1) c by (simp add: byte_addrs_def ram_addrs_def)
    moreover have "c \<noteq> half (addr_of_frame b + 4) q \<and> c \<noteq> half (addr_of_frame b + 4) q + 1" if "q < 2560" for q
      using half_span [of "addr_of_frame b + 4" 2560 ?B q] that a(2) c by auto
    ultimately show "bpeek load32 t c = bpeek load32 s c" using f unfolding filled_to_def by blast
  qed
  show "heaps_ok V fl (insert (b, k) L) H t"
  proof (rule heaps_ok_write [OF inv t])
    fix h a assume "a \<in> set (fl h)"
    then have a: "a \<in> blocks V h" using domain_okD(8) [OF heap_invD(2) [OF I(1) UNIV_I]] by blast
    have "frame_of a < 0x80000" using a in_large_region by (auto simp: blocks_def)
    then have "word_base c \<noteq> a" if "c \<in> ?B" for c using B(1) [OF that] S(2) word_base_frame [of c] by (auto simp: pages_of_def)
    then show "peek load32 t a = peek load32 s a" by (intro same [OF blocks_addr [OF a]])
  next
    fix a assume a: "a \<in> large_words (insert (b, k) L) H"
    then obtain x where x: "x \<in> insert (b, k) L \<union> set H" "a = addr_of_frame (fst x) \<or> x \<in> set H \<and> a = addr_of_frame (fst x) + 4"
      unfolding large_words_def by blast
    have fa: "frame_of a = fst x" using large_word_addr(3,4) [OF I(2) x(1)] x(2) by auto
    have "word_base c \<noteq> a" if c: "c \<in> ?B" for c
    proof (cases "x = (b, k)")
      case True
      moreover have "(b, k) \<notin> set H" using e(2) unfolding spans_ok_def by blast
      ultimately show ?thesis using B(2) [OF c] x(2) by auto
    next
      case False
      then have "fst x \<notin> pages_of (b, k)" using S(6) x(1) by blast
      then show ?thesis using B(1) [OF c] fa word_base_frame [of c] by auto
    qed
    then show "peek load32 t a = peek load32 s a" by (intro same [OF large_words_high(1) [OF I(2) a]])
  qed
qed

text \<open>The bytes of the disk.\<close>

definition disk_byte :: "(nat \<Rightarrow> u16) \<Rightarrow> nat \<Rightarrow> u8" where
  "disk_byte D i = (if even i then ucast (D (i div 2)) else ucast (drop_bit 8 (D (i div 2))))"

lemma peek16_bytes: "bpeek load32 s a = ucast (peek16 s a)" "bpeek load32 s (a + 1) = ucast (drop_bit 8 (peek16 s a))"
proof -
  have "ucast (ucast x OR push_bit 8 (ucast y) :: u16) = x" "ucast (drop_bit 8 (ucast x OR push_bit 8 (ucast y) :: u16)) = y" for x y :: u8
    by (rule bit_word_eqI, auto simp: bit_simps dest: bit_imp_le_length)+
  then show "bpeek load32 s a = ucast (peek16 s a)" "bpeek load32 s (a + 1) = ucast (drop_bit 8 (peek16 s a))"
    unfolding peek16_def by metis+
qed

lemma filled_byte:
  assumes f: "filled_to V s p 0 n (\<lambda>q. D (l + q)) s t" and i: "i < 2 * n"
  shows "bpeek load32 t (p + of_nat i) = disk_byte D (2 * l + i)"
proof -
  let ?q = "i div 2"
  have q: "?q < n" using i by simp
  then have w: "peek16 t (half p ?q) = D (l + ?q)" using f by (auto simp: filled_to_def)
  have d: "(2 * l + i) div 2 = l + ?q" by simp
  show ?thesis
  proof (cases "even i")
    case True
    then have "p + of_nat i = half p ?q" by (simp add: half_def)
    then show ?thesis using True w peek16_bytes(1) [of t "half p ?q"] by (simp add: disk_byte_def d)
  next
    case False
    then have "i = 2 * ?q + 1" by (simp add: odd_two_times_div_two_succ)
    then have "(of_nat i :: u32) = of_nat (2 * ?q) + 1" by (metis of_nat_Suc Suc_eq_plus1 add.commute)
    then have "p + of_nat i = half p ?q + 1" by (simp only: half_def add.assoc)
    then show ?thesis using False w peek16_bytes(2) [of t "half p ?q"] by (simp add: disk_byte_def d)
  qed
qed

lemma heaps_ok_console [simp]: "heaps_ok V fl L H (s\<lparr>console := v\<rparr>) = heaps_ok V fl L H s"
proof -
  have pk: "peek load32 (s\<lparr>console := v\<rparr>) = peek load32 s" by (rule peek_cong) simp_all
  have "large_ok V L H (s\<lparr>console := v\<rparr>) = large_ok V L H s" by (simp add: large_ok_def pk)
  then show ?thesis by (simp add: heaps_ok_def)
qed

text \<open>
  C15: \<^verbatim>\<open>diskR LBA Segment\<close>, from the command line to the screen.  With an LBA in range, at least 9 segments, so that the
  ten sectors it reads fit the buffer, room for that buffer in the heap, and a drive that follows the protocol of \<open>ata_disk\<close> and has no
  transfer under way, the shell returns without a fault and prints the printable ones of the 1024
  bytes of the sectors 49 and 50, whatever the LBA; the disk is unchanged, both halves of the heap are in order, and the buffer is never
  released: the heap has one large allocation more than before, and the size classes none.
\<close>

theorem shell_disk_read:
  assumes line: "line_ok V fl m inp cs" and words: "split_words False cs = [bytes ''diskR'', l, n]"
    and heaps: "heaps_ok V fl L H (kern m)" and white: "color (console (kern m)) = 0x0F"
    and args: "\<forall>c\<in>set l \<union> set n. digit c" "dec_value 0 l \<le> 2000" "9 \<le> dec_value 0 n" "dec_value 0 n \<le> 255"
    and drive: "ata_disk (port_in m) d" "idle (command (port_in m) (trace m))"
  defines "k \<equiv> page_count (word_of_int (dec_value 0 n * 512))"
  assumes room: "can_alloc_large k H (kern m)"
  shows "\<exists>tr t V' fl' b. process_input inp m = Inr ((), m\<lparr>trace := tr, kern := t\<rparr>)
    \<and> console t = print_cells (white_cells (map (disk_byte (disk_after (port_in m) d (trace m))) [25088..<26112])) (console (kern m))
    \<and> disk_after (port_in m) d tr = disk_after (port_in m) d (trace m) \<and> idle (command (port_in m) tr)
    \<and> heaps_ok V' fl' (insert (b, k) L) (slots_left k H) t \<and> (b, k) \<notin> L \<and> (\<forall>h. allocated V' fl' h = allocated V fl h)"
proof -
  let ?sz = "word_of_int (dec_value 0 n * 512) :: u32"
  from process_input_parsed [OF line] words obtain argv t where
    p: "parsed V fl m [bytes ''diskR'', l, n] argv t" and tok: "kern_op (tokinize_words inp) m = Inr ((argv, 3), m\<lparr>kern := t\<rparr>)"
    and run: "process_input inp m = dispatch argv 3 (bytes ''diskR'') (m\<lparr>kern := t\<rparr>)" by auto
  let ?fl = "fl(Heap_256 := tl (fl Heap_256))"
  note K = parse_keeps_heaps [OF line heaps tok]
  have con: "console t = console (kern m)" using p by (auto simp: parsed_def)
  have uz: "unat ?sz = 512 * nat (dec_value 0 n)" using args(3,4) by (subst unsigned_of_int) (simp add: take_bit_int_eq_self)
  have z: "4608 \<le> unat ?sz" "unat ?sz \<le> 130560" unfolding uz using args(3,4) by simp_all
  then have sz: "4096 < ?sz" "unat ?sz + 4099 < 2 ^ 32" by (simp_all add: word_less_nat_alt)
  have k2: "2 \<le> k" using div_le_mono [of 8707 "unat ?sz + 4099" 4096] z by (simp add: k_def page_count_def)
  have room': "can_alloc_large k H t" using room by (simp add: can_alloc_large_def K(2,3))
  from kmalloc_large_run [OF K(1) sz room' [unfolded k_def], folded k_def] obtain b V' s where
    s: "kmalloc ?sz t = Inr (addr_of_frame b + 4, s)" "heaps_ok V' ?fl (insert (b, k) L) (slots_left k H) s" "(b, k) \<notin> L"
      "{p\<in>V'. p < 0x80000} = {p\<in>V. p < 0x80000}" "console s = console t" by blast
  let ?p = "addr_of_frame b + 4 :: u32" and ?D = "disk_after (port_in m) d (trace m)"
  have vs: "vm_inv UNIV V' s" by (rule heaps_okD(3) [OF s(2)])
  have okss: "mem_only_ok UNIV V' s s" using vs by simp
  have B: "span ?p 5120 \<subseteq> byte_addrs V' s"
    by (rule read_keeps_heaps(2) [OF s(2) k2 okss, of "\<lambda>q. peek16 s (half ?p q)"]) (simp add: filled_to_def)
  let ?ms = "m\<lparr>kern := s\<rparr>"
  have "ata_disk (port_in ?ms) d" "idle (command (port_in ?ms) (trace ?ms))" "unat (49 :: u32) < 268435456" "(10 :: u8) \<noteq> 0" "vm_inv UNIV V' (kern ?ms)" "span ?p (512 * unat (10 :: u8)) \<subseteq> byte_addrs V' (kern ?ms)"
    using drive vs B by simp_all
  from read_sector_run [OF this(5,1,2,3,4,6)] obtain r where
    r: "ata_read_sector 49 10 ?p ?ms = Inr ((), r)" "same_but ?ms r" "mem_only_ok UNIV V' s (kern r)"
      "disk_after (port_in m) d (trace r) = ?D" "idle (command (port_in m) (trace r))" "filled_to V' s ?p 0 2560 (\<lambda>q. ?D (12544 + q)) s (kern r)" by auto
  have ho: "heaps_ok V' ?fl (insert (b, k) L) (slots_left k H) (kern r)" by (rule read_keeps_heaps(1) [OF s(2) k2 r(3,6)])
  have vr: "vm_inv UNIV V' (kern r)" by (rule heaps_okD(3) [OF ho])
  have cr: "console (kern r) = console (kern m)" using mem_only_frame [OF conjunct2 [OF r(3)]] s(5) con by (metis kstate.select_convs(1) kstate.surjective kstate.update_convs(2))
  define v where "v = print_cells (white_cells (map (disk_byte ?D) [25088..<26112])) (console (kern m))"
  have fr: "byte_addrs V' (kern r) = byte_addrs V' s"
    using image_addrs_cong [OF conjunct2 [OF r(3)]] by (simp add: byte_addrs_def ram_addrs_def)
  have bs: "map (\<lambda>j. bpeek load32 (kern r) (?p + of_nat j)) [0..<0 + 1024] = map (disk_byte ?D) [25088..<26112]"
  proof (rule nth_equalityI)
    fix j assume "j < length (map (\<lambda>j. bpeek load32 (kern r) (?p + of_nat j)) [0..<0 + 1024])"
    then have j: "j < 1024" by simp
    then have "bpeek load32 (kern r) (?p + of_nat j) = disk_byte ?D (2 * 12544 + j)" by (intro filled_byte [OF r(6)]) simp
    then show "map (\<lambda>j. bpeek load32 (kern r) (?p + of_nat j)) [0..<0 + 1024] ! j = map (disk_byte ?D) [25088..<26112] ! j"
      using j by (simp add: nth_append del: upt_rec_numeral)
  qed simp
  have pr: "for_loop (print_byte ?p) 0 1024 r = Inr ((), r\<lparr>kern := (kern r)\<lparr>console := v\<rparr>\<rparr>)"
  proof -
    have "?p + of_nat j \<in> byte_addrs V' (kern r)" if "j < 0 + 1024" for j
    proof -
      have "?p + of_nat j \<in> span ?p 5120" unfolding span_def using that by (intro CollectI exI [of _ j]) simp
      then show ?thesis using B unfolding fr by blast
    qed
    from print_bytes_run [OF vr this, of 0 1024] white show ?thesis unfolding bs cr v_def by blast
  qed
  let ?u = "(kern r)\<lparr>console := v\<rparr>" and ?fl' = "?fl(Heap_256 := argv # ?fl Heap_256)"
  have al: "argv \<in> allocated V' ?fl Heap_256" and nal: "argv \<notin> allocated V fl Heap_256"
    and ins: "allocated V ?fl Heap_256 = insert argv (allocated V fl Heap_256)"
    using p blocks_low [OF s(4)] by (auto simp: parsed_def allocated_def)
  have "heaps_ok V' ?fl (insert (b, k) L) (slots_left k H) ?u" using ho by simp
  from release_small [OF this al] obtain t' where
    t': "kfree argv ?u = Inr (0, t')" "heaps_ok V' ?fl' (insert (b, k) L) (slots_left k H) t'" "console t' = v" by auto
  have "allocated V' ?fl' h = allocated V fl h" for h
    using ins nal blocks_low [OF s(4)] by (cases "h = Heap_256") (auto simp: allocated_def)
  have rm: "r\<lparr>kern := x\<rparr> = m\<lparr>trace := trace r, kern := x\<rparr>" for x
    using r(2) by (cases m, cases r) (simp add: same_but_def)
  have cmd: "cmd_diskR argv 3 (m\<lparr>kern := t\<rparr>) = Inr (True, r\<lparr>kern := ?u\<rparr>)"
    using diskR_ignores_arguments [OF p] args s(1) r(1) pr by (simp add: numeral_2_eq_2)
  have "process_input inp m = Inr ((), m\<lparr>trace := trace r, kern := t'\<rparr>)"
    unfolding run using cmd t'(1) rm by (simp add: dispatch_def free_array_def)
  then show ?thesis unfolding v_def [symmetric] using t'(2,3) r(4,5) s(3) \<open>\<And>h. allocated V' ?fl' h = allocated V fl h\<close> by blast
qed

lemma boot_line_heaps:
  assumes inv: "heap_inv UNIV premapped fl s" and s: "s = boot_heap\<lparr>mem := mm, console := v\<rparr>"
  shows "heaps_ok premapped fl {} [] s" "j \<le> 1000 \<Longrightarrow> can_alloc_large j [] s"
proof -
  from boot_heap_large obtain fl0 where b: "heaps_ok premapped fl0 {} [] boot_heap"
    "l_next_virt_addr (large_dom boot_heap) = 0x80000000" "255736 \<le> card (free_low boot_heap)" by blast
  from init_memory_heap [OF boot_state_ok] obtain t where
    "init_memory boot_state = Inr ((), t)" "l_next_free_virt (large_dom t) = 0" by blast
  then have "l_next_free_virt (large_dom boot_heap) = 0" by (simp add: boot_heap_def)
  then show "heaps_ok premapped fl {} [] s" using b(2) by (intro boot_heaps_ok [OF inv]) (simp_all add: s)
  have "free_low s = free_low boot_heap"
    by (simp add: s free_low_def safe_frame_def heap_start_def kernel_page_tables_base_def kernel_page_table_def)
  then show "j \<le> 1000 \<Longrightarrow> can_alloc_large j [] s" using b(2,3) by (auto simp: can_alloc_large_def s frame_of_def)
qed

theorem shell_disk_read_witness:
  "\<exists>fl m tr t V' fl' b. line_ok premapped fl m 0xC0001000 (bytes ''diskR 3 20'')
    \<and> process_input 0xC0001000 m = Inr ((), m\<lparr>trace := tr, kern := t\<rparr>) \<and> heaps_ok V' fl' {(b, 3)} [] t
    \<and> console t = print_cells (white_cells (map (disk_byte (disk_after (port_in m) (\<lambda>_. 0x4241) (trace m))) [25088..<26112])) (console (kern m))"
proof -
  let ?cs = "bytes ''diskR 3 20''" and ?d = "\<lambda>_. 0x4241"
  have sw: "split_words False ?cs = [bytes ''diskR'', bytes ''3'', bytes ''20'']" by (simp add: bytes_def)
  have z: "0 \<notin> set ?cs" "length ?cs < 4096" "length (split_words False ?cs) \<le> 64" unfolding sw by (simp_all add: bytes_def)
  from disk_line [OF z, of ?d] obtain fl m mm v where
    m: "line_ok premapped fl m 0xC0001000 ?cs" "color (console (kern m)) = 0x0F" "port_in m = demo_drive ?d" "trace m = []"
      "kern m = boot_heap\<lparr>mem := mm, console := v\<rparr>" by blast
  have dr: "ata_disk (port_in m) ?d" "idle (command (port_in m) (trace m))" unfolding m(3,4) by (rule demo_drive_ok) (simp add: idle_def)
  have inv: "heap_inv UNIV premapped fl (kern m)" using m(1) by (simp add: line_ok_def)
  note B = boot_line_heaps [OF inv m(5)]
  have dv: "dec_value 0 (bytes ''3'') = 3" "dec_value 0 (bytes ''20'') = 20" by (simp_all add: bytes_def)
  have g: "\<forall>c\<in>set (bytes ''3'') \<union> set (bytes ''20''). digit c" by (simp add: bytes_def digit_def)
  have r: "dec_value 0 (bytes ''3'') \<le> 2000" "9 \<le> dec_value 0 (bytes ''20'')" "dec_value 0 (bytes ''20'') \<le> 255" by (simp_all add: dv)
  have k: "page_count (word_of_int (dec_value 0 (bytes ''20'') * 512)) = 3" by (simp add: page_count_def dv)
  have c: "can_alloc_large (page_count (word_of_int (dec_value 0 (bytes ''20'') * 512))) [] (kern m)" unfolding k by (rule B(2)) simp
  have sl: "slots_left 3 [] = []" by (simp add: slots_left_def)
  from shell_disk_read [OF m(1) sw B(1) m(2) g r dr c] show ?thesis unfolding k sl using m(1) by blast
qed

end
