(* ===== verification/Spec2Isabelle.thy ===== *)
theory Spec2Isabelle
  imports Process_Start Vga_Float Paging_Test Disk_Commands
begin

text \<open>
  RaxzusOS: a 32-bit x86 kernel whose allocator keeps one page directory per size class ("heap
  domains").  This library models the C code under \<^verbatim>\<open>src/\<close> as executable definitions and proves
  what makes each component correct, up to the booted system that answers its keyboard.

  \<^bold>\<open>The program.\<close>  \<^verbatim>\<open>boot.s\<close> maps the first 4 MB to 3 GB and calls \<^verbatim>\<open>kernel_main\<close>, which programs the
  interrupt controllers, builds page tables for the first gigabyte, marks the frames of the kernel
  image, creates the heap domains, loads the descriptor tables, prints a menu and halts; everything
  after that happens in interrupt handlers.  The keyboard handler collects a line and calls the
  shell, whose commands use the string helpers, the allocator, the clock and the disk driver.  The
  timer handler blinks the cursor and runs the scheduler; the timer stub switches processes.

  \<^bold>\<open>Conventions.\<close>  An operation is a function from a state to a fault or a result with the new state
  (\<^verbatim>\<open>op\<close> in Prelude, with \<^verbatim>\<open>ret\<close>, \<^verbatim>\<open>bnd\<close>, \<^verbatim>\<open>gets\<close>, \<^verbatim>\<open>modify\<close>, \<^verbatim>\<open>raise\<close>); a fault is what C or the
  processor leaves undefined or never leaves: page fault, misaligned access, division by zero, bad
  shift, index out of bounds, signed overflow, bad format, and \<^verbatim>\<open>Hang\<close> for a loop that never ends.
  C integers are words of their width, \<^verbatim>\<open>int\<close> arguments are read with \<^verbatim>\<open>sint\<close> where the code depends on the
  sign.  Pointers are 32-bit virtual addresses; every load and store is translated by the page
  tables in the modelled memory through the active directory.  \<^verbatim>\<open>kstate\<close> (Kernel_State) is memory,
  control registers and the kernel's globals; \<^verbatim>\<open>machine\<close> (Machine) adds the ports, the descriptor tables,
  the keyboard's and the scheduler's variables.  A loop with a bound is recursion on
  the iterations left; a loop without one is \<^verbatim>\<open>loop\<close> (While_Combinator), whose value is \<^verbatim>\<open>Hang\<close> when it
  does not end, so that every equation with \<^verbatim>\<open>Inr\<close> includes termination.  No fuel is used.

  \<^bold>\<open>Theories and sources.\<close>
  Prelude: operations, loops, address arithmetic.
  Vga, Kernel_State: \<^verbatim>\<open>lib/vga.c\<close>, the text buffer, the cursor, number formatting and \<^verbatim>\<open>kprintf\<close>.
  Pmm: \<^verbatim>\<open>lib/pmm.c\<close>, the frame bitmap and its two searches.
  Mmu, Paging, Address_Space: address translation, \<^verbatim>\<open>map_page\<close>, \<^verbatim>\<open>lib/paging_manager.c\<close>, and the
  invariant \<^verbatim>\<open>vm_inv\<close> of a set of page directories (their tables are marked, disjoint and never data).
  Heap_Domain: \<^verbatim>\<open>lib/heap_domain.c\<close> with \<^verbatim>\<open>kmalloc\<close> and \<^verbatim>\<open>kfree\<close>.
  Heap_Invariant: the locale \<^verbatim>\<open>word_memory\<close> of a memory of words, interpreted for the data
  pages, the intrusive free lists over it, and the heap invariant \<^verbatim>\<open>heap_inv\<close>.
  Heap_Init, Boot: the initialisation of the domains and of paging establishes the invariant.
  Kmalloc: the properties of the allocator, with the set \<^verbatim>\<open>allocated\<close> of blocks in use as its abstraction and
  the reachable states of any sequence of allocations, releases and writes of clients.
  Large_Domain: the effect of \<^verbatim>\<open>kmalloc_large\<close>, \<^verbatim>\<open>kfree_large\<close> and \<^verbatim>\<open>large_unmap_page\<close>; the invariant \<^verbatim>\<open>heaps_ok\<close> extends \<^verbatim>\<open>heap_inv\<close>
  by the set of large allocations and the list of free slots.
  Heap_Client, Heap_Programs: the contract of an allocator (locale \<^verbatim>\<open>block_store\<close>) with the programs that use one, and its
  interpretation on \<^verbatim>\<open>kmalloc\<close> and \<^verbatim>\<open>kfree\<close>.
  Ram, Kutils: bytes and strings in memory, \<^verbatim>\<open>lib/kutils.c\<close>, \<^verbatim>\<open>checkString\<close>.
  Machine, Pic_Rtc: \<^verbatim>\<open>lib/io.c\<close>, \<^verbatim>\<open>lib/pic.c\<close>, \<^verbatim>\<open>lib/rtc.c\<close>.
  Ata_Disk: \<^verbatim>\<open>lib/ata_disk_driver.c\<close>, the protocol of a drive (\<^verbatim>\<open>ata_disk\<close>), and a drive that follows it.
  Shell_Ui: \<^verbatim>\<open>lib/raxzus_shell_ui.c\<close>.
  Descriptors: \<^verbatim>\<open>lib/gdt.c\<close>, \<^verbatim>\<open>lib/interrupts.c\<close>.
  Process_Manager: \<^verbatim>\<open>lib/process_manager.c\<close> and the timer stub of \<^verbatim>\<open>interrupt_stubs.s\<close>.
  Memtest: \<^verbatim>\<open>lib/memtest.c\<close>.
  Shell: \<^verbatim>\<open>lib/raxzus_shell.c\<close>.
  Disk_Commands: \<^verbatim>\<open>diskW\<close> and \<^verbatim>\<open>diskR\<close> from the command line through the heap and the driver to the disk.
  Keyboard: \<^verbatim>\<open>lib/keyboard.c\<close>, \<^verbatim>\<open>lib/keymap.c\<close>, and an abstract line editor.
  System: \<^verbatim>\<open>lib/exceptions.c\<close>, \<^verbatim>\<open>lib/forgeproc.c\<close>, \<^verbatim>\<open>kernel.c\<close>, and the composition of the components.
  Process_Space, Process_Start: \<^verbatim>\<open>create_process\<close> and \<^verbatim>\<open>init_process_scheduler\<close> on the heap and the frames of the booted
  system, for kernel and user processes.
  Vga_Float: what \<^verbatim>\<open>%f\<close> of \<^verbatim>\<open>kprintf\<close> prints; a double is its exact value, and the rounding of the floating-point unit is a
  parameter that keeps values of 53 significant bits (\<^verbatim>\<open>exact_53\<close>).
  Paging_Test: \<^verbatim>\<open>test_mapping\<close> of \<^verbatim>\<open>lib/paging_manager.c\<close>.

  \<^bold>\<open>What is shown.\<close>  The allocator: from the boot state every sequence of calls keeps the heap
  invariant, live blocks are distinct, never share a physical word and keep their contents, and
  release undoes allocation; what happens on exhaustion and on a double release.  Allocations of whole pages are mapped,
  unmapped, reused and kept apart in the same way, except that the number of pages of the three largest sizes wraps around.  Together the
  heap refines a store of separate blocks: a program that keeps the rules of a heap reads back what it wrote.  Its budget of 65280
  units is what the boot leaves in every case: a size class has 65536 pages of addresses, of which 256 are in use from
  the start, the large region 262144, and a unit takes at most three of the 255736 frames that are free after the boot (two page
  tables and the page).  The frame allocator: the lowest free frame is returned and marked, and where the code fails
  to (frames above 2 GB, a loop that does not end).  The scheduler refines a
  round robin on sleep times, is fair and ends whenever a process can wake.  Processes: a created process joins the ring and
  finds its code, its stack and its registers under its own page directory; the first one is entered as the code
  means to, and the first timer tick then faults, since that directory does not map the heap.  The drivers, against devices given as
  hypotheses: the interrupt controllers' masks, the clock, sectors read and written by waiting for the drive as its protocol demands,
  and what a count of 0 does to the next command.  The console:
  output stays in the text buffer, the numbers printed are decimal; of a double this is shown for the values that are a fraction of 53 bits
  over a power of two up to \<^verbatim>\<open>2^50\<close>.  The shell and the
  keyboard: any session of text commands is handled as an abstract editor and the texts of the
  commands say, without a leak; the disk commands write the word that was typed, and print sector 49 whatever they are asked.  The boot: \<^verbatim>\<open>kernel_main\<close> is undefined by the C standard at
  \<^verbatim>\<open>pic_disable_irq(46)\<close>, which shifts by 38.  With any byte for the result of that shift (\<^verbatim>\<open>kernel_main_with (some_bit w)\<close>) it runs from the
  banner to its halt loop and composes all of the above; \<^verbatim>\<open>kernel_init\<close> names its part from the call behind that shift to the prompt.

  \<^bold>\<open>Hypotheses about what is not C code here.\<close>  \<^verbatim>\<open>boot_ok\<close> and \<^verbatim>\<open>layout_ok\<close> state what \<^verbatim>\<open>boot.s\<close> and
  \<^verbatim>\<open>linker.ld\<close> provide.  What a port answers is a function of the history of port accesses: \<^verbatim>\<open>imr_readable\<close> (the
  mask register of the controllers reads back), \<^verbatim>\<open>clock_chip\<close> (the clock's registers in BCD) and \<^verbatim>\<open>ata_disk\<close>
  are the documented behaviour of the devices, each instantiated in a witness.  \<^verbatim>\<open>ata_disk\<close> leaves the time a drive takes
  open: it may be busy or pause for any finite number of reads of its status after a command and between sectors.  A word is moved only while
  the drive requests it (BSY clear, DRQ set), what is written to its registers while it is busy or requests data is lost, and a
  command is given with no transfer under way (\<^verbatim>\<open>idle\<close>), which every operation of 1 to 255 sectors leaves so.
  The time stamp counter, the addresses of static objects and of the assembly stubs, and the register of the faulting
  address are parameters.

  \<^bold>\<open>Not modelled.\<close>  The translation
  lookaside buffer (every switch and change of a mapping that the code makes is followed by \<^verbatim>\<open>invlpg\<close>, a first use or a reload).  The segment
  registers other than the code segment, and privilege checks of the processor.  \<^verbatim>\<open>boot.s\<close>, the linker script and the
  stubs other than the timer's: assembly.  \<^verbatim>\<open>hlt\<close> is an event in the history, so an operation behind
  it describes what happens if the processor is woken.  Interrupts arrive between operations, not inside
  them.  Media errors of the drive, and the 400 ns after a command in which its status is not yet valid (the four reads of \<^verbatim>\<open>0x3F6\<close>).
\<close>

end
